(* ===== verification/Prelude.thy ===== *)
theory Prelude
  imports Main "HOL-Library.Word"
begin

text \<open>
  Shared vocabulary of the development: the outcomes of C code that does not return
  normally, a sequencing operator over them, C's machine integers written out on
  \<^typ>\<open>int\<close> and \<^typ>\<open>nat\<close>, and the few functions of the C library that the sources
  call on memory and strings.  Bytes (\<open>typedef char Byte\<close>, \<open>libredis/common.h\<close>) are
  values of \<^typ>\<open>char\<close>, a memory block is the list of its bytes.
\<close>

section \<open>Outcomes of C code\<close>

text \<open>
  A C function of the sources either returns or ends in one of the following faults: a null
  pointer is dereferenced, memory outside an allocated block is accessed, a value that was never
  initialised (or an undefined conversion) is used, an \<open>assert\<close> fails, or a loop never ends.
  The sources' asserts are checks of the model; a theorem that a call returns therefore holds for
  the build with asserts and for the \<open>-DNDEBUG\<close> build of the \<open>Makefile\<close> alike.
\<close>

datatype fault = NullDeref | OutOfBounds | Undefined | AssertFail | Diverges

type_synonym 'a res = "fault + 'a"

named_theorems res_simps \<open>equations that evaluate the sequencing of outcomes\<close>

definition bindE :: "'a res \<Rightarrow> ('a \<Rightarrow> 'b res) \<Rightarrow> 'b res" where
  "bindE m f = (case m of Inl e \<Rightarrow> Inl e | Inr x \<Rightarrow> f x)"

definition assertE :: "bool \<Rightarrow> unit res" where
  "assertE b = (if b then Inr () else Inl AssertFail)"

definition derefE :: "'a option \<Rightarrow> 'a res" where
  "derefE x = (case x of None \<Rightarrow> Inl NullDeref | Some y \<Rightarrow> Inr y)"

lemma bindE_Inl [simp, res_simps]: "bindE (Inl e) f = Inl e"
  by (simp add: bindE_def)

lemma bindE_Inr [simp, res_simps]: "bindE (Inr x) f = f x"
  by (simp add: bindE_def)

lemma bindE_eq_Inr: "bindE m f = Inr y \<longleftrightarrow> (\<exists>x. m = Inr x \<and> f x = Inr y)"
  by (cases m) auto

lemma bindE_assoc: "bindE (bindE m f) g = bindE m (\<lambda>x. bindE (f x) g)"
  by (cases m) auto

lemma bindE_cong [fundef_cong]:
  "m = m' \<Longrightarrow> (\<And>x. m' = Inr x \<Longrightarrow> f x = g x) \<Longrightarrow> bindE m f = bindE m' g"
  by (cases m') auto

lemma assertE_simps [simp, res_simps]: "assertE True = Inr ()" "assertE False = Inl AssertFail"
  by (simp_all add: assertE_def)

lemma assertE_eq_Inr [simp]: "assertE b = Inr u \<longleftrightarrow> b"
  by (simp add: assertE_def)

lemma derefE_simps [simp, res_simps]: "derefE (Some x) = Inr x" "derefE None = Inl NullDeref"
  by (simp_all add: derefE_def)

lemma derefE_eq_Inr [simp]: "derefE x = Inr y \<longleftrightarrow> x = Some y"
  by (cases x) auto

text \<open>A \<open>for\<close> loop over the elements of a list that may fault.\<close>

fun foldE :: "('x \<Rightarrow> 's \<Rightarrow> 's res) \<Rightarrow> 'x list \<Rightarrow> 's \<Rightarrow> 's res" where
  "foldE f [] s = Inr s"
| "foldE f (x # xs) s = bindE (f x s) (foldE f xs)"

lemma foldE_append: "foldE f (xs @ ys) s = bindE (foldE f xs s) (foldE f ys)"
proof (induction xs arbitrary: s)
  case (Cons x xs)
  then show ?case by (cases "f x s") simp_all
qed simp

text \<open>
  A \<open>while\<close> loop: \<open>turn\<close> is one evaluation of the condition and, where it holds, of the body; its
  second result says whether the loop goes on.  A loop that never ends is the fault \<open>Diverges\<close>.
\<close>

partial_function (option) loop_opt :: "('s \<Rightarrow> ('s \<times> bool) res) \<Rightarrow> 's \<Rightarrow> 's res option" where
  "loop_opt turn s =
     (case turn s of
        Inl e \<Rightarrow> Some (Inl e)
      | Inr (s', more) \<Rightarrow> if more then loop_opt turn s' else Some (Inr s'))"

definition loopE :: "('s \<Rightarrow> ('s \<times> bool) res) \<Rightarrow> 's \<Rightarrow> 's res" where
  "loopE turn s = (case loop_opt turn s of None \<Rightarrow> Inl Diverges | Some r \<Rightarrow> r)"

lemma loopE_unfold:
  "loopE turn s = bindE (turn s) (\<lambda>(s', more). if more then loopE turn s' else Inr s')"
  unfolding loopE_def by (subst loop_opt.simps) (simp add: bindE_def split: sum.split prod.split)

text \<open>Total correctness: an invariant that every turn keeps, and a measure that it decreases.\<close>

lemma loopE_rule:
  fixes m :: "'s \<Rightarrow> nat"
  assumes "I s"
    and turn: "\<And>s. I s \<Longrightarrow> \<exists>s' more. turn s = Inr (s', more) \<and>
      (if more then I s' \<and> m s' < m s else Q s')"
  shows "\<exists>s'. loopE turn s = Inr s' \<and> Q s'"
  using assms(1)
proof (induction "m s" arbitrary: s rule: less_induct)
  case less
  from turn [OF less.prems] obtain s' more where t: "turn s = Inr (s', more)"
    "if more then I s' \<and> m s' < m s else Q s'" by blast
  show ?case
  proof (cases more)
    case True
    with t less.hyps [of s'] show ?thesis by (subst loopE_unfold) simp
  next
    case False
    with t show ?thesis by (subst loopE_unfold) simp
  qed
qed

text \<open>Reading an array element.\<close>

definition nthE :: "'a list \<Rightarrow> nat \<Rightarrow> 'a res" where
  "nthE xs i = (if i < length xs then Inr (xs ! i) else Inl OutOfBounds)"

lemma nthE_Inr [simp]: "i < length xs \<Longrightarrow> nthE xs i = Inr (xs ! i)"
  by (simp add: nthE_def)

section \<open>C integers\<close>

text \<open>
  \<open>size_t\<close> values are natural numbers below \<open>2 ^ 64\<close>; each operation that may leave that
  range is written with its wrap-around.  \<open>int\<close> values are integers, \<open>wrap32\<close> being the
  conversion to 32 bits in two's complement.
\<close>

definition wrap32 :: "int \<Rightarrow> int" where
  "wrap32 x = (x + 2147483648) mod 4294967296 - 2147483648"

definition to_size :: "int \<Rightarrow> nat" where
  "to_size x = nat (x mod 18446744073709551616)"

definition size_add :: "nat \<Rightarrow> nat \<Rightarrow> nat" where
  "size_add a b = (a + b) mod 18446744073709551616"

definition size_sub :: "nat \<Rightarrow> nat \<Rightarrow> nat" where
  "size_sub a b = to_size (int a - int b)"

definition size_mul :: "nat \<Rightarrow> nat \<Rightarrow> nat" where
  "size_mul a b = (a * b) mod 18446744073709551616"

lemma wrap32_id: "- 2147483648 \<le> x \<Longrightarrow> x < 2147483648 \<Longrightarrow> wrap32 x = x"
  by (simp add: wrap32_def)

lemma wrap32_range: "- 2147483648 \<le> wrap32 x" "wrap32 x < 2147483648"
  by (simp_all add: wrap32_def)

lemma wrap32_pos_le: "0 \<le> x \<Longrightarrow> 0 < wrap32 x \<Longrightarrow> wrap32 x \<le> x"
proof -
  assume "0 \<le> x" "0 < wrap32 x"
  show "wrap32 x \<le> x"
  proof (cases "x < 2147483648")
    case True
    with \<open>0 \<le> x\<close> show ?thesis by (simp add: wrap32_id)
  next
    case False
    with wrap32_range(2) [of x] show ?thesis by linarith
  qed
qed

lemma to_size_id [simp]: "0 \<le> x \<Longrightarrow> x < 18446744073709551616 \<Longrightarrow> to_size x = nat x"
  by (simp add: to_size_def)

lemma to_size_less: "to_size x < 18446744073709551616"
proof -
  have "x mod 18446744073709551616 < 18446744073709551616" by simp
  then show ?thesis unfolding to_size_def by (simp add: nat_less_iff)
qed

lemma size_sub_id [simp]: "b \<le> a \<Longrightarrow> a < 18446744073709551616 \<Longrightarrow> size_sub a b = a - b"
  by (simp add: size_sub_def)

lemma size_add_id [simp]: "a + b < 18446744073709551616 \<Longrightarrow> size_add a b = a + b"
  by (simp add: size_add_def)

lemma size_mul_id [simp]: "a * b < 18446744073709551616 \<Longrightarrow> size_mul a b = a * b"
  by (simp add: size_mul_def)

section \<open>The C library on memory blocks\<close>

text \<open>\<open>memcpy\<close> and \<open>memset\<close> check the bounds of the blocks they touch.\<close>

definition memcpy :: "'a list \<Rightarrow> nat \<Rightarrow> 'a list \<Rightarrow> nat \<Rightarrow> 'a list res" where
  "memcpy dst off src n =
     (if off + n \<le> length dst \<and> n \<le> length src
      then Inr (take off dst @ take n src @ drop (off + n) dst)
      else Inl OutOfBounds)"

definition memset :: "string \<Rightarrow> char \<Rightarrow> nat \<Rightarrow> string res" where
  "memset blk c n =
     (if n \<le> length blk then Inr (replicate n c @ drop n blk) else Inl OutOfBounds)"

lemma length_memcpy: "memcpy dst off src n = Inr dst' \<Longrightarrow> length dst' = length dst"
  by (auto simp: memcpy_def split: if_splits)

lemma length_memset: "memset blk c n = Inr blk' \<Longrightarrow> length blk' = length blk"
  by (auto simp: memset_def split: if_splits)

end
