(* ===== verification/Linked_List.thy ===== *)
theory Linked_List
  imports Prelude
begin

text \<open>
  The intrusive circular doubly linked lists of \<open>libredis/list.h\<close>.  A heap of list nodes is a
  pair of maps, the \<open>next\<close> and the \<open>prev\<close> field of each node; \<open>None\<close> is the null pointer
  that \<open>list_del\<close> leaves behind, and following it is a fault.  The list hanging off a head
  node is described by \<open>dlist\<close>, a family of disjoint lists in one heap by \<open>rings\<close>.
\<close>

section \<open>The operations\<close>

record 'n lheap =
  lh_next :: "'n \<Rightarrow> 'n option"
  lh_prev :: "'n \<Rightarrow> 'n option"

definition set_next :: "'n \<Rightarrow> 'n option \<Rightarrow> 'n lheap \<Rightarrow> 'n lheap" where
  "set_next n v h = h\<lparr>lh_next := (lh_next h)(n := v)\<rparr>"

definition set_prev :: "'n \<Rightarrow> 'n option \<Rightarrow> 'n lheap \<Rightarrow> 'n lheap" where
  "set_prev n v h = h\<lparr>lh_prev := (lh_prev h)(n := v)\<rparr>"

definition init_list_head :: "'n \<Rightarrow> 'n lheap \<Rightarrow> 'n lheap" where
  "init_list_head ptr h = set_prev ptr (Some ptr) (set_next ptr (Some ptr) h)"

text \<open>\<open>__list_add\<close>: the four assignments in the order of the source.\<close>

definition list_add_raw :: "'n \<Rightarrow> 'n \<Rightarrow> 'n \<Rightarrow> 'n lheap \<Rightarrow> 'n lheap" where
  "list_add_raw new prev next h =
     set_next prev (Some new)
       (set_prev new (Some prev)
         (set_next new (Some next)
           (set_prev next (Some new) h)))"

definition list_add :: "'n \<Rightarrow> 'n \<Rightarrow> 'n lheap \<Rightarrow> 'n lheap res" where
  "list_add new head h =
     bindE (derefE (lh_next h head)) (\<lambda>n. Inr (list_add_raw new head n h))"

definition list_add_tail :: "'n \<Rightarrow> 'n \<Rightarrow> 'n lheap \<Rightarrow> 'n lheap res" where
  "list_add_tail new head h =
     bindE (derefE (lh_prev h head)) (\<lambda>p. Inr (list_add_raw new p head h))"

definition list_del_raw :: "'n \<Rightarrow> 'n \<Rightarrow> 'n lheap \<Rightarrow> 'n lheap" where
  "list_del_raw prev next h = set_next prev (Some next) (set_prev next (Some prev) h)"

definition list_del :: "'n \<Rightarrow> 'n lheap \<Rightarrow> 'n lheap res" where
  "list_del entry h =
     bindE (derefE (lh_prev h entry)) (\<lambda>p.
     bindE (derefE (lh_next h entry)) (\<lambda>n.
       Inr (set_prev entry None (set_next entry None (list_del_raw p n h)))))"

definition list_last :: "'n \<Rightarrow> 'n lheap \<Rightarrow> 'n option" where
  "list_last head h = lh_prev h head"

definition list_first :: "'n \<Rightarrow> 'n lheap \<Rightarrow> 'n option" where
  "list_first head h = lh_next h head"

definition list_pop :: "'n \<Rightarrow> 'n lheap \<Rightarrow> ('n \<times> 'n lheap) res" where
  "list_pop head h =
     bindE (derefE (list_last head h)) (\<lambda>entry.
     bindE (list_del entry h) (\<lambda>h'. Inr (entry, h')))"

definition list_del_init :: "'n \<Rightarrow> 'n lheap \<Rightarrow> 'n lheap res" where
  "list_del_init entry h =
     bindE (derefE (lh_prev h entry)) (\<lambda>p.
     bindE (derefE (lh_next h entry)) (\<lambda>n.
       Inr (init_list_head entry (list_del_raw p n h))))"

definition list_move :: "'n \<Rightarrow> 'n \<Rightarrow> 'n lheap \<Rightarrow> 'n lheap res" where
  "list_move entry head h =
     bindE (derefE (lh_prev h entry)) (\<lambda>p.
     bindE (derefE (lh_next h entry)) (\<lambda>n.
       list_add entry head (list_del_raw p n h)))"

definition list_move_tail :: "'n \<Rightarrow> 'n \<Rightarrow> 'n lheap \<Rightarrow> 'n lheap res" where
  "list_move_tail entry head h =
     bindE (derefE (lh_prev h entry)) (\<lambda>p.
     bindE (derefE (lh_next h entry)) (\<lambda>n.
       list_add_tail entry head (list_del_raw p n h)))"

definition list_empty :: "'n \<Rightarrow> 'n lheap \<Rightarrow> bool" where
  "list_empty head h \<longleftrightarrow> lh_next h head = Some head"

text \<open>\<open>__list_splice\<close>; the null checks are those of the five field reads and writes.\<close>

definition list_splice_raw :: "'n \<Rightarrow> 'n \<Rightarrow> 'n lheap \<Rightarrow> 'n lheap res" where
  "list_splice_raw lst head h =
     bindE (derefE (lh_next h lst)) (\<lambda>first.
     bindE (derefE (lh_prev h lst)) (\<lambda>last.
     bindE (derefE (lh_next h head)) (\<lambda>at.
       Inr (set_prev at (Some last)
             (set_next last (Some at)
               (set_next head (Some first)
                 (set_prev first (Some head) h)))))))"

definition list_splice :: "'n \<Rightarrow> 'n \<Rightarrow> 'n lheap \<Rightarrow> 'n lheap res" where
  "list_splice lst head h =
     (if \<not> list_empty lst h then list_splice_raw lst head h else Inr h)"

definition list_splice_init :: "'n \<Rightarrow> 'n \<Rightarrow> 'n lheap \<Rightarrow> 'n lheap res" where
  "list_splice_init lst head h =
     (if \<not> list_empty lst h
      then bindE (list_splice_raw lst head h) (\<lambda>h'. Inr (init_list_head lst h'))
      else Inr h)"

lemma set_next_sel [simp]:
  "lh_next (set_next n v h) = (lh_next h)(n := v)" "lh_prev (set_next n v h) = lh_prev h"
  by (simp_all add: set_next_def)

lemma set_prev_sel [simp]:
  "lh_prev (set_prev n v h) = (lh_prev h)(n := v)" "lh_next (set_prev n v h) = lh_next h"
  by (simp_all add: set_prev_def)

section \<open>Segments and lists\<close>

text \<open>
  \<open>lseg h a xs b\<close>: from \<open>a\<close> the \<open>next\<close> pointers lead through \<open>xs\<close> to \<open>b\<close>, and the
  \<open>prev\<close> pointers lead back.
\<close>

fun lseg :: "'n lheap \<Rightarrow> 'n \<Rightarrow> 'n list \<Rightarrow> 'n \<Rightarrow> bool" where
  "lseg h a [] b \<longleftrightarrow> lh_next h a = Some b \<and> lh_prev h b = Some a"
| "lseg h a (x # xs) b \<longleftrightarrow> lh_next h a = Some x \<and> lh_prev h x = Some a \<and> lseg h x xs b"

definition dlist :: "'n lheap \<Rightarrow> 'n \<Rightarrow> 'n list \<Rightarrow> bool" where
  "dlist h head xs \<longleftrightarrow> distinct (head # xs) \<and> lseg h head xs head"

lemma lseg_append:
  "lseg h a (xs @ x # ys) b \<longleftrightarrow> lseg h a xs x \<and> lseg h x ys b"
  by (induction xs arbitrary: a) auto

lemma lseg_first: "lseg h a xs b \<Longrightarrow> lh_next h a = Some (hd (xs @ [b]))"
  by (cases xs) auto

lemma lseg_last: "lseg h a xs b \<Longrightarrow> lh_prev h b = Some (last (a # xs))"
  by (induction xs arbitrary: a) auto

lemma lseg_frame:
  "(\<And>n. n \<in> set (a # xs) \<Longrightarrow> lh_next h' n = lh_next h n) \<Longrightarrow>
   (\<And>n. n \<in> set (b # xs) \<Longrightarrow> lh_prev h' n = lh_prev h n) \<Longrightarrow>
   lseg h' a xs b = lseg h a xs b"
  by (induction xs arbitrary: a) auto


text \<open>Insertion and deletion inside a segment; the end \<open>b\<close> may be the start \<open>a\<close>.\<close>

lemma list_add_raw_sel:
  "lh_next (list_add_raw new p n h) = (lh_next h)(new := Some n, p := Some new)"
  "lh_prev (list_add_raw new p n h) = (lh_prev h)(n := Some new, new := Some p)"
  by (simp_all add: list_add_raw_def)

lemma list_del_raw_sel:
  "lh_next (list_del_raw p n h) = (lh_next h)(p := Some n)"
  "lh_prev (list_del_raw p n h) = (lh_prev h)(n := Some p)"
  by (simp_all add: list_del_raw_def)

lemma init_list_head_sel:
  "lh_next (init_list_head a h) = (lh_next h)(a := Some a)"
  "lh_prev (init_list_head a h) = (lh_prev h)(a := Some a)"
  by (simp_all add: init_list_head_def)

lemmas raw_sel = list_add_raw_sel list_del_raw_sel init_list_head_sel

lemma lseg_insert:
  assumes "lseg h a (xs @ ys) b" "distinct (a # xs @ ys)" "b \<notin> set (xs @ ys)"
    and "new \<notin> set (a # b # xs @ ys)"
  shows "lseg (list_add_raw new (last (a # xs)) (hd (ys @ [b])) h) a (xs @ new # ys) b"
  using assms
proof (induction xs arbitrary: a)
  case Nil
  show ?case
  proof (cases ys)
    case Nil
    with Nil.prems show ?thesis by (auto simp: raw_sel)
  next
    case (Cons y ys')
    let ?h = "list_add_raw new a y h"
    from Nil.prems Cons have "lseg ?h y ys' b = lseg h y ys' b"
      by (intro lseg_frame) (auto simp: raw_sel)
    with Nil.prems Cons show ?thesis by (auto simp: raw_sel)
  qed
next
  case (Cons x xs)
  have "hd (ys @ [b]) \<in> set (ys @ [b])" by (cases ys) auto
  moreover have "last (x # xs) \<in> set (x # xs)" by (rule last_in_set) simp
  ultimately show ?case
    using Cons.prems Cons.IH [of x] by (auto simp: raw_sel split: if_splits)
qed

lemma lseg_delete:
  assumes "lseg h a (xs @ x # ys) b" "distinct (a # xs @ x # ys)" "b \<notin> set (xs @ x # ys)"
  shows "lseg (list_del_raw (last (a # xs)) (hd (ys @ [b])) h) a (xs @ ys) b"
  using assms
proof (induction xs arbitrary: a)
  case Nil
  show ?case
  proof (cases ys)
    case Nil
    with Nil.prems show ?thesis by (simp add: raw_sel)
  next
    case (Cons y ys')
    let ?h = "list_del_raw a y h"
    from Nil.prems Cons have "lseg ?h y ys' b = lseg h y ys' b"
      by (intro lseg_frame) (auto simp: raw_sel)
    with Nil.prems Cons show ?thesis by (auto simp: raw_sel)
  qed
next
  case (Cons z xs)
  have "hd (ys @ [b]) \<in> set (ys @ [b])" by (cases ys) auto
  moreover have "last (z # xs) \<in> set (z # xs)" by (rule last_in_set) simp
  ultimately show ?case
    using Cons.prems Cons.IH [of z] by (auto simp: raw_sel split: if_splits)
qed

lemma dlist_first: "dlist h a xs \<Longrightarrow> lh_next h a = Some (hd (xs @ [a]))"
  by (simp add: dlist_def lseg_first)

lemma dlist_last: "dlist h a xs \<Longrightarrow> lh_prev h a = Some (last (a # xs))"
  unfolding dlist_def using lseg_last by fastforce

lemma dlist_insert:
  "dlist h a (xs @ ys) \<Longrightarrow> new \<notin> set (a # xs @ ys) \<Longrightarrow>
   dlist (list_add_raw new (last (a # xs)) (hd (ys @ [a])) h) a (xs @ new # ys)"
  using lseg_insert [of h a xs ys a new] by (auto simp: dlist_def)

lemma dlist_delete:
  "dlist h a (xs @ x # ys) \<Longrightarrow>
   dlist (list_del_raw (last (a # xs)) (hd (ys @ [a])) h) a (xs @ ys)"
  using lseg_delete [of h a xs x ys a] by (auto simp: dlist_def)

lemma dlist_node_links:
  assumes "dlist h a (xs @ x # ys)"
  shows "lh_prev h x = Some (last (a # xs))" and "lh_next h x = Some (hd (ys @ [a]))"
proof -
  from assms have "lseg h a xs x" "lseg h x ys a" by (simp_all add: dlist_def lseg_append)
  then show "lh_prev h x = Some (last (a # xs))" "lh_next h x = Some (hd (ys @ [a]))"
    using lseg_last lseg_first by fastforce+
qed

lemma dlist_init: "dlist (init_list_head a h) a []"
  by (simp add: dlist_def raw_sel)

lemma dlist_frame:
  "(\<And>n. n \<in> set (a # xs) \<Longrightarrow> lh_next h' n = lh_next h n \<and> lh_prev h' n = lh_prev h n) \<Longrightarrow>
   dlist h' a xs = dlist h a xs"
  unfolding dlist_def by (subst lseg_frame [of a xs h' h a]) auto

lemma dlist_empty_iff: "dlist h a xs \<Longrightarrow> list_empty a h \<longleftrightarrow> xs = []"
  by (cases xs) (auto simp: list_empty_def dlist_def)

section \<open>Families of disjoint lists\<close>

text \<open>
  \<open>rings h H L\<close>: every head in \<open>H\<close> carries the list \<open>L\<close> assigns to it, and no node is a
  head or member of two of them.
\<close>

definition ring_nodes :: "('n \<Rightarrow> 'n list) \<Rightarrow> 'n \<Rightarrow> 'n set" where
  "ring_nodes L a = set (a # L a)"

definition rings :: "'n lheap \<Rightarrow> 'n set \<Rightarrow> ('n \<Rightarrow> 'n list) \<Rightarrow> bool" where
  "rings h H L \<longleftrightarrow> (\<forall>a \<in> H. dlist h a (L a)) \<and>
     (\<forall>a \<in> H. \<forall>b \<in> H. a \<noteq> b \<longrightarrow> ring_nodes L a \<inter> ring_nodes L b = {})"

definition all_nodes :: "'n set \<Rightarrow> ('n \<Rightarrow> 'n list) \<Rightarrow> 'n set" where
  "all_nodes H L = (\<Union>a \<in> H. ring_nodes L a)"

definition same_off :: "'n set \<Rightarrow> 'n lheap \<Rightarrow> 'n lheap \<Rightarrow> bool" where
  "same_off S h h' \<longleftrightarrow>
     (\<forall>n. n \<notin> S \<longrightarrow> lh_next h' n = lh_next h n \<and> lh_prev h' n = lh_prev h n)"

lemma rings_dlist: "rings h H L \<Longrightarrow> a \<in> H \<Longrightarrow> dlist h a (L a)"
  by (simp add: rings_def)

text \<open>One list of the family changes, by nodes of its own or nodes of no list.\<close>

lemma rings_update:
  assumes R: "rings h H L" and a: "a \<in> H" and d: "dlist h' a zs"
    and off: "same_off (ring_nodes L a \<union> N) h h'"
    and N: "N \<inter> all_nodes H L \<subseteq> ring_nodes L a"
    and zs: "set zs \<subseteq> set (L a) \<union> N"
  shows "rings h' H (L(a := zs))"
proof -
  have disj: "ring_nodes L b \<inter> (ring_nodes L a \<union> N) = {}" if "b \<in> H" "b \<noteq> a" for b
  proof -
    have "ring_nodes L b \<inter> ring_nodes L a = {}" using R that a by (auto simp: rings_def)
    moreover have "ring_nodes L b \<subseteq> all_nodes H L" using that by (auto simp: all_nodes_def)
    ultimately show ?thesis using N by blast
  qed
  have "dlist h' b (L b)" if "b \<in> H" "b \<noteq> a" for b
  proof -
    have "dlist h' b (L b) = dlist h b (L b)"
      using disj [OF that] off by (intro dlist_frame) (auto simp: same_off_def ring_nodes_def)
    with R that show ?thesis by (simp add: rings_def)
  qed
  moreover have "ring_nodes (L(a := zs)) a \<subseteq> ring_nodes L a \<union> N"
    using zs by (auto simp: ring_nodes_def)
  moreover have "ring_nodes (L(a := zs)) b = ring_nodes L b" if "b \<noteq> a" for b
    using that by (simp add: ring_nodes_def)
  ultimately show ?thesis
    using R d disj unfolding rings_def
    by (smt (verit, best) Int_commute disjoint_iff fun_upd_other fun_upd_same subsetD)
qed

lemma rings_add_head:
  assumes "rings h H L" "a \<notin> all_nodes H L"
  shows "rings (init_list_head a h) (insert a H) (L(a := []))"
proof -
  have "dlist (init_list_head a h) b (L b)" if "b \<in> H" for b
  proof -
    from assms(2) that have "a \<notin> set (b # L b)"
      by (auto simp: all_nodes_def ring_nodes_def)
    then have "dlist (init_list_head a h) b (L b) = dlist h b (L b)"
      by (intro dlist_frame) (auto simp: raw_sel)
    with assms(1) that show ?thesis by (simp add: rings_def)
  qed
  with assms show ?thesis
    by (auto simp: rings_def dlist_init all_nodes_def ring_nodes_def)
qed

lemma rings_remove_head: "rings h H L \<Longrightarrow> rings h (H - {a}) L"
  by (auto simp: rings_def)

lemma same_off_init: "same_off {a} h (init_list_head a h)"
  by (simp add: same_off_def raw_sel)

lemma same_off_add: "same_off {new, p, n} h (list_add_raw new p n h)"
  by (simp add: same_off_def raw_sel)

lemma same_off_del: "same_off {p, n} h (list_del_raw p n h)"
  by (simp add: same_off_def raw_sel)

lemma same_off_mono: "same_off S h h' \<Longrightarrow> S \<subseteq> T \<Longrightarrow> same_off T h h'"
  by (auto simp: same_off_def)

lemma same_off_trans: "same_off S h h' \<Longrightarrow> same_off S h' h'' \<Longrightarrow> same_off S h h''"
  by (simp add: same_off_def)

lemma hd_last_ring:
  "L a = xs @ ys \<Longrightarrow> last (a # xs) \<in> ring_nodes L a"
  "L a = xs @ ys \<Longrightarrow> hd (ys @ [a]) \<in> ring_nodes L a"
  by (auto simp: ring_nodes_def hd_append)

lemma rings_insert:
  assumes R: "rings h H L" and a: "a \<in> H" and L: "L a = xs @ ys" and new: "new \<notin> all_nodes H L"
  shows "rings (list_add_raw new (last (a # xs)) (hd (ys @ [a])) h) H (L(a := xs @ new # ys))"
    (is "rings ?h H _")
proof (rule rings_update [OF R a, where N = "{new}"])
  from new a L have "new \<notin> set (a # xs @ ys)"
    using all_nodes_def ring_nodes_def by force
  moreover have "dlist h a (xs @ ys)" using rings_dlist [OF R a] L by simp
  ultimately show "dlist ?h a (xs @ new # ys)" by (rule dlist_insert [rotated])
  show "same_off (ring_nodes L a \<union> {new}) h ?h"
    using hd_last_ring [of L a xs ys, OF L] by (intro same_off_mono [OF same_off_add]) auto
qed (use new L in auto)

lemma rings_delete:
  assumes R: "rings h H L" and a: "a \<in> H" and L: "L a = xs @ x # ys"
  shows "rings (list_del_raw (last (a # xs)) (hd (ys @ [a])) h) H (L(a := xs @ ys))"
    (is "rings ?h H _")
proof (rule rings_update [OF R a, where N = "{}"])
  have "dlist h a (xs @ x # ys)" using rings_dlist [OF R a] L by simp
  then show "dlist ?h a (xs @ ys)" by (rule dlist_delete)
  have "last (a # xs) \<in> ring_nodes L a" using L by (rule hd_last_ring)
  moreover have "hd (ys @ [a]) \<in> ring_nodes L a"
    using hd_last_ring(2) [of L a "xs @ [x]" ys] L by simp
  ultimately show "same_off (ring_nodes L a \<union> {}) h ?h"
    by (intro same_off_mono [OF same_off_del]) auto
qed (use L in auto)

section \<open>What the operations do to a family of lists\<close>

lemma list_add_rings:
  assumes "rings h H L" "a \<in> H" "new \<notin> all_nodes H L"
  shows "\<exists>h'. list_add new a h = Inr h' \<and> rings h' H (L(a := new # L a))"
  using rings_insert [of h H L a "[]" "L a" new] assms dlist_first [OF rings_dlist]
  by (fastforce simp: list_add_def)

lemma list_add_tail_rings:
  assumes "rings h H L" "a \<in> H" "new \<notin> all_nodes H L"
  shows "\<exists>h'. list_add_tail new a h = Inr h' \<and> rings h' H (L(a := L a @ [new]))"
  using rings_insert [of h H L a "L a" "[]" new] assms dlist_last [OF rings_dlist]
  by (fastforce simp: list_add_tail_def)

text \<open>A node outside every list may be written at will.\<close>

lemma rings_off:
  assumes R: "rings h H L" and off: "same_off N h h'" and N: "N \<inter> all_nodes H L = {}"
  shows "rings h' H L"
proof -
  have "dlist h' a (L a) = dlist h a (L a)" if "a \<in> H" for a
  proof (rule dlist_frame)
    fix n assume "n \<in> set (a # L a)"
    with that N have "n \<notin> N" by (auto simp: all_nodes_def ring_nodes_def)
    with off show "lh_next h' n = lh_next h n \<and> lh_prev h' n = lh_prev h n"
      by (simp add: same_off_def)
  qed
  with R show ?thesis by (simp add: rings_def)
qed

lemma removed_not_in:
  assumes R: "rings h H L" and a: "a \<in> H" and L: "L a = xs @ x # ys"
  shows "x \<notin> all_nodes H (L(a := xs @ ys))"
proof
  assume "x \<in> all_nodes H (L(a := xs @ ys))"
  then obtain b where b: "b \<in> H" "x \<in> ring_nodes (L(a := xs @ ys)) b"
    by (auto simp: all_nodes_def)
  have d: "distinct (a # xs @ x # ys)" using rings_dlist [OF R a] L by (simp add: dlist_def)
  show False
  proof (cases "b = a")
    case True
    with b d show False by (auto simp: ring_nodes_def)
  next
    case False
    moreover have "x \<in> ring_nodes L a" using L by (simp add: ring_nodes_def)
    moreover from False b have "x \<in> ring_nodes L b" by (simp add: ring_nodes_def)
    ultimately show False using R a b(1) by (auto simp: rings_def)
  qed
qed

lemma node_links_rings:
  assumes "rings h H L" "a \<in> H" "L a = xs @ x # ys"
  shows "lh_prev h x = Some (last (a # xs))" "lh_next h x = Some (hd (ys @ [a]))"
  using dlist_node_links [of h a xs x ys] rings_dlist [OF assms(1,2)] assms(3) by simp_all

lemma list_del_rings:
  assumes "rings h H L" "a \<in> H" "L a = xs @ x # ys"
  shows "\<exists>h'. list_del x h = Inr h' \<and> rings h' H (L(a := xs @ ys))"
proof -
  let ?h1 = "list_del_raw (last (a # xs)) (hd (ys @ [a])) h"
  let ?h2 = "set_prev x None (set_next x None ?h1)"
  have "rings ?h2 H (L(a := xs @ ys))"
    by (rule rings_off [OF rings_delete [OF assms], where N = "{x}"])
       (use removed_not_in [OF assms] in \<open>auto simp: same_off_def\<close>)
  with node_links_rings [OF assms] show ?thesis by (simp add: list_del_def)
qed

lemma list_pop_rings:
  assumes "rings h H L" "a \<in> H" "L a = xs @ [x]"
  shows "\<exists>h'. list_pop a h = Inr (x, h') \<and> rings h' H (L(a := xs))"
proof -
  from dlist_last [OF rings_dlist [OF assms(1,2)]] assms(3) have "list_last a h = Some x"
    by (simp add: list_last_def)
  with list_del_rings [of h H L a xs x "[]"] assms show ?thesis
    by (auto simp: list_pop_def)
qed

lemma list_del_init_rings:
  assumes "rings h H L" "a \<in> H" "L a = xs @ x # ys"
  shows "\<exists>h'. list_del_init x h = Inr h' \<and> rings h' (insert x H) (L(a := xs @ ys, x := []))"
  using rings_add_head [OF rings_delete [OF assms] removed_not_in [OF assms]]
    node_links_rings [OF assms] by (simp add: list_del_init_def)

lemma list_move_rings:
  assumes "rings h H L" "a \<in> H" "L a = xs @ x # ys" "b \<in> H"
  shows "\<exists>h'. list_move x b h = Inr h' \<and>
    rings h' H ((L(a := xs @ ys))(b := x # (L(a := xs @ ys)) b))"
  using list_add_rings [OF rings_delete [OF assms(1-3)] assms(4) removed_not_in [OF assms(1-3)]]
    node_links_rings [OF assms(1-3)] by (simp add: list_move_def)

lemma list_move_tail_rings:
  assumes "rings h H L" "a \<in> H" "L a = xs @ x # ys" "b \<in> H"
  shows "\<exists>h'. list_move_tail x b h = Inr h' \<and>
    rings h' H ((L(a := xs @ ys))(b := (L(a := xs @ ys)) b @ [x]))"
  using list_add_tail_rings [OF rings_delete [OF assms(1-3)] assms(4) removed_not_in [OF assms(1-3)]]
    node_links_rings [OF assms(1-3)] by (simp add: list_move_tail_def)

lemma list_empty_rings: "rings h H L \<Longrightarrow> a \<in> H \<Longrightarrow> list_empty a h \<longleftrightarrow> L a = []"
  by (rule dlist_empty_iff) (rule rings_dlist)

lemma list_first_rings: "rings h H L \<Longrightarrow> a \<in> H \<Longrightarrow> list_first a h = Some (hd (L a @ [a]))"
  by (simp add: list_first_def dlist_first rings_dlist)

lemma next_rings:
  "rings h H L \<Longrightarrow> a \<in> H \<Longrightarrow> L a = xs @ x # ys \<Longrightarrow> lh_next h x = Some (hd (ys @ [a]))"
  by (rule node_links_rings)

text \<open>Joining: the nodes of \<open>a\<close> come to stand between the head \<open>b\<close> and its first node.\<close>

lemma lseg_relink:
  assumes "lseg h a xs a" "distinct (a # xs)" "xs \<noteq> []"
    and "\<And>n. n \<in> set xs \<Longrightarrow> n \<noteq> last xs \<Longrightarrow> lh_next h' n = lh_next h n"
    and "\<And>n. n \<in> set xs \<Longrightarrow> n \<noteq> hd xs \<Longrightarrow> lh_prev h' n = lh_prev h n"
    and "lh_next h' b = Some (hd xs)" "lh_prev h' (hd xs) = Some b"
    and "lh_next h' (last xs) = Some c" "lh_prev h' c = Some (last xs)"
  shows "lseg h' b xs c"
proof -
  have gen: "lseg h a xs e \<Longrightarrow> distinct (a # xs) \<Longrightarrow> xs \<noteq> [] \<Longrightarrow>
    (\<And>n. n \<in> set xs \<Longrightarrow> n \<noteq> last xs \<Longrightarrow> lh_next h' n = lh_next h n) \<Longrightarrow>
    (\<And>n. n \<in> set xs \<Longrightarrow> n \<noteq> hd xs \<Longrightarrow> lh_prev h' n = lh_prev h n) \<Longrightarrow>
    lh_next h' b = Some (hd xs) \<Longrightarrow> lh_prev h' (hd xs) = Some b \<Longrightarrow>
    lh_next h' (last xs) = Some c \<Longrightarrow> lh_prev h' c = Some (last xs) \<Longrightarrow> lseg h' b xs c" for e
  proof (induction xs arbitrary: a b)
    case (Cons x xs)
    show ?case
    proof (cases xs)
      case Nil
      with Cons.prems show ?thesis by simp
    next
      case (Cons y ys)
      have "lseg h' x xs c"
      proof (rule Cons.IH [of x x])
        have "last (x # xs) \<in> set xs" using last_in_set [of xs] Cons by simp
        then have "x \<noteq> last (x # xs)" using Cons.prems(2) by auto
        then show "lh_next h' x = Some (hd xs)"
          using Cons.prems(1) Cons.prems(4) [of x] Cons by simp
        show "lh_prev h' (hd xs) = Some x"
          using Cons.prems(1,2) Cons.prems(5) [of "hd xs"] Cons by auto
        show "lh_next h' n = lh_next h n" if "n \<in> set xs" "n \<noteq> last xs" for n
          using Cons.prems(4) [of n] that Cons by simp
        show "lh_prev h' n = lh_prev h n" if "n \<in> set xs" "n \<noteq> hd xs" for n
          using Cons.prems(2,5) that by auto
      qed (use Cons.prems Cons in auto)
      with Cons.prems show ?thesis by simp
    qed
  qed simp
  from gen assms show ?thesis by blast
qed

lemma list_splice_raw_rings:
  assumes R: "rings h H L" and a: "a \<in> H" and b: "b \<in> H" and ab: "a \<noteq> b" and ne: "L a \<noteq> []"
  shows "\<exists>h'. list_splice_raw a b h = Inr h' \<and> rings h' (H - {a}) (L(b := L a @ L b))"
proof -
  let ?f = "hd (L a)" and ?l = "last (L a)" and ?at = "hd (L b @ [b])"
  let ?h = "set_prev ?at (Some ?l) (set_next ?l (Some ?at) (set_next b (Some ?f) (set_prev ?f (Some b) h)))"
  have da: "dlist h a (L a)" and db: "dlist h b (L b)" using R a b by (auto simp: rings_dlist)
  have disj: "ring_nodes L a \<inter> ring_nodes L b = {}" using R a b ab by (auto simp: rings_def)
  then have ab_disj: "set (L a) \<inter> set (b # L b) = {}" by (auto simp: ring_nodes_def)
  have eq: "list_splice_raw a b h = Inr ?h"
    using dlist_first [OF da] dlist_last [OF da] dlist_first [OF db] ne
    by (simp add: list_splice_raw_def)
  have fa: "?f \<in> set (L a)" "?l \<in> set (L a)" using ne by auto
  have atb: "?at \<in> set (b # L b)" by (cases "L b") auto
  with fa ab_disj have neq: "?f \<noteq> ?at" "?l \<noteq> b" "?f \<noteq> b" "?at \<notin> set (L a)" "b \<notin> set (L a)" by auto
  have seg_a: "lseg ?h b (L a) ?at"
    by (rule lseg_relink [of h a "L a"])
       (use da ne fa neq in \<open>auto simp: dlist_def\<close>)
  have "dlist ?h b (L a @ L b)"
  proof (cases "L b")
    case Nil
    with seg_a da db ab_disj show ?thesis by (auto simp: dlist_def)
  next
    case (Cons y ys)
    have "lseg ?h y ys b = lseg h y ys b"
      by (rule lseg_frame) (use fa ab_disj db Cons in \<open>auto simp: dlist_def\<close>)
    with seg_a Cons da db ab_disj show ?thesis by (auto simp: dlist_def lseg_append)
  qed
  moreover have "same_off (ring_nodes L b \<union> set (L a)) h ?h"
    using fa atb by (auto simp: same_off_def ring_nodes_def)
  moreover have "set (L a) \<inter> all_nodes (H - {a}) L = {}"
    using R a by (auto simp: rings_def all_nodes_def ring_nodes_def)
  ultimately have "rings ?h (H - {a}) (L(b := L a @ L b))"
    using b ab by (intro rings_update [OF rings_remove_head [OF R], where N = "set (L a)"]) auto
  with eq show ?thesis by blast
qed

lemma list_splice_rings:
  assumes "rings h H L" "a \<in> H" "b \<in> H" "a \<noteq> b"
  shows "\<exists>h'. list_splice a b h = Inr h' \<and> rings h' (H - {a}) (L(b := L a @ L b))"
proof (cases "L a = []")
  case True
  with assms show ?thesis
    by (simp add: list_splice_def list_empty_rings rings_remove_head)
next
  case False
  with assms list_splice_raw_rings [OF assms False] show ?thesis
    by (simp add: list_splice_def list_empty_rings)
qed

lemma list_splice_init_rings:
  assumes R: "rings h H L" and a: "a \<in> H" and b: "b \<in> H" and ab: "a \<noteq> b"
  shows "\<exists>h'. list_splice_init a b h = Inr h' \<and> rings h' H (L(b := L a @ L b, a := []))"
proof (cases "L a = []")
  case True
  then have "L(b := L a @ L b, a := []) = L" by auto
  with True R a show ?thesis by (simp add: list_splice_init_def list_empty_rings)
next
  case False
  then obtain h1 where h1: "list_splice_raw a b h = Inr h1" "rings h1 (H - {a}) (L(b := L a @ L b))"
    using list_splice_raw_rings [OF assms] by blast
  have "a \<notin> all_nodes (H - {a}) (L(b := L a @ L b))"
    using R a b ab rings_dlist [OF R a]
    by (auto simp: rings_def all_nodes_def ring_nodes_def dlist_def split: if_splits)
  from rings_add_head [OF h1(2) this] h1(1) False R a show ?thesis
    by (simp add: list_splice_init_def list_empty_rings insert_absorb)
qed

section \<open>Traversal\<close>

text \<open>
  \<open>list_for_each\<close>: the nodes the loop visits, in order; \<open>None\<close> if it runs into a null
  pointer or never meets its head again.
\<close>

partial_function (option) list_walk :: "'n lheap \<Rightarrow> 'n \<Rightarrow> 'n \<Rightarrow> 'n list option" where
  "list_walk h head pos =
     (if pos = head then Some []
      else Option.bind (lh_next h pos) (\<lambda>q.
           Option.bind (list_walk h head q) (\<lambda>rest. Some (pos # rest))))"

definition list_for_each :: "'n lheap \<Rightarrow> 'n \<Rightarrow> 'n list option" where
  "list_for_each h head = Option.bind (lh_next h head) (list_walk h head)"

lemma list_walk_lseg:
  "lseg h a xs head \<Longrightarrow> head \<notin> set xs \<Longrightarrow> list_walk h head (hd (xs @ [head])) = Some xs"
proof (induction xs arbitrary: a)
  case Nil
  show ?case by (simp add: list_walk.simps)
next
  case (Cons x xs)
  from Cons.prems have "lh_next h x = Some (hd (xs @ [head]))" by (auto dest: lseg_first)
  with Cons.IH [of x] Cons.prems show ?case by (auto simp: list_walk.simps [of h head x])
qed

lemma list_for_each_dlist: "dlist h a xs \<Longrightarrow> list_for_each h a = Some xs"
  by (simp add: list_for_each_def dlist_first) (auto simp: dlist_def list_walk_lseg)

section \<open>The interface\<close>

text \<open>
  What the reply code uses of \<open>list.h\<close>: heads are initialised, nodes queued at the tail and
  popped from it.  The contract speaks of a family of lists, because one heap holds the reply
  queue of every batch and the children of every reply.
\<close>

locale list_family =
  fixes fam :: "'h \<Rightarrow> 'n set \<Rightarrow> ('n \<Rightarrow> 'n list) \<Rightarrow> bool"
    and init_head :: "'n \<Rightarrow> 'h \<Rightarrow> 'h"
    and add_tail :: "'n \<Rightarrow> 'n \<Rightarrow> 'h \<Rightarrow> 'h res"
    and pop :: "'n \<Rightarrow> 'h \<Rightarrow> ('n \<times> 'h) res"
    and is_empty :: "'n \<Rightarrow> 'h \<Rightarrow> bool"
    and next_node :: "'h \<Rightarrow> 'n \<Rightarrow> 'n option"
  assumes init_law: "fam h H L \<Longrightarrow> a \<notin> all_nodes H L \<Longrightarrow> fam (init_head a h) (insert a H) (L(a := []))"
    and add_tail_law: "fam h H L \<Longrightarrow> a \<in> H \<Longrightarrow> new \<notin> all_nodes H L \<Longrightarrow>
      \<exists>h'. add_tail new a h = Inr h' \<and> fam h' H (L(a := L a @ [new]))"
    and pop_law: "fam h H L \<Longrightarrow> a \<in> H \<Longrightarrow> L a = xs @ [x] \<Longrightarrow>
      \<exists>h'. pop a h = Inr (x, h') \<and> fam h' H (L(a := xs))"
    and is_empty_law: "fam h H L \<Longrightarrow> a \<in> H \<Longrightarrow> is_empty a h \<longleftrightarrow> L a = []"
    and next_head_law: "fam h H L \<Longrightarrow> a \<in> H \<Longrightarrow> next_node h a = Some (hd (L a @ [a]))"
    and next_node_law: "fam h H L \<Longrightarrow> a \<in> H \<Longrightarrow> L a = xs @ x # ys \<Longrightarrow>
      next_node h x = Some (hd (ys @ [a]))"
    and distinct_law: "fam h H L \<Longrightarrow> a \<in> H \<Longrightarrow> distinct (a # L a)"
    and disjoint_law: "fam h H L \<Longrightarrow> a \<in> H \<Longrightarrow> b \<in> H \<Longrightarrow> a \<noteq> b \<Longrightarrow>
      ring_nodes L a \<inter> ring_nodes L b = {}"
begin

text \<open>A drained list: popping until the head is empty yields the nodes last to first.\<close>

fun pops :: "nat \<Rightarrow> 'n \<Rightarrow> 'h \<Rightarrow> ('n list \<times> 'h) res" where
  "pops 0 a h = Inr ([], h)"
| "pops (Suc k) a h =
     bindE (pop a h) (\<lambda>(x, h1). bindE (pops k a h1) (\<lambda>(xs, h2). Inr (x # xs, h2)))"

lemma pops_law:
  "fam h H L \<Longrightarrow> a \<in> H \<Longrightarrow> \<exists>h'. pops (length (L a)) a h = Inr (rev (L a), h') \<and> fam h' H (L(a := []))"
proof (induction "L a" arbitrary: h L rule: rev_induct)
  case Nil
  then have "L(a := []) = L" by auto
  with Nil show ?case by (metis length_0_conv pops.simps(1) rev.simps(1))
next
  case (snoc x xs)
  from snoc.hyps(2) have La: "L a = xs @ [x]" by simp
  from pop_law [OF snoc.prems La] obtain h1
    where h1: "pop a h = Inr (x, h1)" "fam h1 H (L(a := xs))" by blast
  from snoc.hyps(1) [of "L(a := xs)" h1] h1(2) snoc.prems(2) obtain h2
    where "pops (length xs) a h1 = Inr (rev xs, h2)" "fam h2 H (L(a := []))" by auto
  with h1(1) La show ?case by auto
qed

text \<open>After an append the new node stands behind the old ones and in front of the head.\<close>

lemma add_tail_next:
  assumes "fam h H L" "a \<in> H" "new \<notin> all_nodes H L"
  shows "\<exists>h'. add_tail new a h = Inr h' \<and> fam h' H (L(a := L a @ [new])) \<and>
    next_node h' new = Some a"
proof -
  obtain h' where h': "add_tail new a h = Inr h'" "fam h' H (L(a := L a @ [new]))"
    using add_tail_law [OF assms] by blast
  from next_node_law [OF h'(2) assms(2), of "L a" new "[]"] have "next_node h' new = Some a" by simp
  with h' show ?thesis by blast
qed

end

interpretation links: list_family rings init_list_head list_add_tail list_pop list_empty lh_next
proof unfold_locales
  fix h :: "'a lheap" and H L a b
  show "rings h H L \<Longrightarrow> a \<in> H \<Longrightarrow> distinct (a # L a)"
    by (auto simp: rings_def dlist_def)
  show "rings h H L \<Longrightarrow> a \<in> H \<Longrightarrow> b \<in> H \<Longrightarrow> a \<noteq> b \<Longrightarrow> ring_nodes L a \<inter> ring_nodes L b = {}"
    by (auto simp: rings_def)
qed (auto simp: rings_add_head list_add_tail_rings list_pop_rings list_empty_rings next_rings
       dlist_first rings_dlist)


section \<open>Properties\<close>

text \<open>A heap with a list of one node and an empty one, used in the witnesses.\<close>

definition two_heads :: "nat lheap" where
  "two_heads = init_list_head 1 (init_list_head 0 \<lparr>lh_next = (\<lambda>_. None), lh_prev = (\<lambda>_. None)\<rparr>)"

lemma two_heads_rings: "rings two_heads {0, 1} ((\<lambda>_. [])(0 := [], 1 := []))"
proof -
  have "rings (init_list_head 0 \<lparr>lh_next = (\<lambda>_. None), lh_prev = (\<lambda>_. None)\<rparr>) (insert (0 :: nat) {}) ((\<lambda>_. [])(0 := []))"
    by (rule rings_add_head) (simp_all add: rings_def all_nodes_def)
  then have "rings two_heads (insert 1 (insert 0 {})) (((\<lambda>_. [])(0 := []))(1 := []))"
    unfolding two_heads_def by (rule rings_add_head) (simp add: all_nodes_def ring_nodes_def)
  then show ?thesis by (simp add: insert_commute)
qed

lemma one_node: "\<exists>h. rings h {0, 1 :: nat} ((\<lambda>_. [])(0 := [2], 1 := []))"
  using list_add_tail_rings [OF two_heads_rings, of 0 2]
  by (auto simp: all_nodes_def ring_nodes_def fun_upd_twist)

text \<open>
  C37: \<open>list_add_tail\<close> is an append.  On a heap of disjoint circular lists it puts a new node at
  the end of the one list: a forward traversal afterwards visits the old nodes and then the new one,
  traversals of all other lists are as before, and the lists are still disjoint and circular.
\<close>

theorem list_add_tail_appends:
  assumes "rings h H L" "a \<in> H" "new \<notin> all_nodes H L"
  shows "\<exists>h'. list_add_tail new a h = Inr h' \<and> rings h' H (L(a := L a @ [new])) \<and>
    list_for_each h' a = Some (L a @ [new]) \<and>
    (\<forall>b \<in> H. b \<noteq> a \<longrightarrow> list_for_each h' b = list_for_each h b)"
proof -
  from list_add_tail_rings [OF assms] obtain h' where
    h': "list_add_tail new a h = Inr h'" "rings h' H (L(a := L a @ [new]))" by blast
  then have "list_for_each h' b = Some ((L(a := L a @ [new])) b)" if "b \<in> H" for b
    using that by (intro list_for_each_dlist rings_dlist)
  moreover have "list_for_each h b = Some (L b)" if "b \<in> H" for b
    using that assms(1) by (intro list_for_each_dlist rings_dlist)
  ultimately show ?thesis using h' assms(2) by (intro exI [of _ h']) auto
qed

theorem list_add_tail_appends_witness:
  "\<exists>h'. list_add_tail 2 0 two_heads = Inr h' \<and> list_for_each h' 0 = Some [2] \<and>
    list_for_each h' 1 = list_for_each two_heads 1"
  using list_add_tail_appends [OF two_heads_rings, of 0 2] by (auto simp: all_nodes_def ring_nodes_def)

text \<open>
  \<open>list_splice_init\<close> moves a whole list.  The nodes of \<open>a\<close> come to stand, in their order, in
  front of those of \<open>b\<close>, and \<open>a\<close> is left an empty list that can be used again.
\<close>

theorem list_splice_init_moves:
  assumes "rings h H L" "a \<in> H" "b \<in> H" "a \<noteq> b"
  shows "\<exists>h'. list_splice_init a b h = Inr h' \<and> list_for_each h' b = Some (L a @ L b) \<and>
    list_for_each h' a = Some [] \<and> list_empty a h' \<and> rings h' H (L(b := L a @ L b, a := []))"
proof -
  from list_splice_init_rings [OF assms] obtain h' where
    h': "list_splice_init a b h = Inr h'" "rings h' H (L(b := L a @ L b, a := []))" by blast
  then have "list_for_each h' c = Some ((L(b := L a @ L b, a := [])) c)" if "c \<in> H" for c
    using that by (intro list_for_each_dlist rings_dlist)
  with h' assms list_empty_rings [OF h'(2) assms(2)] show ?thesis by (intro exI [of _ h']) auto
qed

theorem list_splice_init_moves_witness:
  "\<exists>h h'. list_splice_init 0 1 h = Inr h' \<and> list_for_each h' (1 :: nat) = Some [2] \<and> list_empty 0 h'"
proof -
  from one_node obtain h where "rings h {0, 1 :: nat} ((\<lambda>_. [])(0 := [2], 1 := []))" by blast
  from list_splice_init_moves [OF this, of 0 1] show ?thesis by auto
qed

end
