(* ===== verification/C_Text.thy ===== *)
theory C_Text
  imports Prelude "HOL-Library.Char_ord"
begin

text \<open>
  The character and number functions of the C library that the sources call: \<open>isdigit\<close> and
  \<open>atoi\<close> (\<open>parser.c\<close>), \<open>snprintf\<close> with \<open>%ld\<close>, \<open>%d\<close> and \<open>%s\<close> (\<open>batch.c\<close>, \<open>ketama.c\<close>,
  \<open>connection.c\<close>) and \<open>strchr\<close>, together with the facts that relate printing and reading a
  decimal.  A C string is the list of its characters up to, and without, the terminating null.
\<close>

section \<open>Digits\<close>

definition char_code :: "char \<Rightarrow> nat" where
  "char_code c = of_char c"

definition isdigit :: "char \<Rightarrow> bool" where
  "isdigit c \<longleftrightarrow> 48 \<le> char_code c \<and> char_code c \<le> 57"

definition isspace :: "char \<Rightarrow> bool" where
  "isspace c \<longleftrightarrow> char_code c = 32 \<or> (9 \<le> char_code c \<and> char_code c \<le> 13)"

definition digit_val :: "char \<Rightarrow> nat" where
  "digit_val c = char_code c - 48"

definition digit_char :: "nat \<Rightarrow> char" where
  "digit_char d = char_of (48 + d)"

lemma char_code_digit_char: "d < 10 \<Longrightarrow> char_code (digit_char d) = 48 + d"
  by (simp add: char_code_def digit_char_def)

lemma isdigit_digit_char [simp]: "d < 10 \<Longrightarrow> isdigit (digit_char d)"
  by (simp add: isdigit_def char_code_digit_char)

lemma digit_val_digit_char [simp]: "d < 10 \<Longrightarrow> digit_val (digit_char d) = d"
  by (simp add: digit_val_def char_code_digit_char)

lemma isdigit_not_space: "isdigit c \<Longrightarrow> \<not> isspace c"
  by (auto simp: isdigit_def isspace_def)

lemma isdigit_not_sign: "isdigit c \<Longrightarrow> c \<noteq> CHR ''-'' \<and> c \<noteq> CHR ''+''"
  by (auto simp: isdigit_def char_code_def)

lemma not_isdigit_CR [simp]: "\<not> isdigit (CHR 0x0D)"
  by (simp add: isdigit_def char_code_def)

section \<open>Reading a decimal\<close>

definition digits_value :: "string \<Rightarrow> nat" where
  "digits_value ds = foldl (\<lambda>n c. 10 * n + digit_val c) 0 ds"

text \<open>
  \<open>strtol (s, NULL, 10)\<close> on a 64-bit \<open>long\<close>: leading white space, an optional sign, the longest
  run of digits, saturation at the ends of the range.  \<open>atoi\<close> is, as in glibc, its value
  converted to \<open>int\<close>; ISO C leaves the result open where the value does not fit.
\<close>

definition strtol10 :: "string \<Rightarrow> int" where
  "strtol10 s =
     (let t = dropWhile isspace s;
          neg = (t \<noteq> [] \<and> hd t = CHR ''-'');
          u = (if t \<noteq> [] \<and> (hd t = CHR ''-'' \<or> hd t = CHR ''+'') then tl t else t);
          n = int (digits_value (takeWhile isdigit u));
          v = (if neg then - n else n)
      in max (- 9223372036854775808) (min 9223372036854775807 v))"

definition atoi :: "string \<Rightarrow> int" where
  "atoi s = wrap32 (strtol10 s)"

lemma strtol10_digits:
  assumes "ds \<noteq> []" "list_all isdigit ds" "rest = [] \<or> \<not> isdigit (hd rest)"
  shows "strtol10 (ds @ rest) = min 9223372036854775807 (int (digits_value ds))"
proof -
  obtain d ds' where ds: "ds = d # ds'" "isdigit d" using assms by (cases ds) auto
  have skip: "dropWhile isspace (ds @ rest) = ds @ rest"
    using ds by (simp add: isdigit_not_space)
  have "takeWhile isdigit (ds @ rest) = ds"
    using assms by (cases rest) (auto simp: list_all_iff takeWhile_append2)
  with ds show ?thesis
    unfolding strtol10_def skip by (simp add: Let_def isdigit_not_sign)
qed

lemma atoi_digits:
  assumes "ds \<noteq> []" "list_all isdigit ds" "rest = [] \<or> \<not> isdigit (hd rest)"
    and "digits_value ds < 2147483648"
  shows "atoi (ds @ rest) = int (digits_value ds)"
  using assms by (simp add: atoi_def strtol10_digits wrap32_id)

lemma atoi_range: "- 2147483648 \<le> atoi s" "atoi s < 2147483648"
  by (simp_all add: atoi_def wrap32_range)

section \<open>Printing a decimal\<close>

fun dec_nat :: "nat \<Rightarrow> string" where
  "dec_nat n = (if n < 10 then [digit_char n] else dec_nat (n div 10) @ [digit_char (n mod 10)])"

declare dec_nat.simps [simp del]

text \<open>\<open>%ld\<close> and \<open>%d\<close>.\<close>

definition dec_int :: "int \<Rightarrow> string" where
  "dec_int z = (if z < 0 then CHR ''-'' # dec_nat (nat (- z)) else dec_nat (nat z))"

lemma dec_nat_nonempty [simp]: "dec_nat n \<noteq> []"
  by (subst dec_nat.simps) simp

lemma dec_nat_digits: "list_all isdigit (dec_nat n)"
proof (induction n rule: dec_nat.induct)
  case (1 n)
  then show ?case by (subst dec_nat.simps) simp
qed

lemma takeWhile_dec_nat [simp]: "takeWhile isdigit (dec_nat n) = dec_nat n"
  using dec_nat_digits [of n] by (simp add: list_all_iff takeWhile_eq_all_conv)

lemma digits_value_dec_nat [simp]: "digits_value (dec_nat n) = n"
proof (induction n rule: dec_nat.induct)
  case (1 n)
  then show ?case by (subst dec_nat.simps) (simp add: digits_value_def)
qed

lemma length_dec_nat: "n < 10 ^ Suc k \<Longrightarrow> length (dec_nat n) \<le> Suc k"
proof (induction k arbitrary: n)
  case 0
  then show ?case by (subst dec_nat.simps) simp
next
  case (Suc k)
  show ?case
  proof (cases "n < 10")
    case False
    from Suc.prems have "n div 10 < 10 ^ Suc k" by (simp add: less_mult_imp_div_less mult.commute)
    from Suc.IH [OF this] False show ?thesis by (subst dec_nat.simps) simp
  qed (subst dec_nat.simps, simp)
qed

lemma atoi_dec_nat:
  "n < 2147483648 \<Longrightarrow> rest = [] \<or> \<not> isdigit (hd rest) \<Longrightarrow> atoi (dec_nat n @ rest) = int n"
  by (subst atoi_digits) (auto simp: dec_nat_digits)

lemma dec_int_nat [simp]: "dec_int (int n) = dec_nat n"
  by (simp add: dec_int_def)

lemma strtol10_dec_int:
  assumes "- 9223372036854775808 \<le> z" "z < 9223372036854775808"
  shows "strtol10 (dec_int z) = z"
proof (cases "z < 0")
  case False
  then show ?thesis
    using assms strtol10_digits [of "dec_nat (nat z)" "[]"]
    by (simp add: dec_int_def dec_nat_digits)
next
  case True
  with assms show ?thesis
    by (simp add: dec_int_def strtol10_def Let_def isspace_def char_code_def)
qed

lemma length_dec_int: "- (10 ^ 19) < z \<Longrightarrow> z < 10 ^ 19 \<Longrightarrow> length (dec_int z) \<le> 20"
  using length_dec_nat [of "nat z" 18] length_dec_nat [of "nat (- z)" 18]
  by (auto simp: dec_int_def nat_less_iff)

section \<open>Bounded formatting\<close>

text \<open>
  What \<open>snprintf (buf, size, ...)\<close> leaves in \<open>buf\<close> as a C string, for the fully formatted text
  \<open>s\<close>; the call itself returns \<open>length s\<close>.
\<close>

definition snprintf_text :: "nat \<Rightarrow> string \<Rightarrow> string" where
  "snprintf_text sz s = take (sz - 1) s"

lemma length_snprintf_text: "length (snprintf_text sz s) \<le> sz - 1"
  by (simp add: snprintf_text_def)

text \<open>\<open>strchr (s, c)\<close>: the suffix that starts at the first \<open>c\<close>.\<close>

fun strchr :: "string \<Rightarrow> char \<Rightarrow> string option" where
  "strchr [] c = None"
| "strchr (x # xs) c = (if x = c then Some (x # xs) else strchr xs c)"

lemma strchr_None: "strchr s c = None \<longleftrightarrow> c \<notin> set s"
  by (induction s) auto

lemma strchr_Some: "strchr s c = Some t \<Longrightarrow> \<exists>pre. s = pre @ t \<and> c \<notin> set pre \<and> hd t = c \<and> t \<noteq> []"
proof (induction s)
  case (Cons x s)
  show ?case
  proof (cases "x = c")
    case False
    with Cons obtain pre where "s = pre @ t" "c \<notin> set pre" "hd t = c" "t \<noteq> []" by auto
    with False show ?thesis by (intro exI [of _ "x # pre"]) auto
  qed (use Cons in auto)
qed simp

end
