(* ===== verification/Module_Alloc.thy ===== *)
theory Module_Alloc
  imports C_Text
begin

text \<open>
  The module object (\<open>libredis/module.h\<close>, \<open>module.c\<close>) and the allocation wrappers
  (\<open>libredis/alloc.h\<close>, default multithreaded build).  The allocator is not code of the
  repository: it is the pair of function pointers the module holds, a parameter of everything
  that allocates.  \<open>alloc_calls\<close> counts the calls made to it, so that two calls with the same
  size may have different results; \<open>None\<close> is a null pointer, \<open>Some blk\<close> a block with
  arbitrary initial contents.  \<open>allocated\<close> is the counter \<open>Module_get_allocated\<close> reads.
\<close>

type_synonym malloc_fn = "nat \<Rightarrow> nat \<Rightarrow> string option"
type_synonym realloc_fn = "nat \<Rightarrow> string \<Rightarrow> nat \<Rightarrow> string option"

record module =
  alloc_malloc :: "malloc_fn option"
  alloc_realloc :: "realloc_fn option"
  alloc_free :: "unit option"
  allocated :: nat
  alloc_calls :: nat
  last_error :: string

definition MAX_ERROR_SIZE :: nat where
  "MAX_ERROR_SIZE = 255"

text \<open>Sizes of \<open>common.h\<close> for the address and the service of a server.\<close>

definition ADDR_SIZE :: nat where
  "ADDR_SIZE = 255"

definition SERV_SIZE :: nat where
  "SERV_SIZE = 20"

section \<open>The module\<close>

text \<open>\<open>g_module\<close> and \<open>error\<close> are static objects, zero before the first call.\<close>

definition g_module :: module where
  "g_module = \<lparr>alloc_malloc = None, alloc_realloc = None, alloc_free = None,
     allocated = 0, alloc_calls = 0, last_error = []\<rparr>"

definition Module_new :: module where
  "Module_new = g_module"

definition Module_init :: "malloc_fn \<Rightarrow> realloc_fn \<Rightarrow> module \<Rightarrow> int \<times> module" where
  "Module_init libc_malloc libc_realloc m =
     (let m1 = (if alloc_malloc m = None then m\<lparr>alloc_malloc := Some libc_malloc\<rparr> else m);
          m2 = (if alloc_realloc m1 = None then m1\<lparr>alloc_realloc := Some libc_realloc\<rparr> else m1);
          m3 = (if alloc_free m2 = None then m2\<lparr>alloc_free := Some ()\<rparr> else m2)
      in (0, m3))"

definition Module_set_alloc_alloc :: "malloc_fn \<Rightarrow> module \<Rightarrow> module" where
  "Module_set_alloc_alloc f m = m\<lparr>alloc_malloc := Some f\<rparr>"

definition Module_set_alloc_realloc :: "realloc_fn \<Rightarrow> module \<Rightarrow> module" where
  "Module_set_alloc_realloc f m = m\<lparr>alloc_realloc := Some f\<rparr>"

definition Module_set_alloc_free :: "module \<Rightarrow> module" where
  "Module_set_alloc_free m = m\<lparr>alloc_free := Some ()\<rparr>"

definition Module_get_allocated :: "'a module_scheme \<Rightarrow> nat" where
  "Module_get_allocated m = allocated m"

definition Module_last_error :: "'a module_scheme \<Rightarrow> string" where
  "Module_last_error m = last_error m"

text \<open>The argument is the formatted text; \<open>vsnprintf\<close> cuts it to the size of the buffer.\<close>

definition Module_set_error :: "string \<Rightarrow> 'a module_scheme \<Rightarrow> 'a module_scheme" where
  "Module_set_error text m = m\<lparr>last_error := snprintf_text MAX_ERROR_SIZE text\<rparr>"

text \<open>\<open>Reply_free_final\<close> and \<open>Batch_free_final\<close> are empty functions in the multithreaded build.\<close>

definition Module_free :: "'a module_scheme \<Rightarrow> 'a module_scheme" where
  "Module_free m = m"

section \<open>Allocation\<close>

definition Alloc_alloc :: "nat \<Rightarrow> 'a module_scheme \<Rightarrow> (string option \<times> 'a module_scheme) res" where
  "Alloc_alloc sz m =
     bindE (derefE (alloc_malloc m)) (\<lambda>f.
       Inr (f (alloc_calls m) sz,
            m\<lparr>allocated := size_add (allocated m) sz, alloc_calls := Suc (alloc_calls m)\<rparr>))"

definition Alloc_free :: "nat \<Rightarrow> 'a module_scheme \<Rightarrow> 'a module_scheme res" where
  "Alloc_free sz m =
     bindE (derefE (alloc_free m)) (\<lambda>_. Inr (m\<lparr>allocated := size_sub (allocated m) sz\<rparr>))"

definition Alloc_realloc ::
    "string \<Rightarrow> nat \<Rightarrow> nat \<Rightarrow> 'a module_scheme \<Rightarrow> (string option \<times> 'a module_scheme) res" where
  "Alloc_realloc obj new_size old_size m =
     bindE (derefE (alloc_realloc m)) (\<lambda>f.
       Inr (f (alloc_calls m) obj new_size,
            m\<lparr>allocated := size_add (size_sub (allocated m) old_size) new_size,
              alloc_calls := Suc (alloc_calls m)\<rparr>))"

section \<open>What is assumed of the allocator\<close>

text \<open>
  The documented behaviour of \<open>malloc\<close>, \<open>realloc\<close> and \<open>free\<close> when memory suffices: a block has
  the size asked for, and \<open>realloc\<close> keeps the old contents.
\<close>

definition malloc_ok :: "malloc_fn \<Rightarrow> bool" where
  "malloc_ok f \<longleftrightarrow> (\<forall>k n. \<exists>blk. f k n = Some blk \<and> length blk = n)"

definition realloc_ok :: "realloc_fn \<Rightarrow> bool" where
  "realloc_ok f \<longleftrightarrow> (\<forall>k old n. \<exists>blk. f k old n = Some blk \<and> length blk = n \<and>
     take (min n (length old)) blk = take (min n (length old)) old)"

definition allocator_ok :: "'a module_scheme \<Rightarrow> bool" where
  "allocator_ok m \<longleftrightarrow> (\<exists>f. alloc_malloc m = Some f \<and> malloc_ok f) \<and>
     (\<exists>g. alloc_realloc m = Some g \<and> realloc_ok g) \<and> alloc_free m \<noteq> None \<and>
     allocated m < 18446744073709551616"

text \<open>An allocator that meets it: \<open>calloc\<close>-like, blocks come zeroed.\<close>

definition zero_malloc :: malloc_fn where
  "zero_malloc k n = Some (replicate n (CHR 0x00))"

definition zero_realloc :: realloc_fn where
  "zero_realloc k old n = Some (take n old @ replicate (n - length old) (CHR 0x00))"

definition demo_module :: module where
  "demo_module = snd (Module_init zero_malloc zero_realloc Module_new)"

lemma zero_malloc_ok: "malloc_ok zero_malloc"
  by (simp add: malloc_ok_def zero_malloc_def)

lemma zero_realloc_ok: "realloc_ok zero_realloc"
  by (simp add: realloc_ok_def zero_realloc_def min_def)

lemma demo_module_simps [simp]:
  "alloc_malloc demo_module = Some zero_malloc" "alloc_realloc demo_module = Some zero_realloc"
  "alloc_free demo_module = Some ()" "allocated demo_module = 0" "alloc_calls demo_module = 0"
  by (simp_all add: demo_module_def Module_init_def Module_new_def g_module_def)

lemma demo_allocator_ok [simp]: "allocator_ok demo_module"
  by (simp add: allocator_ok_def zero_malloc_ok zero_realloc_ok)

section \<open>Accounting\<close>

text \<open>
  \<open>charged m m' d\<close>: between \<open>m\<close> and \<open>m'\<close> the counter moved by \<open>d\<close> bytes, modulo the range of
  \<open>size_t\<close>.  It is the bookkeeping all allocation lemmas share.
\<close>

definition charged :: "'a module_scheme \<Rightarrow> 'b module_scheme \<Rightarrow> int \<Rightarrow> bool" where
  "charged m m' d \<longleftrightarrow>
     18446744073709551616 dvd (int (allocated m') - int (allocated m) - d)"

named_theorems charged_intros \<open>accounting of the allocating operations\<close>

lemma charged_refl [simp, intro]: "charged m m 0"
  by (simp add: charged_def)

lemma charged_trans: "charged m m1 d1 \<Longrightarrow> charged m1 m2 d2 \<Longrightarrow> charged m m2 (d1 + d2)"
proof -
  assume "charged m m1 d1" "charged m1 m2 d2"
  then have "18446744073709551616 dvd
    ((int (allocated m1) - int (allocated m) - d1) + (int (allocated m2) - int (allocated m1) - d2))"
    unfolding charged_def by (rule dvd_add)
  then show ?thesis by (simp add: charged_def algebra_simps)
qed

lemma charged_zero_eq:
  assumes "charged m m' 0" "allocated m < 18446744073709551616" "allocated m' < 18446744073709551616"
  shows "allocated m' = allocated m"
proof -
  have "\<bar>int (allocated m') - int (allocated m)\<bar> < 18446744073709551616" using assms(2,3) by linarith
  moreover have "18446744073709551616 dvd (int (allocated m') - int (allocated m))"
    using assms(1) by (simp add: charged_def)
  ultimately have "int (allocated m') - int (allocated m) = 0"
    using zdvd_imp_le by (metis abs_of_pos dvd_abs_iff not_less zero_less_abs_iff)
  then show ?thesis by simp
qed

lemma charged_size_add:
  "allocated m' = size_add (allocated m) n \<Longrightarrow> charged m m' (int n)"
  by (simp add: charged_def size_add_def of_nat_mod mod_eq_dvd_iff [symmetric] diff_diff_eq)

lemma dvd_to_size: "18446744073709551616 dvd (int (to_size x) - x)"
proof -
  have "int (to_size x) = x mod 18446744073709551616"
    by (simp add: to_size_def)
  then show ?thesis by (simp add: mod_eq_dvd_iff [symmetric])
qed

lemma charged_size_sub:
  "allocated m' = size_sub (allocated m) n \<Longrightarrow> charged m m' (- int n)"
  using dvd_to_size [of "int (allocated m) - int n"]
  by (simp add: charged_def size_sub_def algebra_simps)

lemma size_add_less [simp]: "size_add a b < 18446744073709551616"
  by (simp add: size_add_def)

lemma size_sub_less [simp]: "size_sub a b < 18446744073709551616"
  by (simp add: size_sub_def to_size_less)

text \<open>The three wrappers, on an allocator that behaves.\<close>

lemma Alloc_alloc_ok:
  assumes "allocator_ok m"
  shows "\<exists>blk m'. Alloc_alloc n m = Inr (Some blk, m') \<and> length blk = n \<and>
    allocator_ok m' \<and> charged m m' (int n) \<and> module.more m' = module.more m"
proof -
  from assms obtain f where f: "alloc_malloc m = Some f" "malloc_ok f"
    by (auto simp: allocator_ok_def)
  then obtain blk where blk: "f (alloc_calls m) n = Some blk" "length blk = n"
    by (auto simp: malloc_ok_def)
  let ?m' = "m\<lparr>allocated := size_add (allocated m) n, alloc_calls := Suc (alloc_calls m)\<rparr>"
  have "charged m ?m' (int n)" by (rule charged_size_add) simp
  moreover have "allocator_ok ?m'" using assms by (simp add: allocator_ok_def)
  ultimately show ?thesis using f blk by (simp add: Alloc_alloc_def)
qed

lemma Alloc_free_ok:
  assumes "allocator_ok m"
  shows "\<exists>m'. Alloc_free n m = Inr m' \<and> allocator_ok m' \<and> charged m m' (- int n) \<and>
    module.more m' = module.more m"
proof -
  let ?m' = "m\<lparr>allocated := size_sub (allocated m) n\<rparr>"
  have "charged m ?m' (- int n)" by (rule charged_size_sub) simp
  moreover have "allocator_ok ?m'" using assms by (simp add: allocator_ok_def)
  ultimately show ?thesis using assms by (auto simp: Alloc_free_def allocator_ok_def)
qed

lemma Alloc_realloc_ok:
  assumes "allocator_ok m" "length obj \<le> n"
  shows "\<exists>blk m'. Alloc_realloc obj n k m = Inr (Some blk, m') \<and> length blk = n \<and>
    take (length obj) blk = obj \<and> allocator_ok m' \<and> charged m m' (int n - int k) \<and>
    module.more m' = module.more m"
proof -
  from assms obtain g where g: "alloc_realloc m = Some g" "realloc_ok g"
    by (auto simp: allocator_ok_def)
  then obtain blk where blk: "g (alloc_calls m) obj n = Some blk" "length blk = n"
      "take (min n (length obj)) blk = take (min n (length obj)) obj"
    unfolding realloc_ok_def by metis
  let ?m1 = "m\<lparr>allocated := size_sub (allocated m) k\<rparr>"
  let ?m' = "m\<lparr>allocated := size_add (size_sub (allocated m) k) n, alloc_calls := Suc (alloc_calls m)\<rparr>"
  have "charged m ?m1 (- int k)" by (rule charged_size_sub) simp
  moreover have "charged ?m1 ?m' (int n)" by (rule charged_size_add) simp
  ultimately have "charged m ?m' (- int k + int n)" by (rule charged_trans)
  then have "charged m ?m' (int n - int k)" by simp
  moreover have "allocator_ok ?m'" using assms by (simp add: allocator_ok_def)
  ultimately show ?thesis using g blk assms(2) by (simp add: Alloc_realloc_def min_absorb2)
qed

end
