(* ===== verification/Buffer.thy ===== *)
theory Buffer
  imports Module_Alloc
begin

text \<open>
  The growable byte buffer of \<open>libredis/buffer.c\<close>.  \<open>bf_buff\<close> is the block allocated with the
  buffer; \<open>bf_ext\<close> is the block \<open>data\<close> points to once the buffer has been enlarged (\<open>None\<close>
  while \<open>data == buff\<close>).  System calls are arguments: what \<open>write\<close> and \<open>read\<close> answer when
  asked for a number of bytes, \<open>None\<close> being the result \<open>-1\<close>.  \<open>Buffer_dump\<close> only prints.
\<close>

record buffer =
  bf_ext :: "string option"
  bf_buff :: string
  bf_size :: nat
  bf_position :: nat
  bf_limit :: nat
  bf_capacity :: nat

text \<open>\<open>sizeof (Buffer)\<close> on LP64.\<close>

definition sizeof_Buffer :: nat where
  "sizeof_Buffer = 48"

section \<open>The operations\<close>

definition Buffer_data :: "buffer \<Rightarrow> string" where
  "Buffer_data b = (case bf_ext b of None \<Rightarrow> bf_buff b | Some d \<Rightarrow> d)"

definition store_data :: "string \<Rightarrow> buffer \<Rightarrow> buffer" where
  "store_data d b =
     (case bf_ext b of None \<Rightarrow> b\<lparr>bf_buff := d\<rparr> | Some _ \<Rightarrow> b\<lparr>bf_ext := Some d\<rparr>)"

definition Buffer_fill :: "buffer \<Rightarrow> char \<Rightarrow> buffer res" where
  "Buffer_fill b c =
     bindE (memset (bf_buff b) c (bf_capacity b)) (\<lambda>s. Inr (b\<lparr>bf_buff := s\<rparr>))"

definition Buffer_new :: "nat \<Rightarrow> 'a module_scheme \<Rightarrow> (buffer \<times> 'a module_scheme) res" where
  "Buffer_new sz m =
     bindE (Alloc_alloc sizeof_Buffer m) (\<lambda>(p, m1).
     bindE (derefE p) (\<lambda>_.
     bindE (Alloc_alloc sz m1) (\<lambda>(q, m2).
     bindE (derefE q) (\<lambda>blk.
     bindE (Buffer_fill \<lparr>bf_ext = None, bf_buff = blk, bf_size = sz, bf_position = 0,
              bf_limit = sz, bf_capacity = sz\<rparr> (CHR 0x00)) (\<lambda>b.
       Inr (b, m2))))))"

definition Buffer_clear :: "buffer \<Rightarrow> 'a module_scheme \<Rightarrow> (buffer \<times> 'a module_scheme) res" where
  "Buffer_clear b m =
     bindE (if bf_capacity b > bf_size b then Alloc_free (bf_capacity b) m else Inr m) (\<lambda>m1.
       Inr (b\<lparr>bf_ext := None, bf_position := 0, bf_limit := bf_size b,
              bf_capacity := bf_size b\<rparr>, m1))"

definition Buffer_free :: "buffer \<Rightarrow> 'a module_scheme \<Rightarrow> 'a module_scheme res" where
  "Buffer_free b m =
     bindE (Alloc_free (bf_size b) m) (\<lambda>m1.
     bindE (if bf_capacity b > bf_size b then Alloc_free (bf_capacity b) m1 else Inr m1) (\<lambda>m2.
       Alloc_free sizeof_Buffer m2))"

definition Buffer_remaining :: "buffer \<Rightarrow> nat" where
  "Buffer_remaining b = size_sub (bf_limit b) (bf_position b)"

definition Buffer_position :: "buffer \<Rightarrow> nat" where
  "Buffer_position b = bf_position b"

definition Buffer_set_position :: "buffer \<Rightarrow> nat \<Rightarrow> buffer" where
  "Buffer_set_position b pos = b\<lparr>bf_position := pos\<rparr>"

definition Buffer_set_limit :: "buffer \<Rightarrow> nat \<Rightarrow> buffer" where
  "Buffer_set_limit b lim = b\<lparr>bf_limit := lim\<rparr>"

definition Buffer_flip :: "buffer \<Rightarrow> buffer" where
  "Buffer_flip b = b\<lparr>bf_limit := bf_position b, bf_position := 0\<rparr>"

text \<open>
  The doubling loop of \<open>Buffer_ensure_remaining\<close>, in \<open>size_t\<close> arithmetic; \<open>None\<close> if it
  never stops.
\<close>

partial_function (option) grow_limit :: "nat \<Rightarrow> nat \<Rightarrow> nat \<Rightarrow> nat option" where
  "grow_limit need pos lim =
     (if size_sub lim pos < need then grow_limit need pos (size_mul lim 2) else Some lim)"

text \<open>
  \<open>min_remaining\<close> is an \<open>int\<close>; comparing it with the \<open>size_t\<close> of \<open>Buffer_remaining\<close>
  converts it to \<open>size_t\<close>.  A null result of the allocator is a fault where the pointer is stored.
\<close>

definition Buffer_ensure_remaining ::
    "buffer \<Rightarrow> int \<Rightarrow> 'a module_scheme \<Rightarrow> (buffer \<times> 'a module_scheme) res" where
  "Buffer_ensure_remaining b min_remaining m =
     bindE (assertE (bf_limit b = bf_capacity b)) (\<lambda>_.
     bindE (case grow_limit (to_size min_remaining) (bf_position b) (bf_limit b) of
              None \<Rightarrow> Inl Diverges | Some lim \<Rightarrow> Inr (b\<lparr>bf_limit := lim\<rparr>)) (\<lambda>b1.
     bindE (assertE (bf_limit b1 \<ge> bf_capacity b1)) (\<lambda>_.
     if bf_limit b1 > bf_capacity b1 then
       bindE (if bf_capacity b1 = bf_size b1 then
                bindE (Alloc_alloc (bf_limit b1) m) (\<lambda>(p, m1).
                bindE (derefE p) (\<lambda>blk.
                bindE (memcpy blk 0 (bf_buff b1) (bf_capacity b1)) (\<lambda>d. Inr (d, m1))))
              else
                bindE (Alloc_realloc (Buffer_data b1) (bf_limit b1) (bf_capacity b1) m) (\<lambda>(p, m1).
                bindE (derefE p) (\<lambda>d. Inr (d, m1)))) (\<lambda>(d, m1).
         Inr (b1\<lparr>bf_ext := Some d, bf_capacity := bf_limit b1\<rparr>, m1))
     else Inr (b1, m))))"

definition Buffer_write ::
    "buffer \<Rightarrow> string \<Rightarrow> nat \<Rightarrow> 'a module_scheme \<Rightarrow> (buffer \<times> 'a module_scheme) res" where
  "Buffer_write b data len m =
     bindE (Buffer_ensure_remaining b (wrap32 (int len)) m) (\<lambda>(b1, m1).
     bindE (memcpy (Buffer_data b1) (bf_position b1) data len) (\<lambda>d.
       Inr ((store_data d b1)\<lparr>bf_position := size_add (bf_position b1) len\<rparr>, m1)))"

text \<open>
  \<open>sys_write n\<close> and \<open>sys_read n\<close> are the answers of the kernel to a call with count \<open>n\<close>.
  The second component of the result of \<open>Buffer_send\<close> is what left through the socket.
\<close>

definition Buffer_send ::
    "buffer \<Rightarrow> (nat \<Rightarrow> nat option) \<Rightarrow> (nat option \<times> string \<times> buffer) res" where
  "Buffer_send b sys_write =
     (let n = Buffer_remaining b in
      if bf_position b + n > length (Buffer_data b) then Inl OutOfBounds
      else case sys_write n of
        None \<Rightarrow> Inr (None, [], b)
      | Some k \<Rightarrow> Inr (Some k, take k (drop (bf_position b) (Buffer_data b)),
          b\<lparr>bf_position := size_add (bf_position b) k\<rparr>))"

definition Buffer_recv ::
    "buffer \<Rightarrow> (nat \<Rightarrow> string option) \<Rightarrow> 'a module_scheme \<Rightarrow>
     (nat option \<times> buffer \<times> 'a module_scheme) res" where
  "Buffer_recv b sys_read m =
     bindE (Buffer_ensure_remaining b (wrap32 (int (size_mul (bf_capacity b) 256 div 2048))) m) (\<lambda>(b1, m1).
     case sys_read (Buffer_remaining b1) of
       None \<Rightarrow> Inr (None, b1, m1)
     | Some bs \<Rightarrow>
         bindE (memcpy (Buffer_data b1) (bf_position b1) bs (length bs)) (\<lambda>d.
           Inr (Some (length bs),
             (store_data d b1)\<lparr>bf_position := size_add (bf_position b1) (length bs)\<rparr>, m1)))"

section \<open>Well-formed buffers\<close>

text \<open>
  Sizes stay below \<open>2 ^ 62\<close>: no machine has more memory, and the doubling then never wraps.
\<close>

abbreviation max_capacity :: nat where
  "max_capacity \<equiv> 4611686018427387904"

abbreviation max_fill :: nat where
  "max_fill \<equiv> 2305843009213693952"

fun ext_ok :: "string option \<Rightarrow> nat \<Rightarrow> nat \<Rightarrow> bool" where
  "ext_ok None sz cap \<longleftrightarrow> cap = sz"
| "ext_ok (Some d) sz cap \<longleftrightarrow> sz < cap \<and> length d = cap"

definition buffer_ok :: "buffer \<Rightarrow> bool" where
  "buffer_ok b \<longleftrightarrow>
     length (bf_buff b) = bf_size b \<and> 0 < bf_size b \<and>
     ext_ok (bf_ext b) (bf_size b) (bf_capacity b) \<and>
     bf_position b \<le> bf_limit b \<and> bf_limit b \<le> bf_capacity b \<and> bf_capacity b \<le> max_capacity"

text \<open>A buffer in write mode: its limit is its capacity, as \<open>Buffer_ensure_remaining\<close> asserts.\<close>

definition writable :: "buffer \<Rightarrow> bool" where
  "writable b \<longleftrightarrow> buffer_ok b \<and> bf_limit b = bf_capacity b"

text \<open>What has been written so far, and, after a flip, what is still to be sent.\<close>

definition contents :: "buffer \<Rightarrow> string" where
  "contents b = take (bf_position b) (Buffer_data b)"

definition unsent :: "buffer \<Rightarrow> string" where
  "unsent b = drop (bf_position b) (take (bf_limit b) (Buffer_data b))"

text \<open>The bytes a buffer has been charged for.\<close>

definition buffer_bytes :: "buffer \<Rightarrow> int" where
  "buffer_bytes b =
     int sizeof_Buffer + int (bf_size b) + (if bf_capacity b > bf_size b then int (bf_capacity b) else 0)"

lemma ext_ok_size: "ext_ok e sz cap \<Longrightarrow> sz \<le> cap"
  by (cases e) auto

lemma length_Buffer_data: "buffer_ok b \<Longrightarrow> length (Buffer_data b) = bf_capacity b"
  by (auto simp: buffer_ok_def Buffer_data_def split: option.splits)

lemma length_contents: "buffer_ok b \<Longrightarrow> length (contents b) = bf_position b"
  by (simp add: contents_def length_Buffer_data) (simp add: buffer_ok_def)

lemma ext_None_iff: "buffer_ok b \<Longrightarrow> bf_ext b = None \<longleftrightarrow> bf_capacity b = bf_size b"
  by (cases "bf_ext b") (auto simp: buffer_ok_def)

lemma Buffer_data_store_data [simp]: "Buffer_data (store_data d b) = d"
  by (simp add: Buffer_data_def store_data_def split: option.splits)

lemma Buffer_data_position [simp]: "Buffer_data (b\<lparr>bf_position := k\<rparr>) = Buffer_data b"
  by (simp add: Buffer_data_def split: option.splits)

lemma Buffer_data_limit [simp]: "Buffer_data (b\<lparr>bf_limit := k\<rparr>) = Buffer_data b"
  by (simp add: Buffer_data_def split: option.splits)

lemma store_data_sel [simp]:
  "bf_size (store_data d b) = bf_size b" "bf_position (store_data d b) = bf_position b"
  "bf_limit (store_data d b) = bf_limit b" "bf_capacity (store_data d b) = bf_capacity b"
  by (simp_all add: store_data_def split: option.splits)

lemma store_data_ok:
  "buffer_ok b \<Longrightarrow> length d = bf_capacity b \<Longrightarrow> k \<le> bf_limit b \<Longrightarrow>
   buffer_ok ((store_data d b)\<lparr>bf_position := k\<rparr>)"
  by (auto simp: buffer_ok_def store_data_def split: option.splits)

lemma Buffer_remaining_ok: "buffer_ok b \<Longrightarrow> Buffer_remaining b = bf_limit b - bf_position b"
  by (simp add: Buffer_remaining_def buffer_ok_def)


section \<open>Growing\<close>

lemma grow_limit_ok:
  assumes "0 < lim" "pos \<le> lim" "lim \<le> max_capacity" "pos + need \<le> max_fill"
  shows "\<exists>l. grow_limit need pos lim = Some l \<and> lim \<le> l \<and> pos + need \<le> l \<and>
    (l = lim \<or> l < 2 * (pos + need))"
  using assms
proof (induction "pos + need - lim" arbitrary: lim rule: less_induct)
  case less
  show ?case
  proof (cases "lim - pos < need")
    case False
    with less.prems show ?thesis by (subst grow_limit.simps) simp
  next
    case True
    with less.prems have small: "lim < pos + need" "lim * 2 \<le> max_capacity" by simp_all
    then have "pos + need - lim * 2 < pos + need - lim" using less.prems(1) by simp
    from less.hyps [OF this] less.prems small obtain l where l: "grow_limit need pos (lim * 2) = Some l"
      "lim * 2 \<le> l" "pos + need \<le> l" "l = lim * 2 \<or> l < 2 * (pos + need)" by auto
    have "grow_limit need pos lim = grow_limit need pos (lim * 2)"
      using True less.prems by (subst grow_limit.simps) simp
    with l small show ?thesis by auto
  qed
qed

text \<open>Enlarging keeps the bytes, position and mode, and charges exactly the growth.\<close>

lemma Buffer_ensure_remaining_ok:
  assumes b: "writable b" and m: "allocator_ok m"
    and r: "0 \<le> r" "r < 2147483648" "bf_position b + nat r \<le> max_fill"
  shows "\<exists>b' m'. Buffer_ensure_remaining b r m = Inr (b', m') \<and> writable b' \<and>
    bf_position b' = bf_position b \<and> bf_size b' = bf_size b \<and>
    bf_position b + nat r \<le> bf_capacity b' \<and> bf_capacity b \<le> bf_capacity b' \<and>
    (bf_capacity b' = bf_capacity b \<or> bf_capacity b' < 2 * (bf_position b + nat r)) \<and>
    take (bf_capacity b) (Buffer_data b') = Buffer_data b \<and>
    allocator_ok m' \<and> charged m m' (buffer_bytes b' - buffer_bytes b) \<and>
    module.more m' = module.more m"
proof -
  have ok: "buffer_ok b" and lim: "bf_limit b = bf_capacity b" using b by (auto simp: writable_def)
  have bnds: "0 < bf_limit b" "bf_position b \<le> bf_limit b" "bf_limit b \<le> max_capacity"
    "bf_size b \<le> bf_capacity b"
    using ok lim by (auto simp: buffer_ok_def dest: ext_ok_size)
  from grow_limit_ok [OF bnds(1-3) r(3)] obtain l
    where l: "grow_limit (nat r) (bf_position b) (bf_limit b) = Some l" "bf_limit b \<le> l"
      "bf_position b + nat r \<le> l" "l = bf_limit b \<or> l < 2 * (bf_position b + nat r)" by blast
  have to_r: "to_size r = nat r" using r by simp
  have lmax: "l \<le> max_capacity" using l(4) r(3) bnds(3) by auto
  show ?thesis
  proof (cases "l = bf_capacity b")
    case True
    let ?b = "b\<lparr>bf_limit := l\<rparr>"
    have "?b = b" using True lim by simp
    then have "Buffer_ensure_remaining b r m = Inr (b, m)"
      using True l lim to_r by (simp add: Buffer_ensure_remaining_def)
    with True l b m show ?thesis by (simp add: length_Buffer_data [OF ok])
  next
    case False
    then have grow: "bf_capacity b < l" using l(2) lim by simp
    show ?thesis
    proof (cases "bf_ext b")
      case None
      then have cap: "bf_capacity b = bf_size b" using ext_None_iff [OF ok] by simp
      from Alloc_alloc_ok [OF m, of l] obtain blk m1
        where a: "Alloc_alloc l m = Inr (Some blk, m1)" "length blk = l" "allocator_ok m1"
          "charged m m1 (int l)" "module.more m1 = module.more m" by blast
      let ?d = "bf_buff b @ drop (bf_capacity b) blk"
      let ?b = "b\<lparr>bf_limit := l, bf_ext := Some ?d, bf_capacity := l\<rparr>"
      have len: "length (bf_buff b) = bf_capacity b" using ok cap by (simp add: buffer_ok_def)
      have "Buffer_ensure_remaining b r m = Inr (?b, m1)"
        using l lim to_r cap grow a len by (simp add: Buffer_ensure_remaining_def memcpy_def)
      moreover have "writable ?b" using ok lim cap grow a len lmax l(2)
        by (auto simp: writable_def buffer_ok_def)
      moreover have "charged m m1 (buffer_bytes ?b - buffer_bytes b)"
        using a(4) cap grow by (simp add: buffer_bytes_def)
      ultimately show ?thesis using l None len a lim
        by (auto simp: Buffer_data_def)
    next
      case (Some d)
      then have cap: "bf_size b < bf_capacity b" "length d = bf_capacity b"
        using ok by (auto simp: buffer_ok_def)
      have d: "Buffer_data b = d" using Some by (simp add: Buffer_data_def)
      from Alloc_realloc_ok [OF m, of d l "bf_capacity b"] cap grow obtain blk m1
        where a: "Alloc_realloc d l (bf_capacity b) m = Inr (Some blk, m1)" "length blk = l"
          "take (length d) blk = d" "allocator_ok m1"
          "charged m m1 (int l - int (bf_capacity b))" "module.more m1 = module.more m" by auto
      let ?b = "b\<lparr>bf_limit := l, bf_ext := Some blk, bf_capacity := l\<rparr>"
      have "Buffer_ensure_remaining b r m = Inr (?b, m1)"
        using l lim to_r cap grow a d by (simp add: Buffer_ensure_remaining_def)
      moreover have "writable ?b" using ok lim cap grow a lmax l(2)
        by (auto simp: writable_def buffer_ok_def)
      moreover have "charged m m1 (buffer_bytes ?b - buffer_bytes b)"
        using a(5) cap grow by (simp add: buffer_bytes_def)
      ultimately show ?thesis using l d cap a lim
        by (auto simp: Buffer_data_def)
    qed
  qed
qed

lemma store_prefix:
  assumes ok: "buffer_ok b" and fits: "bf_position b + n \<le> bf_limit b" "n \<le> length src"
  shows "\<exists>d. memcpy (Buffer_data b) (bf_position b) src n = Inr d \<and>
    buffer_ok ((store_data d b)\<lparr>bf_position := bf_position b + n\<rparr>) \<and>
    contents ((store_data d b)\<lparr>bf_position := bf_position b + n\<rparr>) = contents b @ take n src"
proof -
  have len: "length (Buffer_data b) = bf_capacity b" "bf_limit b \<le> bf_capacity b"
    using ok by (simp_all add: length_Buffer_data) (simp add: buffer_ok_def)
  let ?d = "take (bf_position b) (Buffer_data b) @ take n src @ drop (bf_position b + n) (Buffer_data b)"
  have "memcpy (Buffer_data b) (bf_position b) src n = Inr ?d"
    using fits len by (simp add: memcpy_def)
  moreover have "buffer_ok ((store_data ?d b)\<lparr>bf_position := bf_position b + n\<rparr>)"
    using fits len by (intro store_data_ok [OF ok]) auto
  moreover have "contents ((store_data ?d b)\<lparr>bf_position := bf_position b + n\<rparr>) = contents b @ take n src"
    using fits len by (simp add: contents_def)
  ultimately show ?thesis by blast
qed

lemma contents_extend:
  "take (bf_capacity b) (Buffer_data b') = Buffer_data b \<Longrightarrow> bf_position b' = bf_position b \<Longrightarrow>
   buffer_ok b \<Longrightarrow> contents b' = contents b"
  by (metis contents_def min.absorb1 buffer_ok_def le_trans take_take)

section \<open>What each operation does\<close>

lemma Buffer_new_ok:
  assumes m: "allocator_ok m" and sz: "0 < sz" "sz \<le> max_capacity"
  shows "\<exists>b m'. Buffer_new sz m = Inr (b, m') \<and> writable b \<and> contents b = [] \<and>
    bf_position b = 0 \<and> bf_size b = sz \<and> bf_capacity b = sz \<and>
    allocator_ok m' \<and> charged m m' (buffer_bytes b) \<and> module.more m' = module.more m"
proof -
  from Alloc_alloc_ok [OF m, of sizeof_Buffer] obtain p m1
    where a: "Alloc_alloc sizeof_Buffer m = Inr (Some p, m1)" "allocator_ok m1"
      "charged m m1 (int sizeof_Buffer)" "module.more m1 = module.more m" by blast
  from Alloc_alloc_ok [OF a(2), of sz] obtain blk m2
    where c: "Alloc_alloc sz m1 = Inr (Some blk, m2)" "length blk = sz" "allocator_ok m2"
      "charged m1 m2 (int sz)" "module.more m2 = module.more m1" by blast
  from charged_trans [OF a(3) c(4)] a c sz show ?thesis
    by (auto simp: Buffer_new_def Buffer_fill_def memset_def writable_def buffer_ok_def
          contents_def buffer_bytes_def)
qed

lemma Buffer_write_ok:
  assumes b: "writable b" and m: "allocator_ok m"
    and len: "len \<le> length str" "len < 2147483648" "bf_position b + len \<le> max_fill"
  shows "\<exists>b' m'. Buffer_write b str len m = Inr (b', m') \<and> writable b' \<and>
    contents b' = contents b @ take len str \<and> bf_position b' = bf_position b + len \<and>
    bf_size b' = bf_size b \<and>
    (bf_capacity b' = bf_capacity b \<or> bf_capacity b' < 2 * (bf_position b + len)) \<and>
    allocator_ok m' \<and> charged m m' (buffer_bytes b' - buffer_bytes b) \<and>
    module.more m' = module.more m"
proof -
  have w: "wrap32 (int len) = int len" using len by (simp add: wrap32_id)
  from Buffer_ensure_remaining_ok [OF b m, of "int len"] len obtain b1 m1
    where e: "Buffer_ensure_remaining b (int len) m = Inr (b1, m1)" "writable b1"
      "bf_position b1 = bf_position b" "bf_size b1 = bf_size b" "bf_position b + len \<le> bf_capacity b1"
      "bf_capacity b1 = bf_capacity b \<or> bf_capacity b1 < 2 * (bf_position b + len)"
      "take (bf_capacity b) (Buffer_data b1) = Buffer_data b"
      "allocator_ok m1" "charged m m1 (buffer_bytes b1 - buffer_bytes b)"
      "module.more m1 = module.more m" by auto
  have ok: "buffer_ok b" "buffer_ok b1" and lim: "bf_limit b1 = bf_capacity b1"
    using b e(2) by (auto simp: writable_def)
  from store_prefix [OF ok(2), of len str] len(1) e(3,5) lim obtain d
    where d: "memcpy (Buffer_data b1) (bf_position b1) str len = Inr d"
      "buffer_ok ((store_data d b1)\<lparr>bf_position := bf_position b1 + len\<rparr>)"
      "contents ((store_data d b1)\<lparr>bf_position := bf_position b1 + len\<rparr>) = contents b1 @ take len str"
    by auto
  have add: "size_add (bf_position b1) len = bf_position b1 + len" using e(3) len by simp
  let ?b = "(store_data d b1)\<lparr>bf_position := bf_position b1 + len\<rparr>"
  have "Buffer_write b str len m = Inr (?b, m1)" using w e(1) d(1) add by (simp add: Buffer_write_def)
  moreover have "writable ?b" using d(2) lim by (simp add: writable_def)
  moreover have "buffer_bytes ?b = buffer_bytes b1" by (simp add: buffer_bytes_def)
  ultimately show ?thesis using d e contents_extend [OF e(7,3) ok(1)] by simp
qed

lemma Buffer_clear_ok:
  assumes b: "buffer_ok b" and m: "allocator_ok m"
  shows "\<exists>b' m'. Buffer_clear b m = Inr (b', m') \<and> writable b' \<and> contents b' = [] \<and>
    bf_size b' = bf_size b \<and> bf_capacity b' = bf_size b \<and>
    allocator_ok m' \<and> charged m m' (buffer_bytes b' - buffer_bytes b) \<and>
    module.more m' = module.more m"
proof -
  let ?b = "b\<lparr>bf_ext := None, bf_position := 0, bf_limit := bf_size b, bf_capacity := bf_size b\<rparr>"
  have w: "writable ?b" using b by (auto simp: writable_def buffer_ok_def dest: ext_ok_size)
  show ?thesis
  proof (cases "bf_capacity b > bf_size b")
    case True
    from Alloc_free_ok [OF m, of "bf_capacity b"] obtain m1
      where "Alloc_free (bf_capacity b) m = Inr m1" "allocator_ok m1"
        "charged m m1 (- int (bf_capacity b))" "module.more m1 = module.more m" by blast
    with True w show ?thesis by (auto simp: Buffer_clear_def contents_def buffer_bytes_def)
  next
    case False
    then show ?thesis using w m by (auto simp: Buffer_clear_def contents_def buffer_bytes_def)
  qed
qed

lemma Buffer_free_ok:
  assumes m: "allocator_ok m"
  shows "\<exists>m'. Buffer_free b m = Inr m' \<and> allocator_ok m' \<and> charged m m' (- buffer_bytes b) \<and>
    module.more m' = module.more m"
proof -
  from Alloc_free_ok [OF m, of "bf_size b"] obtain m1
    where a: "Alloc_free (bf_size b) m = Inr m1" "allocator_ok m1" "charged m m1 (- int (bf_size b))"
      "module.more m1 = module.more m" by blast
  let ?c = "if bf_capacity b > bf_size b then int (bf_capacity b) else 0"
  obtain m2 where c: "(if bf_capacity b > bf_size b then Alloc_free (bf_capacity b) m1 else Inr m1) = Inr m2"
      "allocator_ok m2" "charged m1 m2 (- ?c)" "module.more m2 = module.more m1"
    using Alloc_free_ok [OF a(2), of "bf_capacity b"] a(2)
    by (cases "bf_capacity b > bf_size b") auto
  from Alloc_free_ok [OF c(2), of sizeof_Buffer] obtain m3
    where e: "Alloc_free sizeof_Buffer m2 = Inr m3" "allocator_ok m3"
      "charged m2 m3 (- int sizeof_Buffer)" "module.more m3 = module.more m2" by blast
  from charged_trans [OF charged_trans [OF a(3) c(3)] e(3)]
  have "charged m m3 (- buffer_bytes b)" by (simp add: buffer_bytes_def algebra_simps)
  with a c e show ?thesis by (simp add: Buffer_free_def)
qed

lemma Buffer_flip_ok:
  "buffer_ok b \<Longrightarrow> buffer_ok (Buffer_flip b) \<and> unsent (Buffer_flip b) = contents b"
  by (auto simp: buffer_ok_def Buffer_flip_def unsent_def contents_def)

text \<open>A send of \<open>k\<close> bytes moves a prefix of what is unsent onto the wire.\<close>

lemma Buffer_send_ok:
  assumes b: "buffer_ok b" and k: "\<And>k. w (bf_limit b - bf_position b) = Some k \<Longrightarrow> k \<le> bf_limit b - bf_position b"
  shows "\<exists>r sent b'. Buffer_send b w = Inr (r, sent, b') \<and> r = w (length (unsent b)) \<and>
    buffer_ok b' \<and> unsent b = sent @ unsent b' \<and> length sent = (case r of None \<Rightarrow> 0 | Some k \<Rightarrow> k) \<and>
    bf_size b' = bf_size b \<and> bf_capacity b' = bf_capacity b"
proof -
  have bnds: "bf_position b \<le> bf_limit b" "bf_limit b \<le> bf_capacity b" "bf_capacity b \<le> max_capacity"
    using b by (auto simp: buffer_ok_def)
  have len: "length (Buffer_data b) = bf_capacity b" by (rule length_Buffer_data [OF b])
  have un: "length (unsent b) = bf_limit b - bf_position b" using bnds len by (simp add: unsent_def)
  show ?thesis
  proof (cases "w (bf_limit b - bf_position b)")
    case None
    with b bnds len un show ?thesis by (auto simp: Buffer_send_def Let_def Buffer_remaining_ok)
  next
    case (Some n)
    with k have n: "n \<le> bf_limit b - bf_position b" by blast
    let ?b = "b\<lparr>bf_position := bf_position b + n\<rparr>"
    have "buffer_ok ?b" using b n bnds by (auto simp: buffer_ok_def)
    moreover have "unsent b = take n (drop (bf_position b) (Buffer_data b)) @ unsent ?b"
      using n bnds by (simp add: unsent_def drop_take min_absorb1 take_add [symmetric] add.commute
          flip: drop_drop)
    ultimately show ?thesis using Some n bnds len un
      by (simp add: Buffer_send_def Let_def Buffer_remaining_ok [OF b])
  qed
qed

text \<open>The size of a first allocation always suffices for a small command.\<close>

lemma Buffer_write_in_place:
  assumes "writable b" "bf_position b + len \<le> bf_capacity b" "len < 2147483648" "len \<le> length str"
  shows "\<exists>b'. Buffer_write b str len m = Inr (b', m) \<and> bf_capacity b' = bf_capacity b"
proof -
  have ok: "buffer_ok b" and lim: "bf_limit b = bf_capacity b" using assms(1) by (auto simp: writable_def)
  then have bnds: "bf_position b \<le> bf_limit b" "bf_limit b \<le> max_capacity" by (auto simp: buffer_ok_def)
  have "grow_limit len (bf_position b) (bf_limit b) = Some (bf_limit b)"
  proof -
    have "\<not> bf_limit b - bf_position b < len" using assms(2) lim by linarith
    with bnds show ?thesis by (subst grow_limit.simps) simp
  qed
  then have "Buffer_ensure_remaining b (int len) m = Inr (b, m)"
    using assms(3) lim by (simp add: Buffer_ensure_remaining_def)
  with assms lim length_Buffer_data [OF ok] bnds show ?thesis
    by (simp add: Buffer_write_def wrap32_id memcpy_def)
qed

section \<open>The interface\<close>

text \<open>
  What the batch code relies on when it builds a command: a sink whose writes append, never fail
  below the size bound, and charge the allocator for what they keep.
\<close>

locale byte_sink =
  fixes ok :: "'b \<Rightarrow> bool"
    and text_of :: "'b \<Rightarrow> string"
    and cost :: "'b \<Rightarrow> int"
    and put :: "'b \<Rightarrow> string \<Rightarrow> nat \<Rightarrow> 'a module_scheme \<Rightarrow> ('b \<times> 'a module_scheme) res"
  assumes put_law: "ok b \<Longrightarrow> allocator_ok m \<Longrightarrow> len \<le> length str \<Longrightarrow> len < 2147483648 \<Longrightarrow>
      length (text_of b) + len \<le> max_fill \<Longrightarrow>
      \<exists>b' m'. put b str len m = Inr (b', m') \<and> ok b' \<and> text_of b' = text_of b @ take len str \<and>
        allocator_ok m' \<and> charged m m' (cost b' - cost b) \<and> module.more m' = module.more m"
begin

text \<open>A sequence of writes appends the concatenation of its pieces.\<close>

fun writes :: "string list \<Rightarrow> 'b \<Rightarrow> 'a module_scheme \<Rightarrow> ('b \<times> 'a module_scheme) res" where
  "writes [] b m = Inr (b, m)"
| "writes (s # ss) b m = bindE (put b s (length s) m) (\<lambda>(b1, m1). writes ss b1 m1)"

lemma writes_law:
  "ok b \<Longrightarrow> allocator_ok m \<Longrightarrow> (\<And>s. s \<in> set ss \<Longrightarrow> length s < 2147483648) \<Longrightarrow>
   length (text_of b) + length (concat ss) \<le> max_fill \<Longrightarrow>
   \<exists>b' m'. writes ss b m = Inr (b', m') \<and> ok b' \<and> text_of b' = text_of b @ concat ss \<and>
     allocator_ok m' \<and> charged m m' (cost b' - cost b) \<and> module.more m' = module.more m"
proof (induction ss arbitrary: b m)
  case Nil
  then show ?case by simp
next
  case (Cons s ss)
  from put_law [OF Cons.prems(1,2), of "length s" s] Cons.prems(3,4) obtain b1 m1
    where w: "put b s (length s) m = Inr (b1, m1)" "ok b1" "text_of b1 = text_of b @ s"
      "allocator_ok m1" "charged m m1 (cost b1 - cost b)" "module.more m1 = module.more m"
    by auto
  from Cons.IH [OF w(2,4)] Cons.prems(3,4) w(3) obtain b2 m2
    where v: "writes ss b1 m1 = Inr (b2, m2)" "ok b2" "text_of b2 = text_of b1 @ concat ss"
      "allocator_ok m2" "charged m1 m2 (cost b2 - cost b1)" "module.more m2 = module.more m1"
    by auto
  from charged_trans [OF w(5) v(5)] w v show ?case by simp
qed

end

interpretation sink: byte_sink writable contents buffer_bytes Buffer_write
proof
  fix b :: buffer and m :: "'a module_scheme" and len and str :: string
  assume w: "writable b" and rest: "allocator_ok m" "len \<le> length str" "len < 2147483648"
    "length (contents b) + len \<le> max_fill"
  have "bf_position b + len \<le> max_fill"
    using rest(4) w by (simp add: length_contents writable_def)
  from Buffer_write_ok [OF w rest(1-3) this]
  show "\<exists>b' m'. Buffer_write b str len m = Inr (b', m') \<and> writable b' \<and>
      contents b' = contents b @ take len str \<and> allocator_ok m' \<and>
      charged m m' (buffer_bytes b' - buffer_bytes b) \<and> module.more m' = module.more m"
    by blast
qed

section \<open>Receiving\<close>

text \<open>
  After \<open>Buffer_ensure_remaining (capacity / 8)\<close> at least an eighth of the buffer is free, so
  \<open>read\<close> is never called with count 0 and a result 0 means the end of the stream.
\<close>

definition recv_ok :: "buffer \<Rightarrow> bool" where
  "recv_ok b \<longleftrightarrow> writable b \<and> 8 \<le> bf_capacity b \<and> bf_capacity b < 17179869184"

lemma Buffer_recv_ok:
  assumes b: "recv_ok b" and m: "allocator_ok m"
    and rd: "\<forall>n bs. sys_read n = Some bs \<longrightarrow> length bs \<le> n"
  shows "\<exists>n r b' m'. Buffer_recv b sys_read m = Inr (r, b', m') \<and> 0 < n \<and>
    r = map_option length (sys_read n) \<and> writable b' \<and> 8 \<le> bf_capacity b' \<and>
    (bf_capacity b' = bf_capacity b \<or> bf_capacity b' < 2 * (bf_position b + bf_capacity b * 256 div 2048)) \<and>
    (sys_read n = None \<longrightarrow> n = Buffer_remaining b') \<and>
    contents b' = contents b @ (case sys_read n of None \<Rightarrow> [] | Some bs \<Rightarrow> bs) \<and>
    bf_size b' = bf_size b \<and>
    allocator_ok m' \<and> charged m m' (buffer_bytes b' - buffer_bytes b) \<and>
    module.more m' = module.more m"
proof -
  let ?q = "bf_capacity b * 256 div 2048"
  have w: "writable b" and cap: "8 \<le> bf_capacity b" "bf_capacity b < 17179869184"
    using b by (auto simp: recv_ok_def)
  have ok: "buffer_ok b" and "bf_limit b = bf_capacity b" using w by (auto simp: writable_def)
  then have pos: "bf_position b \<le> bf_capacity b" by (auto simp: buffer_ok_def)
  have q: "0 < ?q" "?q < 2147483648" using cap by simp_all
  have mul: "size_mul (bf_capacity b) 256 = bf_capacity b * 256" using cap by simp
  have arg: "wrap32 (int (size_mul (bf_capacity b) 256 div 2048)) = int ?q"
    unfolding mul using q by (intro wrap32_id) linarith+
  from Buffer_ensure_remaining_ok [OF w m, of "int ?q"] q pos cap obtain b1 m1
    where e: "Buffer_ensure_remaining b (int ?q) m = Inr (b1, m1)" "writable b1"
      "bf_position b1 = bf_position b" "bf_size b1 = bf_size b" "bf_position b + ?q \<le> bf_capacity b1"
      "bf_capacity b \<le> bf_capacity b1" "take (bf_capacity b) (Buffer_data b1) = Buffer_data b"
      "bf_capacity b1 = bf_capacity b \<or> bf_capacity b1 < 2 * (bf_position b + ?q)"
      "allocator_ok m1" "charged m m1 (buffer_bytes b1 - buffer_bytes b)"
      "module.more m1 = module.more m" by fastforce
  have ok1: "buffer_ok b1" and lim1: "bf_limit b1 = bf_capacity b1" using e(2) by (auto simp: writable_def)
  let ?n = "bf_capacity b1 - bf_position b"
  have n: "0 < ?n" "Buffer_remaining b1 = ?n"
    using e(3,5) q(1) lim1 Buffer_remaining_ok [OF ok1] by simp_all
  have c1: "contents b1 = contents b" by (rule contents_extend [OF e(7,3) ok])
  show ?thesis
  proof (cases "sys_read ?n")
    case None
    with arg e n c1 cap show ?thesis by (intro exI [of _ ?n]) (simp add: Buffer_recv_def)
  next
    case (Some bs)
    with rd have bs: "length bs \<le> ?n" by blast
    then have fits: "bf_position b1 + length bs \<le> bf_limit b1" using n(1) e(3) lim1 by linarith
    from store_prefix [OF ok1 fits order_refl] obtain d
      where d: "memcpy (Buffer_data b1) (bf_position b1) bs (length bs) = Inr d"
        "buffer_ok ((store_data d b1)\<lparr>bf_position := bf_position b1 + length bs\<rparr>)"
        "contents ((store_data d b1)\<lparr>bf_position := bf_position b1 + length bs\<rparr>) = contents b1 @ bs"
      by auto
    have max1: "bf_capacity b1 \<le> max_capacity" using ok1 by (simp add: buffer_ok_def)
    have add: "size_add (bf_position b1) (length bs) = bf_position b1 + length bs"
      using bs n(1) e(3) max1 by simp
    let ?b = "(store_data d b1)\<lparr>bf_position := bf_position b1 + length bs\<rparr>"
    have "Buffer_recv b sys_read m = Inr (Some (length bs), ?b, m1)"
      using arg e(1) n Some d(1) add by (simp add: Buffer_recv_def)
    moreover have "writable ?b" using d(2) lim1 by (simp add: writable_def)
    moreover have "buffer_bytes ?b = buffer_bytes b1" by (simp add: buffer_bytes_def)
    ultimately show ?thesis using Some d c1 e cap n
      by (intro exI [of _ ?n]) simp
  qed
qed


section \<open>Properties\<close>

text \<open>A fresh buffer of 16 bytes, used in the witnesses.\<close>

lemma demo_buffer:
  "\<exists>b m. writable b \<and> contents b = [] \<and> bf_position b = 0 \<and> bf_size b = 16 \<and> bf_capacity b = 16 \<and> allocator_ok (m :: module)"
  using Buffer_new_ok [OF demo_allocator_ok, of 16] by auto

text \<open>
  C22: \<open>Buffer_write\<close> appends.  A write of fewer than \<open>2 ^ 31\<close> bytes never fails, keeps all that
  was written before and puts the new bytes behind it, growing the block when necessary by less than
  twice of what is needed; the allocator is charged for exactly the growth.
\<close>

theorem Buffer_write_appends:
  assumes "writable b" "allocator_ok m" "len \<le> length str" "len < 2147483648" "bf_position b + len \<le> max_fill"
  shows "\<exists>b' m'. Buffer_write b str len m = Inr (b', m') \<and> writable b' \<and>
    contents b' = contents b @ take len str \<and>
    (bf_capacity b' = bf_capacity b \<or> bf_capacity b' < 2 * (bf_position b + len)) \<and>
    allocator_ok m' \<and> charged m m' (buffer_bytes b' - buffer_bytes b)"
  using Buffer_write_ok [OF assms] by blast

theorem Buffer_write_appends_witness:
  "\<exists>b (m :: module) b' m'. bf_capacity b = 16 \<and> Buffer_write b (replicate 100 (CHR ''a'')) 100 m = Inr (b', m') \<and>
    contents b' = replicate 100 (CHR ''a'') \<and> bf_capacity b' < 200"
proof -
  from demo_buffer obtain b m where b: "writable b" "contents b = []" "bf_position b = 0" "bf_capacity b = 16"
    "allocator_ok (m :: module)" by blast
  from Buffer_write_appends [OF b(1,5), of 100 "replicate 100 (CHR ''a'')"] b show ?thesis by fastforce
qed

text \<open>
  C36: a length that is a multiple of \<open>2 ^ 32\<close> is written without any growth.
  \<open>Buffer_write\<close> passes its \<open>size_t\<close> length to the \<open>int\<close> parameter of \<open>Buffer_ensure_remaining\<close>,
  where it becomes 0: the block stays as it is and the \<open>memcpy\<close> runs past its end.
\<close>

theorem Buffer_write_truncated_length:
  assumes "writable b" "len mod 4294967296 = 0" "bf_capacity b < bf_position b + len"
  shows "Buffer_write b str len m = Inl OutOfBounds"
proof -
  have ok: "buffer_ok b" and lim: "bf_limit b = bf_capacity b" using assms(1) by (auto simp: writable_def)
  have "int len mod 4294967296 = 0" unfolding zmod_int [of len 4294967296, simplified, symmetric] assms(2) by simp
  then have "(int len + 2147483648) mod 4294967296 = 2147483648"
    using mod_add_left_eq [of "int len" 4294967296 2147483648] by simp
  then have w: "wrap32 (int len) = 0" by (simp add: wrap32_def)
  have "grow_limit 0 (bf_position b) (bf_limit b) = Some (bf_limit b)" by (subst grow_limit.simps) simp
  then have "Buffer_ensure_remaining b 0 m = Inr (b, m)" using lim by (simp add: Buffer_ensure_remaining_def)
  with w assms(3) show ?thesis by (simp add: Buffer_write_def memcpy_def length_Buffer_data [OF ok])
qed

theorem Buffer_write_truncated_length_witness:
  "\<exists>b (m :: module). bf_capacity b = 16 \<and>
    Buffer_write b (replicate 4294967296 (CHR ''a'')) 4294967296 m = Inl OutOfBounds"
proof -
  from demo_buffer obtain b where b: "writable b" "bf_position b = 0" "bf_capacity b = 16" by blast
  have c1: "(4294967296 :: nat) mod 4294967296 = 0" by (rule mod_self)
  have c2: "bf_capacity b < bf_position b + 4294967296" unfolding b(2,3) by simp
  show ?thesis
    by (intro exI [of _ b] exI conjI b(3) Buffer_write_truncated_length [OF b(1) c1 c2])
qed

text \<open>The send calls of \<open>Connection_write_data\<close>: \<open>ws\<close> are the kernel's answers to them.\<close>

fun sends :: "(nat \<Rightarrow> nat option) list \<Rightarrow> buffer \<Rightarrow> (string \<times> buffer) res" where
  "sends [] b = Inr ([], b)"
| "sends (w # ws) b =
     bindE (Buffer_send b w) (\<lambda>(r, sent, b1).
     bindE (sends ws b1) (\<lambda>(rest, b2). Inr (sent @ rest, b2)))"

definition obeys :: "(nat \<Rightarrow> nat option) \<Rightarrow> bool" where
  "obeys w \<longleftrightarrow> (\<forall>n k. w n = Some k \<longrightarrow> k \<le> n)"

lemma sends_ok:
  "buffer_ok b \<Longrightarrow> \<forall>w \<in> set ws. obeys w \<Longrightarrow>
   \<exists>sent b'. sends ws b = Inr (sent, b') \<and> buffer_ok b' \<and> unsent b = sent @ unsent b'"
proof (induction ws arbitrary: b)
  case Nil
  then show ?case by simp
next
  case (Cons w ws)
  have k: "k \<le> bf_limit b - bf_position b" if "w (bf_limit b - bf_position b) = Some k" for k
    using Cons.prems(2) that by (simp add: obeys_def)
  from Buffer_send_ok [OF Cons.prems(1), of w] k obtain r sent b1 where
    s: "Buffer_send b w = Inr (r, sent, b1)" "buffer_ok b1" "unsent b = sent @ unsent b1" by blast
  have "\<forall>w \<in> set ws. obeys w" using Cons.prems(2) by simp
  from Cons.IH [OF s(2) this] obtain rest b2 where
    "sends ws b1 = Inr (rest, b2)" "buffer_ok b2" "unsent b1 = rest @ unsent b2" by blast
  with s show ?case by simp
qed

text \<open>
  C24: nothing written is lost, reordered or sent twice.  After a flip, however the kernel splits the
  data (and whenever it refuses to take any), what has left the buffer followed by what is still to be
  sent is the text written to it.
\<close>

theorem Buffer_send_in_order:
  assumes "buffer_ok b" "\<forall>w \<in> set ws. obeys w"
  shows "\<exists>sent b'. sends ws (Buffer_flip b) = Inr (sent, b') \<and> sent @ unsent b' = contents b"
  using sends_ok [of "Buffer_flip b" ws] Buffer_flip_ok [OF assms(1)] assms(2) by metis

theorem Buffer_send_in_order_witness:
  "\<exists>b sent b'. bf_position b = 0 \<and> sends [\<lambda>n. None, \<lambda>n. Some (n div 2), \<lambda>n. Some n] (Buffer_flip b) = Inr (sent, b') \<and>
    sent @ unsent b' = contents b"
proof -
  from demo_buffer obtain b where b: "writable b" "bf_position b = 0" by blast
  then have "buffer_ok b" by (simp add: writable_def)
  from Buffer_send_in_order [OF this, of "[\<lambda>n. None, \<lambda>n. Some (n div 2), \<lambda>n. Some n]"]
  obtain sent b' where "sends [\<lambda>n. None, \<lambda>n. Some (n div 2), \<lambda>n. Some n] (Buffer_flip b) = Inr (sent, b')"
    "sent @ unsent b' = contents b" by (auto simp: obeys_def simp del: sends.simps)
  with b(2) show ?thesis by blast
qed

text \<open>
  C25: \<open>Buffer_recv\<close> never offers the kernel an empty space, so that an answer of 0 bytes does
  mean the end of the stream, and it appends exactly the bytes the kernel delivers.
\<close>

theorem Buffer_recv_appends:
  assumes "recv_ok b" "allocator_ok m" "\<forall>n bs. sys_read n = Some bs \<longrightarrow> length bs \<le> n"
  shows "\<exists>n r b' m'. Buffer_recv b sys_read m = Inr (r, b', m') \<and> 0 < n \<and>
    r = map_option length (sys_read n) \<and> writable b' \<and>
    contents b' = contents b @ (case sys_read n of None \<Rightarrow> [] | Some bs \<Rightarrow> bs) \<and>
    allocator_ok m' \<and> charged m m' (buffer_bytes b' - buffer_bytes b)"
  using Buffer_recv_ok [OF assms] by blast

theorem Buffer_recv_appends_witness:
  "\<exists>b (m :: module) n b' m'. Buffer_recv b (\<lambda>n. Some (take n ''+OK'')) m = Inr (Some (length (take n ''+OK'')), b', m') \<and>
    0 < n \<and> contents b' = take n ''+OK''"
proof -
  from demo_buffer obtain b m where b: "writable b" "contents b = []" "bf_capacity b = 16"
    "allocator_ok (m :: module)" by blast
  then have "recv_ok b" by (simp add: recv_ok_def)
  have len: "\<forall>n bs. Some (take n ''+OK'') = Some bs \<longrightarrow> length bs \<le> n" by auto
  from Buffer_recv_appends [OF \<open>recv_ok b\<close> b(4) len] obtain n r b' m' where
    "Buffer_recv b (\<lambda>n. Some (take n ''+OK'')) m = Inr (r, b', m')" "0 < n"
    "r = map_option length (Some (take n ''+OK''))"
    "contents b' = contents b @ (case Some (take n ''+OK'') of None \<Rightarrow> [] | Some bs \<Rightarrow> bs)" by blast
  then have "Buffer_recv b (\<lambda>n. Some (take n ''+OK'')) m = Inr (Some (length (take n ''+OK'')), b', m')" "0 < n"
    "contents b' = take n ''+OK''" unfolding b(2) option.map(2) option.case(2) append_Nil by blast+
  then show ?thesis by blast
qed

end
