(* ===== verification/Reply.thy ===== *)
theory Reply
  imports Linked_List Buffer
begin

text \<open>
  The reply objects of \<open>libredis/batch.c\<close> and the heap they live in.  A reply is known by its
  address, a number; its \<open>list\<close> member, its \<open>children\<close> head and the \<open>reply_queue\<close> head of
  each batch are nodes of one heap of \<open>list.h\<close> lists.  A reply does not own its bytes: it
  points into the read buffer or the error buffer of a batch (\<open>bufref\<close>) by offset and length.
  The heap extends the module record, since creating and freeing replies is accounted there.
  Modelled is the default, multithreaded build (\<open>ALLOC_LIST_T\<close> without \<open>SINGLETHREADED\<close>).
\<close>

datatype reply_type =
    RT_ERROR | RT_NONE | RT_OK | RT_BULK_NIL | RT_BULK | RT_MULTIBULK_NIL | RT_MULTIBULK | RT_INTEGER

fun reply_type_code :: "reply_type \<Rightarrow> int" where
  "reply_type_code RT_ERROR = -1"
| "reply_type_code RT_NONE = 0"
| "reply_type_code RT_OK = 1"
| "reply_type_code RT_BULK_NIL = 2"
| "reply_type_code RT_BULK = 3"
| "reply_type_code RT_MULTIBULK_NIL = 4"
| "reply_type_code RT_MULTIBULK = 5"
| "reply_type_code RT_INTEGER = 6"

datatype bufref = ReadBuffer nat | ErrorBuffer nat

datatype rnode = RLink nat | RChildren nat | RQueue nat

record reply =
  rep_type :: reply_type
  rep_buffer :: "bufref option"
  rep_offset :: nat
  rep_len :: nat

record rheap = module +
  rh_links :: "rnode lheap"
  rh_replies :: "nat \<Rightarrow> reply option"
  rh_next :: nat

text \<open>\<open>sizeof (Reply)\<close> on LP64.\<close>

definition sizeof_Reply :: nat where
  "sizeof_Reply = 64"

section \<open>The operations\<close>

text \<open>\<open>list_entry (node, Reply, list)\<close>: meaningful on the \<open>list\<close> member of a reply only.\<close>

fun reply_of :: "rnode \<Rightarrow> nat res" where
  "reply_of (RLink r) = Inr r"
| "reply_of _ = Inl Undefined"

definition lookup_reply :: "nat \<Rightarrow> rheap \<Rightarrow> reply res" where
  "lookup_reply r h = (case rh_replies h r of None \<Rightarrow> Inl Undefined | Some rep \<Rightarrow> Inr rep)"

definition Reply_new ::
    "reply_type \<Rightarrow> bufref option \<Rightarrow> nat \<Rightarrow> nat \<Rightarrow> rheap \<Rightarrow> (nat \<times> rheap) res" where
  "Reply_new ty buf off len h =
     bindE (Alloc_alloc sizeof_Reply h) (\<lambda>(p, h1).
     bindE (derefE p) (\<lambda>_.
       let r = rh_next h1 in
       Inr (r, h1\<lparr>rh_next := Suc r,
         rh_replies := (rh_replies h1)(r := Some \<lparr>rep_type = ty, rep_buffer = buf,
           rep_offset = off, rep_len = len\<rparr>),
         rh_links := init_list_head (RChildren r) (rh_links h1)\<rparr>)))"

definition Reply_add_child :: "nat \<Rightarrow> nat \<Rightarrow> rheap \<Rightarrow> rheap res" where
  "Reply_add_child r child h =
     bindE (list_add_tail (RLink child) (RChildren r) (rh_links h)) (\<lambda>lk.
       Inr (h\<lparr>rh_links := lk\<rparr>))"

definition Reply_has_child :: "nat \<Rightarrow> rheap \<Rightarrow> bool" where
  "Reply_has_child r h \<longleftrightarrow> \<not> list_empty (RChildren r) (rh_links h)"

definition Reply_pop_child :: "nat \<Rightarrow> rheap \<Rightarrow> (nat \<times> rheap) res" where
  "Reply_pop_child r h =
     bindE (list_pop (RChildren r) (rh_links h)) (\<lambda>(n, lk).
     bindE (reply_of n) (\<lambda>c. Inr (c, h\<lparr>rh_links := lk\<rparr>)))"

text \<open>The pointer \<open>Reply_data\<close> returns: a buffer and an offset into it.\<close>

definition Reply_length :: "nat \<Rightarrow> rheap \<Rightarrow> nat res" where
  "Reply_length r h = bindE (lookup_reply r h) (\<lambda>rep. Inr (rep_len rep))"

definition Reply_data :: "nat \<Rightarrow> rheap \<Rightarrow> (bufref \<times> nat) res" where
  "Reply_data r h =
     bindE (lookup_reply r h) (\<lambda>rep.
     bindE (assertE (rep_buffer rep \<noteq> None)) (\<lambda>_.
       Inr (the (rep_buffer rep), rep_offset rep)))"

definition Reply_type :: "nat \<Rightarrow> rheap \<Rightarrow> reply_type res" where
  "Reply_type r h = bindE (lookup_reply r h) (\<lambda>rep. Inr (rep_type rep))"

text \<open>\<open>Reply_list_free\<close> of the multithreaded build: \<open>Alloc_free_T (obj, Reply)\<close>.\<close>

definition Reply_list_free :: "nat \<Rightarrow> rheap \<Rightarrow> rheap res" where
  "Reply_list_free r h =
     bindE (Alloc_free sizeof_Reply h) (\<lambda>h1. Inr (h1\<lparr>rh_replies := (rh_replies h1)(r := None)\<rparr>))"

text \<open>
  \<open>_Reply_free\<close>.  Its loop frees the children when \<open>final\<close> is 0; freeing a child runs
  \<open>_Reply_free (child, 1)\<close> in this build, which is \<open>Reply_list_free\<close>.  \<open>Reply_free\<close> is what
  \<open>ALLOC_LIST_T\<close> makes of it: a call with \<open>final\<close> 1.
\<close>

partial_function (option) free_children :: "nat \<Rightarrow> rheap \<Rightarrow> rheap res option" where
  "free_children r h =
     (if \<not> Reply_has_child r h then Some (Inr h)
      else case bindE (Reply_pop_child r h) (\<lambda>(c, h1). Reply_list_free c h1) of
        Inl e \<Rightarrow> Some (Inl e)
      | Inr h2 \<Rightarrow> free_children r h2)"

definition Reply_free_impl :: "nat \<Rightarrow> bool \<Rightarrow> rheap \<Rightarrow> rheap res" where
  "Reply_free_impl r final h =
     bindE (if \<not> final
            then (case free_children r h of None \<Rightarrow> Inl Diverges | Some res \<Rightarrow> res)
            else Inr h) (\<lambda>h1.
       Reply_list_free r h1)"

definition Reply_free :: "nat \<Rightarrow> rheap \<Rightarrow> rheap res" where
  "Reply_free r h = Reply_free_impl r True h"

section \<open>Well-formed reply heaps\<close>

text \<open>
  \<open>B\<close> are the batches, \<open>L\<close> says which nodes hang off each head.  All lists are disjoint rings of
  \<open>list\<close> members of live replies, and the next address is fresh.
\<close>

definition heads :: "rheap \<Rightarrow> nat set \<Rightarrow> rnode set" where
  "heads h B = RChildren ` dom (rh_replies h) \<union> RQueue ` B"

definition reply_heap :: "rheap \<Rightarrow> nat set \<Rightarrow> (rnode \<Rightarrow> rnode list) \<Rightarrow> bool" where
  "reply_heap h B L \<longleftrightarrow>
     rings (rh_links h) (heads h B) L \<and>
     (\<forall>a \<in> heads h B. set (L a) \<subseteq> RLink ` dom (rh_replies h)) \<and>
     (\<forall>r \<in> dom (rh_replies h). r < rh_next h) \<and>
     allocator_ok h"

text \<open>A live reply in no list yet.\<close>

definition orphan :: "rheap \<Rightarrow> nat set \<Rightarrow> (rnode \<Rightarrow> rnode list) \<Rightarrow> nat \<Rightarrow> bool" where
  "orphan h B L r \<longleftrightarrow> r \<in> dom (rh_replies h) \<and> (\<forall>a \<in> heads h B. RLink r \<notin> set (L a))"

text \<open>What a caller sees of a reply: its record and those of its children, in order.\<close>

definition link_id :: "rnode \<Rightarrow> nat" where
  "link_id n = (case n of RLink r \<Rightarrow> r | RChildren r \<Rightarrow> r | RQueue b \<Rightarrow> b)"

definition reply_view :: "rheap \<Rightarrow> (rnode \<Rightarrow> rnode list) \<Rightarrow> nat \<Rightarrow> reply \<times> reply list" where
  "reply_view h L r =
     (the (rh_replies h r), map (\<lambda>n. the (rh_replies h (link_id n))) (L (RChildren r)))"

lemma more_rheap:
  assumes "module.more h' = module.more h"
  shows "rh_links h' = rh_links h" "rh_replies h' = rh_replies h" "rh_next h' = rh_next h"
  using assms by (cases h; cases h'; simp)+

lemma allocator_ok_rheap [simp]:
  "allocator_ok (h\<lparr>rh_links := lk\<rparr>) = allocator_ok h"
  "allocator_ok (h\<lparr>rh_replies := rs\<rparr>) = allocator_ok h"
  "allocator_ok (h\<lparr>rh_next := n\<rparr>) = allocator_ok h"
  by (simp_all add: allocator_ok_def)

lemma charged_rheap [simp]:
  "charged m (h\<lparr>rh_links := lk\<rparr>) d = charged m h d"
  "charged m (h\<lparr>rh_replies := rs\<rparr>) d = charged m h d"
  "charged m (h\<lparr>rh_next := n\<rparr>) d = charged m h d"
  "charged (h\<lparr>rh_links := lk\<rparr>) m d = charged h m d"
  by (simp_all add: charged_def)

lemma heads_simps [simp]:
  "RChildren r \<in> heads h B \<longleftrightarrow> r \<in> dom (rh_replies h)"
  "RQueue b \<in> heads h B \<longleftrightarrow> b \<in> B" "RLink r \<notin> heads h B"
  by (auto simp: heads_def)

lemma link_id_RLink [simp]: "link_id (RLink r) = r"
  by (simp add: link_id_def)

lemma orphan_free: "orphan h B L r \<Longrightarrow> RLink r \<notin> all_nodes (heads h B) L"
  by (auto simp: orphan_def all_nodes_def ring_nodes_def)

lemma reply_heap_rings: "reply_heap h B L \<Longrightarrow> rings (rh_links h) (heads h B) L"
  by (simp add: reply_heap_def)

lemma reply_heap_alloc: "reply_heap h B L \<Longrightarrow> allocator_ok h"
  by (simp add: reply_heap_def)

lemma reply_heap_cong:
  assumes "reply_heap h B L" "rh_links h' = rh_links h" "rh_replies h' = rh_replies h"
    "rh_next h' = rh_next h" "allocator_ok h'"
  shows "reply_heap h' B L"
  using assms by (simp add: reply_heap_def heads_def)

section \<open>What the operations do\<close>

lemma Reply_new_ok:
  assumes h: "reply_heap h B L"
  shows "\<exists>h'. Reply_new ty buf off len h = Inr (rh_next h, h') \<and>
    rh_replies h' = (rh_replies h)(rh_next h := Some \<lparr>rep_type = ty, rep_buffer = buf,
      rep_offset = off, rep_len = len\<rparr>) \<and>
    rh_next h \<notin> dom (rh_replies h) \<and> rh_next h' = Suc (rh_next h) \<and>
    reply_heap h' B (L(RChildren (rh_next h) := [])) \<and>
    orphan h' B (L(RChildren (rh_next h) := [])) (rh_next h) \<and>
    charged h h' (int sizeof_Reply)"
proof -
  let ?r = "rh_next h"
  from Alloc_alloc_ok [OF reply_heap_alloc [OF h], of sizeof_Reply] obtain p h1
    where a: "Alloc_alloc sizeof_Reply h = Inr (Some p, h1)" "allocator_ok h1"
      "charged h h1 (int sizeof_Reply)" "module.more h1 = module.more h" by blast
  note h1 = more_rheap [OF a(4)]
  have fresh: "?r \<notin> dom (rh_replies h)" using h by (force simp: reply_heap_def)
  have links: "set (L a) \<subseteq> RLink ` dom (rh_replies h)" if "a \<in> heads h B" for a
    using h that by (simp add: reply_heap_def)
  have "RChildren ?r \<notin> all_nodes (heads h B) L"
    using fresh links by (auto simp: all_nodes_def ring_nodes_def heads_def)
  from links.init_law [OF reply_heap_rings [OF h] this]
  have rings: "rings (init_list_head (RChildren ?r) (rh_links h)) (insert (RChildren ?r) (heads h B))
      (L(RChildren ?r := []))" .
  let ?h = "h1\<lparr>rh_next := Suc ?r,
    rh_replies := (rh_replies h)(?r := Some \<lparr>rep_type = ty, rep_buffer = buf, rep_offset = off, rep_len = len\<rparr>),
    rh_links := init_list_head (RChildren ?r) (rh_links h)\<rparr>"
  have heads: "heads ?h B = insert (RChildren ?r) (heads h B)" by (auto simp: heads_def)
  have old: "r < Suc ?r" if "rh_replies h r = Some rep" for r rep
    using h that by (auto simp: reply_heap_def intro: less_SucI)
  have "reply_heap ?h B (L(RChildren ?r := []))"
    unfolding reply_heap_def heads using rings links a(2) old by auto
  moreover have "orphan ?h B (L(RChildren ?r := [])) ?r"
    unfolding orphan_def heads using links fresh by auto
  ultimately show ?thesis using a fresh h1 by (simp add: Reply_new_def Let_def)
qed

lemma add_link_ok:
  assumes h: "reply_heap h B L" and a: "a \<in> heads h B" and c: "orphan h B L c"
  shows "\<exists>lk. list_add_tail (RLink c) a (rh_links h) = Inr lk \<and>
    reply_heap (h\<lparr>rh_links := lk\<rparr>) B (L(a := L a @ [RLink c]))"
proof -
  from links.add_tail_law [OF reply_heap_rings [OF h] a orphan_free [OF c]] obtain lk
    where "list_add_tail (RLink c) a (rh_links h) = Inr lk"
      "rings lk (heads h B) (L(a := L a @ [RLink c]))" by blast
  moreover have "heads (h\<lparr>rh_links := lk\<rparr>) B = heads h B" for lk by (simp add: heads_def)
  ultimately show ?thesis using h c a by (auto simp: reply_heap_def orphan_def)
qed

lemma Reply_add_child_ok:
  assumes "reply_heap h B L" "r \<in> dom (rh_replies h)" "orphan h B L c"
  shows "\<exists>lk. Reply_add_child r c h = Inr (h\<lparr>rh_links := lk\<rparr>) \<and>
    reply_heap (h\<lparr>rh_links := lk\<rparr>) B (L(RChildren r := L (RChildren r) @ [RLink c]))"
  using add_link_ok [OF assms(1) _ assms(3), of "RChildren r"] assms(2)
  by (auto simp: Reply_add_child_def)

lemma Reply_has_child_ok:
  "reply_heap h B L \<Longrightarrow> r \<in> dom (rh_replies h) \<Longrightarrow> Reply_has_child r h \<longleftrightarrow> L (RChildren r) \<noteq> []"
  unfolding Reply_has_child_def by (simp add: links.is_empty_law [OF reply_heap_rings])

lemma Reply_free_ok:
  assumes "reply_heap h B L" "r \<in> dom (rh_replies h)"
  shows "\<exists>h'. Reply_free r h = Inr h' \<and> rh_replies h' = (rh_replies h)(r := None) \<and>
    rh_links h' = rh_links h \<and> rh_next h' = rh_next h \<and> allocator_ok h' \<and>
    charged h h' (- int sizeof_Reply)"
proof -
  from Alloc_free_ok [OF reply_heap_alloc [OF assms(1)], of sizeof_Reply] obtain h1
    where a: "Alloc_free sizeof_Reply h = Inr h1" "allocator_ok h1"
      "charged h h1 (- int sizeof_Reply)" "module.more h1 = module.more h" by blast
  with more_rheap [OF a(4)] show ?thesis
    by (simp add: Reply_free_def Reply_free_impl_def Reply_list_free_def)
qed


text \<open>A heap without replies, on the allocator of \<open>demo_module\<close>.\<close>

definition demo_heap :: rheap where
  "demo_heap = module.extend demo_module
     \<lparr>rh_links = \<lparr>lh_next = (\<lambda>_. None), lh_prev = (\<lambda>_. None)\<rparr>, rh_replies = (\<lambda>_. None), rh_next = 0\<rparr>"

lemma demo_heap_simps [simp]:
  "alloc_malloc demo_heap = Some zero_malloc" "alloc_realloc demo_heap = Some zero_realloc"
  "alloc_free demo_heap = Some ()" "allocated demo_heap = 0" "alloc_calls demo_heap = 0"
  "rh_replies demo_heap = (\<lambda>_. None)" "rh_next demo_heap = 0"
  by (simp_all add: demo_heap_def module.defs)

lemma demo_reply_heap: "reply_heap demo_heap {} (\<lambda>_. [])"
  by (simp add: reply_heap_def heads_def rings_def allocator_ok_def zero_malloc_ok zero_realloc_ok)

end
