(* ===== verification/Reply_Parser.thy ===== *)
theory Reply_Parser
  imports Reply
begin

text \<open>
  The state machine of \<open>libredis/parser.c\<close> that turns received bytes into replies.
  \<open>parser_step\<close> is one turn of its loop: the \<open>switch\<close> over the state \<open>cs\<close>, ending in a
  \<open>continue\<close> or a \<open>return\<close>.  The out parameter \<open>reply\<close> is passed along.  Positions are
  indices into the buffer and below \<open>len\<close>, so their increments cannot wrap.
\<close>

record rparser =
  ps_p :: nat
  ps_cs :: nat
  ps_bulk_count :: int
  ps_multibulk_count :: int
  ps_multibulk_reply :: "nat option"
  ps_mark :: nat

datatype parser_result = RPR_ERROR | RPR_MORE | RPR_REPLY

datatype flow =
    Continue rparser rheap "nat option"
  | Return parser_result rparser rheap "nat option"

text \<open>\<open>sizeof (ReplyParser)\<close> on LP64.\<close>

definition sizeof_ReplyParser :: nat where
  "sizeof_ReplyParser = 40"

section \<open>Creation\<close>

definition ReplyParser_reset :: "rparser \<Rightarrow> rparser" where
  "ReplyParser_reset rp = rp\<lparr>ps_p := 0, ps_cs := 0, ps_bulk_count := 0, ps_mark := 0,
     ps_multibulk_count := 0, ps_multibulk_reply := None\<rparr>"

text \<open>\<open>raw\<close> is whatever the fresh block holds.\<close>

definition ReplyParser_new ::
    "rparser \<Rightarrow> 'a module_scheme \<Rightarrow> (rparser option \<times> 'a module_scheme) res" where
  "ReplyParser_new raw m =
     bindE (Alloc_alloc sizeof_ReplyParser m) (\<lambda>(p, m1).
       if p = None
       then Inr (None, Module_set_error ''Out of memory while allocating ReplyParser'' m1)
       else Inr (Some (ReplyParser_reset raw), m1))"

definition ReplyParser_free :: "rparser option \<Rightarrow> 'a module_scheme \<Rightarrow> 'a module_scheme res" where
  "ReplyParser_free rp m =
     (if rp = None then Inr m else Alloc_free sizeof_ReplyParser m)"

section \<open>The state machine\<close>

definition MARK :: "rparser \<Rightarrow> rparser" where
  "MARK rp = rp\<lparr>ps_mark := ps_p rp\<rparr>"

text \<open>\<open>rp->p++; rp->cs = s\<close>.\<close>

definition go :: "nat \<Rightarrow> rparser \<Rightarrow> rparser" where
  "go s rp = rp\<lparr>ps_p := Suc (ps_p rp), ps_cs := s\<rparr>"

text \<open>\<open>rp->p - rp->mark - 2\<close>.\<close>

definition line_len :: "rparser \<Rightarrow> nat" where
  "line_len rp = size_sub (size_sub (ps_p rp) (ps_mark rp)) 2"

text \<open>The common end of the two kinds of bulk reply, \<open>r\<close> being \<open>*reply\<close>.\<close>

definition finish_bulk :: "rparser \<Rightarrow> nat \<Rightarrow> rheap \<Rightarrow> flow res" where
  "finish_bulk rp r h =
     (if ps_multibulk_count rp > 0 then
        (let rp1 = rp\<lparr>ps_multibulk_count := ps_multibulk_count rp - 1\<rparr> in
         bindE (assertE (ps_multibulk_reply rp1 \<noteq> None)) (\<lambda>_.
         bindE (Reply_add_child (the (ps_multibulk_reply rp1)) r h) (\<lambda>h1.
           if ps_multibulk_count rp1 = 0
           then Inr (Return RPR_REPLY (rp1\<lparr>ps_multibulk_reply := None\<rparr>) h1 (ps_multibulk_reply rp1))
           else Inr (Continue rp1 h1 (Some r)))))
      else Inr (Return RPR_REPLY rp h (Some r)))"

text \<open>A reply that is complete in itself is created, reported and the machine is back in state 0.\<close>

definition report_line :: "reply_type \<Rightarrow> bufref \<Rightarrow> rparser \<Rightarrow> rheap \<Rightarrow> flow res" where
  "report_line ty bref rp h =
     bindE (Reply_new ty (Some bref) (ps_mark rp) (line_len rp) h) (\<lambda>(r, h1).
       Inr (Return RPR_REPLY rp h1 (Some r)))"

text \<open>The states of a bulk reply, 5 to 12.\<close>

definition bulk_step ::
    "bufref \<Rightarrow> string \<Rightarrow> nat \<Rightarrow> char \<Rightarrow> rparser \<Rightarrow> rheap \<Rightarrow> flow res" where
  "bulk_step bref data len c rp h =
     (let err = Inr (Return RPR_ERROR rp h None);
          cont = (\<lambda>rp1. Inr (Continue rp1 h None)) in
      if ps_cs rp = 5 then
        (if c = CHR ''-'' then cont (go 6 rp)
         else if isdigit c then cont (go 9 (MARK rp))
         else err)
      else if ps_cs rp = 6 then (if c = CHR ''1'' then cont (go 7 rp) else err)
      else if ps_cs rp = 7 then (if c = CHR 0x0D then cont (go 8 rp) else err)
      else if ps_cs rp = 8 then
        (if c = CHR 0x0A then
           bindE (Reply_new RT_BULK_NIL (Some bref) 0 0 h) (\<lambda>(r, h1). finish_bulk (go 0 rp) r h1)
         else err)
      else if ps_cs rp = 9 then
        (if c = CHR 0x0D then
           cont (go 10 (rp\<lparr>ps_bulk_count := atoi (drop (ps_mark rp) data)\<rparr>))
         else if isdigit c then cont (go 9 rp)
         else err)
      else if ps_cs rp = 10 then (if c = CHR 0x0A then cont (MARK (go 11 rp)) else err)
      else if ps_cs rp = 11 then
        (let n = wrap32 (int (min (to_size (ps_bulk_count rp)) (len - ps_p rp))) in
         if n = 0 \<and> c = CHR 0x0D then cont (go 12 rp)
         else if n > 0 then
           cont (rp\<lparr>ps_p := ps_p rp + nat n, ps_bulk_count := wrap32 (ps_bulk_count rp - n)\<rparr>)
         else err)
      else if ps_cs rp = 12 then
        (if c = CHR 0x0A then
           bindE (assertE (ps_bulk_count rp = 0)) (\<lambda>_.
           bindE (Reply_new RT_BULK (Some bref) (ps_mark rp) (line_len (go 0 rp)) h) (\<lambda>(r, h1).
             finish_bulk (go 0 rp) r h1))
         else err)
      else err)"

text \<open>The states of a multibulk reply, 13 to 18.\<close>

definition multibulk_step ::
    "bufref \<Rightarrow> string \<Rightarrow> nat \<Rightarrow> char \<Rightarrow> rparser \<Rightarrow> rheap \<Rightarrow> flow res" where
  "multibulk_step bref data len c rp h =
     (let err = Inr (Return RPR_ERROR rp h None);
          cont = (\<lambda>rp1. Inr (Continue rp1 h None)) in
      if ps_cs rp = 13 then
        (if c = CHR ''-'' then cont (go 14 rp)
         else if isdigit c then cont (go 17 (MARK rp))
         else err)
      else if ps_cs rp = 14 then (if c = CHR ''1'' then cont (go 15 rp) else err)
      else if ps_cs rp = 15 then (if c = CHR 0x0D then cont (go 16 rp) else err)
      else if ps_cs rp = 16 then
        (if c = CHR 0x0A then
           bindE (Reply_new RT_MULTIBULK_NIL None 0 0 h) (\<lambda>(r, h1).
             Inr (Return RPR_REPLY (go 0 rp) h1 (Some r)))
         else err)
      else if ps_cs rp = 17 then
        (if c = CHR 0x0D then
           (let n = atoi (drop (ps_mark rp) data) in
            bindE (Reply_new RT_MULTIBULK None 0 (to_size n) h) (\<lambda>(r, h1).
              Inr (Continue (go 18 (rp\<lparr>ps_multibulk_count := n, ps_multibulk_reply := Some r\<rparr>)) h1 None)))
         else if isdigit c then cont (go 17 rp)
         else err)
      else if ps_cs rp = 18 then
        (if c = CHR 0x0A then
           (if ps_multibulk_count rp = 0
            then Inr (Return RPR_REPLY ((go 0 rp)\<lparr>ps_multibulk_reply := None\<rparr>) h (ps_multibulk_reply rp))
            else cont (go 0 rp))
         else err)
      else err)"

text \<open>The whole \<open>switch\<close>: line, error and integer replies here, the others in their groups.\<close>

definition parser_step ::
    "bufref \<Rightarrow> string \<Rightarrow> nat \<Rightarrow> char \<Rightarrow> rparser \<Rightarrow> rheap \<Rightarrow> flow res" where
  "parser_step bref data len c rp h =
     (let err = Inr (Return RPR_ERROR rp h None);
          cont = (\<lambda>rp1. Inr (Continue rp1 h None)) in
      if ps_cs rp = 0 then
        (if c = CHR ''$'' then cont (go 5 rp)
         else if ps_multibulk_count rp = 0 then
           (if c = CHR ''+'' then cont (MARK (go 1 rp))
            else if c = CHR ''-'' then cont (MARK (go 3 rp))
            else if c = CHR ''*'' then cont (go 13 rp)
            else if c = CHR '':'' then cont (MARK (go 19 rp))
            else err)
         else err)
      else if ps_cs rp = 1 then
        (if c = CHR 0x0D then cont (go 2 rp) else cont (go 1 rp))
      else if ps_cs rp = 2 then
        (if c = CHR 0x0A then report_line RT_OK bref (go 0 rp) h else err)
      else if ps_cs rp = 3 then
        (if c = CHR 0x0D then cont (go 4 rp) else cont (go 3 rp))
      else if ps_cs rp = 4 then
        (if c = CHR 0x0A then report_line RT_ERROR bref (go 0 rp) h else err)
      else if 5 \<le> ps_cs rp \<and> ps_cs rp \<le> 12 then bulk_step bref data len c rp h
      else if 13 \<le> ps_cs rp \<and> ps_cs rp \<le> 18 then multibulk_step bref data len c rp h
      else if ps_cs rp = 19 then
        (if c = CHR 0x0D then cont (go 20 rp) else cont (go 19 rp))
      else if ps_cs rp = 20 then
        (if c = CHR 0x0A then report_line RT_INTEGER bref (go 0 rp) h else err)
      else err)"

lemmas parser_step_defs = parser_step_def bulk_step_def multibulk_step_def

lemma go_sel [simp]:
  "ps_p (go s rp) = Suc (ps_p rp)" "ps_cs (go s rp) = s" "ps_bulk_count (go s rp) = ps_bulk_count rp"
  "ps_multibulk_count (go s rp) = ps_multibulk_count rp"
  "ps_multibulk_reply (go s rp) = ps_multibulk_reply rp" "ps_mark (go s rp) = ps_mark rp"
  by (simp_all add: go_def)

lemma MARK_sel [simp]:
  "ps_p (MARK rp) = ps_p rp" "ps_cs (MARK rp) = ps_cs rp" "ps_bulk_count (MARK rp) = ps_bulk_count rp"
  "ps_multibulk_count (MARK rp) = ps_multibulk_count rp"
  "ps_multibulk_reply (MARK rp) = ps_multibulk_reply rp" "ps_mark (MARK rp) = ps_p rp"
  by (simp_all add: MARK_def)

text \<open>Every turn that continues has moved forward: the loop terminates on every input.\<close>

lemma parser_step_progress:
  assumes "parser_step bref data len c rp h = Inr (Continue rp' h' out)"
  shows "ps_p rp < ps_p rp'"
  using assms
  by (auto simp: parser_step_defs Let_def bindE_eq_Inr report_line_def finish_bulk_def
      split: if_splits prod.splits)

function parser_loop ::
    "bufref \<Rightarrow> string \<Rightarrow> nat \<Rightarrow> rparser \<Rightarrow> rheap \<Rightarrow> nat option \<Rightarrow>
     (parser_result \<times> rparser \<times> rheap \<times> nat option) res" where
  "parser_loop bref data len rp h out =
     (if ps_p rp < len then
        bindE (if ps_p rp < length data then Inr (data ! ps_p rp) else Inl OutOfBounds) (\<lambda>c.
        bindE (parser_step bref data len c rp h) (\<lambda>f.
          case f of
            Continue rp1 h1 out1 \<Rightarrow> parser_loop bref data len rp1 h1 out1
          | Return res rp1 h1 out1 \<Rightarrow> Inr (res, rp1, h1, out1)))
      else
        bindE (assertE (ps_p rp = len)) (\<lambda>_. Inr (RPR_MORE, rp, h, out)))"
  by pat_completeness auto
termination
  by (relation "measure (\<lambda>(bref, data, len, rp, h, out). len - ps_p rp)")
    (auto dest: parser_step_progress intro: diff_less_mono2)

declare parser_loop.simps [simp del]

definition ReplyParser_execute ::
    "rparser \<Rightarrow> bufref \<Rightarrow> string \<Rightarrow> nat \<Rightarrow> nat option \<Rightarrow> rheap \<Rightarrow>
     (parser_result \<times> rparser \<times> rheap \<times> nat option) res" where
  "ReplyParser_execute rp bref data len out h =
     bindE (assertE (ps_p rp \<le> len)) (\<lambda>_. parser_loop bref data len rp h out)"



section \<open>The invariant\<close>

text \<open>
  \<open>mark\<close> is behind \<open>p\<close>, in the states after a line's \<open>CR\<close> strictly; while a count is read, the
  bytes since \<open>mark\<close> are digits; a multibulk under construction has its reply object.
\<close>

definition int32 :: "int \<Rightarrow> bool" where
  "int32 x \<longleftrightarrow> - 2147483648 \<le> x \<and> x < 2147483648"

definition machine_inv :: "string \<Rightarrow> rparser \<Rightarrow> bool" where
  "machine_inv data rp \<longleftrightarrow>
     ps_cs rp \<le> 20 \<and> ps_mark rp \<le> ps_p rp \<and>
     (ps_cs rp \<in> {2, 4, 12, 20} \<longrightarrow> ps_mark rp < ps_p rp) \<and>
     (ps_cs rp = 12 \<longrightarrow> ps_bulk_count rp = 0) \<and>
     (ps_cs rp \<in> {9, 17} \<longrightarrow> ps_mark rp < ps_p rp \<and>
        (\<forall>i. ps_mark rp \<le> i \<and> i < ps_p rp \<longrightarrow> isdigit (data ! i))) \<and>
     int32 (ps_bulk_count rp) \<and> int32 (ps_multibulk_count rp) \<and>
     (ps_multibulk_count rp \<noteq> 0 \<or> ps_cs rp = 18 \<longrightarrow> ps_multibulk_reply rp \<noteq> None)"

definition pending_ok :: "nat option \<Rightarrow> rheap \<Rightarrow> nat set \<Rightarrow> (rnode \<Rightarrow> rnode list) \<Rightarrow> bool" where
  "pending_ok mr h B L \<longleftrightarrow>
     (\<forall>m. mr = Some m \<longrightarrow> orphan h B L m \<and> rep_type (the (rh_replies h m)) = RT_MULTIBULK)"

text \<open>
  Every reply on the heap: its bytes lie in the first \<open>p\<close> bytes of the buffer, a type that carries
  data has a buffer, and only a multibulk has children, which are bulks or nil bulks.
\<close>

definition reply_ok :: "bufref \<Rightarrow> nat \<Rightarrow> rheap \<Rightarrow> (rnode \<Rightarrow> rnode list) \<Rightarrow> nat \<Rightarrow> reply \<Rightarrow> bool" where
  "reply_ok bref p h L r rep \<longleftrightarrow>
     (rep_buffer rep = Some bref \<longrightarrow> rep_offset rep + rep_len rep \<le> p) \<and>
     (rep_type rep \<in> {RT_OK, RT_ERROR, RT_BULK, RT_INTEGER} \<longrightarrow> rep_buffer rep \<noteq> None) \<and>
     (rep_type rep \<noteq> RT_MULTIBULK \<longrightarrow> L (RChildren r) = []) \<and>
     (\<forall>n \<in> set (L (RChildren r)). rep_type (the (rh_replies h (link_id n))) \<in> {RT_BULK, RT_BULK_NIL})"

definition replies_ok :: "bufref \<Rightarrow> nat \<Rightarrow> rheap \<Rightarrow> (rnode \<Rightarrow> rnode list) \<Rightarrow> bool" where
  "replies_ok bref p h L \<longleftrightarrow> (\<forall>r rep. rh_replies h r = Some rep \<longrightarrow> reply_ok bref p h L r rep)"

definition parser_inv ::
    "bufref \<Rightarrow> string \<Rightarrow> nat set \<Rightarrow> rparser \<Rightarrow> rheap \<Rightarrow> (rnode \<Rightarrow> rnode list) \<Rightarrow> bool" where
  "parser_inv bref data B rp h L \<longleftrightarrow>
     machine_inv data rp \<and> pending_ok (ps_multibulk_reply rp) h B L \<and>
     reply_heap h B L \<and> replies_ok bref (ps_p rp) h L"

text \<open>A reply that hangs in no list is not put into one.\<close>

definition keeps_unlinked ::
    "nat set \<Rightarrow> rheap \<Rightarrow> (rnode \<Rightarrow> rnode list) \<Rightarrow> rheap \<Rightarrow> (rnode \<Rightarrow> rnode list) \<Rightarrow> bool" where
  "keeps_unlinked B h L h' L' \<longleftrightarrow>
     (\<forall>a \<in> heads h' B. \<forall>r \<in> dom (rh_replies h). RLink r \<in> set (L' a) \<longrightarrow>
        a \<in> heads h B \<and> RLink r \<in> set (L a))"

lemma keeps_unlinked_refl [simp]: "keeps_unlinked B h L h L"
  by (simp add: keeps_unlinked_def)

lemma keeps_unlinked_trans:
  "keeps_unlinked B h L h1 L1 \<Longrightarrow> keeps_unlinked B h1 L1 h2 L2 \<Longrightarrow> rh_replies h \<subseteq>\<^sub>m rh_replies h1 \<Longrightarrow>
   keeps_unlinked B h L h2 L2"
  unfolding keeps_unlinked_def using map_le_implies_dom_le by blast

text \<open>
  How the heap may change: replies are added, existing lists stay as they are except the children
  of the multibulk under construction, no old reply is linked anew, and the allocator is charged
  for the new replies.
\<close>

definition grows ::
    "nat option \<Rightarrow> nat set \<Rightarrow> rheap \<Rightarrow> (rnode \<Rightarrow> rnode list) \<Rightarrow> rheap \<Rightarrow> (rnode \<Rightarrow> rnode list) \<Rightarrow> bool" where
  "grows mr B h L h' L' \<longleftrightarrow>
     rh_replies h \<subseteq>\<^sub>m rh_replies h' \<and> rh_next h \<le> rh_next h' \<and>
     (\<forall>a \<in> heads h B. Some a \<noteq> map_option RChildren mr \<longrightarrow> L' a = L a) \<and>
     keeps_unlinked B h L h' L' \<and>
     charged h h' (int sizeof_Reply * (int (rh_next h') - int (rh_next h)))"

lemma grows_refl [simp]: "grows mr B h L h L"
  by (simp add: grows_def)

lemma map_le_heads: "rh_replies h \<subseteq>\<^sub>m rh_replies h' \<Longrightarrow> heads h B \<subseteq> heads h' B"
  by (auto simp: heads_def map_le_def dom_def)

lemma grows_trans:
  assumes "grows mr B h L h1 L1" "grows mr1 B h1 L1 h2 L2"
    and "mr1 = mr \<or> (\<forall>m. mr1 = Some m \<longrightarrow> m \<notin> dom (rh_replies h))"
  shows "grows mr B h L h2 L2"
proof -
  have le: "rh_replies h \<subseteq>\<^sub>m rh_replies h2"
    using assms(1,2) map_le_trans by (auto simp: grows_def)
  have "charged h h2 (int sizeof_Reply * (int (rh_next h1) - int (rh_next h)) +
      int sizeof_Reply * (int (rh_next h2) - int (rh_next h1)))"
    using assms(1,2) charged_trans unfolding grows_def by blast
  then have ch: "charged h h2 (int sizeof_Reply * (int (rh_next h2) - int (rh_next h)))"
    by (simp add: algebra_simps)
  have "L2 a = L a" if "a \<in> heads h B" "Some a \<noteq> map_option RChildren mr" for a
  proof -
    have "L1 a = L a" using assms(1) that by (simp add: grows_def)
    moreover have "a \<in> heads h1 B" using assms(1) that map_le_heads by (auto simp: grows_def)
    moreover have "Some a \<noteq> map_option RChildren mr1"
      using assms(3) that by (cases mr1; cases mr) (auto simp: heads_def)
    ultimately show ?thesis using assms(2) by (simp add: grows_def)
  qed
  moreover have "keeps_unlinked B h L h2 L2"
    using assms(1,2) keeps_unlinked_trans unfolding grows_def by blast
  ultimately show ?thesis using le ch assms(1,2) by (simp add: grows_def)
qed

lemma replies_ok_mono: "replies_ok bref p h L \<Longrightarrow> p \<le> q \<Longrightarrow> replies_ok bref q h L"
  unfolding replies_ok_def reply_ok_def by (meson le_trans)

section \<open>One turn keeps the invariant\<close>

text \<open>The turns that leave the heap alone.\<close>

definition quiet :: "nat \<Rightarrow> bool" where
  "quiet s \<longleftrightarrow> s \<notin> {2, 4, 8, 12, 16, 17, 18, 20}"

lemma bulk_n_exact:
  assumes "int32 k" "d < 2147483648"
  shows "wrap32 (int (min (to_size k) d)) = int (min (to_size k) d)"
  using assms by (intro wrap32_id) auto

lemma to_size_0_iff: "int32 k \<Longrightarrow> to_size k = 0 \<longleftrightarrow> k = 0"
proof
  assume k: "int32 k" "to_size k = 0"
  then have "k mod 18446744073709551616 \<le> 0" by (simp add: to_size_def)
  moreover have "0 \<le> k mod 18446744073709551616" by simp
  ultimately have "18446744073709551616 dvd k" by (simp add: dvd_eq_mod_eq_0)
  moreover have "\<bar>k\<bar> < 18446744073709551616" using k(1) by (auto simp: int32_def)
  ultimately show "k = 0" using zdvd_not_zless [of "\<bar>k\<bar>" 18446744073709551616] by fastforce
qed simp

lemma int32_0 [simp]: "int32 0"
  by (simp add: int32_def)

lemma int32_wrap32 [simp]: "int32 (wrap32 x)"
  by (simp add: int32_def wrap32_range)

lemma int32_atoi [simp]: "int32 (atoi s)"
  by (simp add: int32_def atoi_range)

lemma isdigit_snoc:
  "(\<forall>i. m \<le> i \<and> i < p \<longrightarrow> isdigit (data ! i)) \<Longrightarrow> isdigit (data ! p) \<Longrightarrow>
   \<forall>i. m \<le> i \<and> i < Suc p \<longrightarrow> isdigit (data ! i)"
  by (auto simp: less_Suc_eq)


text \<open>Each state's turn on its own.\<close>

lemma step0: "ps_cs rp = 0 \<Longrightarrow> parser_step bref data len c rp h =
    (if c = CHR ''$'' then Inr (Continue (go 5 rp) h None)
     else if ps_multibulk_count rp = 0 then
       (if c = CHR ''+'' then Inr (Continue (MARK (go 1 rp)) h None)
        else if c = CHR ''-'' then Inr (Continue (MARK (go 3 rp)) h None)
        else if c = CHR ''*'' then Inr (Continue (go 13 rp) h None)
        else if c = CHR '':'' then Inr (Continue (MARK (go 19 rp)) h None)
        else Inr (Return RPR_ERROR rp h None))
     else Inr (Return RPR_ERROR rp h None))"
  by (simp add: parser_step_defs Let_def)

text \<open>The two states that skip to the end of a line, and those that expect one byte.\<close>

lemma step_line: "ps_cs rp \<in> {1, 3, 19} \<Longrightarrow> parser_step bref data len c rp h =
    Inr (Continue (if c = CHR 0x0D then go (Suc (ps_cs rp)) rp else go (ps_cs rp) rp) h None)"
  by (elim insertE emptyE) (simp_all add: parser_step_defs Let_def)

definition expected :: "nat \<Rightarrow> char" where
  "expected s = (if s \<in> {6, 14} then CHR ''1'' else if s \<in> {7, 15} then CHR 0x0D else CHR 0x0A)"

lemma step_expect: "ps_cs rp \<in> {6, 7, 14, 15} \<Longrightarrow> parser_step bref data len c rp h =
    (if c = expected (ps_cs rp) then Inr (Continue (go (Suc (ps_cs rp)) rp) h None)
     else Inr (Return RPR_ERROR rp h None))"
  by (elim insertE emptyE) (simp_all add: parser_step_defs Let_def expected_def)

lemma step5: "ps_cs rp = 5 \<Longrightarrow> parser_step bref data len c rp h =
    (if c = CHR ''-'' then Inr (Continue (go 6 rp) h None)
     else if isdigit c then Inr (Continue (go 9 (MARK rp)) h None)
     else Inr (Return RPR_ERROR rp h None))"
  by (simp add: parser_step_defs Let_def)

lemma step9: "ps_cs rp = 9 \<Longrightarrow> parser_step bref data len c rp h =
    (if c = CHR 0x0D
     then Inr (Continue (go 10 (rp\<lparr>ps_bulk_count := atoi (drop (ps_mark rp) data)\<rparr>)) h None)
     else if isdigit c then Inr (Continue (go 9 rp) h None)
     else Inr (Return RPR_ERROR rp h None))"
  by (simp add: parser_step_defs Let_def)

lemma step10: "ps_cs rp = 10 \<Longrightarrow> parser_step bref data len c rp h =
    (if c = CHR 0x0A then Inr (Continue (MARK (go 11 rp)) h None)
     else Inr (Return RPR_ERROR rp h None))"
  by (simp add: parser_step_defs Let_def)

lemma step13: "ps_cs rp = 13 \<Longrightarrow> parser_step bref data len c rp h =
    (if c = CHR ''-'' then Inr (Continue (go 14 rp) h None)
     else if isdigit c then Inr (Continue (go 17 (MARK rp)) h None)
     else Inr (Return RPR_ERROR rp h None))"
  by (simp add: parser_step_defs Let_def)

text \<open>State 11, where the bytes of a bulk are counted off.\<close>

lemma step11:
  assumes "ps_cs rp = 11" "int32 (ps_bulk_count rp)" "ps_p rp < len" "len < 2147483648"
  shows "parser_step bref data len c rp h =
    (let n = min (to_size (ps_bulk_count rp)) (len - ps_p rp) in
     if ps_bulk_count rp = 0 then
       (if c = CHR 0x0D then Inr (Continue (go 12 rp) h None) else Inr (Return RPR_ERROR rp h None))
     else Inr (Continue (rp\<lparr>ps_p := ps_p rp + n,
       ps_bulk_count := wrap32 (ps_bulk_count rp - int n)\<rparr>) h None))"
proof -
  let ?n = "min (to_size (ps_bulk_count rp)) (len - ps_p rp)"
  have n: "wrap32 (int ?n) = int ?n" using assms by (intro bulk_n_exact) auto
  have "?n = 0 \<longleftrightarrow> ps_bulk_count rp = 0"
    using assms(3) to_size_0_iff [OF assms(2)] by (auto simp: min_def)
  with assms(1) show ?thesis by (auto simp: parser_step_defs Let_def n)
qed

lemma not_digit_signs [simp]: "\<not> isdigit (CHR ''-'')" "\<not> isdigit (CHR 0x0A)"
  by (simp_all add: isdigit_def char_code_def)

lemmas quiet_steps = step0 step_line step_expect step5 step9 step10 step13

definition quiet_result ::
    "string \<Rightarrow> nat \<Rightarrow> rparser \<Rightarrow> rheap \<Rightarrow> flow res \<Rightarrow> bool" where
  "quiet_result data len rp h res \<longleftrightarrow> res = Inr (Return RPR_ERROR rp h None) \<or>
    (\<exists>rp'. res = Inr (Continue rp' h None) \<and>
      machine_inv data rp' \<and> ps_p rp < ps_p rp' \<and> ps_p rp' \<le> len \<and>
      ps_multibulk_reply rp' = ps_multibulk_reply rp)"

lemma quiet_cases:
  "quiet s \<Longrightarrow> s \<le> 20 \<Longrightarrow> s = 0 \<or> s \<in> {1, 3, 19} \<or> s \<in> {6, 7, 14, 15} \<or> s = 5 \<or> s = 9 \<or> s = 10 \<or>
   s = 11 \<or> s = 13"
  unfolding quiet_def by simp presburger

lemma quiet_digits:
  assumes "machine_inv data rp" "ps_cs rp \<in> {9, 17}" "isdigit (data ! ps_p rp)"
  shows "machine_inv data (go (ps_cs rp) rp)"
  using assms isdigit_snoc [of "ps_mark rp" "ps_p rp" data] by (auto simp: machine_inv_def)

lemma parser_step_quiet:
  assumes q: "quiet (ps_cs rp)" and m: "machine_inv data rp"
    and len: "ps_p rp < len" "len < 2147483648"
  shows "quiet_result data len rp h (parser_step bref data len (data ! ps_p rp) rp h)"
proof -
  have ps: "ps_cs rp \<le> 20" "ps_mark rp \<le> ps_p rp" "int32 (ps_bulk_count rp)"
    "int32 (ps_multibulk_count rp)" "ps_multibulk_count rp \<noteq> 0 \<longrightarrow> ps_multibulk_reply rp \<noteq> None"
    using m by (auto simp: machine_inv_def)
  from quiet_cases [OF q ps(1)] show ?thesis
  proof (elim disjE)
    assume "ps_cs rp = 0"
    then show ?thesis using ps len by (auto simp: step0 quiet_result_def machine_inv_def)
  next
    assume "ps_cs rp \<in> {1, 3, 19}"
    then show ?thesis using ps len by (auto simp: step_line quiet_result_def machine_inv_def)
  next
    assume "ps_cs rp \<in> {6, 7, 14, 15}"
    then show ?thesis using ps len by (auto simp: step_expect quiet_result_def machine_inv_def)
  next
    assume "ps_cs rp = 5"
    then show ?thesis using ps len by (auto simp: step5 quiet_result_def machine_inv_def less_Suc_eq)
  next
    assume s: "ps_cs rp = 9"
    then show ?thesis using ps len quiet_digits [OF m] by (auto simp: step9 quiet_result_def machine_inv_def)
  next
    assume "ps_cs rp = 10"
    then show ?thesis using ps len by (auto simp: step10 quiet_result_def machine_inv_def)
  next
    assume s: "ps_cs rp = 11"
    have "ps_bulk_count rp \<noteq> 0 \<Longrightarrow> 0 < to_size (ps_bulk_count rp)" using ps(3) to_size_0_iff by fastforce
    with s show ?thesis
      using ps len by (auto simp: step11 quiet_result_def machine_inv_def Let_def)
  next
    assume "ps_cs rp = 13"
    then show ?thesis using ps len by (auto simp: step13 quiet_result_def machine_inv_def less_Suc_eq)
  qed
qed

section \<open>The turns that create replies\<close>

definition heap_inv ::
    "bufref \<Rightarrow> nat \<Rightarrow> nat option \<Rightarrow> nat set \<Rightarrow> rheap \<Rightarrow> (rnode \<Rightarrow> rnode list) \<Rightarrow> bool" where
  "heap_inv bref p mr B h L \<longleftrightarrow>
     pending_ok mr h B L \<and> reply_heap h B L \<and> replies_ok bref p h L"

lemma parser_inv_heap:
  "parser_inv bref data B rp h L \<longleftrightarrow>
   machine_inv data rp \<and> heap_inv bref (ps_p rp) (ps_multibulk_reply rp) B h L"
  by (simp add: parser_inv_def heap_inv_def)

lemma heap_inv_mono: "heap_inv bref p mr B h L \<Longrightarrow> p \<le> q \<Longrightarrow> heap_inv bref q mr B h L"
  unfolding heap_inv_def using replies_ok_mono by blast

lemma heap_inv_None: "heap_inv bref p mr B h L \<Longrightarrow> heap_inv bref p None B h L"
  by (simp add: heap_inv_def pending_ok_def)

text \<open>What a caller may assume of a reply it is handed, \<open>mr\<close> being the one still pending.\<close>

definition handed :: "nat option \<Rightarrow> nat set \<Rightarrow> rheap \<Rightarrow> (rnode \<Rightarrow> rnode list) \<Rightarrow> nat option \<Rightarrow> bool" where
  "handed mr B h L out \<longleftrightarrow> (\<exists>r. out = Some r \<and> orphan h B L r \<and> mr \<noteq> Some r)"

text \<open>Where it comes from: it is new, or it is the multibulk that was pending.\<close>

definition own_reply :: "nat option \<Rightarrow> rheap \<Rightarrow> nat option \<Rightarrow> bool" where
  "own_reply mr h out \<longleftrightarrow> (\<forall>r. out = Some r \<longrightarrow> r \<in> dom (rh_replies h) \<longrightarrow> mr = Some r)"

definition own_pending :: "nat option \<Rightarrow> rheap \<Rightarrow> nat option \<Rightarrow> bool" where
  "own_pending mr h mr' \<longleftrightarrow> mr' = mr \<or> (\<forall>m. mr' = Some m \<longrightarrow> m \<notin> dom (rh_replies h))"

lemma own_reply_new [simp]: "r \<notin> dom (rh_replies h) \<Longrightarrow> own_reply mr h (Some r)"
  by (auto simp: own_reply_def)

lemma own_reply_self [simp]: "own_reply (Some r) h (Some r)"
  by (simp add: own_reply_def)

lemma own_pending_new [simp]: "m \<notin> dom (rh_replies h) \<Longrightarrow> own_pending mr h (Some m)"
  by (simp add: own_pending_def)

lemma own_pending_refl [simp]: "own_pending mr h mr"
  by (simp add: own_pending_def)

lemma own_pending_None [simp]: "own_pending mr h None"
  by (simp add: own_pending_def)

lemma links_of_live:
  "reply_heap h B L \<Longrightarrow> rh_replies h r = Some rep \<Longrightarrow> n \<in> set (L (RChildren r)) \<Longrightarrow>
   \<exists>c. n = RLink c \<and> c \<in> dom (rh_replies h)"
  unfolding reply_heap_def using heads_simps(1) [of r h B] by blast

lemma Reply_new_inv:
  assumes i: "heap_inv bref p mr B h L" and pq: "p \<le> q"
    and new: "buf = Some bref \<Longrightarrow> off + len \<le> q"
      "ty \<in> {RT_OK, RT_ERROR, RT_BULK, RT_INTEGER} \<Longrightarrow> buf \<noteq> None"
  shows "\<exists>h'. Reply_new ty buf off len h = Inr (rh_next h, h') \<and>
    rh_replies h' = (rh_replies h)(rh_next h := Some \<lparr>rep_type = ty, rep_buffer = buf,
      rep_offset = off, rep_len = len\<rparr>) \<and>
    rh_next h \<notin> dom (rh_replies h) \<and> rh_next h' = Suc (rh_next h) \<and>
    heap_inv bref q mr B h' (L(RChildren (rh_next h) := [])) \<and>
    handed mr B h' (L(RChildren (rh_next h) := [])) (Some (rh_next h)) \<and>
    grows mr B h L h' (L(RChildren (rh_next h) := []))"
proof -
  have rh: "reply_heap h B L" and pd: "pending_ok mr h B L" and rs: "replies_ok bref p h L"
    using i by (auto simp: heap_inv_def)
  let ?r = "rh_next h" and ?L = "L(RChildren (rh_next h) := [])"
  from Reply_new_ok [OF rh, of ty buf off len] obtain h' where h':
    "Reply_new ty buf off len h = Inr (?r, h')"
    "rh_replies h' = (rh_replies h)(?r := Some \<lparr>rep_type = ty, rep_buffer = buf,
      rep_offset = off, rep_len = len\<rparr>)"
    "?r \<notin> dom (rh_replies h)" "rh_next h' = Suc ?r" "reply_heap h' B ?L"
    "orphan h' B ?L ?r" "charged h h' (int sizeof_Reply)" by blast
  have heads: "heads h' B = insert (RChildren ?r) (heads h B)" by (auto simp: h'(2) heads_def)
  have pend: "pending_ok mr h' B ?L" "mr \<noteq> Some ?r"
    using pd h'(3) by (auto simp: pending_ok_def orphan_def h'(2) heads)
  have "reply_ok bref q h' ?L r rep" if r: "rh_replies h r = Some rep" for r rep
  proof -
    have "r \<noteq> ?r" using r h'(3) by auto
    moreover have "\<forall>n \<in> set (L (RChildren r)). link_id n \<noteq> ?r"
      using links_of_live [OF rh r] h'(3) by force
    moreover have "reply_ok bref p h L r rep" using rs r by (simp add: replies_ok_def)
    ultimately show ?thesis using pq by (auto simp: reply_ok_def h'(2))
  qed
  moreover have "reply_ok bref q h' ?L ?r \<lparr>rep_type = ty, rep_buffer = buf, rep_offset = off, rep_len = len\<rparr>"
    using new by (auto simp: reply_ok_def)
  ultimately have "replies_ok bref q h' ?L" by (auto simp: replies_ok_def h'(2))
  moreover have "grows mr B h L h' ?L"
  proof -
    have "rh_replies h \<subseteq>\<^sub>m rh_replies h'" using h'(3) by (auto simp: h'(2) map_le_def)
    moreover have "RChildren ?r \<notin> heads h B" using h'(3) by (auto simp: heads_def)
    then have "\<forall>a \<in> heads h B. ?L a = L a" by auto
    moreover have "keeps_unlinked B h L h' ?L" unfolding keeps_unlinked_def heads by simp
    ultimately show ?thesis using h'(4,7) by (simp add: grows_def)
  qed
  ultimately show ?thesis using h' pend by (auto simp: heap_inv_def handed_def)
qed

lemma Reply_add_child_inv:
  assumes i: "heap_inv bref p (Some m) B h L" and c: "handed (Some m) B h L (Some c)"
    and ty: "rep_type (the (rh_replies h c)) \<in> {RT_BULK, RT_BULK_NIL}"
    and g: "grows (Some m) B h0 L0 h L" "c \<notin> dom (rh_replies h0)"
  shows "\<exists>lk. Reply_add_child m c h = Inr (h\<lparr>rh_links := lk\<rparr>) \<and>
    heap_inv bref p (Some m) B (h\<lparr>rh_links := lk\<rparr>) (L(RChildren m := L (RChildren m) @ [RLink c])) \<and>
    grows (Some m) B h0 L0 (h\<lparr>rh_links := lk\<rparr>) (L(RChildren m := L (RChildren m) @ [RLink c]))"
proof -
  have rh: "reply_heap h B L" and m: "orphan h B L m" "rep_type (the (rh_replies h m)) = RT_MULTIBULK"
    and rs: "replies_ok bref p h L" and c: "orphan h B L c" "m \<noteq> c"
    using i c by (auto simp: heap_inv_def pending_ok_def handed_def)
  from m have md: "m \<in> dom (rh_replies h)" by (simp add: orphan_def)
  from Reply_add_child_ok [OF rh md c(1)] obtain lk where lk:
    "Reply_add_child m c h = Inr (h\<lparr>rh_links := lk\<rparr>)"
    "reply_heap (h\<lparr>rh_links := lk\<rparr>) B (L(RChildren m := L (RChildren m) @ [RLink c]))" by blast
  have heads: "heads (h\<lparr>rh_links := lk\<rparr>) B = heads h B" by (simp add: heads_def)
  have "pending_ok (Some m) (h\<lparr>rh_links := lk\<rparr>) B (L(RChildren m := L (RChildren m) @ [RLink c]))"
    using m c md by (auto simp: pending_ok_def orphan_def heads)
  moreover have "replies_ok bref p (h\<lparr>rh_links := lk\<rparr>) (L(RChildren m := L (RChildren m) @ [RLink c]))"
    using rs m(2) ty by (auto simp: replies_ok_def reply_ok_def)
  moreover have "grows (Some m) B h0 L0 (h\<lparr>rh_links := lk\<rparr>) (L(RChildren m := L (RChildren m) @ [RLink c]))"
  proof -
    have "RLink x \<in> set (L a)" if "RLink x \<in> set ((L(RChildren m := L (RChildren m) @ [RLink c])) a)" "x \<noteq> c" for a x
      using that by (auto split: if_splits)
    moreover have "keeps_unlinked B h0 L0 h L" using g(1) by (simp add: grows_def)
    ultimately have "keeps_unlinked B h0 L0 (h\<lparr>rh_links := lk\<rparr>) (L(RChildren m := L (RChildren m) @ [RLink c]))"
      using g(2) unfolding keeps_unlinked_def heads by blast
    with g(1) show ?thesis by (simp add: grows_def)
  qed
  ultimately show ?thesis using lk by (auto simp: heap_inv_def)
qed

text \<open>
  The result of a turn: no fault, the invariant holds of the new state, and the out parameter of a
  completed reply is an object of its own.
\<close>

definition turn_ok ::
    "bufref \<Rightarrow> string \<Rightarrow> nat \<Rightarrow> nat set \<Rightarrow> rparser \<Rightarrow> rheap \<Rightarrow> (rnode \<Rightarrow> rnode list) \<Rightarrow> flow res \<Rightarrow> bool" where
  "turn_ok bref data len B rp h L res \<longleftrightarrow>
     (\<exists>rp' h' out L'. parser_inv bref data B rp' h' L' \<and> ps_p rp' \<le> len \<and>
        grows (ps_multibulk_reply rp) B h L h' L' \<and>
        own_pending (ps_multibulk_reply rp) h (ps_multibulk_reply rp') \<and>
        (res = Inr (Continue rp' h' out) \<and> ps_p rp < ps_p rp' \<or>
         res = Inr (Return RPR_ERROR rp' h' None) \<and> rp' = rp \<and> h' = h \<or>
         res = Inr (Return RPR_REPLY rp' h' out) \<and> ps_cs rp' = 0 \<and> ps_p rp < ps_p rp' \<and>
           handed (ps_multibulk_reply rp') B h' L' out \<and> own_reply (ps_multibulk_reply rp) h out))"

lemma turn_quiet:
  assumes i: "parser_inv bref data B rp h L" and q: "quiet_result data len rp h res"
    and len: "ps_p rp < len"
  shows "turn_ok bref data len B rp h L res"
proof (cases "res = Inr (Return RPR_ERROR rp h None)")
  case True
  then show ?thesis using i len unfolding turn_ok_def
    by (intro exI [of _ rp] exI [of _ h] exI [of _ None] exI [of _ L]) simp
next
  case False
  then obtain rp' where rp': "res = Inr (Continue rp' h None)" "machine_inv data rp'"
    "ps_p rp < ps_p rp'" "ps_p rp' \<le> len" "ps_multibulk_reply rp' = ps_multibulk_reply rp"
    using q by (auto simp: quiet_result_def)
  then have "parser_inv bref data B rp' h L"
    using i heap_inv_mono by (auto simp: parser_inv_heap)
  with rp' show ?thesis unfolding turn_ok_def
    by (intro exI [of _ rp'] exI [of _ h] exI [of _ None] exI [of _ L]) simp
qed

lemma turn_error:
  "parser_inv bref data B rp h L \<Longrightarrow> ps_p rp < len \<Longrightarrow>
   turn_ok bref data len B rp h L (Inr (Return RPR_ERROR rp h None))"
  by (rule turn_quiet) (simp_all add: quiet_result_def)

lemma line_len_eq:
  "ps_mark rp + 2 \<le> ps_p rp \<Longrightarrow> ps_p rp < 2147483648 \<Longrightarrow> line_len rp = ps_p rp - ps_mark rp - 2"
  by (simp add: line_len_def)

lemma turn_report_line:
  assumes i: "parser_inv bref data B rp h L" and s: "ps_cs rp \<in> {2, 4, 20}"
    and len: "ps_p rp < len" "len < 2147483648"
  shows "turn_ok bref data len B rp h L (report_line ty bref (go 0 rp) h)"
proof -
  have m: "machine_inv data rp" and hi: "heap_inv bref (ps_p rp) (ps_multibulk_reply rp) B h L"
    using i by (auto simp: parser_inv_heap)
  have mk: "ps_mark rp < ps_p rp" using m s by (auto simp: machine_inv_def)
  then have ll: "line_len (go 0 rp) = Suc (ps_p rp) - ps_mark rp - 2"
    using len by (subst line_len_eq) auto
  have q: "Some bref = Some bref \<Longrightarrow> ps_mark rp + line_len (go 0 rp) \<le> Suc (ps_p rp)"
    using mk unfolding ll by simp
  have "machine_inv data (go 0 rp)" using m by (auto simp: machine_inv_def)
  moreover from Reply_new_inv [OF hi le_SucI [OF le_refl] q, where ty = ty] obtain h' L' where
    "Reply_new ty (Some bref) (ps_mark rp) (line_len (go 0 rp)) h = Inr (rh_next h, h')"
    "heap_inv bref (Suc (ps_p rp)) (ps_multibulk_reply rp) B h' L'"
    "handed (ps_multibulk_reply rp) B h' L' (Some (rh_next h))"
    "grows (ps_multibulk_reply rp) B h L h' L'" "rh_next h \<notin> dom (rh_replies h)" by blast
  ultimately show ?thesis using len
    unfolding turn_ok_def
    by (intro exI [of _ "go 0 rp"] exI [of _ h'] exI [of _ "Some (rh_next h)"] exI [of _ L'])
      (simp add: report_line_def parser_inv_heap)
qed

lemma turn_finish_bulk:
  assumes m: "machine_inv data rp0" "ps_cs rp0 = 0" "ps_p rp < ps_p rp0" "ps_p rp0 \<le> len"
      "ps_multibulk_reply rp0 = ps_multibulk_reply rp"
    and hi: "heap_inv bref (ps_p rp0) (ps_multibulk_reply rp0) B h1 L1"
    and hd: "handed (ps_multibulk_reply rp0) B h1 L1 (Some r)"
    and ty: "rep_type (the (rh_replies h1 r)) \<in> {RT_BULK, RT_BULK_NIL}"
    and g: "grows (ps_multibulk_reply rp) B h L h1 L1" and r: "r \<notin> dom (rh_replies h)"
  shows "turn_ok bref data len B rp h L (finish_bulk rp0 r h1)"
proof (cases "ps_multibulk_count rp0 > 0")
  case False
  then show ?thesis using assms unfolding turn_ok_def
    by (intro exI [of _ rp0] exI [of _ h1] exI [of _ "Some r"] exI [of _ L1])
      (auto simp: finish_bulk_def parser_inv_heap own_reply_def)
next
  case True
  then obtain p where p: "ps_multibulk_reply rp0 = Some p"
    using m(1) by (auto simp: machine_inv_def)
  with m(5) have pr: "ps_multibulk_reply rp = Some p" by simp
  let ?c = "ps_multibulk_count rp0 - 1"
  let ?rp = "rp0\<lparr>ps_multibulk_count := ?c\<rparr>"
  from Reply_add_child_inv [OF hi [unfolded p] hd [unfolded p] ty g [unfolded pr] r] obtain lk L2 where lk:
    "Reply_add_child p r h1 = Inr (h1\<lparr>rh_links := lk\<rparr>)"
    "heap_inv bref (ps_p rp0) (Some p) B (h1\<lparr>rh_links := lk\<rparr>) L2"
    "grows (Some p) B h L (h1\<lparr>rh_links := lk\<rparr>) L2" by blast
  note g2 = lk(3)
  have m2: "machine_inv data ?rp" using m(1,2) True p by (auto simp: machine_inv_def int32_def)
  show ?thesis
  proof (cases "?c = 0")
    case False
    then show ?thesis using m(1-4) m2 lk g2 p pr True unfolding turn_ok_def
      by (intro exI [of _ ?rp] exI [of _ "h1\<lparr>rh_links := lk\<rparr>"] exI [of _ "Some r"] exI [of _ L2])
        (simp add: finish_bulk_def Let_def parser_inv_heap)
  next
    case c0: True
    let ?rp' = "?rp\<lparr>ps_multibulk_reply := None\<rparr>"
    have "machine_inv data ?rp'" using m2 c0 m(2) by (auto simp: machine_inv_def)
    moreover have "handed None B (h1\<lparr>rh_links := lk\<rparr>) L2 (Some p)"
      using lk(2) by (simp add: handed_def heap_inv_def pending_ok_def)
    ultimately show ?thesis using m(1-4) lk g2 p pr True c0 heap_inv_None [OF lk(2)] unfolding turn_ok_def
      by (intro exI [of _ ?rp'] exI [of _ "h1\<lparr>rh_links := lk\<rparr>"] exI [of _ "Some p"] exI [of _ L2])
        (simp add: finish_bulk_def Let_def parser_inv_heap own_reply_def)
  qed
qed

lemma turn_new_bulk:
  assumes i: "parser_inv bref data B rp h L" and s: "ps_cs rp \<in> {8, 12}" and p: "ps_p rp < len"
    and off: "off + n \<le> Suc (ps_p rp)" and ty: "ty \<in> {RT_BULK, RT_BULK_NIL}"
  shows "turn_ok bref data len B rp h L
    (bindE (Reply_new ty (Some bref) off n h) (\<lambda>(r, h1). finish_bulk (go 0 rp) r h1))"
proof -
  have m: "machine_inv data rp" and hi: "heap_inv bref (ps_p rp) (ps_multibulk_reply rp) B h L"
    using i by (auto simp: parser_inv_heap)
  from Reply_new_inv [OF hi le_SucI [OF le_refl] off, where ty = ty and buf = "Some bref"] obtain h' L' where h':
    "Reply_new ty (Some bref) off n h = Inr (rh_next h, h')"
    "rh_replies h' = (rh_replies h)(rh_next h :=
      Some \<lparr>rep_type = ty, rep_buffer = Some bref, rep_offset = off, rep_len = n\<rparr>)"
    "heap_inv bref (Suc (ps_p rp)) (ps_multibulk_reply rp) B h' L'"
    "handed (ps_multibulk_reply rp) B h' L' (Some (rh_next h))"
    "grows (ps_multibulk_reply rp) B h L h' L'" "rh_next h \<notin> dom (rh_replies h)" by blast
  have "machine_inv data (go 0 rp)" using m s by (auto simp: machine_inv_def)
  then have "turn_ok bref data len B rp h L (finish_bulk (go 0 rp) (rh_next h) h')"
    using h' ty p by (intro turn_finish_bulk) auto
  with h' show ?thesis by simp
qed

lemma turn_nil_multibulk:
  assumes i: "parser_inv bref data B rp h L" and s: "ps_cs rp = 16" and p: "ps_p rp < len"
  shows "turn_ok bref data len B rp h L
    (bindE (Reply_new RT_MULTIBULK_NIL None 0 0 h) (\<lambda>(r, h1). Inr (Return RPR_REPLY (go 0 rp) h1 (Some r))))"
proof -
  have m: "machine_inv data rp" and hi: "heap_inv bref (ps_p rp) (ps_multibulk_reply rp) B h L"
    using i by (auto simp: parser_inv_heap)
  from Reply_new_inv [OF hi le_SucI [OF le_refl], where ty = RT_MULTIBULK_NIL and buf = None and off = 0 and len = 0]
  obtain h' L' where h': "Reply_new RT_MULTIBULK_NIL None 0 0 h = Inr (rh_next h, h')"
    "heap_inv bref (Suc (ps_p rp)) (ps_multibulk_reply rp) B h' L'"
    "handed (ps_multibulk_reply rp) B h' L' (Some (rh_next h))"
    "grows (ps_multibulk_reply rp) B h L h' L'" "rh_next h \<notin> dom (rh_replies h)" by auto
  have "machine_inv data (go 0 rp)" using m s by (auto simp: machine_inv_def)
  with h' p show ?thesis unfolding turn_ok_def
    by (intro exI [of _ "go 0 rp"] exI [of _ h'] exI [of _ "Some (rh_next h)"] exI [of _ L'])
      (simp add: parser_inv_heap)
qed

lemma turn_multibulk:
  assumes i: "parser_inv bref data B rp h L" and s: "ps_cs rp = 17" and p: "ps_p rp < len"
    and n: "int32 n"
  shows "turn_ok bref data len B rp h L
    (bindE (Reply_new RT_MULTIBULK None 0 (to_size n) h) (\<lambda>(r, h1).
       Inr (Continue (go 18 (rp\<lparr>ps_multibulk_count := n, ps_multibulk_reply := Some r\<rparr>)) h1 None)))"
proof -
  have m: "machine_inv data rp" and hi: "heap_inv bref (ps_p rp) None B h L"
    using i heap_inv_None by (auto simp: parser_inv_heap)
  let ?rp = "go 18 (rp\<lparr>ps_multibulk_count := n, ps_multibulk_reply := Some (rh_next h)\<rparr>)"
  from Reply_new_inv [OF hi le_SucI [OF le_refl], where ty = RT_MULTIBULK and buf = None and off = 0
      and len = "to_size n"]
  obtain h' L' where h': "Reply_new RT_MULTIBULK None 0 (to_size n) h = Inr (rh_next h, h')"
    "rh_replies h' = (rh_replies h)(rh_next h :=
      Some \<lparr>rep_type = RT_MULTIBULK, rep_buffer = None, rep_offset = 0, rep_len = to_size n\<rparr>)"
    "rh_next h \<notin> dom (rh_replies h)" "heap_inv bref (Suc (ps_p rp)) None B h' L'"
    "handed None B h' L' (Some (rh_next h))" "grows None B h L h' L'" by blast
  have "machine_inv data ?rp" using m s n by (auto simp: machine_inv_def)
  moreover have "heap_inv bref (Suc (ps_p rp)) (Some (rh_next h)) B h' L'"
    using h'(2,4,5) by (auto simp: heap_inv_def handed_def pending_ok_def)
  moreover have "grows (ps_multibulk_reply rp) B h L h' L'"
    using h'(6) by (simp add: grows_def)
  ultimately show ?thesis using h'(1,3) p unfolding turn_ok_def
    by (intro exI [of _ ?rp] exI [of _ h'] exI [of _ None] exI [of _ L'])
      (simp add: parser_inv_heap)
qed

lemma turn_multibulk_start:
  assumes i: "parser_inv bref data B rp h L" and s: "ps_cs rp = 18" and p: "ps_p rp < len"
  shows "turn_ok bref data len B rp h L
    (if ps_multibulk_count rp = 0
     then Inr (Return RPR_REPLY ((go 0 rp)\<lparr>ps_multibulk_reply := None\<rparr>) h (ps_multibulk_reply rp))
     else Inr (Continue (go 0 rp) h None))"
proof -
  have m: "machine_inv data rp"
    and hi: "heap_inv bref (Suc (ps_p rp)) (ps_multibulk_reply rp) B h L"
    using i heap_inv_mono le_SucI by (auto simp: parser_inv_heap)
  obtain q where q: "ps_multibulk_reply rp = Some q"
    using m s by (auto simp: machine_inv_def)
  let ?rp = "(go 0 rp)\<lparr>ps_multibulk_reply := None\<rparr>"
  show ?thesis
  proof (cases "ps_multibulk_count rp = 0")
    case True
    have "machine_inv data ?rp" using m s True by (auto simp: machine_inv_def)
    moreover have "handed None B h L (Some q)"
      using hi q by (simp add: handed_def heap_inv_def pending_ok_def)
    ultimately show ?thesis using True q p hi heap_inv_None [OF hi] unfolding turn_ok_def
      by (intro exI [of _ ?rp] exI [of _ h] exI [of _ "Some q"] exI [of _ L])
        (simp add: parser_inv_heap)
  next
    case False
    have "machine_inv data (go 0 rp)" using m s by (auto simp: machine_inv_def)
    then show ?thesis using False p hi unfolding turn_ok_def
      by (intro exI [of _ "go 0 rp"] exI [of _ h] exI [of _ None] exI [of _ L])
        (simp add: parser_inv_heap)
  qed
qed

text \<open>The remaining turns, each on its own.\<close>

lemma step_report: "ps_cs rp \<in> {2, 4, 20} \<Longrightarrow> parser_step bref data len c rp h =
    (if c = CHR 0x0A
     then report_line (if ps_cs rp = 2 then RT_OK else if ps_cs rp = 4 then RT_ERROR else RT_INTEGER)
       bref (go 0 rp) h
     else Inr (Return RPR_ERROR rp h None))"
  by (elim insertE emptyE) (simp_all add: parser_step_defs Let_def)

lemma step8: "ps_cs rp = 8 \<Longrightarrow> parser_step bref data len c rp h =
    (if c = CHR 0x0A
     then bindE (Reply_new RT_BULK_NIL (Some bref) 0 0 h) (\<lambda>(r, h1). finish_bulk (go 0 rp) r h1)
     else Inr (Return RPR_ERROR rp h None))"
  by (simp add: parser_step_defs Let_def)

lemma step12: "ps_cs rp = 12 \<Longrightarrow> ps_bulk_count rp = 0 \<Longrightarrow> parser_step bref data len c rp h =
    (if c = CHR 0x0A
     then bindE (Reply_new RT_BULK (Some bref) (ps_mark rp) (line_len (go 0 rp)) h)
       (\<lambda>(r, h1). finish_bulk (go 0 rp) r h1)
     else Inr (Return RPR_ERROR rp h None))"
  by (simp add: parser_step_defs Let_def)

lemma step16: "ps_cs rp = 16 \<Longrightarrow> parser_step bref data len c rp h =
    (if c = CHR 0x0A
     then bindE (Reply_new RT_MULTIBULK_NIL None 0 0 h)
       (\<lambda>(r, h1). Inr (Return RPR_REPLY (go 0 rp) h1 (Some r)))
     else Inr (Return RPR_ERROR rp h None))"
  by (simp add: parser_step_defs Let_def)

lemma step17: "ps_cs rp = 17 \<Longrightarrow> parser_step bref data len c rp h =
    (if c = CHR 0x0D
     then bindE (Reply_new RT_MULTIBULK None 0 (to_size (atoi (drop (ps_mark rp) data))) h) (\<lambda>(r, h1).
       Inr (Continue (go 18 (rp\<lparr>ps_multibulk_count := atoi (drop (ps_mark rp) data),
         ps_multibulk_reply := Some r\<rparr>)) h1 None))
     else if isdigit c then Inr (Continue (go 17 rp) h None)
     else Inr (Return RPR_ERROR rp h None))"
  by (simp add: parser_step_defs Let_def)

lemma step18: "ps_cs rp = 18 \<Longrightarrow> parser_step bref data len c rp h =
    (if c = CHR 0x0A
     then (if ps_multibulk_count rp = 0
       then Inr (Return RPR_REPLY ((go 0 rp)\<lparr>ps_multibulk_reply := None\<rparr>) h (ps_multibulk_reply rp))
       else Inr (Continue (go 0 rp) h None))
     else Inr (Return RPR_ERROR rp h None))"
  by (simp add: parser_step_defs Let_def)

lemmas loud_steps = step_report step8 step12 step16 step17 step18

lemma loud_cases:
  "\<not> quiet s \<Longrightarrow> s \<in> {2, 4, 20} \<or> s = 8 \<or> s = 12 \<or> s = 16 \<or> s = 17 \<or> s = 18"
  unfolding quiet_def by simp blast

lemma parser_step_ok:
  assumes i: "parser_inv bref data B rp h L" and len: "ps_p rp < len" "len < 2147483648"
  shows "turn_ok bref data len B rp h L (parser_step bref data len (data ! ps_p rp) rp h)"
proof (cases "quiet (ps_cs rp)")
  case True
  with i len show ?thesis by (intro turn_quiet parser_step_quiet) (auto simp: parser_inv_def)
next
  case False
  have m: "machine_inv data rp" using i by (simp add: parser_inv_def)
  from loud_cases [OF False] show ?thesis
  proof (elim disjE)
    assume s: "ps_cs rp \<in> {2, 4, 20}"
    show ?thesis unfolding step_report [OF s] using turn_report_line [OF i s len] turn_error [OF i len(1)] by auto
  next
    assume s: "ps_cs rp = 8"
    show ?thesis unfolding step8 [OF s]
      using turn_new_bulk [OF i _ len(1)] turn_error [OF i len(1)] s by auto
  next
    assume s: "ps_cs rp = 12"
    then have bc: "ps_bulk_count rp = 0" "ps_mark rp < ps_p rp" using m by (auto simp: machine_inv_def)
    then have "line_len (go 0 rp) = Suc (ps_p rp) - ps_mark rp - 2" using len by (subst line_len_eq) auto
    then have "ps_mark rp + line_len (go 0 rp) \<le> Suc (ps_p rp)" using bc(2) by simp
    with s turn_new_bulk [OF i _ len(1) this, of RT_BULK] turn_error [OF i len(1)] show ?thesis
      unfolding step12 [OF s bc(1)] by auto
  next
    assume s: "ps_cs rp = 16"
    show ?thesis unfolding step16 [OF s]
      using turn_nil_multibulk [OF i s len(1)] turn_error [OF i len(1)] by auto
  next
    assume s: "ps_cs rp = 17"
    have "turn_ok bref data len B rp h L (Inr (Continue (go 17 rp) h None))" if "isdigit (data ! ps_p rp)"
      using i len that s quiet_digits [OF m] heap_inv_mono unfolding turn_ok_def
      by (intro exI [of _ "go 17 rp"] exI [of _ h] exI [of _ None] exI [of _ L])
        (auto simp: parser_inv_heap intro: heap_inv_mono [OF _ le_SucI])
    then show ?thesis unfolding step17 [OF s]
      using turn_multibulk [OF i s len(1)] turn_error [OF i len(1)] by auto
  next
    assume s: "ps_cs rp = 18"
    show ?thesis unfolding step18 [OF s]
      using turn_multibulk_start [OF i s len(1)] turn_error [OF i len(1)] by auto
  qed
qed

section \<open>The whole loop keeps the invariant\<close>

definition outcome_ok ::
    "bufref \<Rightarrow> string \<Rightarrow> nat \<Rightarrow> nat set \<Rightarrow> rparser \<Rightarrow> rheap \<Rightarrow> (rnode \<Rightarrow> rnode list) \<Rightarrow>
     parser_result \<Rightarrow> rparser \<Rightarrow> rheap \<Rightarrow> nat option \<Rightarrow> bool" where
  "outcome_ok bref data len B rp h L res rp' h' out \<longleftrightarrow>
     (\<exists>L'. parser_inv bref data B rp' h' L' \<and> ps_p rp \<le> ps_p rp' \<and> ps_p rp' \<le> len \<and>
        grows (ps_multibulk_reply rp) B h L h' L' \<and>
        own_pending (ps_multibulk_reply rp) h (ps_multibulk_reply rp') \<and>
        (res = RPR_MORE \<longrightarrow> ps_p rp' = len) \<and>
        (res = RPR_REPLY \<longrightarrow> ps_cs rp' = 0 \<and> ps_p rp < ps_p rp' \<and>
           handed (ps_multibulk_reply rp') B h' L' out \<and> own_reply (ps_multibulk_reply rp) h out))"

lemma own_trans:
  assumes "grows mr B h L h1 L1" "own_pending mr h mr1"
  shows "own_pending mr1 h1 mr2 \<Longrightarrow> own_pending mr h mr2" "own_reply mr1 h1 out \<Longrightarrow> own_reply mr h out"
proof -
  have "rh_replies h \<subseteq>\<^sub>m rh_replies h1" using assms(1) by (simp add: grows_def)
  then have d: "dom (rh_replies h) \<subseteq> dom (rh_replies h1)" by (rule map_le_implies_dom_le)
  show "own_pending mr1 h1 mr2 \<Longrightarrow> own_pending mr h mr2" "own_reply mr1 h1 out \<Longrightarrow> own_reply mr h out"
    using assms(2) d unfolding own_pending_def own_reply_def by blast+
qed

lemma parser_loop_ok:
  assumes "parser_inv bref data B rp h L" "ps_p rp \<le> len" "len \<le> length data" "len < 2147483648"
  shows "\<exists>res rp' h' out'. parser_loop bref data len rp h out = Inr (res, rp', h', out') \<and>
    outcome_ok bref data len B rp h L res rp' h' out'"
  using assms
proof (induction bref data len rp h out arbitrary: L rule: parser_loop.induct)
  case (1 bref data len rp h out)
  show ?case
  proof (cases "ps_p rp < len")
    case False
    with "1.prems" have "ps_p rp = len" by simp
    with "1.prems"(1) show ?thesis
      by (subst parser_loop.simps) (auto simp: outcome_ok_def intro!: exI [of _ L])
  next
    case True
    let ?mr = ps_multibulk_reply
    from parser_step_ok [OF "1.prems"(1) True "1.prems"(4)]
    obtain rp1 h1 out1 L1 where s: "parser_inv bref data B rp1 h1 L1" "ps_p rp1 \<le> len"
      "grows (?mr rp) B h L h1 L1" "own_pending (?mr rp) h (?mr rp1)"
      and r: "parser_step bref data len (data ! ps_p rp) rp h = Inr (Continue rp1 h1 out1) \<and> ps_p rp < ps_p rp1 \<or>
        parser_step bref data len (data ! ps_p rp) rp h = Inr (Return RPR_ERROR rp1 h1 None) \<and> rp1 = rp \<and> h1 = h \<or>
        parser_step bref data len (data ! ps_p rp) rp h = Inr (Return RPR_REPLY rp1 h1 out1) \<and>
          ps_cs rp1 = 0 \<and> ps_p rp < ps_p rp1 \<and> handed (?mr rp1) B h1 L1 out1 \<and> own_reply (?mr rp) h out1"
      unfolding turn_ok_def by blast
    have c: "ps_p rp < length data" using True "1.prems" by simp
    from r show ?thesis
    proof (elim disjE conjE)
      assume st: "parser_step bref data len (data ! ps_p rp) rp h = Inr (Continue rp1 h1 out1)"
        and lt: "ps_p rp < ps_p rp1"
      from "1.IH" [of "data ! ps_p rp" _ rp1 h1 out1, OF True _ st refl s(1,2) "1.prems"(3,4)] c
      obtain res rp' h' out' where ih: "parser_loop bref data len rp1 h1 out1 = Inr (res, rp', h', out')"
        "outcome_ok bref data len B rp1 h1 L1 res rp' h' out'" by auto
      then have "outcome_ok bref data len B rp h L res rp' h' out'"
        using grows_trans [OF s(3) _ s(4) [unfolded own_pending_def]] own_trans [OF s(3,4)] lt
        unfolding outcome_ok_def by (meson less_imp_le order_trans less_trans)
      with ih st c True show ?thesis by (subst parser_loop.simps) simp
    next
      assume "parser_step bref data len (data ! ps_p rp) rp h = Inr (Return RPR_ERROR rp1 h1 None)"
        "rp1 = rp" "h1 = h"
      with s c True show ?thesis by (subst parser_loop.simps) (auto simp: outcome_ok_def)
    next
      assume "parser_step bref data len (data ! ps_p rp) rp h = Inr (Return RPR_REPLY rp1 h1 out1)"
        "ps_cs rp1 = 0" "ps_p rp < ps_p rp1" "handed (?mr rp1) B h1 L1 out1" "own_reply (?mr rp) h out1"
      with s c True show ?thesis
        by (subst parser_loop.simps) (auto simp: outcome_ok_def intro!: exI [of _ L1])
    qed
  qed
qed

end
