(* ===== verification/Parser_Stream.thy ===== *)
theory Parser_Stream
  imports Reply_Parser
begin


text \<open>
  The parser of \<open>libredis/parser.c\<close> as a consumer of a stream.  \<open>Connection_read_data\<close> calls it
  with the bytes received so far and calls it again, on a longer (and possibly moved) buffer, when it
  asks for more.  The result does not depend on how the bytes were cut into pieces.
\<close>

section \<open>The bytes behind \<open>len\<close> do not matter\<close>

definition agree :: "nat \<Rightarrow> string \<Rightarrow> string \<Rightarrow> bool" where
  "agree n xs ys \<longleftrightarrow> n \<le> length xs \<and> n \<le> length ys \<and> take n xs = take n ys"

lemma agree_nth: "agree n xs ys \<Longrightarrow> i < n \<Longrightarrow> xs ! i = ys ! i"
  unfolding agree_def by (metis nth_take)

lemma agree_refl: "n \<le> length xs \<Longrightarrow> agree n xs xs"
  by (simp add: agree_def)

lemma split_at_CR:
  assumes "m < p" "p < length xs" "xs ! p = CHR 0x0D"
  shows "drop m xs = take (p - m) (drop m xs) @ CHR 0x0D # drop (Suc p) xs"
proof -
  have "drop m xs = take (p - m) (drop m xs) @ drop (p - m) (drop m xs)"
    by (rule append_take_drop_id [symmetric])
  also have "drop (p - m) (drop m xs) = drop p xs" using assms(1) by simp
  also have "\<dots> = CHR 0x0D # drop (Suc p) xs" using assms(2,3) by (simp add: Cons_nth_drop_Suc [symmetric])
  finally show ?thesis .
qed

lemma digits_slice:
  assumes "p < length xs" "\<forall>i. m \<le> i \<and> i < p \<longrightarrow> isdigit (xs ! i)"
  shows "list_all isdigit (take (p - m) (drop m xs))"
  unfolding list_all_length using assms by (simp add: less_diff_conv add.commute)

lemma atoi_agree:
  assumes a: "agree n xs ys" and mp: "m < p" "p < n" and cr: "xs ! p = CHR 0x0D"
    and ds: "\<forall>i. m \<le> i \<and> i < p \<longrightarrow> isdigit (xs ! i)"
  shows "atoi (drop m xs) = atoi (drop m ys)"
proof -
  have len: "p < length xs" "p < length ys" using a mp by (auto simp: agree_def)
  have "take p (take n xs) = take p (take n ys)" using a by (simp add: agree_def)
  then have "take p xs = take p ys" using mp(2) by (simp add: min_def)
  then have same: "take (p - m) (drop m xs) = take (p - m) (drop m ys)"
    using mp(1) by (simp add: take_drop)
  have cr': "ys ! p = CHR 0x0D" using cr agree_nth [OF a mp(2)] by simp
  have ne: "take (p - m) (drop m ys) \<noteq> []" using mp len by simp
  have all: "list_all isdigit (take (p - m) (drop m ys))"
    using digits_slice [OF len(1) ds] same by simp
  let ?ds = "take (p - m) (drop m ys)"
  have "atoi (?ds @ CHR 0x0D # drop (Suc p) xs) = atoi (?ds @ CHR 0x0D # drop (Suc p) ys)"
    unfolding atoi_def using strtol10_digits [OF ne all] by simp
  moreover have "atoi (drop m xs) = atoi (?ds @ CHR 0x0D # drop (Suc p) xs)"
    using arg_cong [OF split_at_CR [OF mp(1) len(1) cr], of atoi] by (simp only: same)
  moreover have "atoi (drop m ys) = atoi (?ds @ CHR 0x0D # drop (Suc p) ys)"
    by (rule arg_cong [OF split_at_CR [OF mp(1) len(2) cr']])
  ultimately show ?thesis by simp
qed

lemma machine_inv_agree:
  assumes "machine_inv xs rp" "agree n xs ys" "ps_p rp \<le> n"
  shows "machine_inv ys rp"
  using assms agree_nth [OF assms(2)] by (auto simp: machine_inv_def)

lemma parser_step_agree:
  assumes m: "machine_inv xs rp" and a: "agree n xs ys" and p: "ps_p rp < n"
    and same: "ps_cs rp \<noteq> 11 \<or> len1 = len2"
  shows "parser_step bref xs len1 (xs ! ps_p rp) rp h = parser_step bref ys len2 (ys ! ps_p rp) rp h"
proof -
  have c: "ys ! ps_p rp = xs ! ps_p rp" using agree_nth [OF a p] by simp
  show ?thesis
  proof (cases "ps_cs rp \<in> {9, 17}")
    case True
    then have "xs ! ps_p rp = CHR 0x0D \<Longrightarrow> atoi (drop (ps_mark rp) xs) = atoi (drop (ps_mark rp) ys)"
      using m by (intro atoi_agree [OF a _ p]) (auto simp: machine_inv_def)
    with True show ?thesis unfolding c by (auto simp: step9 step17)
  next
    case False
    have ps: "ps_cs rp \<le> 20" "ps_cs rp = 12 \<longrightarrow> ps_bulk_count rp = 0" using m by (auto simp: machine_inv_def)
    show ?thesis
    proof (cases "ps_cs rp = 11")
      case True
      with same c show ?thesis by (simp add: parser_step_defs)
    next
      case n11: False
      show ?thesis
      proof (cases "quiet (ps_cs rp)")
        case True
        from quiet_cases [OF True ps(1)] show ?thesis
          by (elim disjE) (use False n11 in \<open>simp_all add: c quiet_steps\<close>)
      next
        case loud: False
        from loud_cases [OF loud] show ?thesis
          by (elim disjE) (use False ps(2) in \<open>simp_all add: c loud_steps\<close>)
      qed
    qed
  qed
qed

section \<open>Cutting the stream\<close>

lemma parser_loop_unfold:
  "ps_p rp < len \<Longrightarrow> len \<le> length data \<Longrightarrow> parser_loop bref data len rp h out =
     bindE (parser_step bref data len (data ! ps_p rp) rp h) (\<lambda>f. case f of
       Continue rp1 h1 out1 \<Rightarrow> parser_loop bref data len rp1 h1 out1
     | Return res rp1 h1 out1 \<Rightarrow> Inr (res, rp1, h1, out1))"
  by (subst parser_loop.simps) simp

lemma parser_loop_end: "parser_loop bref data len rp h out = Inr (RPR_MORE, rp, h, out)" if "ps_p rp = len"
  using that by (subst parser_loop.simps) simp

text \<open>What follows the first piece: more of the stream, or the result the first piece gave.\<close>

definition resume ::
    "bufref \<Rightarrow> string \<Rightarrow> nat \<Rightarrow> (parser_result \<times> rparser \<times> rheap \<times> nat option) res \<Rightarrow>
     (parser_result \<times> rparser \<times> rheap \<times> nat option) res" where
  "resume bref data len r = bindE r (\<lambda>(res, rp, h, out).
     if res = RPR_MORE then parser_loop bref data len rp h out else Inr (res, rp, h, out))"

lemma wrap32_wrap32_diff: "wrap32 (wrap32 a - b) = wrap32 (a - b)"
proof -
  have e: "(a + 2147483648) mod 4294967296 - 2147483648 - b + 2147483648 =
      (a + 2147483648) mod 4294967296 - b" by simp
  have "((a + 2147483648) mod 4294967296 - b) mod 4294967296 = (a + 2147483648 - b) mod 4294967296"
    by (simp add: mod_diff_left_eq)
  then show ?thesis unfolding wrap32_def e by (simp add: algebra_simps)
qed

lemma to_size_neg: "- 2147483648 \<le> k \<Longrightarrow> k < 0 \<Longrightarrow> 2147483648 \<le> to_size k"
proof -
  assume k: "- 2147483648 \<le> k" "k < 0"
  have "k mod 18446744073709551616 = (k + 18446744073709551616) mod 18446744073709551616" by simp
  also have "\<dots> = k + 18446744073709551616" using k by (intro mod_pos_pos_trivial) auto
  finally show ?thesis using k by (simp add: to_size_def)
qed

text \<open>
  A bulk that does not end within \<open>len1\<close> is counted off in two turns instead of one.  A negative
  count (an \<open>atoi\<close> that overflowed) is taken for a huge one, also after the subtraction wraps.
\<close>

lemma bulk_split:
  assumes k: "int32 k" "k \<noteq> 0" "\<not> to_size k < len1 - p" "to_size k \<noteq> len1 - p"
    and p: "p < len1" "len1 < len2" "len2 < 2147483648"
  shows "int32 (wrap32 (k - int (len1 - p)))" "wrap32 (k - int (len1 - p)) \<noteq> 0"
    "len1 + min (to_size (wrap32 (k - int (len1 - p)))) (len2 - len1) = p + min (to_size k) (len2 - p)"
proof -
  let ?k = "wrap32 (k - int (len1 - p))"
  show "int32 ?k" by simp
  have "?k \<noteq> 0 \<and> len1 + min (to_size ?k) (len2 - len1) = p + min (to_size k) (len2 - p)"
  proof (cases "0 \<le> k")
    case True
    with k(1) have tk: "to_size k = nat k" by (auto simp: int32_def)
    have kk: "?k = k - int (len1 - p)" using True k p tk by (intro wrap32_id) (auto simp: int32_def)
    then have "0 < ?k" using k tk p by linarith
    moreover have "?k < 2147483648" using wrap32_range by blast
    ultimately show ?thesis using kk tk p k by (simp add: min_def nat_diff_distrib) linarith
  next
    case False
    then have tk: "len2 - p \<le> to_size k"
      using to_size_neg [of k] k(1) p by (auto simp: int32_def)
    have "?k \<noteq> 0 \<and> len2 - len1 \<le> to_size ?k"
    proof (cases "- 2147483648 \<le> k - int (len1 - p)")
      case True
      then have "?k = k - int (len1 - p)" using False by (intro wrap32_id) auto
      with True False p to_size_neg [of ?k] show ?thesis by auto
    next
      case wrap: False
      have "?k = wrap32 (k - int (len1 - p) + 4294967296)"
        using mod_add_self2 [of "k - int (len1 - p) + 2147483648" 4294967296]
        by (simp add: wrap32_def algebra_simps)
      also have "\<dots> = k - int (len1 - p) + 4294967296"
        using wrap k(1) p by (intro wrap32_id) (auto simp: int32_def)
      finally have kk: "?k = k - int (len1 - p) + 4294967296" .
      then have "0 < ?k" "int (len2 - len1) \<le> ?k" "?k < 2147483648"
        using k(1) p wrap by (auto simp: int32_def)
      then show ?thesis by (simp add: nat_le_iff le_nat_iff)
    qed
    with tk p show ?thesis by (auto simp: min_def)
  qed
  then show "?k \<noteq> 0" "len1 + min (to_size ?k) (len2 - len1) = p + min (to_size k) (len2 - p)" by auto
qed

lemma parser_step_same_11:
  assumes s: "ps_cs rp = 11" "int32 (ps_bulk_count rp)"
    and p: "ps_p rp < len1" "len1 \<le> len2" "len2 < 2147483648"
    and k: "ps_bulk_count rp = 0 \<or> to_size (ps_bulk_count rp) \<le> len1 - ps_p rp"
  shows "parser_step bref xs len1 c rp h = parser_step bref ys len2 c rp h"
proof -
  have "ps_bulk_count rp = 0 \<or>
      min (to_size (ps_bulk_count rp)) (len1 - ps_p rp) = min (to_size (ps_bulk_count rp)) (len2 - ps_p rp)"
    using k p by auto
  with s p show ?thesis by (auto simp: step11 Let_def)
qed

lemma parser_loop_cut_bulk:
  assumes s: "ps_cs rp = 11" "int32 (ps_bulk_count rp)" "ps_bulk_count rp \<noteq> 0"
      "\<not> to_size (ps_bulk_count rp) \<le> len1 - ps_p rp"
    and p: "ps_p rp < len1" "len1 < len2" "len2 < 2147483648"
    and len: "len1 \<le> length xs" "len2 \<le> length ys"
  shows "parser_loop bref ys len2 rp h out = resume bref ys len2 (parser_loop bref xs len1 rp h out)"
proof -
  let ?k = "ps_bulk_count rp" and ?p = "ps_p rp"
  let ?rp1 = "rp\<lparr>ps_p := len1, ps_bulk_count := wrap32 (?k - int (len1 - ?p))\<rparr>"
  have k: "int32 ?k" "?k \<noteq> 0" "\<not> to_size ?k < len1 - ?p" "to_size ?k \<noteq> len1 - ?p"
    using s by auto
  note b = bulk_split [OF k p]
  let ?n = "min (to_size (wrap32 (?k - int (len1 - ?p)))) (len2 - len1)"
  have n: "min (to_size ?k) (len1 - ?p) = len1 - ?p" using k by simp
  have "parser_loop bref xs len1 rp h out = Inr (RPR_MORE, ?rp1, h, None)"
    using p s len by (simp add: parser_loop_unfold step11 Let_def n parser_loop_end)
  then have "resume bref ys len2 (parser_loop bref xs len1 rp h out) = parser_loop bref ys len2 ?rp1 h None"
    by (simp add: resume_def)
  also have "\<dots> = parser_loop bref ys len2 (rp\<lparr>ps_p := len1 + ?n,
      ps_bulk_count := wrap32 (wrap32 (?k - int (len1 - ?p)) - int ?n)\<rparr>) h None"
    using p s(1) len b(1,2) by (simp add: parser_loop_unfold step11 Let_def)
  also have "wrap32 (wrap32 (?k - int (len1 - ?p)) - int ?n) = wrap32 (?k - int (min (to_size ?k) (len2 - ?p)))"
  proof -
    have "int (len1 - ?p) + int ?n = int (min (to_size ?k) (len2 - ?p))"
      using b(3) p by linarith
    then show ?thesis by (simp add: wrap32_wrap32_diff algebra_simps)
  qed
  also have "parser_loop bref ys len2 (rp\<lparr>ps_p := len1 + ?n,
      ps_bulk_count := wrap32 (?k - int (min (to_size ?k) (len2 - ?p)))\<rparr>) h None =
      parser_loop bref ys len2 rp h out"
    using p s len unfolding b(3) by (simp add: parser_loop_unfold [of rp] step11 Let_def)
  finally show ?thesis by simp
qed

lemma parser_loop_cut:
  assumes "parser_inv bref xs B rp h L" "ps_p rp \<le> len1" "agree len1 xs ys"
    "len1 \<le> len2" "len2 \<le> length ys" "len2 < 2147483648"
  shows "parser_loop bref ys len2 rp h out = resume bref ys len2 (parser_loop bref xs len1 rp h out)"
  using assms
proof (induction bref xs len1 rp h out arbitrary: L rule: parser_loop.induct)
  case (1 bref xs len1 rp h out)
  note prems = "1.prems"
  show ?case
  proof (cases "ps_p rp < len1")
    case False
    with prems(2) have "ps_p rp = len1" by simp
    then show ?thesis by (simp add: parser_loop_end resume_def)
  next
    case True
    have m: "machine_inv xs rp" using prems(1) by (simp add: parser_inv_def)
    have lx: "len1 \<le> length xs" using prems(3) by (simp add: agree_def)
    let ?c = "xs ! ps_p rp"
    show ?thesis
    proof (cases "ps_cs rp = 11 \<and> ps_bulk_count rp \<noteq> 0 \<and> \<not> to_size (ps_bulk_count rp) \<le> len1 - ps_p rp \<and>
        len1 \<noteq> len2")
      case cut: True
      with parser_loop_cut_bulk [OF _ _ _ _ True _ prems(6) lx prems(5)] m prems(4) show ?thesis
        by (auto simp: machine_inv_def)
    next
      case False
      have c: "ys ! ps_p rp = ?c" using agree_nth [OF prems(3) True] by simp
      have same: "parser_step bref ys len2 ?c rp h = parser_step bref xs len1 ?c rp h"
      proof (cases "ps_cs rp = 11 \<and> len1 \<noteq> len2")
        case True11: True
        have "parser_step bref xs len1 ?c rp h = parser_step bref ys len2 ?c rp h"
          using False m True11 by (intro parser_step_same_11 [OF _ _ True prems(4,6)]) (auto simp: machine_inv_def)
        then show ?thesis by simp
      next
        case other: False
        with parser_step_agree [OF m prems(3) True, of len1 len2] c show ?thesis by auto
      qed
      have l1: "len1 < 2147483648" using prems(4,6) by simp
      have ih: "parser_loop bref ys len2 rp1 h1 out1 = resume bref ys len2 (parser_loop bref xs len1 rp1 h1 out1)"
        if st: "parser_step bref xs len1 ?c rp h = Inr (Continue rp1 h1 out1)" for rp1 h1 out1
      proof -
        from parser_step_ok [OF prems(1) True l1] st obtain L1
          where "parser_inv bref xs B rp1 h1 L1" "ps_p rp1 \<le> len1"
          unfolding turn_ok_def by auto
        with "1.IH" [OF True _ st refl] prems lx True show ?thesis by auto
      qed
      from parser_step_ok [OF prems(1) True l1] have
        "parser_step bref xs len1 ?c rp h \<noteq> Inr (Return RPR_MORE rp1 h1 out1)" for rp1 h1 out1
        unfolding turn_ok_def by auto
      moreover have ul: "parser_loop bref xs len1 rp h out = bindE (parser_step bref xs len1 ?c rp h) (\<lambda>f. case f of
          Continue rp1 h1 out1 \<Rightarrow> parser_loop bref xs len1 rp1 h1 out1
        | Return res rp1 h1 out1 \<Rightarrow> Inr (res, rp1, h1, out1))"
        using parser_loop_unfold [OF True lx] .
      moreover have "ps_p rp < len2" using True prems(4) by simp
      ultimately show ?thesis
        unfolding ul parser_loop_unfold [OF \<open>ps_p rp < len2\<close> prems(5)] c same
        using ih by (cases "parser_step bref xs len1 ?c rp h") (auto simp: resume_def split: flow.split)
    qed
  qed
qed

section \<open>Properties\<close>

definition fresh_parser :: rparser where
  "fresh_parser = \<lparr>ps_p = 0, ps_cs = 0, ps_bulk_count = 0, ps_multibulk_count = 0,
     ps_multibulk_reply = None, ps_mark = 0\<rparr>"

lemma demo_parser_inv: "parser_inv bref data {} fresh_parser demo_heap (\<lambda>_. [])"
  using demo_reply_heap
  by (simp add: parser_inv_def fresh_parser_def machine_inv_def pending_ok_def replies_ok_def)

definition crlf :: string where
  "crlf = [CHR 0x0D, CHR 0x0A]"

text \<open>
  C5: on every buffer contents, well-formed or not, \<open>ReplyParser_execute\<close> returns: it reads only
  the first \<open>len\<close> bytes, no assert fails, and the parser and the reply heap are again in a valid
  state, the heap grown only by new replies.  \<open>RPR_MORE\<close> means that all bytes were consumed;
  with \<open>RPR_REPLY\<close> the machine is in state 0 and the caller gets a reply in no list, whose bytes
  (and those of its children) lie in the part of the buffer already parsed.
\<close>

theorem ReplyParser_execute_safe:
  assumes "parser_inv bref data B rp h L" "ps_p rp \<le> len" "len \<le> length data" "len < 2147483648"
  shows "\<exists>res rp' h' out' L'. ReplyParser_execute rp bref data len out h = Inr (res, rp', h', out') \<and>
    parser_inv bref data B rp' h' L' \<and> ps_p rp \<le> ps_p rp' \<and> ps_p rp' \<le> len \<and>
    grows (ps_multibulk_reply rp) B h L h' L' \<and>
    (res = RPR_MORE \<longrightarrow> ps_p rp' = len) \<and>
    (res = RPR_REPLY \<longrightarrow> ps_cs rp' = 0 \<and> ps_p rp < ps_p rp' \<and>
       (\<exists>r. out' = Some r \<and> orphan h' B L' r \<and> ps_multibulk_reply rp' \<noteq> Some r))"
  using parser_loop_ok [OF assms, of out] assms(2)
  unfolding ReplyParser_execute_def outcome_ok_def handed_def by auto

theorem ReplyParser_execute_safe_witness:
  "\<exists>res rp' h' out' L'. ReplyParser_execute fresh_parser (ReadBuffer 0) (''*1'' @ crlf @ ''$9'') 6 None demo_heap =
      Inr (res, rp', h', out') \<and> parser_inv (ReadBuffer 0) (''*1'' @ crlf @ ''$9'') {} rp' h' L' \<and>
      (res = RPR_MORE \<longrightarrow> ps_p rp' = 6)"
  using ReplyParser_execute_safe [OF demo_parser_inv, of 6 "''*1'' @ crlf @ ''$9''" "ReadBuffer 0" None]
  by (auto simp: fresh_parser_def crlf_def)

text \<open>
  C6: the outcome does not depend on how the stream was cut.  Parsing the longer input in one call
  gives what parsing a prefix gives and, where that asked for more, parsing on from there with the
  longer input, whose first bytes agree with the prefix (the buffer may have been reallocated).
\<close>

theorem ReplyParser_execute_cut:
  assumes "parser_inv bref xs B rp h L" "ps_p rp \<le> len1" "agree len1 xs ys"
    and "len1 \<le> len2" "len2 \<le> length ys" "len2 < 2147483648"
  shows "ReplyParser_execute rp bref ys len2 out h =
    (case ReplyParser_execute rp bref xs len1 out h of
       Inr (RPR_MORE, rp1, h1, out1) \<Rightarrow> ReplyParser_execute rp1 bref ys len2 out1 h1
     | res \<Rightarrow> res)"
proof -
  have "len1 \<le> length xs" "len1 < 2147483648" using assms by (auto simp: agree_def)
  from parser_loop_ok [OF assms(1,2) this, of out] obtain res rp1 h1 out1 where
    l: "parser_loop bref xs len1 rp h out = Inr (res, rp1, h1, out1)" "ps_p rp1 \<le> len1"
    unfolding outcome_ok_def by blast
  from parser_loop_cut [OF assms, of out] l assms(2,4) show ?thesis
    by (cases res) (simp_all add: ReplyParser_execute_def resume_def)
qed

theorem ReplyParser_execute_cut_witness:
  "ReplyParser_execute fresh_parser (ReadBuffer 0) (''+OK'' @ crlf) 5 None demo_heap =
    (case ReplyParser_execute fresh_parser (ReadBuffer 0) ''+O??'' 2 None demo_heap of
       Inr (RPR_MORE, rp1, h1, out1) \<Rightarrow> ReplyParser_execute rp1 (ReadBuffer 0) (''+OK'' @ crlf) 5 out1 h1
     | res \<Rightarrow> res)"
  by (rule ReplyParser_execute_cut [OF demo_parser_inv]) (simp_all add: fresh_parser_def agree_def crlf_def)

end
