(* ===== verification/Reply_Grammar.thy ===== *)
theory Reply_Grammar
  imports Parser_Stream
begin


text \<open>
  The protocol the parser of \<open>libredis/parser.c\<close> reads, as the abstract specification of
  \<open>ReplyParser_execute\<close>: the values a Redis server replies with, how they are written on the
  wire (the state list above the function in \<open>parser.c\<close>), and what a \<open>Reply\<close> object together
  with the buffer it points into denotes.
\<close>

section \<open>Values, their encoding, and what a reply object denotes\<close>

datatype rvalue =
    VStatus string
  | VError string
  | VInteger int
  | VBulk "string option"
  | VMulti "string option list"
  | VMultiNil

definition encode_bulk :: "string option \<Rightarrow> string" where
  "encode_bulk x = (case x of
     None \<Rightarrow> ''$-1'' @ crlf
   | Some s \<Rightarrow> CHR ''$'' # dec_nat (length s) @ crlf @ s @ crlf)"

definition encode_bulks :: "string option list \<Rightarrow> string" where
  "encode_bulks xs = concat (map encode_bulk xs)"

fun encode :: "rvalue \<Rightarrow> string" where
  "encode (VStatus s) = CHR ''+'' # s @ crlf"
| "encode (VError s) = CHR ''-'' # s @ crlf"
| "encode (VInteger z) = CHR '':'' # dec_int z @ crlf"
| "encode (VBulk x) = encode_bulk x"
| "encode (VMulti xs) = CHR ''*'' # dec_nat (length xs) @ crlf @ encode_bulks xs"
| "encode VMultiNil = ''*-1'' @ crlf"

text \<open>What the protocol asks of the values: no \<open>CR\<close> in a line, 64-bit integers.\<close>

fun sendable :: "rvalue \<Rightarrow> bool" where
  "sendable (VStatus s) \<longleftrightarrow> CHR 0x0D \<notin> set s"
| "sendable (VError s) \<longleftrightarrow> CHR 0x0D \<notin> set s"
| "sendable (VInteger z) \<longleftrightarrow> - 9223372036854775808 \<le> z \<and> z < 9223372036854775808"
| "sendable _ \<longleftrightarrow> True"

definition slice :: "string \<Rightarrow> reply \<Rightarrow> string" where
  "slice data rep = take (rep_len rep) (drop (rep_offset rep) data)"

definition bulk_of :: "string \<Rightarrow> reply \<Rightarrow> string option option" where
  "bulk_of data rep =
     (if rep_type rep = RT_BULK then Some (Some (slice data rep))
      else if rep_type rep = RT_BULK_NIL then Some None
      else None)"

fun value_of :: "string \<Rightarrow> reply \<times> reply list \<Rightarrow> rvalue option" where
  "value_of data (rep, kids) =
     (case rep_type rep of
        RT_OK \<Rightarrow> Some (VStatus (slice data rep))
      | RT_ERROR \<Rightarrow> Some (VError (slice data rep))
      | RT_INTEGER \<Rightarrow> Some (VInteger (strtol10 (slice data rep)))
      | RT_BULK \<Rightarrow> Some (VBulk (Some (slice data rep)))
      | RT_BULK_NIL \<Rightarrow> Some (VBulk None)
      | RT_MULTIBULK \<Rightarrow> map_option VMulti (those (map (bulk_of data) kids))
      | RT_MULTIBULK_NIL \<Rightarrow> Some VMultiNil
      | RT_NONE \<Rightarrow> None)"

section \<open>Text at a position of the buffer\<close>

definition text_at :: "string \<Rightarrow> nat \<Rightarrow> string \<Rightarrow> bool" where
  "text_at data p s \<longleftrightarrow> p + length s \<le> length data \<and> take (length s) (drop p data) = s"

lemma text_at_Cons:
  "text_at data p (c # s) \<longleftrightarrow> p < length data \<and> data ! p = c \<and> text_at data (Suc p) s"
proof (cases "p < length data")
  case True
  then have "drop p data = data ! p # drop (Suc p) data" by (simp add: Cons_nth_drop_Suc)
  with True show ?thesis by (auto simp: text_at_def)
qed (auto simp: text_at_def)

lemma text_at_Nil [simp]: "text_at data p [] \<longleftrightarrow> p \<le> length data"
  by (simp add: text_at_def)

lemma text_at_append:
  "text_at data p (s @ t) \<longleftrightarrow> text_at data p s \<and> text_at data (p + length s) t"
proof (induction s arbitrary: p)
  case Nil
  show ?case by (auto simp: text_at_def)
next
  case (Cons c s)
  from Cons [of "Suc p"] show ?case by (simp add: text_at_Cons)
qed

lemma text_at_nth: "text_at data p s \<Longrightarrow> i < length s \<Longrightarrow> data ! (p + i) = s ! i"
  unfolding text_at_def by (metis add_leD1 nth_drop nth_take)

lemma text_at_drop: "text_at data p s \<Longrightarrow> drop p data = s @ drop (p + length s) data"
  unfolding text_at_def by (metis add.commute append_take_drop_id drop_drop)

lemma text_at_slice: "text_at data p s \<Longrightarrow> rep_offset rep = p \<Longrightarrow> rep_len rep = length s \<Longrightarrow> slice data rep = s"
  by (simp add: text_at_def slice_def)

lemma text_at_prefix: "text_at data p (s @ t) \<Longrightarrow> text_at data p s"
  by (simp add: text_at_append)

lemma text_at_pre [simp]: "text_at (pre @ s @ post) (length pre) s"
  by (simp add: text_at_def)

lemma crlf_at: "text_at data p crlf \<longleftrightarrow>
    Suc p < length data \<and> data ! p = CHR 0x0D \<and> data ! Suc p = CHR 0x0A"
  by (auto simp: crlf_def text_at_Cons)

lemma length_crlf [simp]: "length crlf = 2"
  by (simp add: crlf_def)

lemma atoi_at_wrap:
  assumes "text_at data p (dec_nat n @ crlf)" "n < 9223372036854775808"
  shows "atoi (drop p data) = wrap32 (int n)"
  using text_at_drop [OF assms(1)] assms(2)
  by (simp add: atoi_def crlf_def strtol10_digits dec_nat_digits)

lemma atoi_at:
  assumes "text_at data p (dec_nat n @ crlf)" "n < 2147483648"
  shows "atoi (drop p data) = int n"
  using atoi_at_wrap [OF assms(1)] assms(2) by (simp add: wrap32_id)

section \<open>Runs of the loop\<close>

definition settle ::
    "bufref \<Rightarrow> string \<Rightarrow> nat \<Rightarrow> flow \<Rightarrow> (parser_result \<times> rparser \<times> rheap \<times> nat option) res" where
  "settle bref data len f = (case f of
     Continue rp1 h1 out1 \<Rightarrow> parser_loop bref data len rp1 h1 out1
   | Return res rp1 h1 out1 \<Rightarrow> Inr (res, rp1, h1, out1))"

lemma settle_simps [simp]:
  "settle bref data len (Continue rp1 h1 out1) = parser_loop bref data len rp1 h1 out1"
  "settle bref data len (Return res rp1 h1 out1) = Inr (res, rp1, h1, out1)"
  by (simp_all add: settle_def)

lemma loop_turn:
  assumes "ps_p rp < len" "len \<le> length data"
  shows "parser_loop bref data len rp h out =
    bindE (parser_step bref data len (data ! ps_p rp) rp h) (settle bref data len)"
  unfolding settle_def [abs_def] by (rule parser_loop_unfold [OF assms])

lemma loop_out: "ps_p rp < len \<Longrightarrow> len \<le> length data \<Longrightarrow>
    parser_loop bref data len rp h out = parser_loop bref data len rp h None"
  by (simp add: loop_turn)

lemma go_alt: "go s rp = rp\<lparr>ps_p := Suc (ps_p rp), ps_cs := s\<rparr>"
  by (simp add: go_def)

lemma go_same: "go (ps_cs rp) rp = rp\<lparr>ps_p := Suc (ps_p rp)\<rparr>"
  by (cases rp) (simp add: go_def)

lemma same_count: "ps_bulk_count rp = k \<Longrightarrow> rp\<lparr>ps_p := p, ps_cs := s, ps_bulk_count := k\<rparr> = rp\<lparr>ps_p := p, ps_cs := s\<rparr>"
  by (cases rp) simp

lemma loop_line:
  assumes "ps_cs rp \<in> {1, 3, 19}" "text_at data (ps_p rp) (s @ crlf)" "CHR 0x0D \<notin> set s"
    "ps_p rp + length s + 2 \<le> len" "len \<le> length data"
  shows "parser_loop bref data len rp h out =
    parser_loop bref data len (rp\<lparr>ps_p := ps_p rp + length s + 1, ps_cs := Suc (ps_cs rp)\<rparr>) h None"
  using assms
proof (induction s arbitrary: rp out)
  case Nil
  then show ?case by (simp add: loop_turn step_line crlf_at go_alt)
next
  case (Cons c s)
  let ?rp = "rp\<lparr>ps_p := Suc (ps_p rp)\<rparr>"
  have "parser_loop bref data len rp h out = parser_loop bref data len ?rp h None"
    using Cons.prems by (auto simp: loop_turn [of rp] step_line text_at_Cons go_same)
  with Cons.IH [of ?rp None] Cons.prems show ?case by (simp add: text_at_Cons)
qed

lemma loop_digits:
  assumes "ps_cs rp \<in> {9, 17}" "text_at data (ps_p rp) (s @ crlf)" "list_all isdigit s"
    "ps_p rp + length s < len" "len \<le> length data"
  shows "parser_loop bref data len rp h out =
    parser_loop bref data len (rp\<lparr>ps_p := ps_p rp + length s\<rparr>) h None"
  using assms
proof (induction s arbitrary: rp out)
  case Nil
  then show ?case using loop_out [of rp len data bref h out] by simp
next
  case (Cons c s)
  have "c \<noteq> CHR 0x0D" using Cons.prems(3) by auto
  then have "parser_step bref data len (data ! ps_p rp) rp h = Inr (Continue (go (ps_cs rp) rp) h None)"
    using Cons.prems by (auto simp: step9 step17 text_at_Cons)
  then have "parser_loop bref data len rp h out = parser_loop bref data len (rp\<lparr>ps_p := Suc (ps_p rp)\<rparr>) h None"
    using Cons.prems by (simp add: loop_turn [of rp] go_same)
  with Cons.IH [of "rp\<lparr>ps_p := Suc (ps_p rp)\<rparr>" None] Cons.prems show ?case by (simp add: text_at_Cons)
qed

lemma loop_body:
  assumes "ps_cs rp = 11" "ps_bulk_count rp = int (length s)" "text_at data (ps_p rp) (s @ crlf)"
    "ps_p rp + length s + 2 \<le> len" "len \<le> length data" "len < 2147483648"
  shows "parser_loop bref data len rp h out =
    parser_loop bref data len (rp\<lparr>ps_p := ps_p rp + length s + 1, ps_cs := 12, ps_bulk_count := 0\<rparr>) h None"
proof (cases "s = []")
  case True
  with assms show ?thesis
    by (simp add: loop_turn [of rp] step11 Let_def crlf_at go_alt int32_def same_count)
next
  case False
  have cr: "data ! (ps_p rp + length s) = CHR 0x0D"
    using assms(3) by (simp add: text_at_append crlf_at)
  have i: "int32 (ps_bulk_count rp)" using assms by (simp add: int32_def)
  let ?rp = "rp\<lparr>ps_p := ps_p rp + length s, ps_bulk_count := 0\<rparr>"
  have n: "min (to_size (int (length s))) (len - ps_p rp) = length s"
    using assms by simp
  have "parser_loop bref data len rp h out = parser_loop bref data len ?rp h None"
    using False assms i n by (simp add: loop_turn step11 Let_def wrap32_id)
  also have "\<dots> = parser_loop bref data len (go 12 ?rp) h None"
    using assms cr by (simp add: loop_turn [of ?rp] step11 Let_def int32_def)
  also have "go 12 ?rp = rp\<lparr>ps_p := ps_p rp + length s + 1, ps_cs := 12, ps_bulk_count := 0\<rparr>"
    by (simp add: go_def)
  finally show ?thesis .
qed

text \<open>The byte count of a bulk and the line end behind it, from state 5.\<close>

lemma dec_nat_Cons: obtains d ds where "dec_nat n = d # ds" "isdigit d" "list_all isdigit ds"
  using dec_nat_digits [of n] dec_nat_nonempty [of n] by (cases "dec_nat n") auto

lemma loop_count_wrap:
  assumes "ps_cs rp = 5" "text_at data (ps_p rp) (dec_nat n @ crlf)" "n < 9223372036854775808"
    "ps_p rp + length (dec_nat n) + 2 \<le> len" "len \<le> length data"
  shows "\<exists>rp'. parser_loop bref data len rp h out = parser_loop bref data len rp' h None \<and>
    ps_p rp' = ps_p rp + length (dec_nat n) + 2 \<and> ps_cs rp' = 11 \<and> ps_bulk_count rp' = wrap32 (int n) \<and>
    ps_mark rp' = ps_p rp' \<and> ps_multibulk_count rp' = ps_multibulk_count rp \<and>
    ps_multibulk_reply rp' = ps_multibulk_reply rp"
proof -
  obtain d ds where d: "dec_nat n = d # ds" "isdigit d" "list_all isdigit ds" by (rule dec_nat_Cons)
  let ?p = "ps_p rp" and ?e = "ps_p rp + length (dec_nat n)"
  let ?rp1 = "rp\<lparr>ps_mark := ?p, ps_p := Suc ?p, ps_cs := 9\<rparr>"
  let ?rp2 = "?rp1\<lparr>ps_p := ?e\<rparr>"
  let ?rp3 = "?rp2\<lparr>ps_bulk_count := wrap32 (int n), ps_p := Suc ?e, ps_cs := 10\<rparr>"
  let ?rp4 = "?rp3\<lparr>ps_p := Suc (Suc ?e), ps_cs := 11, ps_mark := Suc (Suc ?e)\<rparr>"
  have at: "data ! ?p = d" "text_at data (Suc ?p) (ds @ crlf)" "data ! ?e = CHR 0x0D" "data ! Suc ?e = CHR 0x0A"
    using assms(2) by (simp_all add: d(1) text_at_Cons text_at_append crlf_at)
  have nd: "d \<noteq> CHR ''-''" using d(2) by auto
  have "parser_loop bref data len rp h out = parser_loop bref data len ?rp1 h None"
    using assms at(1) d nd by (simp add: loop_turn step5 go_alt MARK_def)
  also have "\<dots> = parser_loop bref data len ?rp2 h None"
    using loop_digits [of ?rp1 data ds len] at(2) d assms(4,5) by simp
  also have "\<dots> = parser_loop bref data len ?rp3 h None"
    using assms at(3) atoi_at_wrap [OF assms(2,3)] by (simp add: loop_turn step9 go_alt)
  also have "\<dots> = parser_loop bref data len ?rp4 h None"
    using assms at(4) by (simp add: loop_turn step10 go_alt MARK_def)
  finally show ?thesis by (intro exI [of _ ?rp4]) simp
qed

lemma loop_count:
  assumes "ps_cs rp = 5" "text_at data (ps_p rp) (dec_nat n @ crlf)" "n < 2147483648"
    "ps_p rp + length (dec_nat n) + 2 \<le> len" "len \<le> length data"
  shows "\<exists>rp'. parser_loop bref data len rp h out = parser_loop bref data len rp' h None \<and>
    ps_p rp' = ps_p rp + length (dec_nat n) + 2 \<and> ps_cs rp' = 11 \<and> ps_bulk_count rp' = int n \<and>
    ps_mark rp' = ps_p rp' \<and> ps_multibulk_count rp' = ps_multibulk_count rp \<and>
    ps_multibulk_reply rp' = ps_multibulk_reply rp"
  using loop_count_wrap [OF assms(1,2) _ assms(4,5), of bref h out] assms(3) by (simp add: wrap32_id)

section \<open>A bulk, alone or inside a multibulk\<close>

lemma int32_of_nat [simp]: "n < 2147483648 \<Longrightarrow> int32 (int n)"
  by (simp add: int32_def)

text \<open>
  Reading one bulk ends in the creation of its reply and \<open>finish_bulk\<close>; \<open>rp'\<close> is the machine
  there.
\<close>

definition bulk_end :: "string \<Rightarrow> string option \<Rightarrow> rparser \<Rightarrow> rparser \<Rightarrow> reply_type \<Rightarrow> nat \<Rightarrow> nat \<Rightarrow> bool" where
  "bulk_end data x rp rp' ty off n \<longleftrightarrow>
     ps_p rp' = ps_p rp + length (encode_bulk x) \<and> ps_cs rp' = 0 \<and> ps_mark rp' \<le> ps_p rp' \<and>
     int32 (ps_bulk_count rp') \<and> ps_multibulk_count rp' = ps_multibulk_count rp \<and>
     ps_multibulk_reply rp' = ps_multibulk_reply rp \<and> off + n \<le> ps_p rp' \<and> ty \<in> {RT_BULK, RT_BULK_NIL} \<and>
     (\<forall>b. bulk_of data \<lparr>rep_type = ty, rep_buffer = b, rep_offset = off, rep_len = n\<rparr> = Some x)"

lemma loop_nil_bulk:
  assumes "ps_cs rp = 0" "ps_mark rp \<le> ps_p rp" "int32 (ps_bulk_count rp)"
    "text_at data (ps_p rp) (encode_bulk None)" "ps_p rp + length (encode_bulk None) \<le> len" "len \<le> length data"
  shows "\<exists>rp'. bulk_end data None rp rp' RT_BULK_NIL 0 0 \<and>
    parser_loop bref data len rp h out =
      bindE (bindE (Reply_new RT_BULK_NIL (Some bref) 0 0 h) (\<lambda>(r, h1). finish_bulk rp' r h1)) (settle bref data len)"
proof -
  let ?rp' = "rp\<lparr>ps_p := Suc (Suc (Suc (Suc (Suc (ps_p rp))))), ps_cs := 0\<rparr>"
  have at: "data ! ps_p rp = CHR ''$''" "data ! Suc (ps_p rp) = CHR ''-''" "data ! Suc (Suc (ps_p rp)) = CHR ''1''"
    "data ! Suc (Suc (Suc (ps_p rp))) = CHR 0x0D" "data ! Suc (Suc (Suc (Suc (ps_p rp)))) = CHR 0x0A"
    using assms(4) by (simp_all add: encode_bulk_def text_at_Cons crlf_at)
  have "ps_p rp + 5 \<le> len" using assms(5) by (simp add: encode_bulk_def)
  then have "parser_loop bref data len rp h out =
      bindE (bindE (Reply_new RT_BULK_NIL (Some bref) 0 0 h) (\<lambda>(r, h1). finish_bulk ?rp' r h1)) (settle bref data len)"
    using assms(1,6) at
    by (simp add: loop_turn step0 step5 step_expect step8 expected_def go_alt)
  then show ?thesis using assms(1-3)
    by (intro exI [of _ ?rp']) (simp add: bulk_end_def encode_bulk_def bulk_of_def)
qed

lemma loop_some_bulk:
  assumes "ps_cs rp = 0" "text_at data (ps_p rp) (encode_bulk (Some s))"
    "ps_p rp + length (encode_bulk (Some s)) \<le> len" "len \<le> length data" "len < 2147483648"
  shows "\<exists>rp' off. bulk_end data (Some s) rp rp' RT_BULK off (length s) \<and>
    parser_loop bref data len rp h out =
      bindE (bindE (Reply_new RT_BULK (Some bref) off (length s) h) (\<lambda>(r, h1). finish_bulk rp' r h1)) (settle bref data len)"
proof -
  let ?n = "length s"
  have l: "ps_p rp + length (dec_nat ?n) + ?n + 5 \<le> len" using assms(3) by (simp add: encode_bulk_def)
  have at: "data ! ps_p rp = CHR ''$''" "text_at data (Suc (ps_p rp)) (dec_nat ?n @ crlf)"
    "text_at data (ps_p rp + length (dec_nat ?n) + 3) (s @ crlf)"
    using assms(2) by (simp_all add: encode_bulk_def text_at_Cons text_at_append numeral_3_eq_3)
  have n: "?n < 2147483648" using l assms(5) by simp
  let ?rp1 = "go 5 rp"
  have "parser_loop bref data len rp h out = parser_loop bref data len ?rp1 h None"
    using assms(1,4) at(1) l by (simp add: loop_turn [of rp] step0)
  also obtain rp2 where "parser_loop bref data len ?rp1 h None = parser_loop bref data len rp2 h None"
    and r2: "ps_p rp2 = ps_p rp + length (dec_nat ?n) + 3" "ps_cs rp2 = 11" "ps_bulk_count rp2 = int ?n"
      "ps_mark rp2 = ps_p rp2" "ps_multibulk_count rp2 = ps_multibulk_count rp"
      "ps_multibulk_reply rp2 = ps_multibulk_reply rp"
    using loop_count [of ?rp1 data ?n len bref h None] at(2) n l assms(4) by auto
  note this(1)
  also have "parser_loop bref data len rp2 h None =
      parser_loop bref data len (rp2\<lparr>ps_p := ps_p rp2 + ?n + 1, ps_cs := 12, ps_bulk_count := 0\<rparr>) h None"
    using at(3) r2 l assms(4,5) by (intro loop_body) simp_all
  also have "\<dots> = bindE (bindE (Reply_new RT_BULK (Some bref) (ps_mark rp2) ?n h)
      (\<lambda>(r, h1). finish_bulk (rp2\<lparr>ps_p := ps_p rp2 + ?n + 2, ps_cs := 0, ps_bulk_count := 0\<rparr>) r h1))
      (settle bref data len)"
  proof -
    let ?rp3 = "rp2\<lparr>ps_p := ps_p rp2 + ?n + 1, ps_cs := 12, ps_bulk_count := 0\<rparr>"
    have c: "data ! ps_p ?rp3 = CHR 0x0A" using at(3) r2 by (simp add: text_at_append crlf_at)
    have "line_len (go 0 ?rp3) = ?n" using r2 l assms(5) by (subst line_len_eq) simp_all
    with c r2 l assms(4) have "parser_loop bref data len ?rp3 h None =
        bindE (bindE (Reply_new RT_BULK (Some bref) (ps_mark rp2) ?n h)
          (\<lambda>(r, h1). finish_bulk (go 0 ?rp3) r h1)) (settle bref data len)"
      by (subst loop_turn) (simp_all add: step12)
    moreover have "go 0 ?rp3 = rp2\<lparr>ps_p := ps_p rp2 + ?n + 2, ps_cs := 0, ps_bulk_count := 0\<rparr>"
      by (simp add: go_def)
    ultimately show ?thesis by (simp only:)
  qed
  finally have run: "parser_loop bref data len rp h out =
      bindE (bindE (Reply_new RT_BULK (Some bref) (ps_mark rp2) ?n h)
      (\<lambda>(r, h1). finish_bulk (rp2\<lparr>ps_p := ps_p rp2 + ?n + 2, ps_cs := 0, ps_bulk_count := 0\<rparr>) r h1))
      (settle bref data len)" .
  have "slice data \<lparr>rep_type = RT_BULK, rep_buffer = b, rep_offset = ps_mark rp2, rep_len = ?n\<rparr> = s" for b
    using text_at_prefix [OF at(3)] r2 by (intro text_at_slice [of data "ps_mark rp2"]) simp_all
  with run r2 show ?thesis
    by (intro exI [of _ "rp2\<lparr>ps_p := ps_p rp2 + ?n + 2, ps_cs := 0, ps_bulk_count := 0\<rparr>"] exI [of _ "ps_mark rp2"])
      (simp add: bulk_end_def encode_bulk_def bulk_of_def)
qed

lemma loop_bulk:
  assumes "ps_cs rp = 0" "ps_mark rp \<le> ps_p rp" "int32 (ps_bulk_count rp)"
    "text_at data (ps_p rp) (encode_bulk x)" "ps_p rp + length (encode_bulk x) \<le> len" "len \<le> length data"
    "len < 2147483648"
  shows "\<exists>rp' ty off n. bulk_end data x rp rp' ty off n \<and>
    parser_loop bref data len rp h out =
      bindE (bindE (Reply_new ty (Some bref) off n h) (\<lambda>(r, h1). finish_bulk rp' r h1)) (settle bref data len)"
  using assms loop_nil_bulk [of rp data len bref h out] loop_some_bulk [of rp data _ len bref h out]
  by (cases x) blast+

section \<open>Whole replies\<close>

text \<open>Between replies the machine is at rest; \<open>bulk_count\<close> and \<open>mark\<close> keep their last values.\<close>

definition at_rest :: "rparser \<Rightarrow> bool" where
  "at_rest rp \<longleftrightarrow> ps_cs rp = 0 \<and> ps_multibulk_count rp = 0 \<and> ps_multibulk_reply rp = None \<and>
     ps_mark rp \<le> ps_p rp \<and> int32 (ps_bulk_count rp)"

lemma at_rest_inv: "at_rest rp \<Longrightarrow> machine_inv data rp"
  by (simp add: at_rest_def machine_inv_def)

text \<open>The children of \<open>m\<close> as bulk values.\<close>

definition kids :: "string \<Rightarrow> rheap \<Rightarrow> (rnode \<Rightarrow> rnode list) \<Rightarrow> nat \<Rightarrow> string option option list" where
  "kids data h L m = map (\<lambda>n. bulk_of data (the (rh_replies h (link_id n)))) (L (RChildren m))"

lemma kids_mono:
  assumes "reply_heap h B L" "m \<in> dom (rh_replies h)" "rh_replies h \<subseteq>\<^sub>m rh_replies h'"
    "L' (RChildren m) = L (RChildren m)"
  shows "kids data h' L' m = kids data h L m"
proof -
  from assms(2) obtain rep where rep: "rh_replies h m = Some rep" by auto
  have "rh_replies h' (link_id n) = rh_replies h (link_id n)" if n: "n \<in> set (L (RChildren m))" for n
  proof -
    from links_of_live [OF assms(1) rep n] obtain c where "n = RLink c" "c \<in> dom (rh_replies h)" by blast
    with assms(3) show ?thesis by (auto simp: map_le_def)
  qed
  then show ?thesis unfolding kids_def assms(4) by simp
qed

text \<open>One element of a multibulk that has more than the already read ones to come.\<close>

lemma loop_child:
  assumes rp: "ps_cs rp = 0" "ps_mark rp \<le> ps_p rp" "int32 (ps_bulk_count rp)"
      "ps_multibulk_count rp > 0" "ps_multibulk_reply rp = Some m"
    and at: "text_at data (ps_p rp) (encode_bulk x)" "ps_p rp + length (encode_bulk x) \<le> len"
      "len \<le> length data" "len < 2147483648"
    and hi: "heap_inv bref (ps_p rp) (Some m) B h L"
  shows "\<exists>rp1 h1 L1 r. parser_loop bref data len rp h out =
      (if ps_multibulk_count rp = 1 then Inr (RPR_REPLY, rp1\<lparr>ps_multibulk_reply := None\<rparr>, h1, Some m)
       else parser_loop bref data len rp1 h1 (Some r)) \<and>
    ps_p rp1 = ps_p rp + length (encode_bulk x) \<and> ps_cs rp1 = 0 \<and> ps_mark rp1 \<le> ps_p rp1 \<and>
    int32 (ps_bulk_count rp1) \<and> ps_multibulk_count rp1 = ps_multibulk_count rp - 1 \<and>
    ps_multibulk_reply rp1 = Some m \<and> heap_inv bref (ps_p rp1) (Some m) B h1 L1 \<and>
    grows (Some m) B h L h1 L1 \<and> kids data h1 L1 m = kids data h L m @ [Some x]"
proof -
  from loop_bulk [OF rp(1-3) at, of bref h out] obtain rp' ty off n where
    e: "bulk_end data x rp rp' ty off n" and run: "parser_loop bref data len rp h out =
      bindE (bindE (Reply_new ty (Some bref) off n h) (\<lambda>(r, h1). finish_bulk rp' r h1)) (settle bref data len)"
    by blast
  have mono: "ps_p rp \<le> ps_p rp'" and ty: "ty \<in> {RT_BULK, RT_BULK_NIL}" and off: "off + n \<le> ps_p rp'"
    using e by (simp_all add: bulk_end_def)
  let ?r = "rh_next h" and ?rep = "\<lparr>rep_type = ty, rep_buffer = Some bref, rep_offset = off, rep_len = n\<rparr>"
  let ?L1 = "L(RChildren ?r := [])"
  from Reply_new_inv [OF hi mono, where buf = "Some bref" and off = off and len = n and ty = ty] off
  obtain h1 where h1: "Reply_new ty (Some bref) off n h = Inr (?r, h1)"
    "rh_replies h1 = (rh_replies h)(?r := Some ?rep)" "?r \<notin> dom (rh_replies h)"
    "heap_inv bref (ps_p rp') (Some m) B h1 ?L1" "handed (Some m) B h1 ?L1 (Some ?r)"
    "grows (Some m) B h L h1 ?L1" by blast
  have tyr: "rep_type (the (rh_replies h1 ?r)) \<in> {RT_BULK, RT_BULK_NIL}" using h1(2) ty by simp
  let ?L2 = "?L1(RChildren m := ?L1 (RChildren m) @ [RLink ?r])"
  from Reply_add_child_inv [OF h1(4,5) tyr h1(6,3)] obtain lk where lk:
    "Reply_add_child m ?r h1 = Inr (h1\<lparr>rh_links := lk\<rparr>)"
    "heap_inv bref (ps_p rp') (Some m) B (h1\<lparr>rh_links := lk\<rparr>) ?L2"
    "grows (Some m) B h L (h1\<lparr>rh_links := lk\<rparr>) ?L2" by blast
  let ?h2 = "h1\<lparr>rh_links := lk\<rparr>" and ?rp1 = "rp'\<lparr>ps_multibulk_count := ps_multibulk_count rp - 1\<rparr>"
  have md: "m \<in> dom (rh_replies h)" and rh: "reply_heap h B L"
    using hi by (auto simp: heap_inv_def pending_ok_def orphan_def)
  note g = lk(3)
  have mr: "m \<noteq> ?r" using md h1(3) by auto
  have le: "rh_replies h \<subseteq>\<^sub>m rh_replies h1" using h1(6) by (simp add: grows_def)
  have "kids data ?h2 ?L2 m = kids data h1 ?L1 m @ [bulk_of data ?rep]"
    using h1(2) by (simp add: kids_def)
  moreover have "kids data h1 ?L1 m = kids data h L m" using kids_mono [OF rh md le] mr by simp
  moreover have "bulk_of data ?rep = Some x" using e by (simp add: bulk_end_def)
  ultimately have ks: "kids data ?h2 ?L2 m = kids data h L m @ [Some x]" by simp
  have "parser_loop bref data len rp h out =
      (if ps_multibulk_count rp = 1 then Inr (RPR_REPLY, ?rp1\<lparr>ps_multibulk_reply := None\<rparr>, ?h2, Some m)
       else parser_loop bref data len ?rp1 ?h2 (Some ?r))"
    using e rp(4,5) by (simp add: run h1(1) finish_bulk_def Let_def lk(1) bulk_end_def)
  with e lk(2) g ks rp(5) show ?thesis
    by (intro exI [of _ ?rp1] exI [of _ ?h2] exI [of _ ?L2] exI [of _ ?r]) (simp add: bulk_end_def)
qed

lemma encode_bulks_Cons [simp]: "encode_bulks (x # xs) = encode_bulk x @ encode_bulks xs"
  by (simp add: encode_bulks_def)

lemma encode_bulks_Nil [simp]: "encode_bulks [] = []"
  by (simp add: encode_bulks_def)

lemma loop_children:
  assumes "xs \<noteq> []" "ps_cs rp = 0" "ps_mark rp \<le> ps_p rp" "int32 (ps_bulk_count rp)"
      "ps_multibulk_count rp = int (length xs)" "ps_multibulk_reply rp = Some m"
      "text_at data (ps_p rp) (encode_bulks xs)" "ps_p rp + length (encode_bulks xs) \<le> len"
      "len \<le> length data" "len < 2147483648" "heap_inv bref (ps_p rp) (Some m) B h L"
  shows "\<exists>rp' h' L'. parser_loop bref data len rp h out = Inr (RPR_REPLY, rp', h', Some m) \<and>
    at_rest rp' \<and> ps_p rp' = ps_p rp + length (encode_bulks xs) \<and>
    heap_inv bref (ps_p rp') (Some m) B h' L' \<and> grows (Some m) B h L h' L' \<and>
    kids data h' L' m = kids data h L m @ map Some xs"
  using assms
proof (induction xs arbitrary: rp h L out)
  case (Cons x xs)
  note prems = Cons.prems
  have "text_at data (ps_p rp) (encode_bulk x)" "ps_p rp + length (encode_bulk x) \<le> len"
    "ps_multibulk_count rp > 0"
    using prems(5,7,8) by (simp_all add: text_at_append)
  from loop_child [OF prems(2-4) this(3) prems(6) this(1,2) prems(9-11), of out]
  obtain rp1 h1 L1 r where run: "parser_loop bref data len rp h out =
      (if ps_multibulk_count rp = 1 then Inr (RPR_REPLY, rp1\<lparr>ps_multibulk_reply := None\<rparr>, h1, Some m)
       else parser_loop bref data len rp1 h1 (Some r))"
    and r1: "ps_p rp1 = ps_p rp + length (encode_bulk x)" "ps_cs rp1 = 0" "ps_mark rp1 \<le> ps_p rp1"
    "int32 (ps_bulk_count rp1)" "ps_multibulk_count rp1 = int (length xs)" "ps_multibulk_reply rp1 = Some m"
    "heap_inv bref (ps_p rp1) (Some m) B h1 L1" "grows (Some m) B h L h1 L1"
    "kids data h1 L1 m = kids data h L m @ [Some x]" using prems(5) by auto
  show ?case
  proof (cases "xs = []")
    case True
    with run prems(5) r1 show ?thesis
      by (intro exI [of _ "rp1\<lparr>ps_multibulk_reply := None\<rparr>"] exI [of _ h1] exI [of _ L1]) (simp add: at_rest_def)
  next
    case False
    have "text_at data (ps_p rp1) (encode_bulks xs)" "ps_p rp1 + length (encode_bulks xs) \<le> len"
      using prems(7,8) r1(1) by (simp_all add: text_at_append)
    from Cons.IH [OF False r1(2-6) this prems(9,10) r1(7), of "Some r"]
    obtain rp' h' L' where ih: "parser_loop bref data len rp1 h1 (Some r) = Inr (RPR_REPLY, rp', h', Some m)"
      "at_rest rp'" "ps_p rp' = ps_p rp1 + length (encode_bulks xs)"
      "heap_inv bref (ps_p rp') (Some m) B h' L'" "grows (Some m) B h1 L1 h' L'"
      "kids data h' L' m = kids data h1 L1 m @ map Some xs" by blast
    have "parser_loop bref data len rp h out = Inr (RPR_REPLY, rp', h', Some m)"
      using run ih(1) prems(5) False by simp
    with ih r1(1,9) grows_trans [OF r1(8) ih(5)] show ?thesis
      by (intro exI [of _ rp'] exI [of _ h'] exI [of _ L']) simp
  qed
qed simp

text \<open>What a completed parse of \<open>v\<close> leaves behind.\<close>

definition delivered ::
    "bufref \<Rightarrow> string \<Rightarrow> nat set \<Rightarrow> nat \<Rightarrow> rheap \<Rightarrow> (rnode \<Rightarrow> rnode list) \<Rightarrow> rvalue \<Rightarrow>
     (parser_result \<times> rparser \<times> rheap \<times> nat option) res \<Rightarrow> bool" where
  "delivered bref data B p h L v res \<longleftrightarrow>
     (\<exists>rp' h' r L'. res = Inr (RPR_REPLY, rp', h', Some r) \<and> at_rest rp' \<and> ps_p rp' = p \<and>
        heap_inv bref p None B h' L' \<and> orphan h' B L' r \<and> r \<notin> dom (rh_replies h) \<and>
        grows None B h L h' L' \<and> value_of data (reply_view h' L' r) = Some v)"

lemma deliveredI:
  assumes "res = Inr (RPR_REPLY, rp', h', Some r)" "at_rest rp'" "ps_p rp' = p"
    "heap_inv bref p None B h' L'" "handed None B h' L' (Some r)" "r \<notin> dom (rh_replies h)"
    "grows None B h L h' L'" "value_of data (reply_view h' L' r) = Some v"
  shows "delivered bref data B p h L v res"
  using assms unfolding delivered_def handed_def by blast

text \<open>The three kinds of line, \<open>s\<close> being the state that reads to the end of it.\<close>

lemma deliver_line:
  assumes rp: "at_rest rp" and hi: "heap_inv bref (ps_p rp) None B h L"
    and c: "(c, s, ty) \<in> {(CHR ''+'', 1::nat, RT_OK), (CHR ''-'', 3, RT_ERROR), (CHR '':'', 19, RT_INTEGER)}"
    and at: "text_at data (ps_p rp) (c # t @ crlf)" "CHR 0x0D \<notin> set t"
    and len: "ps_p rp + length t + 3 \<le> len" "len \<le> length data" "len < 2147483648"
    and v: "\<And>rep. rep_type rep = ty \<Longrightarrow> slice data rep = t \<Longrightarrow> value_of data (rep, []) = Some v"
  shows "delivered bref data B (ps_p rp + length t + 3) h L v (parser_loop bref data len rp h out)"
proof -
  let ?p = "Suc (ps_p rp)"
  let ?rp1 = "rp\<lparr>ps_p := ?p, ps_cs := s, ps_mark := ?p\<rparr>"
  let ?rp2 = "?rp1\<lparr>ps_p := ?p + length t + 1, ps_cs := Suc s\<rparr>"
  let ?rp3 = "go 0 ?rp2"
  have d: "data ! ps_p rp = c" "text_at data ?p (t @ crlf)" "data ! (?p + length t + 1) = CHR 0x0A"
    using at(1) by (simp_all add: text_at_Cons text_at_append crlf_at)
  have "parser_loop bref data len rp h out = parser_loop bref data len ?rp1 h None"
    using rp c d(1) len by (auto simp: at_rest_def loop_turn [of rp] step0 MARK_def go_def)
  also have "\<dots> = parser_loop bref data len ?rp2 h None"
    using loop_line [of ?rp1 data t len bref h None] c d(2) at(2) len by auto
  also have "\<dots> = bindE (report_line ty bref ?rp3 h) (settle bref data len)"
    using c d(3) len by (subst loop_turn) (auto simp: step_report)
  finally have run: "parser_loop bref data len rp h out = bindE (report_line ty bref ?rp3 h) (settle bref data len)" .
  have ll: "line_len ?rp3 = length t" using len by (subst line_len_eq) simp_all
  let ?L1 = "L(RChildren (rh_next h) := [])"
  let ?rep = "\<lparr>rep_type = ty, rep_buffer = Some bref, rep_offset = ?p, rep_len = length t\<rparr>"
  have mono: "ps_p rp \<le> ps_p rp + length t + 3" by simp
  have off: "Some bref = Some bref \<Longrightarrow> ?p + length t \<le> ps_p rp + length t + 3" by simp
  from Reply_new_inv [OF hi mono off, where ty = ty] obtain h1 where h1:
    "Reply_new ty (Some bref) ?p (length t) h = Inr (rh_next h, h1)"
    "rh_replies h1 = (rh_replies h)(rh_next h := Some ?rep)" "rh_next h \<notin> dom (rh_replies h)"
    "heap_inv bref (ps_p rp + length t + 3) None B h1 ?L1" "handed None B h1 ?L1 (Some (rh_next h))"
    "grows None B h L h1 ?L1" by blast
  have "slice data ?rep = t" using text_at_prefix [OF d(2)] by (intro text_at_slice) simp_all
  then have view: "value_of data (reply_view h1 ?L1 (rh_next h)) = Some v"
    using v [of ?rep] h1(2) by (simp add: reply_view_def)
  have "parser_loop bref data len rp h out = Inr (RPR_REPLY, ?rp3, h1, Some (rh_next h))"
    unfolding run report_line_def ll using h1(1) by simp
  moreover have "at_rest ?rp3" "ps_p ?rp3 = ps_p rp + length t + 3"
    using rp by (simp_all add: at_rest_def)
  ultimately show ?thesis by (rule deliveredI [OF _ _ _ h1(4,5,3,6) view])
qed

lemma deliver_bulk:
  assumes rp: "at_rest rp" and hi: "heap_inv bref (ps_p rp) None B h L"
    and at: "text_at data (ps_p rp) (encode_bulk x)"
    and len: "ps_p rp + length (encode_bulk x) \<le> len" "len \<le> length data" "len < 2147483648"
  shows "delivered bref data B (ps_p rp + length (encode_bulk x)) h L (VBulk x) (parser_loop bref data len rp h out)"
proof -
  have "ps_cs rp = 0" "ps_mark rp \<le> ps_p rp" "int32 (ps_bulk_count rp)" using rp by (auto simp: at_rest_def)
  from loop_bulk [OF this at len, of bref h out] obtain rp' ty off n where
    e: "bulk_end data x rp rp' ty off n" and run: "parser_loop bref data len rp h out =
      bindE (bindE (Reply_new ty (Some bref) off n h) (\<lambda>(r, h1). finish_bulk rp' r h1)) (settle bref data len)"
    by blast
  let ?L1 = "L(RChildren (rh_next h) := [])"
  let ?rep = "\<lparr>rep_type = ty, rep_buffer = Some bref, rep_offset = off, rep_len = n\<rparr>"
  have b: "ps_p rp \<le> ps_p rp'" "Some bref = Some bref \<Longrightarrow> off + n \<le> ps_p rp'"
    "bulk_of data ?rep = Some x" "ty \<in> {RT_BULK, RT_BULK_NIL}"
    using e by (simp_all add: bulk_end_def)
  from Reply_new_inv [OF hi b(1,2), where ty = ty] obtain h1 where h1:
    "Reply_new ty (Some bref) off n h = Inr (rh_next h, h1)"
    "rh_replies h1 = (rh_replies h)(rh_next h := Some ?rep)" "rh_next h \<notin> dom (rh_replies h)"
    "heap_inv bref (ps_p rp') None B h1 ?L1" "handed None B h1 ?L1 (Some (rh_next h))"
    "grows None B h L h1 ?L1" by blast
  have "value_of data (reply_view h1 ?L1 (rh_next h)) = Some (VBulk x)"
    using b(3,4) h1(2) by (auto simp: reply_view_def bulk_of_def)
  moreover have "parser_loop bref data len rp h out = Inr (RPR_REPLY, rp', h1, Some (rh_next h))"
    using rp e by (simp add: run h1(1) finish_bulk_def bulk_end_def at_rest_def)
  moreover have "at_rest rp'" "ps_p rp' = ps_p rp + length (encode_bulk x)"
    using rp e by (simp_all add: at_rest_def bulk_end_def)
  ultimately show ?thesis using h1(3-6) by (intro deliveredI) simp_all
qed

lemma deliver_nil_multi:
  assumes rp: "at_rest rp" and hi: "heap_inv bref (ps_p rp) None B h L"
    and at: "text_at data (ps_p rp) (''*-1'' @ crlf)"
    and len: "ps_p rp + 5 \<le> len" "len \<le> length data"
  shows "delivered bref data B (ps_p rp + 5) h L VMultiNil (parser_loop bref data len rp h out)"
proof -
  let ?L1 = "L(RChildren (rh_next h) := [])"
  let ?rep = "\<lparr>rep_type = RT_MULTIBULK_NIL, rep_buffer = None, rep_offset = 0, rep_len = 0\<rparr>"
  have mono: "ps_p rp \<le> ps_p rp + 5" by simp
  have no: "None = Some bref \<Longrightarrow> 0 + 0 \<le> ps_p rp + 5" by simp
  have nt: "RT_MULTIBULK_NIL \<in> {RT_OK, RT_ERROR, RT_BULK, RT_INTEGER} \<Longrightarrow> None \<noteq> None" by simp
  from Reply_new_inv [OF hi mono no nt] obtain h1 where h1:
    "Reply_new RT_MULTIBULK_NIL None 0 0 h = Inr (rh_next h, h1)"
    "rh_replies h1 = (rh_replies h)(rh_next h := Some ?rep)" "rh_next h \<notin> dom (rh_replies h)"
    "heap_inv bref (ps_p rp + 5) None B h1 ?L1" "handed None B h1 ?L1 (Some (rh_next h))"
    "grows None B h L h1 ?L1" by blast
  have at': "data ! ps_p rp = CHR ''*''" "data ! Suc (ps_p rp) = CHR ''-''" "data ! Suc (Suc (ps_p rp)) = CHR ''1''"
    "data ! Suc (Suc (Suc (ps_p rp))) = CHR 0x0D" "data ! Suc (Suc (Suc (Suc (ps_p rp)))) = CHR 0x0A"
    using at by (simp_all add: text_at_Cons crlf_at)
  let ?rp = "rp\<lparr>ps_p := Suc (Suc (Suc (Suc (Suc (ps_p rp))))), ps_cs := 0\<rparr>"
  have "parser_loop bref data len rp h out = Inr (RPR_REPLY, ?rp, h1, Some (rh_next h))"
    using rp at' len h1(1)
    by (simp add: at_rest_def loop_turn step0 step13 step_expect step16 expected_def go_alt)
  moreover have "at_rest ?rp" using rp by (simp add: at_rest_def)
  moreover have "ps_p ?rp = ps_p rp + 5" by simp
  moreover have "value_of data (reply_view h1 ?L1 (rh_next h)) = Some VMultiNil"
    using h1(2) by (simp add: reply_view_def)
  ultimately show ?thesis by (intro deliveredI [OF _ _ _ h1(4,5,3,6)])
qed

text \<open>The head of a multibulk, up to the point where its elements follow.\<close>

lemma loop_multi_head:
  assumes rp: "at_rest rp" and hi: "heap_inv bref (ps_p rp) None B h L"
    and at: "text_at data (ps_p rp) (CHR ''*'' # dec_nat n @ crlf)" and n: "n < 2147483648"
    and len: "ps_p rp + length (dec_nat n) + 3 \<le> len" "len \<le> length data"
  shows "\<exists>rp' h'. ps_p rp' = ps_p rp + length (dec_nat n) + 3 \<and> ps_cs rp' = 0 \<and> ps_mark rp' \<le> ps_p rp' \<and>
    int32 (ps_bulk_count rp') \<and> ps_multibulk_count rp' = int n \<and> ps_multibulk_reply rp' = Some (rh_next h) \<and>
    parser_loop bref data len rp h out =
      (if n = 0 then Inr (RPR_REPLY, rp'\<lparr>ps_multibulk_reply := None\<rparr>, h', Some (rh_next h))
       else parser_loop bref data len rp' h' None) \<and>
    rh_next h \<notin> dom (rh_replies h) \<and>
    heap_inv bref (ps_p rp') (Some (rh_next h)) B h' (L(RChildren (rh_next h) := [])) \<and>
    grows None B h L h' (L(RChildren (rh_next h) := [])) \<and>
    rep_type (the (rh_replies h' (rh_next h))) = RT_MULTIBULK"
proof -
  obtain d ds where d: "dec_nat n = d # ds" "isdigit d" "list_all isdigit ds" by (rule dec_nat_Cons)
  let ?L1 = "L(RChildren (rh_next h) := [])" and ?p = "Suc (ps_p rp)"
  let ?e = "Suc (ps_p rp) + length (dec_nat n)"
  let ?rep = "\<lparr>rep_type = RT_MULTIBULK, rep_buffer = None, rep_offset = 0, rep_len = to_size (int n)\<rparr>"
  have mono: "ps_p rp \<le> Suc (Suc ?e)" by simp
  have no: "None = Some bref \<Longrightarrow> 0 + to_size (int n) \<le> Suc (Suc ?e)" by simp
  have nt: "RT_MULTIBULK \<in> {RT_OK, RT_ERROR, RT_BULK, RT_INTEGER} \<Longrightarrow> None \<noteq> None" by simp
  from Reply_new_inv [OF hi mono no nt] obtain h1 where h1:
    "Reply_new RT_MULTIBULK None 0 (to_size (int n)) h = Inr (rh_next h, h1)"
    "rh_replies h1 = (rh_replies h)(rh_next h := Some ?rep)" "rh_next h \<notin> dom (rh_replies h)"
    "heap_inv bref (Suc (Suc ?e)) None B h1 ?L1" "handed None B h1 ?L1 (Some (rh_next h))"
    "grows None B h L h1 ?L1" by blast
  have hi1: "heap_inv bref (Suc (Suc ?e)) (Some (rh_next h)) B h1 ?L1"
    using h1(2,4,5) by (auto simp: heap_inv_def handed_def pending_ok_def)
  let ?rp1 = "rp\<lparr>ps_mark := ?p, ps_p := Suc ?p, ps_cs := 17\<rparr>"
  let ?rp2 = "?rp1\<lparr>ps_p := ?e\<rparr>"
  let ?rp3 = "?rp2\<lparr>ps_multibulk_count := int n, ps_multibulk_reply := Some (rh_next h), ps_p := Suc ?e, ps_cs := 18\<rparr>"
  let ?rp4 = "?rp3\<lparr>ps_p := Suc (Suc ?e), ps_cs := 0\<rparr>"
  have at': "data ! ps_p rp = CHR ''*''" "data ! ?p = d" "text_at data (Suc ?p) (ds @ crlf)"
    "data ! ?e = CHR 0x0D" "data ! Suc ?e = CHR 0x0A" "text_at data ?p (dec_nat n @ crlf)"
    using at by (simp_all add: d(1) text_at_Cons text_at_append crlf_at)
  have nd: "d \<noteq> CHR ''-''" using d(2) by auto
  have "parser_loop bref data len rp h out = parser_loop bref data len (go 13 rp) h None"
    using rp at'(1) len by (simp add: at_rest_def loop_turn [of rp] step0)
  also have "\<dots> = parser_loop bref data len ?rp1 h None"
    using at'(2) d nd len by (simp add: loop_turn [of "go 13 rp"] step13) (simp add: go_def MARK_def)
  also have "\<dots> = parser_loop bref data len ?rp2 h None"
    using loop_digits [of ?rp1 data ds len] at'(3) d len by simp
  also have "\<dots> = parser_loop bref data len ?rp3 h1 None"
    using len at'(4) atoi_at [OF at'(6) n] h1(1) by (subst loop_turn) (simp_all add: step17 go_alt)
  also have "\<dots> = (if n = 0 then Inr (RPR_REPLY, ?rp4\<lparr>ps_multibulk_reply := None\<rparr>, h1, Some (rh_next h))
       else parser_loop bref data len ?rp4 h1 None)"
    using len at'(5) by (subst loop_turn) (simp_all add: step18 go_alt)
  finally have run: "parser_loop bref data len rp h out =
      (if n = 0 then Inr (RPR_REPLY, ?rp4\<lparr>ps_multibulk_reply := None\<rparr>, h1, Some (rh_next h))
       else parser_loop bref data len ?rp4 h1 None)" .
  have "int32 (ps_bulk_count rp)" using rp by (simp add: at_rest_def)
  with run h1(2,3,6) hi1 show ?thesis
    by (intro exI [of _ ?rp4] exI [of _ h1]) simp
qed

lemma those_Some: "those (map Some xs) = Some xs"
  by (induction xs) simp_all

lemma view_multi:
  assumes "rep_type (the (rh_replies h m)) = RT_MULTIBULK" "kids data h L m = map Some xs"
  shows "value_of data (reply_view h L m) = Some (VMulti xs)"
proof -
  have "map (bulk_of data) (map (\<lambda>n. the (rh_replies h (link_id n))) (L (RChildren m))) = map Some xs"
    using assms(2) by (simp add: kids_def o_def)
  with assms(1) show ?thesis unfolding reply_view_def value_of.simps by (simp add: those_Some del: map_map)
qed

lemma pending_handed: "heap_inv bref p (Some m) B h L \<Longrightarrow> handed None B h L (Some m)"
  by (simp add: heap_inv_def pending_ok_def handed_def)

lemma deliver_multi:
  assumes rp: "at_rest rp" and hi: "heap_inv bref (ps_p rp) None B h L"
    and at: "text_at data (ps_p rp) (encode (VMulti xs))"
    and len: "ps_p rp + length (encode (VMulti xs)) \<le> len" "len \<le> length data" "len < 2147483648"
  shows "delivered bref data B (ps_p rp + length (encode (VMulti xs))) h L (VMulti xs) (parser_loop bref data len rp h out)"
proof -
  let ?n = "length xs" and ?m = "rh_next h" and ?L1 = "L(RChildren (rh_next h) := [])"
  have le: "length xs \<le> length (encode_bulks xs)"
    by (induction xs) (auto simp: encode_bulk_def split: option.split)
  have at1: "text_at data (ps_p rp) (CHR ''*'' # dec_nat ?n @ crlf)"
    and at2: "text_at data (ps_p rp + length (dec_nat ?n) + 3) (encode_bulks xs)"
    using at by (simp_all add: text_at_Cons text_at_append numeral_3_eq_3)
  have l: "ps_p rp + length (dec_nat ?n) + 3 + length (encode_bulks xs) \<le> len" using len(1) by simp
  have n: "?n < 2147483648" "ps_p rp + length (dec_nat ?n) + 3 \<le> len" using l le len(3) by simp_all
  from loop_multi_head [OF rp hi at1 n len(2), of out] obtain rp' h' where
    r': "ps_p rp' = ps_p rp + length (dec_nat ?n) + 3" "ps_cs rp' = 0" "ps_mark rp' \<le> ps_p rp'"
      "int32 (ps_bulk_count rp')" "ps_multibulk_count rp' = int ?n" "ps_multibulk_reply rp' = Some ?m"
    and run: "parser_loop bref data len rp h out =
      (if ?n = 0 then Inr (RPR_REPLY, rp'\<lparr>ps_multibulk_reply := None\<rparr>, h', Some ?m)
       else parser_loop bref data len rp' h' None)"
    and h': "?m \<notin> dom (rh_replies h)" "heap_inv bref (ps_p rp') (Some ?m) B h' ?L1"
      "grows None B h L h' ?L1" "rep_type (the (rh_replies h' ?m)) = RT_MULTIBULK" by blast
  show ?thesis
  proof (cases "xs = []")
    case True
    have "kids data h' ?L1 ?m = map Some xs" using True by (simp add: kids_def)
    note view = view_multi [OF h'(4) this]
    have "at_rest (rp'\<lparr>ps_multibulk_reply := None\<rparr>)"
      "ps_p (rp'\<lparr>ps_multibulk_reply := None\<rparr>) = ps_p rp + length (encode (VMulti xs))"
      "parser_loop bref data len rp h out = Inr (RPR_REPLY, rp'\<lparr>ps_multibulk_reply := None\<rparr>, h', Some ?m)"
      using r' run True by (simp_all add: at_rest_def)
    moreover have "heap_inv bref (ps_p rp + length (encode (VMulti xs))) None B h' ?L1"
      using heap_inv_None [OF h'(2)] r'(1) True by (simp add: numeral_3_eq_3)
    ultimately show ?thesis by (intro deliveredI [OF _ _ _ _ pending_handed [OF h'(2)] h'(1,3) view])
  next
    case False
    have "text_at data (ps_p rp') (encode_bulks xs)" "ps_p rp' + length (encode_bulks xs) \<le> len"
      using at2 l r'(1) by simp_all
    from loop_children [OF False r'(2-6) this len(2,3) h'(2), of None] obtain rp2 h2 L2 where
      c: "parser_loop bref data len rp' h' None = Inr (RPR_REPLY, rp2, h2, Some ?m)" "at_rest rp2"
        "ps_p rp2 = ps_p rp' + length (encode_bulks xs)" "heap_inv bref (ps_p rp2) (Some ?m) B h2 L2"
        "grows (Some ?m) B h' ?L1 h2 L2" "kids data h2 L2 ?m = kids data h' ?L1 ?m @ map Some xs" by blast
    have md: "?m \<in> dom (rh_replies h')" using h'(2) by (simp add: heap_inv_def pending_ok_def orphan_def)
    have "rh_replies h' \<subseteq>\<^sub>m rh_replies h2" using c(5) by (simp add: grows_def)
    then have ty: "rep_type (the (rh_replies h2 ?m)) = RT_MULTIBULK"
      using md h'(4) by (simp add: map_le_def)
    have "kids data h2 L2 ?m = map Some xs" using c(6) by (simp add: kids_def)
    note view = view_multi [OF ty this]
    have g: "grows None B h L h2 L2" using grows_trans [OF h'(3) c(5)] h'(1) by simp
    have p: "ps_p rp2 = ps_p rp + length (encode (VMulti xs))" using c(3) r'(1) by simp
    have "parser_loop bref data len rp h out = Inr (RPR_REPLY, rp2, h2, Some ?m)"
      using run c(1) False by simp
    moreover have "heap_inv bref (ps_p rp + length (encode (VMulti xs))) None B h2 L2"
      using heap_inv_None [OF c(4)] p by simp
    ultimately show ?thesis
      by (intro deliveredI [OF _ c(2) p _ pending_handed [OF c(4)] h'(1) g view])
  qed
qed

lemma CR_not_in_dec_int: "CHR 0x0D \<notin> set (dec_int z)"
  using dec_nat_digits [of "nat z"] dec_nat_digits [of "nat (- z)"]
  by (auto simp: dec_int_def list_all_iff)

lemma deliver:
  assumes rp: "at_rest rp" and hi: "heap_inv bref (ps_p rp) None B h L"
    and v: "sendable v" "text_at data (ps_p rp) (encode v)"
    and len: "ps_p rp + length (encode v) \<le> len" "len \<le> length data" "len < 2147483648"
  shows "delivered bref data B (ps_p rp + length (encode v)) h L v (parser_loop bref data len rp h out)"
proof (cases v)
  case (VStatus s)
  have "delivered bref data B (ps_p rp + length s + 3) h L v (parser_loop bref data len rp h out)"
    by (rule deliver_line [OF rp hi, of "CHR ''+''" 1 RT_OK]) (use v len VStatus in simp_all)
  with VStatus show ?thesis by (simp add: numeral_3_eq_3)
next
  case (VError s)
  have "delivered bref data B (ps_p rp + length s + 3) h L v (parser_loop bref data len rp h out)"
    by (rule deliver_line [OF rp hi, of "CHR ''-''" 3 RT_ERROR]) (use v len VError in simp_all)
  with VError show ?thesis by (simp add: numeral_3_eq_3)
next
  case (VInteger z)
  have "delivered bref data B (ps_p rp + length (dec_int z) + 3) h L v (parser_loop bref data len rp h out)"
    by (rule deliver_line [OF rp hi, of "CHR '':''" 19 RT_INTEGER])
      (use v len VInteger CR_not_in_dec_int in \<open>simp_all add: strtol10_dec_int\<close>)
  with VInteger show ?thesis by (simp add: numeral_3_eq_3)
next
  case (VBulk x)
  with deliver_bulk [OF rp hi, of data x len out] v len show ?thesis by simp
next
  case (VMulti xs)
  with deliver_multi [OF rp hi, of data xs len out] v len show ?thesis by simp
next
  case VMultiNil
  have "delivered bref data B (ps_p rp + 5) h L v (parser_loop bref data len rp h out)"
    unfolding VMultiNil by (rule deliver_nil_multi [OF rp hi]) (use v len VMultiNil in simp_all)
  moreover have "length (encode v) = 5" using VMultiNil by simp
  ultimately show ?thesis by (simp only:)
qed

section \<open>Properties\<close>

text \<open>The replies the server sends one after the other, taken off the buffer by repeated calls.\<close>

fun parse_all ::
    "rparser \<Rightarrow> bufref \<Rightarrow> string \<Rightarrow> nat \<Rightarrow> nat \<Rightarrow> rheap \<Rightarrow> (nat list \<times> rparser \<times> rheap) res" where
  "parse_all rp bref data len 0 h = Inr ([], rp, h)"
| "parse_all rp bref data len (Suc n) h =
     bindE (ReplyParser_execute rp bref data len None h) (\<lambda>(res, rp1, h1, out).
     bindE (assertE (res = RPR_REPLY)) (\<lambda>_.
     bindE (derefE out) (\<lambda>r.
     bindE (parse_all rp1 bref data len n h1) (\<lambda>(rs, rp2, h2). Inr (r # rs, rp2, h2)))))"

definition encode_all :: "rvalue list \<Rightarrow> string" where
  "encode_all vs = concat (map encode vs)"

lemma view_grows:
  assumes "reply_heap h B L" "r \<in> dom (rh_replies h)" "grows None B h L h' L'"
  shows "reply_view h' L' r = reply_view h L r"
proof -
  from assms(2) obtain rep where rep: "rh_replies h r = Some rep" by auto
  have le: "rh_replies h \<subseteq>\<^sub>m rh_replies h'" and L: "L' (RChildren r) = L (RChildren r)"
    using assms(2,3) by (auto simp: grows_def)
  have "rh_replies h' (link_id n) = rh_replies h (link_id n)" if "n \<in> set (L (RChildren r))" for n
  proof -
    from links_of_live [OF assms(1) rep that] obtain c where "n = RLink c" "c \<in> dom (rh_replies h)" by blast
    with le show ?thesis by (auto simp: map_le_def)
  qed
  moreover have "rh_replies h' r = rh_replies h r" using le assms(2) by (auto simp: map_le_def)
  ultimately show ?thesis unfolding reply_view_def L by simp
qed

lemma orphan_grows:
  assumes "reply_heap h B L" "reply_heap h' B L'" "orphan h B L r" "grows None B h L h' L'"
  shows "r \<in> dom (rh_replies h')"
  using assms by (force simp: orphan_def grows_def map_le_def)

text \<open>
  C4: a reply the server sends is understood.  If the bytes at the parser's position are the
  encoding of a value, one call consumes exactly these bytes and hands out a reply that, read
  together with the buffer, denotes this value; a multibulk carries its elements in order, and the
  reply is a new object in no list.
\<close>

theorem ReplyParser_execute_roundtrip:
  assumes "at_rest rp" "heap_inv bref (ps_p rp) None B h L" "sendable v"
    and "text_at data (ps_p rp) (encode v)" "ps_p rp + length (encode v) \<le> len" "len \<le> length data"
    and "len < 2147483648"
  shows "\<exists>rp' h' r L'. ReplyParser_execute rp bref data len out h = Inr (RPR_REPLY, rp', h', Some r) \<and>
    at_rest rp' \<and> ps_p rp' = ps_p rp + length (encode v) \<and>
    heap_inv bref (ps_p rp') None B h' L' \<and> orphan h' B L' r \<and> r \<notin> dom (rh_replies h) \<and>
    grows None B h L h' L' \<and> value_of data (reply_view h' L' r) = Some v"
  using deliver [OF assms, of out] assms(5)
  unfolding delivered_def ReplyParser_execute_def by auto

lemma demo_heap_inv: "heap_inv bref 0 None {} demo_heap (\<lambda>_. [])"
  using demo_reply_heap by (simp add: heap_inv_def pending_ok_def replies_ok_def)

lemma fresh_at_rest: "at_rest fresh_parser"
  by (simp add: at_rest_def fresh_parser_def)

theorem ReplyParser_execute_roundtrip_witness:
  "\<exists>rp' h' r L'. ReplyParser_execute fresh_parser (ReadBuffer 0) (encode (VMulti [Some ''ab'', None])) 17 None demo_heap =
      Inr (RPR_REPLY, rp', h', Some r) \<and> ps_p rp' = 17 \<and>
    value_of (encode (VMulti [Some ''ab'', None])) (reply_view h' L' r) = Some (VMulti [Some ''ab'', None])"
proof -
  have l: "length (encode (VMulti [Some ''ab'', None])) = 17"
    by (simp add: encode_bulks_def encode_bulk_def crlf_def dec_nat.simps)
  show ?thesis
    using ReplyParser_execute_roundtrip [OF fresh_at_rest, of "ReadBuffer 0" "{}" demo_heap "\<lambda>_. []"
        "VMulti [Some ''ab'', None]" "encode (VMulti [Some ''ab'', None])" 17 None] l
    by (auto simp: demo_heap_inv fresh_parser_def text_at_def simp del: encode.simps)
qed

lemma parse_all_values:
  assumes "at_rest rp" "heap_inv bref (ps_p rp) None B h L" "\<forall>v \<in> set vs. sendable v"
    and "text_at data (ps_p rp) (encode_all vs)" "ps_p rp + length (encode_all vs) \<le> len" "len \<le> length data"
    and "len < 2147483648"
  shows "\<exists>rs rp' h' L'. parse_all rp bref data len (length vs) h = Inr (rs, rp', h') \<and>
    at_rest rp' \<and> ps_p rp' = ps_p rp + length (encode_all vs) \<and> heap_inv bref (ps_p rp') None B h' L' \<and>
    grows None B h L h' L' \<and> distinct rs \<and>
    map (\<lambda>r. value_of data (reply_view h' L' r)) rs = map Some vs \<and>
    set rs \<subseteq> dom (rh_replies h') - dom (rh_replies h)"
  using assms
proof (induction vs arbitrary: rp h L)
  case Nil
  then show ?case by (auto simp: encode_all_def)
next
  case (Cons v vs)
  note prems = Cons.prems
  have 1: "sendable v" "text_at data (ps_p rp) (encode v)" "ps_p rp + length (encode v) \<le> len"
    using prems(3-5) by (simp_all add: encode_all_def text_at_append)
  from deliver [OF prems(1,2) 1 prems(6,7), of None] obtain rp1 h1 r L1 where
    r1: "parser_loop bref data len rp h None = Inr (RPR_REPLY, rp1, h1, Some r)" "at_rest rp1"
      "ps_p rp1 = ps_p rp + length (encode v)" "heap_inv bref (ps_p rp + length (encode v)) None B h1 L1" "orphan h1 B L1 r"
      "r \<notin> dom (rh_replies h)" "grows None B h L h1 L1" "value_of data (reply_view h1 L1 r) = Some v"
    unfolding delivered_def by blast
  have hi1: "heap_inv bref (ps_p rp1) None B h1 L1" using r1(3,4) by simp
  have 2: "\<forall>v \<in> set vs. sendable v" "text_at data (ps_p rp1) (encode_all vs)"
    "ps_p rp1 + length (encode_all vs) \<le> len"
    using prems(3-5) r1(3) by (simp_all add: encode_all_def text_at_append)
  from Cons.IH [OF r1(2) hi1 2 prems(6,7)] obtain rs rp2 h2 L2 where
    r2: "parse_all rp1 bref data len (length vs) h1 = Inr (rs, rp2, h2)" "at_rest rp2"
      "ps_p rp2 = ps_p rp1 + length (encode_all vs)" "heap_inv bref (ps_p rp2) None B h2 L2"
      "grows None B h1 L1 h2 L2" "distinct rs" "map (\<lambda>r. value_of data (reply_view h2 L2 r)) rs = map Some vs"
      "set rs \<subseteq> dom (rh_replies h2) - dom (rh_replies h1)" by blast
  have rh: "reply_heap h1 B L1" using r1(4) by (simp add: heap_inv_def)
  have rd: "r \<in> dom (rh_replies h1)" using r1(5) by (simp add: orphan_def)
  have sub: "dom (rh_replies h) \<subseteq> dom (rh_replies h1)" "dom (rh_replies h1) \<subseteq> dom (rh_replies h2)"
    using r1(7) r2(5) by (auto simp: grows_def dest: map_le_implies_dom_le)
  have view: "reply_view h2 L2 r = reply_view h1 L1 r" by (rule view_grows [OF rh rd r2(5)])
  have "ps_p rp \<le> len" using 1(3) by simp
  then have "parse_all rp bref data len (length (v # vs)) h = Inr (r # rs, rp2, h2)"
    using r1(1) r2(1) by (simp add: ReplyParser_execute_def)
  moreover have "r \<notin> set rs" using r2(8) rd by blast
  moreover have "set (r # rs) \<subseteq> dom (rh_replies h2) - dom (rh_replies h)"
    using r1(6) r2(8) rd sub unfolding set_simps by blast
  ultimately show ?case
    using r1 r2 view sub grows_trans [OF r1(7) r2(5)]
    by (intro exI [of _ "r # rs"] exI [of _ rp2] exI [of _ h2] exI [of _ L2]) (simp add: encode_all_def)
qed

text \<open>
  C18: replies are delivered in the order in which they were sent.  From a buffer that holds the
  encodings of several values one after the other, as many calls return replies that denote these
  values, in order, and consume exactly the bytes.
\<close>

theorem parse_all_roundtrip:
  assumes "at_rest rp" "heap_inv bref (ps_p rp) None B h L" "\<forall>v \<in> set vs. sendable v"
    and "text_at data (ps_p rp) (encode_all vs)" "ps_p rp + length (encode_all vs) \<le> len" "len \<le> length data"
    and "len < 2147483648"
  shows "\<exists>rs rp' h' L'. parse_all rp bref data len (length vs) h = Inr (rs, rp', h') \<and>
    at_rest rp' \<and> ps_p rp' = ps_p rp + length (encode_all vs) \<and> heap_inv bref (ps_p rp') None B h' L' \<and>
    grows None B h L h' L' \<and> distinct rs \<and>
    map (\<lambda>r. value_of data (reply_view h' L' r)) rs = map Some vs"
  using parse_all_values [OF assms] by blast

theorem parse_all_roundtrip_witness:
  "\<exists>rs rp' h' L'. parse_all fresh_parser (ReadBuffer 0) (encode_all [VStatus ''OK'', VBulk None]) 10 2 demo_heap =
      Inr (rs, rp', h') \<and> ps_p rp' = 10 \<and>
    map (\<lambda>r. value_of (encode_all [VStatus ''OK'', VBulk None]) (reply_view h' L' r)) rs =
      [Some (VStatus ''OK''), Some (VBulk None)]"
proof -
  have l: "length (encode_all [VStatus ''OK'', VBulk None]) = 10"
    by (simp add: encode_all_def encode_bulk_def crlf_def)
  show ?thesis
    using parse_all_roundtrip [OF fresh_at_rest, of "ReadBuffer 0" "{}" demo_heap "\<lambda>_. []"
        "[VStatus ''OK'', VBulk None]" "encode_all [VStatus ''OK'', VBulk None]" 10] l
    by (auto simp: demo_heap_inv fresh_parser_def text_at_def numeral_2_eq_2)
qed

text \<open>The elements of a multibulk before the last: the machine is between two elements, with the rest to come.\<close>

lemma loop_some_children:
  assumes "ps_cs rp = 0" "ps_mark rp \<le> ps_p rp" "int32 (ps_bulk_count rp)"
      "int (length xs) < ps_multibulk_count rp" "ps_multibulk_reply rp = Some m"
      "text_at data (ps_p rp) (encode_bulks xs)" "ps_p rp + length (encode_bulks xs) \<le> len"
      "len \<le> length data" "len < 2147483648" "heap_inv bref (ps_p rp) (Some m) B h L"
  shows "\<exists>rp' h' out'. parser_loop bref data len rp h out = parser_loop bref data len rp' h' out' \<and>
    ps_cs rp' = 0 \<and> ps_p rp' = ps_p rp + length (encode_bulks xs) \<and>
    ps_multibulk_count rp' = ps_multibulk_count rp - int (length xs)"
  using assms
proof (induction xs arbitrary: rp h L out)
  case Nil
  then show ?case by (intro exI [of _ rp] exI [of _ h] exI [of _ out]) simp
next
  case (Cons x xs)
  note prems = Cons.prems
  have "text_at data (ps_p rp) (encode_bulk x)" "ps_p rp + length (encode_bulk x) \<le> len"
    "ps_multibulk_count rp > 0"
    using prems(4,6,7) by (simp_all add: text_at_append)
  from loop_child [OF prems(1-3) this(3) prems(5) this(1,2) prems(8-10), of out]
  obtain rp1 h1 L1 r where run: "parser_loop bref data len rp h out = parser_loop bref data len rp1 h1 (Some r)"
    and r1: "ps_p rp1 = ps_p rp + length (encode_bulk x)" "ps_cs rp1 = 0" "ps_mark rp1 \<le> ps_p rp1"
    "int32 (ps_bulk_count rp1)" "ps_multibulk_count rp1 = ps_multibulk_count rp - 1" "ps_multibulk_reply rp1 = Some m"
    "heap_inv bref (ps_p rp1) (Some m) B h1 L1" using prems(4) by auto
  have "text_at data (ps_p rp1) (encode_bulks xs)" "ps_p rp1 + length (encode_bulks xs) \<le> len"
    "int (length xs) < ps_multibulk_count rp1"
    using prems(4,6,7) r1(1,5) by (simp_all add: text_at_append)
  from Cons.IH [OF r1(2-4) this(3) r1(6) this(1,2) prems(8,9) r1(7), of "Some r"]
  obtain rp' h' out' where ih: "parser_loop bref data len rp1 h1 (Some r) = parser_loop bref data len rp' h' out'"
    "ps_cs rp' = 0" "ps_p rp' = ps_p rp1 + length (encode_bulks xs)"
    "ps_multibulk_count rp' = ps_multibulk_count rp1 - int (length xs)" by blast
  with run r1(1,5) show ?case
    by (intro exI [of _ rp'] exI [of _ h'] exI [of _ out']) simp
qed

text \<open>
  C32: the elements of a multibulk must be bulks.  Wherever in a multibulk an element begins, as the first
  or after any number of bulks, a byte other than \<open>$\<close> there (that of a status, an error, an integer or a nested
  multibulk) is reported as a protocol error, although Redis may send such elements; the machine stays
  in front of the offending byte and no reply is handed out.
\<close>

theorem ReplyParser_execute_element_error:
  assumes "at_rest rp" "heap_inv bref (ps_p rp) None B h L" "length xs < n" "n < 2147483648"
    and "text_at data (ps_p rp) (CHR ''*'' # dec_nat n @ crlf @ encode_bulks xs @ [c])" "c \<noteq> CHR ''$''"
    and "ps_p rp + length (dec_nat n) + 3 + length (encode_bulks xs) < len" "len \<le> length data" "len < 2147483648"
  shows "\<exists>rp' h'. ReplyParser_execute rp bref data len out h = Inr (RPR_ERROR, rp', h', None) \<and>
    ps_p rp' = ps_p rp + length (dec_nat n) + 3 + length (encode_bulks xs)"
proof -
  have at: "text_at data (ps_p rp) (CHR ''*'' # dec_nat n @ crlf)"
    "text_at data (ps_p rp + length (dec_nat n) + 3) (encode_bulks xs)"
    "data ! (ps_p rp + length (dec_nat n) + 3 + length (encode_bulks xs)) = c"
    using assms(5) by (simp_all add: text_at_Cons text_at_append numeral_3_eq_3)
  have len: "ps_p rp + length (dec_nat n) + 3 \<le> len" using assms(7) by simp
  from loop_multi_head [OF assms(1,2) at(1) assms(4) len assms(8), of out] obtain rp1 h1 where
    r: "ps_p rp1 = ps_p rp + length (dec_nat n) + 3" "ps_cs rp1 = 0" "ps_mark rp1 \<le> ps_p rp1" "int32 (ps_bulk_count rp1)"
      "ps_multibulk_count rp1 = int n" "ps_multibulk_reply rp1 = Some (rh_next h)"
      "parser_loop bref data len rp h out = (if n = 0 then Inr (RPR_REPLY, rp1\<lparr>ps_multibulk_reply := None\<rparr>, h1, Some (rh_next h))
       else parser_loop bref data len rp1 h1 None)"
      "heap_inv bref (ps_p rp1) (Some (rh_next h)) B h1 (L(RChildren (rh_next h) := []))" by blast
  have n0: "n \<noteq> 0" using assms(3) by simp
  have xs: "int (length xs) < ps_multibulk_count rp1" "text_at data (ps_p rp1) (encode_bulks xs)"
    "ps_p rp1 + length (encode_bulks xs) \<le> len"
    using assms(3,7) at(2) r(1,5) by simp_all
  from loop_some_children [OF r(2-4) xs(1) r(6) xs(2,3) assms(8,9) r(8), of None] obtain rp' h' out' where
    e: "parser_loop bref data len rp1 h1 None = parser_loop bref data len rp' h' out'" "ps_cs rp' = 0"
      "ps_p rp' = ps_p rp1 + length (encode_bulks xs)" "ps_multibulk_count rp' = int n - int (length xs)"
    unfolding r(5) by blast
  have "parser_loop bref data len rp' h' out' = Inr (RPR_ERROR, rp', h', None)"
    using e(2-4) at(3) r(1) assms(3,6,7,8) by (simp add: loop_turn step0)
  with r n0 e assms(7) show ?thesis by (simp add: ReplyParser_execute_def)
qed

theorem ReplyParser_execute_element_error_witness:
  "\<exists>rp' h'. ReplyParser_execute fresh_parser (ReadBuffer 0) (''*2'' @ crlf @ ''$1'' @ crlf @ ''a'' @ crlf @ '':5'' @ crlf) 15 None demo_heap =
      Inr (RPR_ERROR, rp', h', None) \<and> ps_p rp' = 11"
proof -
  have "dec_nat 1 = ''1''" "dec_nat 2 = ''2''" by code_simp+
  then have d: "dec_nat (Suc 0) = ''1''" "dec_nat 2 = ''2''" by simp_all
  show ?thesis
    using ReplyParser_execute_element_error [OF fresh_at_rest, of "ReadBuffer 0" "{}" demo_heap "\<lambda>_. []" "[Some ''a'']" 2
        "''*2'' @ crlf @ ''$1'' @ crlf @ ''a'' @ crlf @ '':5'' @ crlf" "CHR '':''" 15 None]
    by (simp add: demo_heap_inv fresh_parser_def text_at_def d crlf_def encode_bulk_def)
qed



end
