(* ===== verification/Batch.thy ===== *)
theory Batch
  imports Reply_Grammar
begin


text \<open>
  The batch of \<open>libredis/batch.c\<close>: the commands written so far with their number, the replies
  received, the iterator over the replies and the error of an aborted batch.  The reply queue
  is the list headed by \<open>RQueue (bt_id batch)\<close> on the reply heap.  The iterator is a stack of pairs
  (current node, end node) in an array of four pointers; \<open>None\<close> is a slot never written.
  Modelled is the multithreaded build, in which \<open>Batch_free\<close> calls \<open>_Batch_free\<close> with \<open>final\<close> 1.
\<close>

record batch =
  bt_id :: nat
  bt_num_commands :: int
  bt_write_buffer :: buffer
  bt_read_buffer :: buffer
  bt_sp :: int
  bt_current :: "rnode option list"
  bt_error :: "buffer option"

text \<open>\<open>sizeof (Batch)\<close> on LP64; the buffer sizes of \<open>common.h\<close>.\<close>

definition sizeof_Batch :: nat where
  "sizeof_Batch = 88"

definition DEFAULT_WRITE_BUFF_SIZE :: nat where
  "DEFAULT_WRITE_BUFF_SIZE = 4096"

definition DEFAULT_READ_BUFF_SIZE :: nat where
  "DEFAULT_READ_BUFF_SIZE = 12288"

definition BATCH_REPLY_ITERATOR_STACK_SIZE :: nat where
  "BATCH_REPLY_ITERATOR_STACK_SIZE = 2"

section \<open>Creation and release\<close>

text \<open>\<open>b\<close> is the address the allocator gives the batch.\<close>

definition Batch_new :: "nat \<Rightarrow> rheap \<Rightarrow> (batch \<times> rheap) res" where
  "Batch_new b h =
     bindE (Alloc_alloc sizeof_Batch h) (\<lambda>(p, h1).
     bindE (derefE p) (\<lambda>_.
     bindE (Buffer_new DEFAULT_READ_BUFF_SIZE h1) (\<lambda>(rb, h2).
     bindE (Buffer_new DEFAULT_WRITE_BUFF_SIZE h2) (\<lambda>(wb, h3).
       Inr (\<lparr>bt_id = b, bt_num_commands = 0, bt_write_buffer = wb, bt_read_buffer = rb,
              bt_sp = 0, bt_current = [Some (RQueue b), Some (RQueue b), None, None],
              bt_error = None\<rparr>,
            h3\<lparr>rh_links := init_list_head (RQueue b) (rh_links h3)\<rparr>)))))"

text \<open>The loop of \<open>_Batch_free\<close> over the reply queue.\<close>

partial_function (option) free_replies :: "nat \<Rightarrow> rheap \<Rightarrow> rheap res option" where
  "free_replies b h =
     (if list_empty (RQueue b) (rh_links h) then Some (Inr h)
      else case bindE (list_pop (RQueue b) (rh_links h)) (\<lambda>(n, lk).
               bindE (reply_of n) (\<lambda>r. Reply_free r (h\<lparr>rh_links := lk\<rparr>))) of
        Inl e \<Rightarrow> Some (Inl e)
      | Inr h1 \<Rightarrow> free_replies b h1)"

text \<open>
  \<open>_Batch_free\<close>.  What a freed or cleared batch holds is never read again, so only the heap
  is returned; in the branch for re-use the buffers are cleared and zeroed (\<open>NDEBUG\<close>).
\<close>

definition Batch_free_impl :: "batch \<Rightarrow> bool \<Rightarrow> rheap \<Rightarrow> rheap res" where
  "Batch_free_impl bt final h =
     bindE (case free_replies (bt_id bt) h of None \<Rightarrow> Inl Diverges | Some r \<Rightarrow> r) (\<lambda>h1.
     bindE (if final then
              bindE (Buffer_free (bt_read_buffer bt) h1) (\<lambda>h2. Buffer_free (bt_write_buffer bt) h2)
            else
              bindE (Buffer_clear (bt_read_buffer bt) h1) (\<lambda>(rb, h2).
              bindE (Buffer_clear (bt_write_buffer bt) h2) (\<lambda>(wb, h3).
              bindE (Buffer_fill rb (CHR 0x00)) (\<lambda>_.
              bindE (Buffer_fill wb (CHR 0x00)) (\<lambda>_. Inr h3))))) (\<lambda>h4.
     bindE (case bt_error bt of None \<Rightarrow> Inr h4 | Some e \<Rightarrow> Buffer_free e h4) (\<lambda>h5.
       Alloc_free sizeof_Batch h5)))"

definition Batch_free :: "batch \<Rightarrow> rheap \<Rightarrow> rheap res" where
  "Batch_free bt h = Batch_free_impl bt True h"

section \<open>Writing commands\<close>

definition Batch_write ::
    "batch \<Rightarrow> string option \<Rightarrow> nat \<Rightarrow> int \<Rightarrow> 'a module_scheme \<Rightarrow> (batch \<times> 'a module_scheme) res" where
  "Batch_write bt str str_len num_commands m =
     bindE (if str \<noteq> None \<and> str_len > 0
            then bindE (Buffer_write (bt_write_buffer bt) (the str) str_len m) (\<lambda>(wb, m1).
                   Inr (bt\<lparr>bt_write_buffer := wb\<rparr>, m1))
            else Inr (bt, m)) (\<lambda>(bt1, m1).
       Inr (bt1\<lparr>bt_num_commands := wrap32 (bt_num_commands bt1 + num_commands)\<rparr>, m1))"

text \<open>\<open>snprintf\<close> leaves at most 31 characters and a null in the array and returns the full length.\<close>

definition Batch_write_decimal ::
    "batch \<Rightarrow> int \<Rightarrow> 'a module_scheme \<Rightarrow> (batch \<times> 'a module_scheme) res" where
  "Batch_write_decimal bt decimal m =
     (let buff = snprintf_text 32 (dec_int decimal); buff_len = length (dec_int decimal) in
      Batch_write bt (Some buff) buff_len 0 m)"

definition Batch_write_set ::
    "batch \<Rightarrow> string option \<Rightarrow> int \<Rightarrow> string option \<Rightarrow> int \<Rightarrow> 'a module_scheme \<Rightarrow> (batch \<times> 'a module_scheme) res" where
  "Batch_write_set bt key key_len val val_len m =
     bindE (Batch_write bt (Some ''SET '') 4 0 m) (\<lambda>(bt, m).
     bindE (Batch_write bt key (to_size key_len) 0 m) (\<lambda>(bt, m).
     bindE (Batch_write bt (Some '' '') 1 0 m) (\<lambda>(bt, m).
     bindE (Batch_write_decimal bt val_len m) (\<lambda>(bt, m).
     bindE (Batch_write bt (Some crlf) 2 0 m) (\<lambda>(bt, m).
     bindE (Batch_write bt val (to_size val_len) 0 m) (\<lambda>(bt, m).
       Batch_write bt (Some crlf) 2 1 m))))))"

definition Batch_write_get ::
    "batch \<Rightarrow> string option \<Rightarrow> int \<Rightarrow> 'a module_scheme \<Rightarrow> (batch \<times> 'a module_scheme) res" where
  "Batch_write_get bt key key_len m =
     bindE (Batch_write bt (Some ''GET '') 4 0 m) (\<lambda>(bt, m).
     bindE (Batch_write bt key (to_size key_len) 0 m) (\<lambda>(bt, m).
       Batch_write bt (Some crlf) 2 1 m))"

section \<open>Outstanding commands and replies\<close>

definition Batch_has_command :: "batch \<Rightarrow> bool" where
  "Batch_has_command bt \<longleftrightarrow> bt_num_commands bt > 0"

definition Batch_add_reply :: "batch \<Rightarrow> nat \<Rightarrow> rheap \<Rightarrow> (batch \<times> rheap) res" where
  "Batch_add_reply bt r h =
     bindE (list_add_tail (RLink r) (RQueue (bt_id bt)) (rh_links h)) (\<lambda>lk.
       Inr (bt\<lparr>bt_num_commands := wrap32 (bt_num_commands bt - 1)\<rparr>, h\<lparr>rh_links := lk\<rparr>))"

text \<open>The string \<open>Batch_error\<close> points to: the block of the error buffer.\<close>

definition Batch_error :: "batch \<Rightarrow> string option" where
  "Batch_error bt = map_option Buffer_data (bt_error bt)"

text \<open>The loop of \<open>Batch_abort\<close>: an error reply for every command that is still outstanding.\<close>

lemma wrap32_pred_less: "0 < n \<Longrightarrow> wrap32 (n - 1) < n"
  using wrap32_pos_le [of "n - 1"] by (cases "0 < wrap32 (n - 1)") auto

lemma Batch_add_reply_count:
  "Batch_add_reply bt r h = Inr (bt', h') \<Longrightarrow> bt_num_commands bt' = wrap32 (bt_num_commands bt - 1)"
  by (auto simp: Batch_add_reply_def bindE_eq_Inr)

function abort_replies :: "batch \<Rightarrow> nat \<Rightarrow> rheap \<Rightarrow> (batch \<times> rheap) res" where
  "abort_replies bt len h =
     (if Batch_has_command bt then
        bindE (Reply_new RT_ERROR (Some (ErrorBuffer (bt_id bt))) 0 len h) (\<lambda>(r, h1).
        bindE (Batch_add_reply bt r h1) (\<lambda>(bt1, h2). abort_replies bt1 len h2))
      else Inr (bt, h))"
  by pat_completeness auto
termination
  by (relation "measure (\<lambda>(bt, len, h). nat (bt_num_commands bt))")
    (auto simp: Batch_has_command_def wrap32_pred_less dest!: Batch_add_reply_count)

declare abort_replies.simps [simp del]

definition Batch_abort :: "batch \<Rightarrow> string \<Rightarrow> rheap \<Rightarrow> (batch \<times> rheap) res" where
  "Batch_abort bt error h =
     bindE (assertE (bt_error bt = None)) (\<lambda>_.
       let len = wrap32 (int (length error + 1)) in
       bindE (Buffer_new (to_size len) h) (\<lambda>(e, h1).
       bindE (Buffer_write e (error @ [CHR 0x00]) (to_size len) h1) (\<lambda>(e1, h2).
         abort_replies (bt\<lparr>bt_error := Some e1\<rparr>) (to_size len) h2)))"

section \<open>Iterating over the replies\<close>

definition slot_get :: "rnode option list \<Rightarrow> int \<Rightarrow> rnode res" where
  "slot_get a i =
     (if 0 \<le> i \<and> i < int (length a)
      then (case a ! nat i of None \<Rightarrow> Inl Undefined | Some n \<Rightarrow> Inr n)
      else Inl OutOfBounds)"

definition slot_set :: "rnode option list \<Rightarrow> int \<Rightarrow> rnode \<Rightarrow> rnode option list res" where
  "slot_set a i n =
     (if 0 \<le> i \<and> i < int (length a) then Inr (a[nat i := Some n]) else Inl OutOfBounds)"

text \<open>
  \<open>Batch_next_reply\<close>.  \<open>args_ok\<close> says that none of the three out parameters is null; the second
  component of the result are their values.
\<close>

type_synonym reply_out = "reply_type \<times> (bufref \<times> nat) option \<times> nat"

definition deliver_current :: "rnode \<Rightarrow> batch \<Rightarrow> rheap \<Rightarrow> (int \<times> reply_out option \<times> batch \<times> rheap) res" where
  "deliver_current current bt h =
     (let level = bt_sp bt div 2 + 1 in
      bindE (reply_of current) (\<lambda>r.
      bindE (lookup_reply r h) (\<lambda>rep.
        if rep_type rep \<in> {RT_OK, RT_ERROR, RT_BULK, RT_INTEGER} then
          bindE (Reply_data r h) (\<lambda>d. Inr (level, Some (rep_type rep, Some d, rep_len rep), bt, h))
        else if rep_type rep = RT_MULTIBULK then
          bindE (derefE (lh_next (rh_links h) current)) (\<lambda>nx.
          bindE (slot_set (bt_current bt) (bt_sp bt) nx) (\<lambda>c1.
            let sp = bt_sp bt + 2 in
            bindE (assertE (sp \<le> int (BATCH_REPLY_ITERATOR_STACK_SIZE * 2))) (\<lambda>_.
            bindE (slot_set c1 sp (RChildren r)) (\<lambda>c2.
            bindE (slot_set c2 (sp + 1) (RChildren r)) (\<lambda>c3.
              Inr (level, Some (rep_type rep, None, rep_len rep), bt\<lparr>bt_sp := sp, bt_current := c3\<rparr>, h))))))
        else Inr (level, Some (rep_type rep, None, rep_len rep), bt, h))))"

definition Batch_next_reply ::
    "bool \<Rightarrow> batch \<Rightarrow> rheap \<Rightarrow> (int \<times> reply_out option \<times> batch \<times> rheap) res" where
  "Batch_next_reply args_ok bt h =
     (if \<not> args_ok then Inr (-1, None, bt, Module_set_error ''Invalid argument'' h)
      else
        bindE (slot_get (bt_current bt) (bt_sp bt)) (\<lambda>cur0.
        bindE (slot_get (bt_current bt) (bt_sp bt + 1)) (\<lambda>last.
        bindE (derefE (lh_next (rh_links h) cur0)) (\<lambda>current.
        bindE (slot_set (bt_current bt) (bt_sp bt) current) (\<lambda>c1.
          let bt1 = bt\<lparr>bt_current := c1\<rparr> in
          if current = last then
            if bt_sp bt1 > 0 then
              let bt2 = bt1\<lparr>bt_sp := bt_sp bt1 - 2\<rparr> in
              bindE (assertE (bt_sp bt2 \<ge> 0)) (\<lambda>_.
              bindE (slot_get (bt_current bt2) (bt_sp bt2)) (\<lambda>current2.
              bindE (slot_get (bt_current bt2) (bt_sp bt2 + 1)) (\<lambda>last2.
                if current2 = last2 then Inr (0, Some (RT_NONE, None, 0), bt2, h)
                else deliver_current current2 bt2 h)))
            else Inr (0, Some (RT_NONE, None, 0), bt1, h)
          else deliver_current current bt1 h)))))"

definition Batch_read_buffer :: "batch \<Rightarrow> buffer" where
  "Batch_read_buffer bt = bt_read_buffer bt"

definition Batch_write_buffer :: "batch \<Rightarrow> buffer" where
  "Batch_write_buffer bt = bt_write_buffer bt"

section \<open>Well-formed batches\<close>

text \<open>
  The buffers of a batch that has not been flipped accept writes; its reply queue is one of the
  lists of the heap.
\<close>

definition batch_ok :: "batch \<Rightarrow> rheap \<Rightarrow> nat set \<Rightarrow> (rnode \<Rightarrow> rnode list) \<Rightarrow> bool" where
  "batch_ok bt h B L \<longleftrightarrow> bt_id bt \<in> B \<and> reply_heap h B L \<and>
     writable (bt_write_buffer bt) \<and> writable (bt_read_buffer bt) \<and>
     (\<forall>e. bt_error bt = Some e \<longrightarrow> buffer_ok e) \<and> int32 (bt_num_commands bt)"

definition command_text :: "batch \<Rightarrow> string" where
  "command_text bt = contents (bt_write_buffer bt)"

lemma reply_heap_more:
  assumes "reply_heap h B L" "module.more h' = module.more h" "allocator_ok h'"
  shows "reply_heap h' B L"
  using reply_heap_cong [OF assms(1) _ _ _ assms(3)] more_rheap [OF assms(2)] by simp

text \<open>One write: the text is appended and the commands are counted.\<close>

lemma Batch_write_ok:
  assumes b: "writable (bt_write_buffer bt)" and m: "allocator_ok m"
    and s: "n \<le> length s" "n < 2147483648" "length (command_text bt) + n \<le> max_fill"
  shows "\<exists>wb m'. Batch_write bt (Some s) n k m =
      Inr (bt\<lparr>bt_write_buffer := wb, bt_num_commands := wrap32 (bt_num_commands bt + k)\<rparr>, m') \<and>
    writable wb \<and> contents wb = command_text bt @ take n s \<and> allocator_ok m' \<and>
    charged m m' (buffer_bytes wb - buffer_bytes (bt_write_buffer bt)) \<and>
    module.more m' = module.more m"
proof (cases "n = 0")
  case True
  have "bt = bt\<lparr>bt_write_buffer := bt_write_buffer bt\<rparr>" by simp
  with True b m show ?thesis
    by (intro exI [of _ "bt_write_buffer bt"] exI [of _ m]) (simp add: Batch_write_def command_text_def)
next
  case False
  from sink.put_law [OF b m s(1,2)] s(3) obtain wb m' where
    "Buffer_write (bt_write_buffer bt) s n m = Inr (wb, m')" "writable wb"
    "contents wb = contents (bt_write_buffer bt) @ take n s" "allocator_ok m'"
    "charged m m' (buffer_bytes wb - buffer_bytes (bt_write_buffer bt))" "module.more m' = module.more m"
    unfolding command_text_def by blast
  with False show ?thesis
    by (intro exI [of _ wb] exI [of _ m']) (simp add: Batch_write_def command_text_def)
qed

text \<open>
  A command is a sequence of such writes.  \<open>appends bt m t c res\<close>: the result is the batch with
  \<open>t\<close> appended to its text and \<open>c\<close> more commands, all else unchanged.
\<close>

definition appends ::
    "batch \<Rightarrow> 'a module_scheme \<Rightarrow> string \<Rightarrow> int \<Rightarrow> (batch \<times> 'a module_scheme) res \<Rightarrow> bool" where
  "appends bt m t c res \<longleftrightarrow> (\<exists>wb n m'. res = Inr (bt\<lparr>bt_write_buffer := wb, bt_num_commands := n\<rparr>, m') \<and>
     n = wrap32 (bt_num_commands bt + c) \<and> writable wb \<and> contents wb = command_text bt @ t \<and>
     allocator_ok m' \<and> charged m m' (buffer_bytes wb - buffer_bytes (bt_write_buffer bt)) \<and>
     module.more m' = module.more m)"

lemma appends_write:
  assumes "writable (bt_write_buffer bt)" "allocator_ok m" "n \<le> length s" "n < 2147483648"
    "length (command_text bt) + n \<le> max_fill"
  shows "appends bt m (take n s) k (Batch_write bt (Some s) n k m)"
  using Batch_write_ok [OF assms] unfolding appends_def by blast

lemma wrap32_add_wrap32: "wrap32 (wrap32 a + b) = wrap32 (a + b)"
  using wrap32_wrap32_diff [of a "- b"] by simp

lemma appends_bind:
  assumes f: "appends bt m t c res"
    and g: "\<And>bt1 m1. writable (bt_write_buffer bt1) \<Longrightarrow> allocator_ok m1 \<Longrightarrow>
      command_text bt1 = command_text bt @ t \<Longrightarrow> int32 (bt_num_commands bt1) \<Longrightarrow> appends bt1 m1 u d (g bt1 m1)"
  shows "appends bt m (t @ u) (c + d) (bindE res (\<lambda>(bt1, m1). g bt1 m1))"
proof -
  from f obtain wb m1 where 1: "res = Inr (bt\<lparr>bt_write_buffer := wb,
      bt_num_commands := wrap32 (bt_num_commands bt + c)\<rparr>, m1)" (is "_ = Inr (?bt, _)")
    "writable wb" "contents wb = command_text bt @ t" "allocator_ok m1"
    "charged m m1 (buffer_bytes wb - buffer_bytes (bt_write_buffer bt))" "module.more m1 = module.more m"
    unfolding appends_def by blast
  have "appends ?bt m1 u d (g ?bt m1)" using 1 wrap32_range by (intro g) (simp_all add: command_text_def int32_def)
  then obtain wb2 m2 where 2: "g ?bt m1 = Inr (?bt\<lparr>bt_write_buffer := wb2,
      bt_num_commands := wrap32 (bt_num_commands ?bt + d)\<rparr>, m2)"
    "writable wb2" "contents wb2 = command_text ?bt @ u" "allocator_ok m2"
    "charged m1 m2 (buffer_bytes wb2 - buffer_bytes (bt_write_buffer ?bt))" "module.more m2 = module.more m1"
    unfolding appends_def by blast
  have ct: "command_text ?bt = contents wb" by (simp add: command_text_def)
  have ch: "charged m m2 (buffer_bytes wb2 - buffer_bytes (bt_write_buffer bt))"
    using charged_trans [OF 1(5) 2(5)] by simp
  show ?thesis unfolding appends_def using 1 2 ch
    by (intro exI [of _ wb2] exI [of _ "wrap32 (bt_num_commands bt + (c + d))"] exI [of _ m2])
      (simp add: ct wrap32_add_wrap32 add.assoc)
qed

lemma command_text_update [simp]:
  "command_text (bt\<lparr>bt_num_commands := n\<rparr>) = command_text bt"
  "command_text (bt\<lparr>bt_write_buffer := wb\<rparr>) = contents wb"
  by (simp_all add: command_text_def)

lemma snprintf_decimal:
  assumes "int32 z"
  shows "snprintf_text 32 (dec_int z) = dec_int z" "length (dec_int z) \<le> 20"
proof -
  show 20: "length (dec_int z) \<le> 20" using assms by (intro length_dec_int) (auto simp: int32_def)
  then show "snprintf_text 32 (dec_int z) = dec_int z" by (simp add: snprintf_text_def)
qed

lemma appends_decimal:
  assumes "writable (bt_write_buffer bt)" "allocator_ok m" "int32 z"
    "length (command_text bt) + length (dec_int z) \<le> max_fill"
  shows "appends bt m (dec_int z) 0 (Batch_write_decimal bt z m)"
  using appends_write [OF assms(1,2), of "length (dec_int z)" "dec_int z" 0] snprintf_decimal [OF assms(3)] assms(4)
  by (simp add: Batch_write_decimal_def)

text \<open>What a \<open>SET\<close> and a \<open>GET\<close> look like on the wire.\<close>

definition set_command :: "string \<Rightarrow> string \<Rightarrow> string" where
  "set_command key val = ''SET '' @ key @ '' '' @ dec_nat (length val) @ crlf @ val @ crlf"

definition get_command :: "string \<Rightarrow> string" where
  "get_command key = ''GET '' @ key @ crlf"

lemma Batch_write_get_appends:
  assumes "writable (bt_write_buffer bt)" "allocator_ok m" "length key < 2147483648"
    "length (command_text bt) + length (get_command key) \<le> max_fill"
  shows "appends bt m (get_command key) 1 (Batch_write_get bt (Some key) (int (length key)) m)"
proof -
  have w: "appends bt1 m1 s k (Batch_write bt1 (Some s) n k m1)"
    if "n = length s" "writable (bt_write_buffer bt1)" "allocator_ok m1" "length s < 2147483648"
      "length (command_text bt1) + length s \<le> max_fill" for bt1 m1 s n k
    using appends_write [OF that(2,3), of n s k] that by simp
  have "appends bt m (''GET '' @ key @ crlf) (0 + (0 + 1)) (Batch_write_get bt (Some key) (int (length key)) m)"
    unfolding Batch_write_get_def
    by (rule appends_bind w | use assms in \<open>simp add: get_command_def; fail\<close>)+
  then show ?thesis by (simp add: get_command_def)
qed

lemma Batch_write_set_appends:
  assumes "writable (bt_write_buffer bt)" "allocator_ok m"
    "length key < 2147483648" "length val < 2147483648"
    "length (command_text bt) + length (set_command key val) \<le> max_fill"
  shows "appends bt m (set_command key val) 1
    (Batch_write_set bt (Some key) (int (length key)) (Some val) (int (length val)) m)"
proof -
  have w: "appends bt1 m1 s k (Batch_write bt1 (Some s) n k m1)"
    if "n = length s" "writable (bt_write_buffer bt1)" "allocator_ok m1" "length s < 2147483648"
      "length (command_text bt1) + length s \<le> max_fill" for bt1 m1 s n k
    using appends_write [OF that(2,3), of n s k] that by simp
  have d: "appends bt1 m1 (dec_nat (length val)) 0 (Batch_write_decimal bt1 (int (length val)) m1)"
    if "writable (bt_write_buffer bt1)" "allocator_ok m1"
      "length (command_text bt1) + length (dec_nat (length val)) \<le> max_fill" for bt1 m1
    using appends_decimal [OF that(1,2), of "int (length val)"] that(3) assms(4) by (simp add: int32_def)
  have "appends bt m (''SET '' @ key @ '' '' @ dec_nat (length val) @ crlf @ val @ crlf)
      (0 + (0 + (0 + (0 + (0 + (0 + 1))))))
      (Batch_write_set bt (Some key) (int (length key)) (Some val) (int (length val)) m)"
    unfolding Batch_write_set_def
    by (rule appends_bind d w | use assms in \<open>simp add: set_command_def; fail\<close>)+
  then show ?thesis by (simp add: set_command_def)
qed

section \<open>Replies on the queue\<close>

text \<open>A reply added to the batch stands at the end of its queue; one command less is outstanding.\<close>

lemma Batch_add_reply_ok:
  assumes b: "bt_id bt \<in> B" "reply_heap h B L" and r: "orphan h B L r"
    and n: "0 < bt_num_commands bt" "int32 (bt_num_commands bt)"
  shows "\<exists>lk. Batch_add_reply bt r h =
      Inr (bt\<lparr>bt_num_commands := bt_num_commands bt - 1\<rparr>, h\<lparr>rh_links := lk\<rparr>) \<and>
    reply_heap (h\<lparr>rh_links := lk\<rparr>) B (L(RQueue (bt_id bt) := L (RQueue (bt_id bt)) @ [RLink r]))"
proof -
  have "wrap32 (bt_num_commands bt - 1) = bt_num_commands bt - 1"
    using n by (intro wrap32_id) (auto simp: int32_def)
  with add_link_ok [OF b(2) _ r, of "RQueue (bt_id bt)"] b(1) show ?thesis
    by (auto simp: Batch_add_reply_def)
qed

text \<open>The error reply of an aborted batch, and the loop that queues one per outstanding command.\<close>

definition error_reply :: "nat \<Rightarrow> nat \<Rightarrow> reply" where
  "error_reply b len = \<lparr>rep_type = RT_ERROR, rep_buffer = Some (ErrorBuffer b), rep_offset = 0, rep_len = len\<rparr>"

lemma abort_replies_ok:
  assumes "bt_id bt \<in> B" "reply_heap h B L" "int32 (bt_num_commands bt)"
    "nat (bt_num_commands bt) = n"
  shows "\<exists>rs h' L'. abort_replies bt len h = Inr (bt\<lparr>bt_num_commands := min 0 (bt_num_commands bt)\<rparr>, h') \<and>
    reply_heap h' B L' \<and> length rs = n \<and> distinct rs \<and>
    L' (RQueue (bt_id bt)) = L (RQueue (bt_id bt)) @ map RLink rs \<and>
    (\<forall>r \<in> set rs. rh_replies h r = None \<and> rh_replies h' r = Some (error_reply (bt_id bt) len)) \<and>
    rh_replies h \<subseteq>\<^sub>m rh_replies h' \<and> dom (rh_replies h') = dom (rh_replies h) \<union> set rs \<and>
    (\<forall>a \<in> heads h B. a \<noteq> RQueue (bt_id bt) \<longrightarrow> L' a = L a) \<and>
    (\<forall>r \<in> set rs. L' (RChildren r) = []) \<and>
    charged h h' (int sizeof_Reply * int n)"
  using assms
proof (induction n arbitrary: bt h L)
  case 0
  then have "\<not> Batch_has_command bt" "min 0 (bt_num_commands bt) = bt_num_commands bt"
    by (auto simp: Batch_has_command_def)
  with 0 show ?case by (subst abort_replies.simps) (auto intro!: exI [of _ "[]"] exI [of _ L])
next
  case (Suc n)
  note prems = Suc.prems
  let ?q = "RQueue (bt_id bt)" and ?r = "rh_next h"
  let ?L1 = "L(RChildren ?r := [])"
  have pos: "0 < bt_num_commands bt" using prems(4) by simp
  from Reply_new_ok [OF prems(2), of RT_ERROR "Some (ErrorBuffer (bt_id bt))" 0 len] obtain h1 where
    h1: "Reply_new RT_ERROR (Some (ErrorBuffer (bt_id bt))) 0 len h = Inr (?r, h1)"
      "rh_replies h1 = (rh_replies h)(?r := Some (error_reply (bt_id bt) len))"
      "?r \<notin> dom (rh_replies h)" "reply_heap h1 B ?L1" "orphan h1 B ?L1 ?r" "charged h h1 (int sizeof_Reply)"
    unfolding error_reply_def by blast
  let ?bt = "bt\<lparr>bt_num_commands := bt_num_commands bt - 1\<rparr>"
  let ?L2 = "?L1(?q := ?L1 ?q @ [RLink ?r])"
  from Batch_add_reply_ok [OF prems(1) h1(4,5) pos prems(3)] obtain lk where
    lk: "Batch_add_reply bt ?r h1 = Inr (?bt, h1\<lparr>rh_links := lk\<rparr>)" "reply_heap (h1\<lparr>rh_links := lk\<rparr>) B ?L2"
    by blast
  let ?h2 = "h1\<lparr>rh_links := lk\<rparr>"
  have i: "int32 (bt_num_commands ?bt)" "nat (bt_num_commands ?bt) = n" "bt_id ?bt \<in> B"
    using prems pos by (auto simp: int32_def)
  from Suc.IH [OF i(3) lk(2) i(1,2)] obtain rs h3 L3 where ih:
    "abort_replies ?bt len ?h2 = Inr (?bt\<lparr>bt_num_commands := min 0 (bt_num_commands ?bt)\<rparr>, h3)"
    "reply_heap h3 B L3" "length rs = n" "distinct rs" "L3 ?q = ?L2 ?q @ map RLink rs"
    "\<forall>r \<in> set rs. rh_replies ?h2 r = None \<and> rh_replies h3 r = Some (error_reply (bt_id bt) len)"
    "rh_replies ?h2 \<subseteq>\<^sub>m rh_replies h3" "dom (rh_replies h3) = dom (rh_replies ?h2) \<union> set rs"
    "\<forall>a \<in> heads ?h2 B. a \<noteq> ?q \<longrightarrow> L3 a = ?L2 a" "\<forall>r \<in> set rs. L3 (RChildren r) = []"
    "charged ?h2 h3 (int sizeof_Reply * int n)" by auto
  have "abort_replies bt len h = Inr (bt\<lparr>bt_num_commands := min 0 (bt_num_commands bt)\<rparr>, h3)"
    using pos ih(1) by (subst abort_replies.simps) (simp add: Batch_has_command_def h1(1) lk(1))
  moreover have "rh_replies h3 ?r = Some (error_reply (bt_id bt) len)"
    using ih(7) h1(2) by (auto simp: map_le_def)
  moreover have "rh_replies h \<subseteq>\<^sub>m rh_replies h3"
    using ih(7) h1(2,3) by (auto simp: map_le_def dom_def)
  moreover have "\<forall>r \<in> set (?r # rs). L3 (RChildren r) = []"
    using ih(9,10) h1(2) by (auto simp: heads_def)
  moreover have "charged h h3 (int sizeof_Reply * int (Suc n))"
    using charged_trans [OF h1(6), of h3 "int sizeof_Reply * int n"] ih(11)
    by (simp add: charged_def algebra_simps)
  moreover have "\<forall>a \<in> heads h B. a \<noteq> ?q \<longrightarrow> L3 a = L a"
    using ih(9) h1(2,3) by (auto simp: heads_def)
  moreover have "dom (rh_replies h3) = dom (rh_replies h) \<union> set (?r # rs)" using ih(8) h1(2) by auto
  moreover have "L3 ?q = L ?q @ map RLink (?r # rs)" using ih(5) by simp
  moreover have "distinct (?r # rs)" "\<forall>r \<in> set rs. rh_replies h r = None"
    using ih(4,6) h1(2) by (auto split: if_splits)
  ultimately show ?case using ih(2,3,6) h1(3)
    by (intro exI [of _ "?r # rs"] exI [of _ h3] exI [of _ L3]) auto
qed

lemma Batch_abort_ok:
  assumes id: "bt_id bt \<in> B" and rh: "reply_heap h B L" and nc: "int32 (bt_num_commands bt)"
    and b: "bt_error bt = None" and len: "length error + 1 < 2147483648"
  shows "\<exists>e rs h' L'. Batch_abort bt error h =
      Inr (bt\<lparr>bt_error := Some e, bt_num_commands := min 0 (bt_num_commands bt)\<rparr>, h') \<and>
    writable e \<and> contents e = error @ [CHR 0x00] \<and> bf_capacity e = length error + 1 \<and>
    reply_heap h' B L' \<and> length rs = nat (bt_num_commands bt) \<and> distinct rs \<and>
    L' (RQueue (bt_id bt)) = L (RQueue (bt_id bt)) @ map RLink rs \<and>
    (\<forall>r \<in> set rs. rh_replies h r = None \<and>
       rh_replies h' r = Some (error_reply (bt_id bt) (length error + 1))) \<and>
    rh_replies h \<subseteq>\<^sub>m rh_replies h' \<and> dom (rh_replies h') = dom (rh_replies h) \<union> set rs \<and>
    (\<forall>a \<in> heads h B. a \<noteq> RQueue (bt_id bt) \<longrightarrow> L' a = L a) \<and>
    (\<forall>r \<in> set rs. L' (RChildren r) = []) \<and>
    charged h h' (buffer_bytes e + int sizeof_Reply * int (length rs))"
proof -
  let ?n = "length error + 1"
  have w: "wrap32 (int ?n) = int ?n" using len by (intro wrap32_id) simp_all
  have sz: "to_size (int ?n) = ?n" using len by simp
  from Buffer_new_ok [OF reply_heap_alloc [OF rh], of ?n] len obtain e0 h1 where
    e0: "Buffer_new ?n h = Inr (e0, h1)" "writable e0" "contents e0 = []" "bf_position e0 = 0"
      "bf_size e0 = ?n" "bf_capacity e0 = ?n" "allocator_ok h1"
      "charged h h1 (buffer_bytes e0)" "module.more h1 = module.more h" by auto
  from Buffer_write_ok [OF e0(2,7), of ?n "error @ [CHR 0x00]"] e0(4) len obtain e h2 where
    e: "Buffer_write e0 (error @ [CHR 0x00]) ?n h1 = Inr (e, h2)" "writable e"
      "contents e = contents e0 @ error @ [CHR 0x00]" "bf_position e = ?n" "bf_size e = ?n"
      "allocator_ok h2" "charged h1 h2 (buffer_bytes e - buffer_bytes e0)" "module.more h2 = module.more h1"
    using e0(5) by auto
  from Buffer_write_in_place [OF e0(2), of ?n "error @ [CHR 0x00]" h1] e0(4,6) len e(1)
  have cap: "bf_capacity e = ?n" by auto
  have rh2: "reply_heap h2 B L" using reply_heap_more [OF rh _ e(6)] e(8) e0(9) by simp
  have same: "rh_replies h2 = rh_replies h" "heads h2 B = heads h B"
    using more_rheap [of h2 h] e(8) e0(9) by (simp_all add: heads_def)
  let ?bt = "bt\<lparr>bt_error := Some e\<rparr>"
  from abort_replies_ok [of ?bt B h2 L "nat (bt_num_commands bt)" ?n] id rh2 nc obtain rs h' L' where
    a: "abort_replies ?bt ?n h2 = Inr (?bt\<lparr>bt_num_commands := min 0 (bt_num_commands bt)\<rparr>, h')"
      "reply_heap h' B L'" "length rs = nat (bt_num_commands bt)" "distinct rs"
      "L' (RQueue (bt_id bt)) = L (RQueue (bt_id bt)) @ map RLink rs"
      "\<forall>r \<in> set rs. rh_replies h2 r = None \<and> rh_replies h' r = Some (error_reply (bt_id bt) ?n)"
      "rh_replies h2 \<subseteq>\<^sub>m rh_replies h'" "dom (rh_replies h') = dom (rh_replies h2) \<union> set rs"
      "\<forall>a \<in> heads h2 B. a \<noteq> RQueue (bt_id bt) \<longrightarrow> L' a = L a" "\<forall>r \<in> set rs. L' (RChildren r) = []"
      "charged h2 h' (int sizeof_Reply * int (nat (bt_num_commands bt)))" by auto
  have run: "Batch_abort bt error h = Inr (?bt\<lparr>bt_num_commands := min 0 (bt_num_commands bt)\<rparr>, h')"
    unfolding Batch_abort_def w sz Let_def using b e0(1) e(1) a(1) by simp
  have "charged h h' (buffer_bytes e0 + (buffer_bytes e - buffer_bytes e0) +
      int sizeof_Reply * int (nat (bt_num_commands bt)))"
    using charged_trans [OF charged_trans [OF e0(8) e(7)] a(11)] .
  then have ch: "charged h h' (buffer_bytes e + int sizeof_Reply * int (length rs))" using a(3) by simp
  have ce: "contents e = error @ [CHR 0x00]" using e(3) e0(3) by simp
  show ?thesis
    apply (intro exI [of _ e] exI [of _ rs] exI [of _ h'] exI [of _ L'])
    using run e(2) ce cap a(2-10) ch unfolding same by simp
qed

section \<open>Releasing a batch\<close>

lemma Reply_free_heap:
  assumes rh: "reply_heap h B L" and o: "orphan h B L r"
  shows "\<exists>h'. Reply_free r h = Inr h' \<and> reply_heap h' B L \<and> rh_replies h' = (rh_replies h)(r := None) \<and>
    charged h h' (- int sizeof_Reply)"
proof -
  have r: "r \<in> dom (rh_replies h)" using o by (simp add: orphan_def)
  from Reply_free_ok [OF rh r] obtain h' where h': "Reply_free r h = Inr h'"
    "rh_replies h' = (rh_replies h)(r := None)" "rh_links h' = rh_links h" "rh_next h' = rh_next h"
    "allocator_ok h'" "charged h h' (- int sizeof_Reply)" by blast
  have heads: "heads h' B = heads h B - {RChildren r}" by (auto simp: heads_def h'(2))
  have "rings (rh_links h') (heads h' B) L"
    unfolding heads h'(3) by (rule rings_remove_head [OF reply_heap_rings [OF rh]])
  moreover have "set (L a) \<subseteq> RLink ` dom (rh_replies h')" if a: "a \<in> heads h' B" for a
  proof
    fix x assume x: "x \<in> set (L a)"
    have a': "a \<in> heads h B" using a by (simp add: heads)
    with x rh obtain c where c: "x = RLink c" "c \<in> dom (rh_replies h)" unfolding reply_heap_def by blast
    moreover have "c \<noteq> r" using o a' x c(1) by (auto simp: orphan_def)
    ultimately show "x \<in> RLink ` dom (rh_replies h')" by (simp add: h'(2))
  qed
  moreover have "\<forall>x \<in> dom (rh_replies h'). x < rh_next h'"
    using rh by (auto simp: reply_heap_def h'(2,4))
  ultimately have "reply_heap h' B L" using h'(5) by (simp add: reply_heap_def)
  with h' show ?thesis by blast
qed

text \<open>
  The queued replies themselves are freed, one by one from the end; the children of a multibulk among
  them stay allocated although nothing refers to them any more.
\<close>

lemma free_replies_ok:
  assumes "reply_heap h B L" "b \<in> B" "L (RQueue b) = map RLink rs"
  shows "\<exists>h'. free_replies b h = Some (Inr h') \<and> reply_heap h' B (L(RQueue b := [])) \<and>
    rh_replies h' = (rh_replies h) |` (- set rs) \<and> charged h h' (- (int sizeof_Reply * int (length rs)))"
  using assms
proof (induction rs arbitrary: h L rule: rev_induct)
  case Nil
  then have "list_empty (RQueue b) (rh_links h)"
    by (simp add: links.is_empty_law [OF reply_heap_rings])
  moreover have "L(RQueue b := []) = L" using Nil by (auto simp: fun_eq_iff)
  moreover have "rh_replies h = rh_replies h |` UNIV" by (auto simp: restrict_map_def)
  ultimately show ?case using Nil by (subst free_replies.simps) simp
next
  case (snoc r rs)
  let ?q = "RQueue b" and ?L1 = "L(RQueue b := map RLink rs)"
  have q: "?q \<in> heads h B" using snoc.prems(2) by simp
  have ne: "\<not> list_empty ?q (rh_links h)"
    using snoc.prems by (simp add: links.is_empty_law [OF reply_heap_rings])
  have Lq: "L ?q = map RLink rs @ [RLink r]" using snoc.prems(3) by simp
  from links.pop_law [OF reply_heap_rings [OF snoc.prems(1)] q Lq] obtain lk where
    lk: "list_pop ?q (rh_links h) = Inr (RLink r, lk)" "rings lk (heads h B) ?L1" by blast
  let ?h1 = "h\<lparr>rh_links := lk\<rparr>"
  have heads1: "heads ?h1 B = heads h B" by (simp add: heads_def)
  have mem: "set (L ?q) \<subseteq> RLink ` dom (rh_replies h)" using snoc.prems(1) q by (simp add: reply_heap_def)
  have "set (?L1 a) \<subseteq> RLink ` dom (rh_replies h)" if "a \<in> heads h B" for a
    using snoc.prems(1) that mem Lq by (cases "a = ?q") (auto simp: reply_heap_def)
  then have rh1: "reply_heap ?h1 B ?L1"
    using snoc.prems(1) lk(2) unfolding reply_heap_def heads1 by simp
  have dist: "distinct (?q # L ?q)"
    using links.distinct_law [OF reply_heap_rings [OF snoc.prems(1)] q] .
  have "RLink r \<notin> set (L a)" if "a \<in> heads h B" "a \<noteq> ?q" for a
    using links.disjoint_law [OF reply_heap_rings [OF snoc.prems(1)] that(1) q that(2)] Lq
    by (auto simp: ring_nodes_def)
  moreover have "r \<in> dom (rh_replies h)" using snoc.prems(1) q Lq unfolding reply_heap_def by fastforce
  ultimately have o: "orphan ?h1 B ?L1 r" using dist Lq unfolding orphan_def heads1 by auto
  from Reply_free_heap [OF rh1 o] obtain h2 where h2: "Reply_free r ?h1 = Inr h2" "reply_heap h2 B ?L1"
    "rh_replies h2 = (rh_replies h)(r := None)" "charged h h2 (- int sizeof_Reply)" by auto
  from snoc.IH [OF h2(2) snoc.prems(2) fun_upd_same, unfolded fun_upd_upd] obtain h3 where
    h3: "free_replies b h2 = Some (Inr h3)" "reply_heap h3 B (L(?q := []))"
      "rh_replies h3 = rh_replies h2 |` (- set rs)" "charged h2 h3 (- (int sizeof_Reply * int (length rs)))"
    by blast
  have "free_replies b h = Some (Inr h3)"
    using ne lk(1) h2(1) h3(1) by (subst free_replies.simps) simp
  moreover have "rh_replies h3 = rh_replies h |` (- set (rs @ [r]))"
    unfolding h3(3) h2(3) by (auto simp: restrict_map_def fun_eq_iff)
  moreover have "charged h h3 (- (int sizeof_Reply * int (length (rs @ [r]))))"
    using charged_trans [OF h2(4) h3(4)] by (simp add: algebra_simps)
  ultimately show ?case using h3(2) by blast
qed

lemma reply_heap_subset:
  assumes h: "reply_heap h B L" and sub: "C \<subseteq> B"
  shows "reply_heap h C L"
proof -
  have heads: "heads h C \<subseteq> heads h B" using sub by (auto simp: heads_def)
  then have "rings (rh_links h) (heads h C) L"
    using reply_heap_rings [OF h] unfolding rings_def by blast
  with h heads show ?thesis unfolding reply_heap_def by blast
qed

lemma Batch_free_heap:
  assumes rh: "reply_heap h B L" and id: "bt_id bt \<in> B" and q: "L (RQueue (bt_id bt)) = map RLink rs"
  shows "\<exists>h'. Batch_free bt h = Inr h' \<and> reply_heap h' (B - {bt_id bt}) (L(RQueue (bt_id bt) := [])) \<and>
    rh_replies h' = (rh_replies h) |` (- set rs) \<and>
    charged h h' (- (int sizeof_Reply * int (length rs) + buffer_bytes (bt_read_buffer bt) +
      buffer_bytes (bt_write_buffer bt) + (case bt_error bt of None \<Rightarrow> 0 | Some e \<Rightarrow> buffer_bytes e) +
      int sizeof_Batch))"
proof -
  let ?b = "bt_id bt" and ?L = "L(RQueue (bt_id bt) := [])"
  from free_replies_ok [OF rh id q] obtain h1 where h1: "free_replies ?b h = Some (Inr h1)"
    "reply_heap h1 B ?L" "rh_replies h1 = (rh_replies h) |` (- set rs)"
    "charged h h1 (- (int sizeof_Reply * int (length rs)))" by blast
  from Buffer_free_ok [OF reply_heap_alloc [OF h1(2)], of "bt_read_buffer bt"] obtain h2 where h2:
    "Buffer_free (bt_read_buffer bt) h1 = Inr h2" "allocator_ok h2"
    "charged h1 h2 (- buffer_bytes (bt_read_buffer bt))" "module.more h2 = module.more h1" by blast
  from Buffer_free_ok [OF h2(2), of "bt_write_buffer bt"] obtain h3 where h3:
    "Buffer_free (bt_write_buffer bt) h2 = Inr h3" "allocator_ok h3"
    "charged h2 h3 (- buffer_bytes (bt_write_buffer bt))" "module.more h3 = module.more h2" by blast
  let ?e = "case bt_error bt of None \<Rightarrow> 0 | Some e \<Rightarrow> buffer_bytes e"
  obtain h4 where h4: "(case bt_error bt of None \<Rightarrow> Inr h3 | Some e \<Rightarrow> Buffer_free e h3) = Inr h4"
    "allocator_ok h4" "charged h3 h4 (- ?e)" "module.more h4 = module.more h3"
    using Buffer_free_ok [OF h3(2)] h3(2) by (cases "bt_error bt") auto
  from Alloc_free_ok [OF h4(2), of sizeof_Batch] obtain h5 where h5: "Alloc_free sizeof_Batch h4 = Inr h5"
    "allocator_ok h5" "charged h4 h5 (- int sizeof_Batch)" "module.more h5 = module.more h4" by blast
  have more: "module.more h5 = module.more h1" using h2(4) h3(4) h4(4) h5(4) by simp
  have run: "Batch_free bt h = Inr h5"
    using h1(1) h2(1) h3(1) h4(1) h5(1) by (simp add: Batch_free_def Batch_free_impl_def)
  have "reply_heap h5 B ?L" by (rule reply_heap_more [OF h1(2) more h5(2)])
  then have "reply_heap h5 (B - {?b}) ?L" by (rule reply_heap_subset) simp
  moreover have "charged h h5 (- (int sizeof_Reply * int (length rs)) + - buffer_bytes (bt_read_buffer bt) +
      - buffer_bytes (bt_write_buffer bt) + - ?e + - int sizeof_Batch)"
    by (rule charged_trans [OF charged_trans [OF charged_trans [OF charged_trans [OF h1(4) h2(3)] h3(3)] h4(3)] h5(3)])
  ultimately show ?thesis using run h1(3) more_rheap(2) [OF more] by (simp add: algebra_simps)
qed

lemma Batch_free_ok:
  assumes b: "batch_ok bt h B L" and q: "L (RQueue (bt_id bt)) = map RLink rs"
  shows "\<exists>h'. Batch_free bt h = Inr h' \<and> reply_heap h' (B - {bt_id bt}) (L(RQueue (bt_id bt) := [])) \<and>
    rh_replies h' = (rh_replies h) |` (- set rs) \<and>
    charged h h' (- (int sizeof_Reply * int (length rs) + buffer_bytes (bt_read_buffer bt) +
      buffer_bytes (bt_write_buffer bt) + (case bt_error bt of None \<Rightarrow> 0 | Some e \<Rightarrow> buffer_bytes e) +
      int sizeof_Batch))"
  using Batch_free_heap [of h B L bt rs] assms by (simp add: batch_ok_def)

lemma Batch_new_ok:
  assumes h: "reply_heap h B L" and b: "b \<notin> B"
  shows "\<exists>bt h'. Batch_new b h = Inr (bt, h') \<and> bt_id bt = b \<and> batch_ok bt h' (insert b B) (L(RQueue b := [])) \<and>
    bt_num_commands bt = 0 \<and> command_text bt = [] \<and> contents (bt_read_buffer bt) = [] \<and> bt_error bt = None \<and>
    bf_capacity (bt_read_buffer bt) = 12288 \<and> bf_capacity (bt_write_buffer bt) = 4096 \<and>
    bt_sp bt = 0 \<and> bt_current bt = [Some (RQueue b), Some (RQueue b), None, None] \<and>
    rh_replies h' = rh_replies h \<and>
    charged h h' (int sizeof_Batch + buffer_bytes (bt_read_buffer bt) + buffer_bytes (bt_write_buffer bt))"
proof -
  from Alloc_alloc_ok [OF reply_heap_alloc [OF h], of sizeof_Batch] obtain p h1 where h1:
    "Alloc_alloc sizeof_Batch h = Inr (Some p, h1)" "allocator_ok h1" "charged h h1 (int sizeof_Batch)"
    "module.more h1 = module.more h" by blast
  from Buffer_new_ok [OF h1(2), of DEFAULT_READ_BUFF_SIZE] obtain rb h2 where h2:
    "Buffer_new DEFAULT_READ_BUFF_SIZE h1 = Inr (rb, h2)" "writable rb" "contents rb = []"
    "bf_capacity rb = 12288" "allocator_ok h2" "charged h1 h2 (buffer_bytes rb)" "module.more h2 = module.more h1"
    unfolding DEFAULT_READ_BUFF_SIZE_def by auto
  from Buffer_new_ok [OF h2(5), of DEFAULT_WRITE_BUFF_SIZE] obtain wb h3 where h3:
    "Buffer_new DEFAULT_WRITE_BUFF_SIZE h2 = Inr (wb, h3)" "writable wb" "contents wb = []"
    "bf_capacity wb = 4096" "allocator_ok h3" "charged h2 h3 (buffer_bytes wb)" "module.more h3 = module.more h2"
    unfolding DEFAULT_WRITE_BUFF_SIZE_def by auto
  have more: "module.more h3 = module.more h" using h1(4) h2(7) h3(7) by simp
  let ?h = "h3\<lparr>rh_links := init_list_head (RQueue b) (rh_links h3)\<rparr>"
  have rh3: "reply_heap h3 B L" by (rule reply_heap_more [OF h more h3(5)])
  have fresh: "RQueue b \<notin> all_nodes (heads h3 B) L"
    using rh3 b unfolding reply_heap_def all_nodes_def ring_nodes_def heads_def by auto
  have heads: "heads ?h (insert b B) = insert (RQueue b) (heads h3 B)" by (auto simp: heads_def)
  have "reply_heap ?h (insert b B) (L(RQueue b := []))"
    using links.init_law [OF reply_heap_rings [OF rh3] fresh] rh3
    unfolding reply_heap_def heads by auto
  moreover have "charged h h3 (int sizeof_Batch + buffer_bytes rb + buffer_bytes wb)"
    by (rule charged_trans [OF charged_trans [OF h1(3) h2(6)] h3(6)])
  ultimately show ?thesis using h1 h2 h3 more_rheap [OF more]
    by (simp add: Batch_new_def batch_ok_def command_text_def)
qed

section \<open>The iterator\<close>

text \<open>
  What a caller sees of a queue, reply after reply: a reply at level 1, and behind a multibulk its
  children at level 2.
\<close>

definition shown :: "int \<Rightarrow> reply \<Rightarrow> int \<times> reply_out" where
  "shown level rep = (level, rep_type rep,
     if rep_type rep \<in> {RT_OK, RT_ERROR, RT_BULK, RT_INTEGER}
     then Some (the (rep_buffer rep), rep_offset rep) else None,
     rep_len rep)"

definition reply_at :: "rheap \<Rightarrow> rnode \<Rightarrow> reply" where
  "reply_at h n = the (rh_replies h (link_id n))"

definition flat :: "rheap \<Rightarrow> (rnode \<Rightarrow> rnode list) \<Rightarrow> rnode \<Rightarrow> (int \<times> reply_out) list" where
  "flat h L n = shown 1 (reply_at h n) #
     (if rep_type (reply_at h n) = RT_MULTIBULK
      then map (\<lambda>c. shown 2 (reply_at h c)) (L (RChildren (link_id n))) else [])"

text \<open>
  The replies a queue may hold: those that carry data have a buffer, the children of a multibulk are
  not multibulks themselves.
\<close>

definition showable :: "rheap \<Rightarrow> (rnode \<Rightarrow> rnode list) \<Rightarrow> bool" where
  "showable h L \<longleftrightarrow> (\<forall>r rep. rh_replies h r = Some rep \<longrightarrow>
     (rep_type rep \<in> {RT_OK, RT_ERROR, RT_BULK, RT_INTEGER} \<longrightarrow> rep_buffer rep \<noteq> None) \<and>
     (rep_type rep = RT_MULTIBULK \<longrightarrow> (\<forall>n \<in> set (L (RChildren r)). rep_type (reply_at h n) \<noteq> RT_MULTIBULK)))"

text \<open>
  \<open>iter_at bt h L evs\<close>: the iterator stands where the replies \<open>evs\<close> are still to come.  Either it is
  on level 1 behind the nodes \<open>pre\<close>, or on level 2 among the children of the multibulk last shown, the
  slot below already pointing to its successor.
\<close>

definition iter_outer :: "batch \<Rightarrow> rheap \<Rightarrow> (rnode \<Rightarrow> rnode list) \<Rightarrow> rnode list \<Rightarrow> rnode list \<Rightarrow> bool" where
  "iter_outer bt h L pre post \<longleftrightarrow> bt_sp bt = 0 \<and> L (RQueue (bt_id bt)) = pre @ post \<and>
     length (bt_current bt) = 4 \<and> bt_current bt ! 1 = Some (RQueue (bt_id bt)) \<and>
     bt_current bt ! 0 = Some (last (RQueue (bt_id bt) # pre))"

definition iter_inner ::
    "batch \<Rightarrow> rheap \<Rightarrow> (rnode \<Rightarrow> rnode list) \<Rightarrow> nat \<Rightarrow> rnode list \<Rightarrow> rnode list \<Rightarrow> rnode list \<Rightarrow> rnode list \<Rightarrow> bool" where
  "iter_inner bt h L m cpre cpost pre post \<longleftrightarrow> bt_sp bt = 2 \<and> L (RQueue (bt_id bt)) = pre @ post \<and>
     m \<in> dom (rh_replies h) \<and> rep_type (the (rh_replies h m)) = RT_MULTIBULK \<and>
     L (RChildren m) = cpre @ cpost \<and>
     length (bt_current bt) = 4 \<and> bt_current bt ! 1 = Some (RQueue (bt_id bt)) \<and>
     bt_current bt ! 0 = Some (hd (post @ [RQueue (bt_id bt)])) \<and>
     bt_current bt ! 3 = Some (RChildren m) \<and> bt_current bt ! 2 = Some (last (RChildren m # cpre))"

definition iter_at :: "batch \<Rightarrow> rheap \<Rightarrow> (rnode \<Rightarrow> rnode list) \<Rightarrow> (int \<times> reply_out) list \<Rightarrow> bool" where
  "iter_at bt h L evs \<longleftrightarrow>
     (\<exists>pre post. iter_outer bt h L pre post \<and> evs = concat (map (flat h L) post)) \<or>
     (\<exists>m cpre cpost pre post. iter_inner bt h L m cpre cpost pre post \<and>
        evs = map (\<lambda>c. shown 2 (reply_at h c)) cpost @ concat (map (flat h L) post))"

lemma iter_at_outer: "iter_outer bt h L pre post \<Longrightarrow> iter_at bt h L (concat (map (flat h L) post))"
  unfolding iter_at_def by blast

lemma iter_at_inner: "iter_inner bt h L m cpre cpost pre post \<Longrightarrow>
    iter_at bt h L (map (\<lambda>c. shown 2 (reply_at h c)) cpost @ concat (map (flat h L) post))"
  unfolding iter_at_def by blast

text \<open>\<open>serves\<close>: the call delivers the event and leaves the iterator before the rest.\<close>

definition serves ::
    "batch \<Rightarrow> rheap \<Rightarrow> (rnode \<Rightarrow> rnode list) \<Rightarrow> (int \<times> reply_out) list \<Rightarrow>
     (int \<times> reply_out option \<times> batch \<times> rheap) res \<Rightarrow> bool" where
  "serves bt h L evs res \<longleftrightarrow>
     (\<exists>c sp. let bt' = bt\<lparr>bt_sp := sp, bt_current := c\<rparr> in
        case evs of
          [] \<Rightarrow> res = Inr (0, Some (RT_NONE, None, 0), bt', h) \<and>
                iter_at bt' h L (concat (map (flat h L) (L (RQueue (bt_id bt)))))
        | e # es \<Rightarrow> res = Inr (fst e, Some (snd e), bt', h) \<and> iter_at bt' h L es)"

lemma list4: "length c = 4 \<Longrightarrow> \<exists>x0 x1 x2 x3. c = [x0, x1, x2, x3]"
  by (auto simp: numeral_eq_Suc length_Suc_conv)

lemma queue_node:
  assumes "reply_heap h B L" "a \<in> heads h B" "n \<in> set (L a)"
  shows "\<exists>r rep. n = RLink r \<and> rh_replies h r = Some rep"
proof -
  have "set (L a) \<subseteq> RLink ` dom (rh_replies h)" using assms(1,2) by (simp add: reply_heap_def)
  with assms(3) show ?thesis by auto
qed

text \<open>Delivering a node of the queue, the iterator being on level 1.\<close>

lemma deliver_outer:
  assumes rh: "reply_heap h B L" and id: "bt_id bt \<in> B" and sh: "showable h L"
    and q: "L (RQueue (bt_id bt)) = pre @ n # post" and sp: "bt_sp bt = 0"
    and c: "bt_current bt = [Some n, Some (RQueue (bt_id bt)), x2, x3]"
  shows "\<exists>c sp. let bt' = bt\<lparr>bt_sp := sp, bt_current := c\<rparr> in
    deliver_current n bt h = Inr (fst (hd (flat h L n)), Some (snd (hd (flat h L n))), bt', h) \<and>
    iter_at bt' h L (tl (flat h L n) @ concat (map (flat h L) post))"
proof -
  let ?q = "RQueue (bt_id bt)"
  have qh: "?q \<in> heads h B" using id by simp
  from queue_node [OF rh qh, of n] q obtain r rep where n: "n = RLink r" "rh_replies h r = Some rep" by auto
  have nx: "lh_next (rh_links h) n = Some (hd (post @ [?q]))"
    by (rule links.next_node_law [OF reply_heap_rings [OF rh] qh q])
  have at: "reply_at h n = rep" using n by (simp add: reply_at_def)
  show ?thesis
  proof (cases "rep_type rep = RT_MULTIBULK")
    case True
    let ?c = "[Some (hd (post @ [?q])), Some ?q, Some (RChildren r), Some (RChildren r)]"
    let ?bt = "bt\<lparr>bt_sp := 2, bt_current := ?c\<rparr>"
    have "deliver_current n bt h = Inr (1, Some (rep_type rep, None, rep_len rep), ?bt, h)"
      using True n nx sp c
      by (simp add: deliver_current_def lookup_reply_def slot_set_def BATCH_REPLY_ITERATOR_STACK_SIZE_def numeral_eq_Suc)
    moreover have "iter_inner ?bt h L r [] (L (RChildren r)) (pre @ [n]) post"
      using True n q by (auto simp: iter_inner_def numeral_eq_Suc)
    note iter_at_inner [OF this]
    moreover have "flat h L n = shown 1 rep # map (\<lambda>c. shown 2 (reply_at h c)) (L (RChildren r))"
      using True n at by (simp add: flat_def)
    moreover have "shown 1 rep = (1, rep_type rep, None, rep_len rep)" using True by (simp add: shown_def)
    ultimately show ?thesis by (intro exI [of _ ?c] exI [of _ 2]) (simp add: Let_def)
  next
    case False
    have "deliver_current n bt h = Inr (1, Some (snd (shown 1 rep)), bt, h)"
      using False n sp sh by (auto simp: deliver_current_def lookup_reply_def Reply_data_def shown_def showable_def)
    moreover have "iter_outer bt h L (pre @ [n]) post" using q sp c by (simp add: iter_outer_def)
    note iter_at_outer [OF this]
    moreover have "bt\<lparr>bt_sp := 0, bt_current := bt_current bt\<rparr> = bt" using sp by simp
    moreover have "flat h L n = [shown 1 rep]" using False at by (simp add: flat_def)
    moreover have "fst (shown 1 rep) = 1" by (simp add: shown_def)
    ultimately show ?thesis by (intro exI [of _ "bt_current bt"] exI [of _ 0]) (simp add: Let_def)
  qed
qed

text \<open>Delivering a child, the iterator being on level 2.\<close>

lemma deliver_inner:
  assumes rh: "reply_heap h B L" and sh: "showable h L"
    and m: "rh_replies h m = Some mrep" "rep_type mrep = RT_MULTIBULK" "L (RChildren m) = cpre @ n # cpost"
    and sp: "bt_sp bt = 2"
  shows "deliver_current n bt h = Inr (2, Some (snd (shown 2 (reply_at h n))), bt, h)"
proof -
  have mh: "RChildren m \<in> heads h B" using m by auto
  from queue_node [OF rh mh, of n] m(3) obtain r rep where n: "n = RLink r" "rh_replies h r = Some rep" by auto
  have "reply_at h n = rep" using n by (simp add: reply_at_def)
  moreover have "rep_type rep \<noteq> RT_MULTIBULK" using sh m calculation by (auto simp: showable_def)
  ultimately show ?thesis using n sp sh
    by (auto simp: deliver_current_def lookup_reply_def Reply_data_def shown_def showable_def)
qed

lemma next_of_last:
  assumes "reply_heap h B L" "a \<in> heads h B" "L a = xs @ ys"
  shows "lh_next (rh_links h) (last (a # xs)) = Some (hd (ys @ [a]))"
proof (cases xs rule: rev_cases)
  case Nil
  with links.next_head_law [OF reply_heap_rings [OF assms(1)] assms(2)] assms(3) show ?thesis by simp
next
  case (snoc zs z)
  with links.next_node_law [OF reply_heap_rings [OF assms(1)] assms(2), of zs z ys] assms(3)
  show ?thesis by simp
qed

lemma head_not_member:
  "reply_heap h B L \<Longrightarrow> a \<in> heads h B \<Longrightarrow> L a = xs @ n # ys \<Longrightarrow> n \<noteq> a"
  using links.distinct_law [OF reply_heap_rings, of h B L a] by auto

lemma slot4 [simp]:
  "slot_get [x0, x1, x2, x3] 0 = (case x0 of None \<Rightarrow> Inl Undefined | Some n \<Rightarrow> Inr n)"
  "slot_get [x0, x1, x2, x3] 1 = (case x1 of None \<Rightarrow> Inl Undefined | Some n \<Rightarrow> Inr n)"
  "slot_get [x0, x1, x2, x3] 2 = (case x2 of None \<Rightarrow> Inl Undefined | Some n \<Rightarrow> Inr n)"
  "slot_get [x0, x1, x2, x3] 3 = (case x3 of None \<Rightarrow> Inl Undefined | Some n \<Rightarrow> Inr n)"
  "slot_set [x0, x1, x2, x3] 0 n = Inr [Some n, x1, x2, x3]"
  "slot_set [x0, x1, x2, x3] 2 n = Inr [x0, x1, Some n, x3]"
  by (simp_all add: slot_get_def slot_set_def numeral_eq_Suc)

lemma serves_end:
  assumes "bt_sp bt' = 0" "bt_current bt' = [Some (RQueue (bt_id bt')), Some (RQueue (bt_id bt')), x2, x3]"
  shows "iter_at bt' h L (concat (map (flat h L) (L (RQueue (bt_id bt')))))"
  using assms by (intro iter_at_outer [of _ _ _ "[]"]) (simp add: iter_outer_def)

lemma flat_Cons: "flat h L n = hd (flat h L n) # tl (flat h L n)"
  by (simp add: flat_def)

lemma serves_flat:
  assumes "\<exists>c sp. res = Inr (fst (hd (flat h L n)), Some (snd (hd (flat h L n))), bt\<lparr>bt_sp := sp, bt_current := c\<rparr>, h) \<and>
    iter_at (bt\<lparr>bt_sp := sp, bt_current := c\<rparr>) h L (tl (flat h L n) @ concat (map (flat h L) post))"
  shows "serves bt h L (concat (map (flat h L) (n # post))) res"
proof -
  have "concat (map (flat h L) (n # post)) = hd (flat h L n) # (tl (flat h L n) @ concat (map (flat h L) post))"
    using flat_Cons [of h L n] by (metis append_Cons concat.simps(2) list.map(2))
  note e = this
  show ?thesis using assms unfolding serves_def e Let_def by (simp only: list.case)
qed

lemma next_reply_outer:
  assumes rh: "reply_heap h B L" and id: "bt_id bt \<in> B" and sh: "showable h L"
    and it: "iter_outer bt h L pre post"
  shows "serves bt h L (concat (map (flat h L) post)) (Batch_next_reply True bt h)"
proof -
  let ?q = "RQueue (bt_id bt)"
  have qh: "?q \<in> heads h B" using id by simp
  from it list4 [of "bt_current bt"] obtain x2 x3 where
    c: "bt_current bt = [Some (last (?q # pre)), Some ?q, x2, x3]"
    and sp: "bt_sp bt = 0" and q: "L ?q = pre @ post"
    unfolding iter_outer_def by (auto simp: numeral_eq_Suc)
  have nx: "lh_next (rh_links h) (last (?q # pre)) = Some (hd (post @ [?q]))"
    by (rule next_of_last [OF rh qh q])
  show ?thesis
  proof (cases post)
    case Nil
    let ?bt = "bt\<lparr>bt_sp := 0, bt_current := [Some ?q, Some ?q, x2, x3]\<rparr>"
    have e: "bt\<lparr>bt_current := [Some ?q, Some ?q, x2, x3]\<rparr> = ?bt" using sp by simp
    have "Batch_next_reply True bt h = Inr (0, Some (RT_NONE, None, 0), ?bt, h)"
      using Nil sp nx unfolding e [symmetric] by (simp add: Batch_next_reply_def c Let_def del: last.simps)
    moreover have "iter_at ?bt h L (concat (map (flat h L) (L (RQueue (bt_id ?bt)))))"
      by (rule serves_end) simp_all
    ultimately show ?thesis using Nil unfolding serves_def
      by (intro exI [of _ "[Some ?q, Some ?q, x2, x3]"] exI [of _ 0]) (simp add: Let_def)
  next
    case (Cons n post')
    let ?bt = "bt\<lparr>bt_current := [Some n, Some ?q, x2, x3]\<rparr>"
    have nq: "n \<noteq> ?q" using head_not_member [OF rh qh] q Cons by simp
    have run: "Batch_next_reply True bt h = deliver_current n ?bt h"
      using Cons sp nx nq by (simp add: Batch_next_reply_def c Let_def del: last.simps)
    have "bt_id ?bt \<in> B" "L (RQueue (bt_id ?bt)) = pre @ n # post'" "bt_sp ?bt = 0"
      "bt_current ?bt = [Some n, Some (RQueue (bt_id ?bt)), x2, x3]" using id q Cons sp by simp_all
    from deliver_outer [OF rh this(1) sh this(2-4)] show ?thesis
      unfolding run Cons by (intro serves_flat) (simp add: Let_def)
  qed
qed

lemma next_reply_inner:
  assumes rh: "reply_heap h B L" and id: "bt_id bt \<in> B" and sh: "showable h L"
    and it: "iter_inner bt h L m cpre cpost pre post"
  shows "serves bt h L (map (\<lambda>c. shown 2 (reply_at h c)) cpost @ concat (map (flat h L) post))
    (Batch_next_reply True bt h)"
proof -
  let ?q = "RQueue (bt_id bt)" and ?C = "RChildren m"
  have qh: "?q \<in> heads h B" using id by simp
  from it list4 [of "bt_current bt"] have
    c: "bt_current bt = [Some (hd (post @ [?q])), Some ?q, Some (last (?C # cpre)), Some ?C]"
    and sp: "bt_sp bt = 2" and q: "L ?q = pre @ post" and lc: "L ?C = cpre @ cpost"
    and m: "m \<in> dom (rh_replies h)" "rep_type (the (rh_replies h m)) = RT_MULTIBULK"
    unfolding iter_inner_def by (auto simp: numeral_eq_Suc)
  have ch: "?C \<in> heads h B" using m(1) by simp
  have nx: "lh_next (rh_links h) (last (?C # cpre)) = Some (hd (cpost @ [?C]))"
    by (rule next_of_last [OF rh ch lc])
  show ?thesis
  proof (cases cpost)
    case (Cons n cpost')
    let ?c = "[Some (hd (post @ [?q])), Some ?q, Some n, Some ?C]"
    let ?bt = "bt\<lparr>bt_sp := 2, bt_current := ?c\<rparr>"
    have e: "bt\<lparr>bt_current := ?c\<rparr> = ?bt" using sp by simp
    have nc: "n \<noteq> ?C" using head_not_member [OF rh ch] lc Cons by simp
    obtain mrep where mr: "rh_replies h m = Some mrep" "rep_type mrep = RT_MULTIBULK" using m by auto
    have "Batch_next_reply True bt h = deliver_current n ?bt h"
      unfolding e [symmetric] using Cons sp nx nc by (simp add: Batch_next_reply_def c Let_def del: last.simps)
    also have "\<dots> = Inr (2, Some (snd (shown 2 (reply_at h n))), ?bt, h)"
      using lc Cons by (intro deliver_inner [OF rh sh mr]) simp_all
    finally have run: "Batch_next_reply True bt h = \<dots>" .
    have "iter_inner ?bt h L m (cpre @ [n]) cpost' pre post"
      using m q lc Cons by (simp add: iter_inner_def numeral_eq_Suc)
    note iter_at_inner [OF this]
    with run Cons show ?thesis unfolding serves_def
      by (intro exI [of _ ?c] exI [of _ 2]) (simp add: Let_def shown_def)
  next
    case Nil
    let ?c = "[Some (hd (post @ [?q])), Some ?q, Some ?C, Some ?C]"
    let ?bt = "bt\<lparr>bt_sp := 0, bt_current := ?c\<rparr>"
    have e: "bt\<lparr>bt_current := ?c, bt_sp := 0\<rparr> = ?bt" by simp
    show ?thesis
    proof (cases post)
      case Nil': Nil
      have "Batch_next_reply True bt h = Inr (0, Some (RT_NONE, None, 0), ?bt, h)"
        unfolding e [symmetric] using Nil Nil' sp nx
        by (simp add: Batch_next_reply_def c Let_def del: last.simps)
      moreover have "iter_at ?bt h L (concat (map (flat h L) (L (RQueue (bt_id ?bt)))))"
        using Nil' by (intro serves_end) simp_all
      ultimately show ?thesis using Nil Nil' unfolding serves_def
        by (intro exI [of _ ?c] exI [of _ 0]) (simp add: Let_def)
    next
      case (Cons n post')
      have nq: "n \<noteq> ?q" using head_not_member [OF rh qh] q Cons by simp
      have run: "Batch_next_reply True bt h = deliver_current n ?bt h"
        unfolding e [symmetric] using Nil Cons sp nx nq
        by (simp add: Batch_next_reply_def c Let_def del: last.simps)
      have "bt_id ?bt \<in> B" "L (RQueue (bt_id ?bt)) = pre @ n # post'" "bt_sp ?bt = 0"
        "bt_current ?bt = [Some n, Some (RQueue (bt_id ?bt)), Some ?C, Some ?C]" using id q Cons by simp_all
      from deliver_outer [OF rh this(1) sh this(2-4)] show ?thesis
        unfolding run Nil Cons append_Nil list.map(1) by (intro serves_flat) (simp add: Let_def)
    qed
  qed
qed

lemma next_reply_serves:
  assumes "reply_heap h B L" "bt_id bt \<in> B" "showable h L" "iter_at bt h L evs"
  shows "serves bt h L evs (Batch_next_reply True bt h)"
  using assms(4) next_reply_outer [OF assms(1-3)] next_reply_inner [OF assms(1-3)]
  unfolding iter_at_def by blast

section \<open>Properties\<close>

text \<open>A batch used in the witnesses: two commands written, none answered.\<close>

lemma demo_batch:
  "\<exists>bt h. bt_id bt = 0 \<and> batch_ok bt h {0} ((\<lambda>_. [])(RQueue 0 := [])) \<and> bt_num_commands bt = 2 \<and> bt_error bt = None \<and>
    command_text bt = ''x'' \<and> bt_sp bt = 0 \<and> bt_current bt = [Some (RQueue 0), Some (RQueue 0), None, None] \<and>
    rh_replies h = (\<lambda>_. None) \<and> contents (bt_read_buffer bt) = [] \<and> bf_capacity (bt_read_buffer bt) = 12288"
proof -
  from Batch_new_ok [OF demo_reply_heap, of 0] obtain bt h where b: "bt_id bt = 0"
    "batch_ok bt h {0} ((\<lambda>_. [])(RQueue 0 := []))" "bt_num_commands bt = 0" "command_text bt = []"
    "bt_error bt = None" "bt_sp bt = 0" "bt_current bt = [Some (RQueue 0), Some (RQueue 0), None, None]"
    "rh_replies h = (\<lambda>_. None)" "contents (bt_read_buffer bt) = []" "bf_capacity (bt_read_buffer bt) = 12288" by auto
  have w: "writable (bt_write_buffer bt)" "allocator_ok h"
    using b(2) by (auto simp: batch_ok_def reply_heap_def)
  from Batch_write_ok [OF w, of 1 "''x''" 2] b(4) obtain wb h1 where
    h1: "writable wb" "contents wb = ''x''" "allocator_ok h1" "module.more h1 = module.more h" by auto
  let ?bt = "bt\<lparr>bt_write_buffer := wb, bt_num_commands := 2\<rparr>"
  have "batch_ok ?bt h1 {0} ((\<lambda>_. [])(RQueue 0 := []))"
    using b(2) h1(1) reply_heap_more [OF _ h1(4,3)] by (auto simp: batch_ok_def int32_def)
  with b h1 more_rheap [OF h1(4)] show ?thesis by (intro exI [of _ ?bt] exI [of _ h1]) (simp add: command_text_def)
qed

lemma demo_aborted:
  "\<exists>bt h L rs. bt_id bt = 0 \<and> batch_ok bt h {0} L \<and> bt_num_commands bt = 0 \<and> L (RQueue 0) = map RLink rs \<and>
    length rs = 2 \<and> distinct rs \<and> bt_sp bt = 0 \<and> bt_current bt = [Some (RQueue 0), Some (RQueue 0), None, None] \<and>
    dom (rh_replies h) = set rs \<and> (\<forall>r \<in> set rs. rh_replies h r = Some (error_reply 0 3))"
proof -
  from demo_batch obtain bt h where b: "bt_id bt = 0" "batch_ok bt h {0} ((\<lambda>_. [])(RQueue 0 := []))"
    "bt_num_commands bt = 2" "bt_error bt = None" "bt_sp bt = 0"
    "bt_current bt = [Some (RQueue 0), Some (RQueue 0), None, None]" "rh_replies h = (\<lambda>_. None)" by blast
  have bo: "bt_id bt \<in> {0}" "reply_heap h {0} ((\<lambda>_. [])(RQueue 0 := []))" "int32 (bt_num_commands bt)"
    using b(2) by (auto simp: batch_ok_def)
  from Batch_abort_ok [OF bo b(4), of "''no''"] b(1,3,7) obtain e rs h' L' where
    a: "writable e" "reply_heap h' {0} L'" "length rs = 2" "distinct rs" "L' (RQueue 0) = map RLink rs"
    "\<forall>r \<in> set rs. rh_replies h' r = Some (error_reply 0 3)" "dom (rh_replies h') = set rs"
    by (auto simp: numeral_3_eq_3)
  have "batch_ok (bt\<lparr>bt_error := Some e, bt_num_commands := 0\<rparr>) h' {0} L'"
    using b a(1,2) by (simp add: batch_ok_def writable_def)
  with a b show ?thesis
    by (intro exI [of _ "bt\<lparr>bt_error := Some e, bt_num_commands := 0\<rparr>"] exI [of _ h'] exI [of _ L'] exI [of _ rs]) simp
qed

text \<open>Asking for replies \<open>n\<close> times, as the callers of the library do.\<close>

fun next_replies ::
    "nat \<Rightarrow> batch \<Rightarrow> rheap \<Rightarrow> ((int \<times> reply_out option) list \<times> batch \<times> rheap) res" where
  "next_replies 0 bt h = Inr ([], bt, h)"
| "next_replies (Suc n) bt h =
     bindE (Batch_next_reply True bt h) (\<lambda>(level, out, bt1, h1).
     bindE (next_replies n bt1 h1) (\<lambda>(outs, bt2, h2). Inr ((level, out) # outs, bt2, h2)))"

lemma next_replies_serves:
  assumes "reply_heap h B L" "showable h L" "bt_id bt \<in> B" "iter_at bt h L evs"
  shows "\<exists>bt'. next_replies (Suc (length evs)) bt h =
    Inr (map (\<lambda>(level, out). (level, Some out)) evs @ [(0, Some (RT_NONE, None, 0))], bt', h)"
  using assms(3,4)
proof (induction evs arbitrary: bt)
  case Nil
  from next_reply_serves [OF assms(1) Nil(1) assms(2) Nil(2)] show ?case
    by (auto simp: serves_def Let_def)
next
  case (Cons e es)
  from next_reply_serves [OF assms(1) Cons.prems(1) assms(2) Cons.prems(2)] obtain c sp where
    s: "Batch_next_reply True bt h = Inr (fst e, Some (snd e), bt\<lparr>bt_sp := sp, bt_current := c\<rparr>, h)"
    "iter_at (bt\<lparr>bt_sp := sp, bt_current := c\<rparr>) h L es" by (auto simp: serves_def Let_def)
  from Cons.IH [OF _ s(2)] Cons.prems(1) obtain bt' where
    "next_replies (Suc (length es)) (bt\<lparr>bt_sp := sp, bt_current := c\<rparr>) h =
      Inr (map (\<lambda>(level, out). (level, Some out)) es @ [(0, Some (RT_NONE, None, 0))], bt', h)" by auto
  with s(1) show ?case
    unfolding length_Cons next_replies.simps(2) [of "Suc (length es)"] by (cases e) simp
qed

text \<open>
  C9: the caller gets every reply once, in the order of the queue.  From the state \<open>Batch_new\<close> sets
  up, successive calls of \<open>Batch_next_reply\<close> yield the replies at level 1, behind a multibulk its
  children at level 2, each with its type, length and (for the types that carry any) data, and then 0
  with \<open>RT_NONE\<close>; neither the heap nor the queue changes and no array slot is accessed out of range.
\<close>

theorem Batch_next_reply_iterates:
  assumes "reply_heap h B L" "bt_id bt \<in> B" "showable h L"
    and "bt_sp bt = 0" "bt_current bt = [Some (RQueue (bt_id bt)), Some (RQueue (bt_id bt)), x, y]"
  shows "\<exists>bt'. next_replies (Suc (length (concat (map (flat h L) (L (RQueue (bt_id bt))))))) bt h =
    Inr (map (\<lambda>(level, out). (level, Some out)) (concat (map (flat h L) (L (RQueue (bt_id bt))))) @
      [(0, Some (RT_NONE, None, 0))], bt', h)"
  using next_replies_serves [OF assms(1,3,2) serves_end [OF assms(4,5)]] .

theorem Batch_next_reply_iterates_witness:
  "\<exists>bt h bt'. next_replies 3 bt h = Inr ([(1, Some (RT_ERROR, Some (ErrorBuffer 0, 0), 3)),
      (1, Some (RT_ERROR, Some (ErrorBuffer 0, 0), 3)), (0, Some (RT_NONE, None, 0))], bt', h)"
proof -
  from demo_aborted obtain bt h L rs where d: "bt_id bt = 0" "batch_ok bt h {0} L" "L (RQueue 0) = map RLink rs"
    "length rs = 2" "bt_sp bt = 0" "bt_current bt = [Some (RQueue 0), Some (RQueue 0), None, None]"
    "dom (rh_replies h) = set rs" "\<forall>r \<in> set rs. rh_replies h r = Some (error_reply 0 3)" by blast
  obtain a b where rs: "rs = [a, b]" using d(4) by (auto simp: numeral_2_eq_2 length_Suc_conv)
  have "rep = error_reply 0 3" if r: "rh_replies h r = Some rep" for r rep
  proof -
    have "r \<in> set rs" using r d(7) by blast
    with r d(8) show ?thesis by simp
  qed
  then have "showable h L" unfolding showable_def by (fastforce simp: error_reply_def)
  with Batch_next_reply_iterates [of h "{0}" L bt None None] d rs show ?thesis
    by (auto simp: batch_ok_def flat_def shown_def reply_at_def error_reply_def numeral_eq_Suc)
qed

text \<open>
  C23: \<open>Batch_write_set\<close> appends exactly the text of a \<open>SET\<close> command, the value length written in
  decimal, to the commands already in the batch and counts one more command; nothing else of the
  batch changes, and the allocator is charged for the growth of the write buffer only.
\<close>

theorem Batch_write_set_text:
  assumes "writable (bt_write_buffer bt)" "allocator_ok m"
    and "length key < 2147483648" "length val < 2147483648"
    and "length (command_text bt) + length (set_command key val) \<le> max_fill"
  shows "\<exists>wb m'. Batch_write_set bt (Some key) (int (length key)) (Some val) (int (length val)) m =
      Inr (bt\<lparr>bt_write_buffer := wb, bt_num_commands := wrap32 (bt_num_commands bt + 1)\<rparr>, m') \<and>
    writable wb \<and>
    contents wb = command_text bt @ ''SET '' @ key @ '' '' @ dec_nat (length val) @ crlf @ val @ crlf \<and>
    allocator_ok m' \<and> charged m m' (buffer_bytes wb - buffer_bytes (bt_write_buffer bt))"
  using Batch_write_set_appends [OF assms] unfolding appends_def set_command_def by auto

theorem Batch_write_set_text_witness:
  "\<exists>bt m m' wb. Batch_write_set bt (Some ''k'') 1 (Some ''val'') 3 m =
      Inr (bt\<lparr>bt_write_buffer := wb, bt_num_commands := 3\<rparr>, m') \<and>
    contents wb = ''x'' @ ''SET k 3'' @ crlf @ ''val'' @ crlf \<and> allocator_ok (m :: rheap)"
proof -
  from demo_batch obtain bt h where b: "batch_ok bt h {0} ((\<lambda>_. [])(RQueue 0 := []))" "bt_num_commands bt = 2"
    "command_text bt = ''x''" by blast
  then have w: "writable (bt_write_buffer bt)" "allocator_ok h" by (simp_all add: batch_ok_def reply_heap_def)
  have d: "dec_nat 3 = ''3''" by code_simp
  then have "dec_nat (Suc (Suc (Suc 0))) = ''3''" by (simp add: numeral_3_eq_3)
  with Batch_write_set_text [OF w, of "''k''" "''val''"] w b d show ?thesis
    by (fastforce simp: set_command_def crlf_def wrap32_id)
qed

text \<open>
  \<open>Batch_write_get\<close> appends exactly the text of a \<open>GET\<close> command and counts one more command.
\<close>

theorem Batch_write_get_text:
  assumes "writable (bt_write_buffer bt)" "allocator_ok m" "length key < 2147483648"
    and "length (command_text bt) + length (get_command key) \<le> max_fill"
  shows "\<exists>wb m'. Batch_write_get bt (Some key) (int (length key)) m =
      Inr (bt\<lparr>bt_write_buffer := wb, bt_num_commands := wrap32 (bt_num_commands bt + 1)\<rparr>, m') \<and>
    writable wb \<and> contents wb = command_text bt @ ''GET '' @ key @ crlf \<and>
    allocator_ok m' \<and> charged m m' (buffer_bytes wb - buffer_bytes (bt_write_buffer bt))"
  using Batch_write_get_appends [OF assms] unfolding appends_def get_command_def by auto

theorem Batch_write_get_text_witness:
  "\<exists>bt m m' wb. Batch_write_get bt (Some ''k'') 1 m =
      Inr (bt\<lparr>bt_write_buffer := wb, bt_num_commands := 3\<rparr>, m') \<and>
    contents wb = ''x'' @ ''GET k'' @ crlf \<and> allocator_ok (m :: rheap)"
proof -
  from demo_batch obtain bt h where b: "batch_ok bt h {0} ((\<lambda>_. [])(RQueue 0 := []))" "bt_num_commands bt = 2"
    "command_text bt = ''x''" by blast
  then have w: "writable (bt_write_buffer bt)" "allocator_ok h" by (simp_all add: batch_ok_def reply_heap_def)
  with Batch_write_get_text [OF w, of "''k''"] b show ?thesis
    by (fastforce simp: get_command_def crlf_def wrap32_id)
qed

text \<open>
  C19: aborting a batch answers every command that is still outstanding.  \<open>Batch_abort\<close> appends one
  error reply per outstanding command to the queue, each pointing to the whole error buffer, which
  holds the message and its terminating null; no command is outstanding afterwards, and the replies
  that were already there stay as they are.
\<close>

theorem Batch_abort_answers_all:
  assumes "bt_id bt \<in> B" "reply_heap h B L" "int32 (bt_num_commands bt)" "bt_error bt = None"
    and "length error + 1 < 2147483648" "0 \<le> bt_num_commands bt"
  shows "\<exists>e rs h' L'. Batch_abort bt error h = Inr (bt\<lparr>bt_error := Some e, bt_num_commands := 0\<rparr>, h') \<and>
    contents e = error @ [CHR 0x00] \<and> reply_heap h' B L' \<and>
    int (length rs) = bt_num_commands bt \<and> distinct rs \<and>
    L' (RQueue (bt_id bt)) = L (RQueue (bt_id bt)) @ map RLink rs \<and>
    (\<forall>r \<in> set rs. rh_replies h r = None \<and>
       rh_replies h' r = Some \<lparr>rep_type = RT_ERROR, rep_buffer = Some (ErrorBuffer (bt_id bt)),
         rep_offset = 0, rep_len = length error + 1\<rparr>) \<and>
    rh_replies h \<subseteq>\<^sub>m rh_replies h' \<and>
    (\<forall>a \<in> heads h B. a \<noteq> RQueue (bt_id bt) \<longrightarrow> L' a = L a)"
proof -
  have m: "min 0 (bt_num_commands bt) = 0" "int (nat (bt_num_commands bt)) = bt_num_commands bt"
    using assms(6) by simp_all
  from Batch_abort_ok [OF assms(1-5), unfolded m] obtain e rs h' L' where
    "Batch_abort bt error h = Inr (bt\<lparr>bt_error := Some e, bt_num_commands := 0\<rparr>, h')"
    "contents e = error @ [CHR 0x00]" "reply_heap h' B L'" "length rs = nat (bt_num_commands bt)" "distinct rs"
    "L' (RQueue (bt_id bt)) = L (RQueue (bt_id bt)) @ map RLink rs"
    "\<forall>r \<in> set rs. rh_replies h r = None \<and> rh_replies h' r = Some (error_reply (bt_id bt) (length error + 1))"
    "rh_replies h \<subseteq>\<^sub>m rh_replies h'" "\<forall>a \<in> heads h B. a \<noteq> RQueue (bt_id bt) \<longrightarrow> L' a = L a" by blast
  with m(2) show ?thesis unfolding error_reply_def
    by (intro exI [of _ e] exI [of _ rs] exI [of _ h'] exI [of _ L']) simp
qed

theorem Batch_abort_answers_all_witness:
  "\<exists>bt e rs h h' L'. Batch_abort bt ''no'' h = Inr (bt\<lparr>bt_error := Some e, bt_num_commands := 0\<rparr>, h') \<and>
    contents e = ''no'' @ [CHR 0x00] \<and> int (length rs) = 2 \<and> L' (RQueue 0) = map RLink rs \<and>
    bt_num_commands bt = 2 \<and> reply_heap h' {0} L'"
proof -
  from demo_batch obtain bt h where b: "bt_id bt = 0" "batch_ok bt h {0} ((\<lambda>_. [])(RQueue 0 := []))"
    "bt_num_commands bt = 2" "bt_error bt = None" by blast
  have l: "length ''no'' + 1 < 2147483648" "0 \<le> bt_num_commands bt" using b(3) by simp_all
  have bo: "bt_id bt \<in> {0}" "reply_heap h {0} ((\<lambda>_. [])(RQueue 0 := []))" "int32 (bt_num_commands bt)"
    using b(2) by (auto simp: batch_ok_def)
  from Batch_abort_answers_all [OF bo b(4) l] obtain e rs h' L' where
    "Batch_abort bt ''no'' h = Inr (bt\<lparr>bt_error := Some e, bt_num_commands := 0\<rparr>, h')"
    "contents e = ''no'' @ [CHR 0x00]" "reply_heap h' {0} L'" "int (length rs) = bt_num_commands bt"
    "L' (RQueue (bt_id bt)) = ((\<lambda>_. [])(RQueue 0 := [])) (RQueue (bt_id bt)) @ map RLink rs" by blast
  with b(1,3) show ?thesis
    by (intro exI [of _ bt] exI [of _ e] exI [of _ rs] exI [of _ h] exI [of _ h'] exI [of _ L']) simp
qed

text \<open>A list of writes, each with its text and the number of commands it counts.\<close>

lemma Batch_writes_append:
  assumes "writable (bt_write_buffer bt)" "allocator_ok m" "int32 (bt_num_commands bt)"
    "\<forall>x \<in> set ws. length (fst x) < 2147483648" "length (command_text bt) + length (concat (map fst ws)) \<le> max_fill"
  shows "\<exists>c. appends bt m (concat (map fst ws)) c
    (foldE (\<lambda>(s, k) (bt, m). Batch_write bt (Some s) (length s) k m) ws (bt, m))"
  using assms
proof (induction ws arbitrary: bt m)
  case Nil
  then have "appends bt m [] 0 (Inr (bt, m))"
    unfolding appends_def
    by (intro exI [of _ "bt_write_buffer bt"] exI [of _ "bt_num_commands bt"] exI [of _ m])
      (simp add: command_text_def wrap32_id int32_def)
  then show ?case by auto
next
  case (Cons x ws)
  obtain s k where x: "x = (s, k)" by fastforce
  have "appends bt m s k (Batch_write bt (Some s) (length s) k m)"
    using appends_write [OF Cons.prems(1,2), of "length s" s k] Cons.prems(4,5) x by simp
  then obtain wb n m1 where
    a: "Batch_write bt (Some s) (length s) k m = Inr (bt\<lparr>bt_write_buffer := wb, bt_num_commands := n\<rparr>, m1)"
      "n = wrap32 (bt_num_commands bt + k)" "writable wb" "contents wb = command_text bt @ s" "allocator_ok m1"
      "charged m m1 (buffer_bytes wb - buffer_bytes (bt_write_buffer bt))" "module.more m1 = module.more m"
    unfolding appends_def by blast
  let ?bt = "bt\<lparr>bt_write_buffer := wb, bt_num_commands := n\<rparr>"
  have "\<exists>c. appends ?bt m1 (concat (map fst ws)) c
      (foldE (\<lambda>(s, k) (bt, m). Batch_write bt (Some s) (length s) k m) ws (?bt, m1))"
    using a(2-5) Cons.prems(4,5) x by (intro Cons.IH) (simp_all add: command_text_def)
  then obtain c wb' n' m2 where
    r: "foldE (\<lambda>(s, k) (bt, m). Batch_write bt (Some s) (length s) k m) ws (?bt, m1) =
        Inr (bt\<lparr>bt_write_buffer := wb', bt_num_commands := n'\<rparr>, m2)"
      "n' = wrap32 (n + c)" "writable wb'" "contents wb' = command_text bt @ s @ concat (map fst ws)" "allocator_ok m2"
      "charged m1 m2 (buffer_bytes wb' - buffer_bytes wb)" "module.more m2 = module.more m1"
    unfolding appends_def by (auto simp: command_text_def a(4))
  have "n' = wrap32 (bt_num_commands bt + (k + c))"
    unfolding r(2) a(2) wrap32_add_wrap32 by (simp add: add.assoc)
  then have "appends bt m (concat (map fst (x # ws))) (k + c)
      (foldE (\<lambda>(s, k) (bt, m). Batch_write bt (Some s) (length s) k m) (x # ws) (bt, m))"
    unfolding appends_def using x a(1,7) r charged_trans [OF a(6) r(6)]
    by (intro exI [of _ wb'] exI [of _ n'] exI [of _ m2]) simp
  then show ?case by blast
qed

lemma freed_allocated:
  assumes "charged h h1 d" "charged h1 h2 (- d)" "reply_heap h B L" "reply_heap h2 B2 L2"
  shows "Module_get_allocated h2 = Module_get_allocated h"
proof -
  have "charged h h2 0" using charged_trans [OF assms(1,2)] by simp
  moreover have "allocated h < 18446744073709551616" "allocated h2 < 18446744073709551616"
    using assms(3,4) by (simp_all add: reply_heap_def allocator_ok_def)
  ultimately show ?thesis unfolding Module_get_allocated_def by (rule charged_zero_eq)
qed

text \<open>
  C26: what a batch allocated is given back.  A new batch to which any texts of commands were written has these
  texts in order.  If it is freed, the count of \<open>Module_get_allocated\<close> is what it was before it was made; if it is first
  aborted, so that it holds an error buffer and an error reply for each of its commands, freeing it gives all of
  this back as well.
\<close>

theorem Batch_new_free_allocated:
  assumes "reply_heap h B L" "b \<notin> B" "\<forall>x \<in> set ws. length (fst x) < 2147483648"
    and "length (concat (map fst ws)) \<le> max_fill" "length error + 1 < 2147483648"
  shows "\<exists>bt1 h1 bt2 h2 h3 bt4 h4 h5. Batch_new b h = Inr (bt1, h1) \<and>
    foldE (\<lambda>(s, k) (bt, h). Batch_write bt (Some s) (length s) k h) ws (bt1, h1) = Inr (bt2, h2) \<and>
    command_text bt2 = concat (map fst ws) \<and>
    Batch_free bt2 h2 = Inr h3 \<and> Module_get_allocated h3 = Module_get_allocated h \<and>
    Batch_abort bt2 error h2 = Inr (bt4, h4) \<and>
    Batch_free bt4 h4 = Inr h5 \<and> Module_get_allocated h5 = Module_get_allocated h"
proof -
  from Batch_new_ok [OF assms(1,2)] obtain bt1 h1 where n: "Batch_new b h = Inr (bt1, h1)" "bt_id bt1 = b"
    "batch_ok bt1 h1 (insert b B) (L(RQueue b := []))" "command_text bt1 = []" "bt_error bt1 = None" "bt_num_commands bt1 = 0"
    "charged h h1 (int sizeof_Batch + buffer_bytes (bt_read_buffer bt1) + buffer_bytes (bt_write_buffer bt1))"
    by blast
  let ?L = "L(RQueue b := [])" and ?B = "insert b B"
  have w: "writable (bt_write_buffer bt1)" "allocator_ok h1" and rh1: "reply_heap h1 ?B ?L"
    using n(3) by (simp_all add: batch_ok_def reply_heap_def)
  from Batch_writes_append [OF w, of ws] n(4,6) assms(3,4) obtain c where
    "appends bt1 h1 (concat (map fst ws)) c (foldE (\<lambda>(s, k) (bt, h). Batch_write bt (Some s) (length s) k h) ws (bt1, h1))"
    by (auto simp: int32_def)
  then obtain wb k m2 where
    s: "foldE (\<lambda>(s, k) (bt, h). Batch_write bt (Some s) (length s) k h) ws (bt1, h1) =
      Inr (bt1\<lparr>bt_write_buffer := wb, bt_num_commands := k\<rparr>, m2)" "k = wrap32 (bt_num_commands bt1 + c)"
    "writable wb" "contents wb = command_text bt1 @ concat (map fst ws)" "allocator_ok m2"
    "charged h1 m2 (buffer_bytes wb - buffer_bytes (bt_write_buffer bt1))" "module.more m2 = module.more h1"
    unfolding appends_def by blast
  have k: "int32 k" by (simp add: s(2))
  let ?bt = "bt1\<lparr>bt_write_buffer := wb, bt_num_commands := k\<rparr>"
  note c = charged_trans [OF n(7) s(6)]
  have rh2: "reply_heap m2 ?B ?L" by (rule reply_heap_more [OF rh1 s(7,5)])
  from Batch_free_heap [OF rh2, of ?bt "[]"] n(2,5) obtain h3 where
    f: "Batch_free ?bt m2 = Inr h3" "reply_heap h3 (?B - {b}) (?L(RQueue b := []))"
    "charged m2 h3 (- (buffer_bytes (bt_read_buffer bt1) + buffer_bytes wb + int sizeof_Batch))" by auto
  have g3: "Module_get_allocated h3 = Module_get_allocated h"
    by (rule freed_allocated [OF c _ assms(1) f(2)]) (use f(3) in simp)
  from Batch_abort_ok [of ?bt ?B m2 ?L error] n(2,5) rh2 k assms(5) obtain e rs h4 L4 where
    a: "Batch_abort ?bt error m2 = Inr (?bt\<lparr>bt_error := Some e, bt_num_commands := min 0 k\<rparr>, h4)"
    "reply_heap h4 ?B L4" "L4 (RQueue b) = map RLink rs" "charged m2 h4 (buffer_bytes e + int sizeof_Reply * int (length rs))"
    by auto
  let ?bt4 = "?bt\<lparr>bt_error := Some e, bt_num_commands := min 0 k\<rparr>"
  from Batch_free_heap [OF a(2), of ?bt4 rs] n(2) a(3) obtain h5 where
    f5: "Batch_free ?bt4 h4 = Inr h5" "reply_heap h5 (?B - {b}) (L4(RQueue b := []))"
    "charged h4 h5 (- (int sizeof_Reply * int (length rs) + buffer_bytes (bt_read_buffer bt1) + buffer_bytes wb +
       buffer_bytes e + int sizeof_Batch))" by auto
  have "Module_get_allocated h5 = Module_get_allocated h"
    by (rule freed_allocated [OF charged_trans [OF c a(4)] _ assms(1) f5(2)]) (use f5(3) in \<open>simp add: algebra_simps\<close>)
  with n(1,4) s(1,4) f(1) g3 a(1) f5(1) show ?thesis
    by - (rule exI [of _ bt1], rule exI [of _ h1], rule exI [of _ ?bt], rule exI [of _ m2], rule exI [of _ h3],
      rule exI [of _ ?bt4], rule exI [of _ h4], rule exI [of _ h5], simp add: command_text_def)
qed

theorem Batch_new_free_allocated_witness:
  "\<exists>bt1 h1 bt2 h2 bt4 h4 h5. Batch_new 7 demo_heap = Inr (bt1, h1) \<and>
    foldE (\<lambda>(s, k) (bt, h). Batch_write bt (Some s) (length s) k h) [(''GET k'' @ crlf, 1), (''GET l'' @ crlf, 1)] (bt1, h1) = Inr (bt2, h2) \<and>
    command_text bt2 = ''GET k'' @ crlf @ ''GET l'' @ crlf \<and> Batch_abort bt2 ''no'' h2 = Inr (bt4, h4) \<and>
    Batch_free bt4 h4 = Inr h5 \<and> Module_get_allocated h5 = Module_get_allocated demo_heap"
  using Batch_new_free_allocated [OF demo_reply_heap, of 7 "[(''GET k'' @ crlf, 1), (''GET l'' @ crlf, 1)]" "''no''"]
  by (auto simp: crlf_def)

text \<open>
  C30: the children of a multibulk reply are never given back (multithreaded build).  When a
  batch is freed, the replies of its queue are; a child of one of them is still allocated afterwards,
  is in no list of any live reply or batch, and only the queued replies were deducted from the
  allocation count.
\<close>

theorem Batch_free_leaks_children:
  assumes "batch_ok bt h B L" "L (RQueue (bt_id bt)) = map RLink rs"
    and "r \<in> set rs" "RLink c \<in> set (L (RChildren r))"
  shows "\<exists>h'. Batch_free bt h = Inr h' \<and> rh_replies h' c = rh_replies h c \<and> rh_replies h' c \<noteq> None \<and>
    (\<forall>a \<in> heads h' (B - {bt_id bt}). RLink c \<notin> set (L a)) \<and>
    charged h h' (- (int sizeof_Reply * int (length rs) + buffer_bytes (bt_read_buffer bt) +
      buffer_bytes (bt_write_buffer bt) + (case bt_error bt of None \<Rightarrow> 0 | Some e \<Rightarrow> buffer_bytes e) +
      int sizeof_Batch))"
proof -
  let ?q = "RQueue (bt_id bt)"
  have rh: "reply_heap h B L" and id: "bt_id bt \<in> B" using assms(1) by (auto simp: batch_ok_def)
  have qh: "?q \<in> heads h B" using id by simp
  from queue_node [OF rh qh, of "RLink r"] assms(2,3) have r: "RChildren r \<in> heads h B" by auto
  from queue_node [OF rh r assms(4)] have cd: "c \<in> dom (rh_replies h)" by auto
  have only: "a = RChildren r" if "a \<in> heads h B" "RLink c \<in> set (L a)" for a
    using links.disjoint_law [OF reply_heap_rings [OF rh] that(1) r] that(2) assms(4)
    by (auto simp: ring_nodes_def)
  have "c \<notin> set rs" using only [OF qh] assms(2) by auto
  moreover from Batch_free_ok [OF assms(1,2)] obtain h' where h': "Batch_free bt h = Inr h'"
    "rh_replies h' = (rh_replies h) |` (- set rs)"
    "charged h h' (- (int sizeof_Reply * int (length rs) + buffer_bytes (bt_read_buffer bt) +
      buffer_bytes (bt_write_buffer bt) + (case bt_error bt of None \<Rightarrow> 0 | Some e \<Rightarrow> buffer_bytes e) +
      int sizeof_Batch))" by blast
  moreover have "RLink c \<notin> set (L a)" if a: "a \<in> heads h' (B - {bt_id bt})" for a
  proof
    assume "RLink c \<in> set (L a)"
    moreover have "a \<in> heads h B" using a h'(2) by (auto simp: heads_def)
    ultimately have "a = RChildren r" using only by blast
    with a assms(3) show False by (auto simp: heads_def h'(2))
  qed
  ultimately show ?thesis using cd by (intro exI [of _ h']) (auto simp: restrict_map_def)
qed

text \<open>A queue that holds a multibulk with one child.\<close>

lemma demo_multibulk:
  "\<exists>bt h L r c. batch_ok bt h {0} L \<and> bt_id bt = 0 \<and> L (RQueue (bt_id bt)) = map RLink [r] \<and>
    RLink c \<in> set (L (RChildren r))"
proof -
  from demo_batch obtain bt h where b: "bt_id bt = 0" "batch_ok bt h {0} ((\<lambda>_. [])(RQueue 0 := []))" by blast
  let ?L0 = "(\<lambda>_. [])(RQueue 0 := [])"
  have rh: "reply_heap h {0} ?L0" using b(2) by (simp add: batch_ok_def)
  from Reply_new_ok [OF rh, of RT_MULTIBULK None 0 1] obtain h1 where h1:
    "reply_heap h1 {0} (?L0(RChildren (rh_next h) := []))"
    "orphan h1 {0} (?L0(RChildren (rh_next h) := [])) (rh_next h)" "rh_next h1 = Suc (rh_next h)" by blast
  let ?r = "rh_next h" and ?L1 = "?L0(RChildren (rh_next h) := [])"
  from add_link_ok [OF h1(1) _ h1(2), of "RQueue 0"] obtain lk where
    q: "reply_heap (h1\<lparr>rh_links := lk\<rparr>) {0} (?L1(RQueue 0 := ?L1 (RQueue 0) @ [RLink ?r]))" by auto
  let ?L2 = "?L1(RQueue 0 := ?L1 (RQueue 0) @ [RLink ?r])"
  from Reply_new_ok [OF q, of RT_BULK_NIL None 0 0] obtain h2 where h2:
    "reply_heap h2 {0} (?L2(RChildren (Suc ?r) := []))" "orphan h2 {0} (?L2(RChildren (Suc ?r) := [])) (Suc ?r)"
    "rh_replies h2 = (rh_replies h1)(Suc ?r := Some \<lparr>rep_type = RT_BULK_NIL, rep_buffer = None,
      rep_offset = 0, rep_len = 0\<rparr>)" using h1(3) by auto
  let ?L3 = "?L2(RChildren (Suc ?r) := [])"
  have rd: "?r \<in> dom (rh_replies h2)" using h1(2) h2(3) by (auto simp: orphan_def)
  from Reply_add_child_ok [OF h2(1) rd h2(2)] obtain lk2 where
    c: "reply_heap (h2\<lparr>rh_links := lk2\<rparr>) {0} (?L3(RChildren ?r := ?L3 (RChildren ?r) @ [RLink (Suc ?r)]))" by blast
  let ?L4 = "?L3(RChildren ?r := ?L3 (RChildren ?r) @ [RLink (Suc ?r)])"
  have "batch_ok bt (h2\<lparr>rh_links := lk2\<rparr>) {0} ?L4" using b c by (simp add: batch_ok_def)
  moreover have "?L4 (RQueue (bt_id bt)) = map RLink [?r]" "RLink (Suc ?r) \<in> set (?L4 (RChildren ?r))"
    using b(1) by simp_all
  ultimately show ?thesis using b(1) by blast
qed

theorem Batch_free_leaks_children_witness:
  "\<exists>bt h h' c r L. Batch_free bt h = Inr h' \<and> L (RQueue (bt_id bt)) = [RLink r] \<and>
    RLink c \<in> set (L (RChildren r)) \<and> rh_replies h' c \<noteq> None"
proof -
  from demo_multibulk obtain bt h L r c where d: "batch_ok bt h {0} L" "L (RQueue (bt_id bt)) = map RLink [r]"
    "RLink c \<in> set (L (RChildren r))" by blast
  from Batch_free_leaks_children [OF d(1,2) _ d(3)] obtain h' where "Batch_free bt h = Inr h'"
    "rh_replies h' c \<noteq> None" by auto
  with d show ?thesis by (intro exI [of _ bt] exI [of _ h] exI [of _ h'] exI [of _ c] exI [of _ r] exI [of _ L]) simp
qed

text \<open>
  C40: the iterator stack holds two levels only.  On level 2 a reply that is itself a multibulk
  passes the check of the stack pointer, which allows 4, and the store that follows is one past the
  end of the array of four.  Replies built by the parser never get there.
\<close>

theorem Batch_next_reply_nested:
  assumes "bt_sp bt = 2" "bt_current bt = [x, y, Some cur, Some lst]"
    and "lh_next (rh_links h) cur = Some (RLink r)" "RLink r \<noteq> lst"
    and "rh_replies h r = Some rep" "rep_type rep = RT_MULTIBULK"
    and "lh_next (rh_links h) (RLink r) = Some nx"
  shows "Batch_next_reply True bt h = Inl OutOfBounds"
proof -
  have s: "slot_set [x, y, Some nx, Some lst] 4 (RChildren r) = Inl OutOfBounds"
    by (simp add: slot_set_def)
  show ?thesis using assms s
    by (simp add: Batch_next_reply_def deliver_current_def Let_def lookup_reply_def
        BATCH_REPLY_ITERATOR_STACK_SIZE_def)
qed

theorem Batch_next_reply_nested_witness:
  "\<exists>bt h. Batch_next_reply True bt h = Inl OutOfBounds \<and> bt_sp bt = 2"
proof -
  from demo_batch obtain bt h where "bt_id (bt :: batch) = 0" "rh_replies (h :: rheap) = (\<lambda>_. None)" by blast
  let ?bt = "bt\<lparr>bt_sp := 2, bt_current := [None, None, Some (RChildren 0), Some (RChildren 0)]\<rparr>"
  let ?h = "h\<lparr>rh_replies := [1 \<mapsto> \<lparr>rep_type = RT_MULTIBULK, rep_buffer = None, rep_offset = 0, rep_len = 0\<rparr>],
    rh_links := \<lparr>lh_next = (\<lambda>n. Some (RLink 1)), lh_prev = (\<lambda>_. None)\<rparr>\<rparr>"
  let ?rep = "\<lparr>rep_type = RT_MULTIBULK, rep_buffer = None, rep_offset = 0, rep_len = 0\<rparr>"
  have "Batch_next_reply True ?bt ?h = Inl OutOfBounds"
    by (rule Batch_next_reply_nested [of _ _ _ "RChildren 0" "RChildren 0" _ 1 ?rep "RLink 1"]) simp_all
  then show ?thesis by (intro exI [of _ ?bt] exI [of _ ?h]) simp
qed

end
