(* ===== verification/C_Float.thy ===== *)
theory C_Float
  imports Complex_Main "HOL-Library.Log_Nat"
begin

text \<open>
  The floating-point arithmetic of \<open>libredis/ketama.c\<close>, and of the clock readings in
  \<open>libredis/connection.c\<close>.  The code of \<open>ketama.c\<close> converts integers to
  \<open>float\<close>, divides and multiplies non-negative numbers and takes \<open>floorf\<close>.  Each operation of
  IEEE 754 is the exact operation followed by a rounding to 24 (\<open>float\<close>) or 53 (\<open>double\<close>)
  significant binary digits, to nearest and to even in the middle; the numbers of \<open>ketama.c\<close>
  lie between \<open>2^-64\<close> and \<open>2^71\<close> or are zero, far inside the exponent range of both formats,
  so that the exponent is not bounded here.  Numbers are rationals, non-negative ones
  except for differences of times.
\<close>

definition round_even :: "rat \<Rightarrow> int" where
  "round_even y =
     (let f = \<lfloor>y\<rfloor>; d = y - of_int f
      in if d < 1 / 2 \<or> d = 1 / 2 \<and> even f then f else f + 1)"

definition binary_exp :: "rat \<Rightarrow> int" where
  "binary_exp x =
     (let (a, b) = quotient_of x; e = bitlen a - bitlen b
      in if 2 powi e \<le> x then e else e - 1)"

definition fl :: "nat \<Rightarrow> rat \<Rightarrow> rat" where
  "fl p x =
     (if x \<le> 0 then 0
      else let u = 2 powi (binary_exp x - int p + 1) in of_int (round_even (x / u)) * u)"

abbreviation flt :: "rat \<Rightarrow> rat" where "flt \<equiv> fl 24"

abbreviation dbl :: "rat \<Rightarrow> rat" where "dbl \<equiv> fl 53"

text \<open>Numbers of either sign: rounding to nearest is symmetric.\<close>

definition sfl :: "nat \<Rightarrow> rat \<Rightarrow> rat" where
  "sfl p x = (if x < 0 then - fl p (- x) else fl p x)"

lemma round_even_error: "\<bar>of_int (round_even y) - y\<bar> \<le> 1 / 2"
proof -
  have "of_int \<lfloor>y\<rfloor> \<le> y" "y < of_int \<lfloor>y\<rfloor> + 1" by linarith+
  then show ?thesis by (auto simp: round_even_def Let_def abs_le_iff)
qed

lemma round_even_of_int [simp]: "round_even (of_int k) = k"
  by (simp add: round_even_def)

lemma round_even_ge: "of_int k \<le> y \<Longrightarrow> k \<le> round_even y"
proof -
  assume "of_int k \<le> y"
  then have "k \<le> \<lfloor>y\<rfloor>" by linarith
  then show ?thesis by (auto simp: round_even_def Let_def)
qed

lemma binary_exp_le:
  assumes "0 < x"
  shows "2 powi (binary_exp x) \<le> x"
proof -
  obtain a b where q: "quotient_of x = (a, b)" by fastforce
  then have b: "0 < b" and x: "x = of_int a / of_int b"
    using quotient_of_denom_pos quotient_of_div by auto
  then have a: "0 < a" using assms by (simp add: zero_less_divide_iff)
  have A: "2 ^ nat (bitlen a - 1) \<le> a" using bitlen_bounds [OF a] by simp
  have B: "b < 2 ^ nat (bitlen b)" using bitlen_bounds [OF b] by simp
  have la: "0 < bitlen a" and lb: "0 < bitlen b" using a b
    by (simp_all add: bitlen_def floorlog_eq_zero_iff flip: neq0_conv)
  have A': "(2::rat) powi (bitlen a - 1) \<le> of_int a"
  proof -
    have "(2::rat) powi (bitlen a - 1) = of_int (2 ^ nat (bitlen a - 1))"
      using la by (simp add: power_int_def)
    also have "\<dots> \<le> of_int a" using A by (simp only: of_int_le_iff)
    finally show ?thesis .
  qed
  have B': "of_int b \<le> (2::rat) powi (bitlen b)"
  proof -
    have "of_int b \<le> (of_int (2 ^ nat (bitlen b)) :: rat)" using B by (simp only: of_int_le_iff)
    also have "\<dots> = 2 powi (bitlen b)" using lb by (simp add: power_int_def)
    finally show ?thesis .
  qed
  have "(2::rat) powi (bitlen a - bitlen b - 1) = 2 powi (bitlen a - 1) / 2 powi (bitlen b)"
    by (simp add: power_int_diff)
  also have "\<dots> \<le> of_int a / of_int b"
    by (rule frac_le) (use A' B' a b in simp_all)
  finally have "(2::rat) powi (bitlen a - bitlen b - 1) \<le> x" by (simp only: x)
  then show ?thesis by (simp add: binary_exp_def q Let_def)
qed

lemma fl_nonneg [simp]: "0 \<le> fl p x"
proof (cases "x \<le> 0")
  case False
  then have "0 \<le> round_even (x / 2 powi (binary_exp x - int p + 1))"
    by (intro round_even_ge) simp
  with False show ?thesis by (simp add: fl_def Let_def)
qed (simp add: fl_def)

lemma fl_zero [simp]: "fl p 0 = 0"
  by (simp add: fl_def)

text \<open>The relative error of one rounding.\<close>

lemma fl_error:
  assumes "0 \<le> x"
  shows "\<bar>fl p x - x\<bar> \<le> x / 2 ^ p"
proof (cases "x = 0")
  case False
  with assms have x: "0 < x" by simp
  define u :: rat where "u = 2 powi (binary_exp x - int p + 1)"
  have u: "0 < u" by (simp add: u_def)
  have "fl p x - x = (of_int (round_even (x / u)) - x / u) * u"
    using x u unfolding fl_def u_def [symmetric] Let_def by (simp add: field_simps)
  then have "\<bar>fl p x - x\<bar> = \<bar>of_int (round_even (x / u)) - x / u\<bar> * u"
    using u by (simp add: abs_mult)
  also have "\<dots> \<le> 1 / 2 * u" using round_even_error u by (intro mult_right_mono) auto
  also have "1 / 2 * u = 2 powi binary_exp x / 2 ^ p"
    by (simp add: u_def power_int_add power_int_diff)
  also have "\<dots> \<le> x / 2 ^ p" using binary_exp_le [OF x] by (simp add: divide_right_mono)
  finally show ?thesis .
qed simp

lemma fl_upper: "0 \<le> x \<Longrightarrow> fl p x \<le> x * (1 + 1 / 2 ^ p)"
  using fl_error [of x p] by (simp add: abs_le_iff field_simps)

lemma fl_lower: "0 \<le> x \<Longrightarrow> x * (1 - 1 / 2 ^ p) \<le> fl p x"
  using fl_error [of x p] by (simp add: abs_le_iff field_simps)

text \<open>Roundings of this arithmetic, evaluated.\<close>

lemma fl_examples:
  "flt (1 / 3) = 11184811 / 33554432" "flt 16777217 = 16777216" "flt 16777219 = 16777220"
  "dbl (11184811 / 33554432 * 40) = 11184811 / 33554432 * 40"
  by code_simp+


section \<open>Propagation of the relative error\<close>

text \<open>\<open>near l u x y\<close>: the computed \<open>y\<close> lies between \<open>l\<close> and \<open>u\<close> times the exact \<open>x\<close>.\<close>

definition near :: "rat \<Rightarrow> rat \<Rightarrow> rat \<Rightarrow> rat \<Rightarrow> bool" where
  "near l u x y \<longleftrightarrow> 0 \<le> x \<and> 0 \<le> l \<and> x * l \<le> y \<and> y \<le> x * u"

named_theorems near_intros \<open>error bounds of the operations\<close>

lemma near_exact [near_intros]: "0 \<le> x \<Longrightarrow> near 1 1 x x"
  by (simp add: near_def)

lemma near_nonneg: "near l u x y \<Longrightarrow> 0 \<le> y"
  unfolding near_def by (metis mult_nonneg_nonneg order_trans)

lemma near_fl [near_intros]:
  assumes "near l u x y"
  shows "near (l * (1 - 1 / 2 ^ p)) (u * (1 + 1 / 2 ^ p)) x (fl p y)"
proof -
  have y: "0 \<le> y" "x * l \<le> y" "y \<le> x * u" "0 \<le> x" "0 \<le> l"
    using assms near_nonneg [OF assms] by (simp_all add: near_def)
  have one: "(1::rat) \<le> 2 ^ p" by simp
  then have "0 \<le> 1 - 1 / (2::rat) ^ p" by simp
  then have "x * l * (1 - 1 / 2 ^ p) \<le> y * (1 - 1 / 2 ^ p)" using y(2) by (rule mult_right_mono [rotated])
  moreover have "y * (1 + 1 / 2 ^ p) \<le> x * u * (1 + 1 / 2 ^ p)"
    using y(3) by (rule mult_right_mono) simp
  ultimately show ?thesis
    using fl_upper [OF y(1), of p] fl_lower [OF y(1), of p] y one by (simp add: near_def mult.assoc)
qed

lemma near_mult [near_intros]:
  assumes "near l u x y" "near l' u' x' y'"
  shows "near (l * l') (u * u') (x * x') (y * y')"
proof -
  have "(x * l) * (x' * l') \<le> y * y'"
    using assms near_nonneg [OF assms(1)] by (intro mult_mono) (auto simp: near_def)
  moreover have "y * y' \<le> (x * u) * (x' * u')"
    using assms near_nonneg [OF assms(2)] near_nonneg [OF assms(1)]
    by (intro mult_mono) (auto simp: near_def)
  ultimately show ?thesis using assms by (simp add: near_def mult_ac)
qed

lemma near_div [near_intros]:
  assumes "near l u x y" "near l' u' x' y'" "0 < l'" "0 < x'"
  shows "near (l / u') (u / l') (x / x') (y / y')"
proof -
  have y': "0 < x' * l'" "x' * l' \<le> y'" "y' \<le> x' * u'" using assms by (simp_all add: near_def)
  then have y0: "0 < y'" by linarith
  with y' have "0 < x' * u'" by linarith
  with y0 assms(4) have u': "0 < x' * u'" "0 < u'" "0 < y'" by (simp_all add: zero_less_mult_iff)
  have "x * l / (x' * u') \<le> y / y'"
    using assms y' u' near_nonneg [OF assms(1)] by (intro frac_le) (auto simp: near_def)
  moreover have "y / y' \<le> x * u / (x' * l')"
    using assms y' near_nonneg [OF assms(1)] by (intro frac_le) (auto simp: near_def)
  ultimately show ?thesis using assms u' by (simp add: near_def mult_ac)
qed

lemma near_weaken: "near l u x y \<Longrightarrow> 0 \<le> l' \<Longrightarrow> l' \<le> l \<Longrightarrow> u \<le> u' \<Longrightarrow> near l' u' x y"
  unfolding near_def by (meson mult_left_mono order_trans)

end
