(* ===== verification/Connection.thy ===== *)
theory Connection
  imports Batch C_Float
begin

text \<open>
  Connections and the executor of \<open>libredis/connection.c\<close>.  A \<open>world\<close> holds what the functions
  share: the reply heap with the module, the connections and batches by address, the executor that
  is running, and the descriptors and address lists the process owns.  The kernel is not code
  of the repository: a \<open>kernel\<close> gives the answer of each system call, which may depend on how
  many calls were made before.  Event masks are sets of flags.  Debug output is left out.
\<close>

section \<open>The kernel\<close>

definition EAGAIN :: int where "EAGAIN = 11"

definition EINPROGRESS :: int where "EINPROGRESS = 115"

datatype poll_flag = POLLIN | POLLOUT | POLLERR | POLLHUP | POLLNVAL

text \<open>
  Each function gets the number of the call; \<open>Inl\<close> is a failure with the value of \<open>errno\<close>.
  \<open>k_resolve\<close> says whether \<open>getaddrinfo\<close> succeeds (the list it allocates is known by the number of
  the call), \<open>k_sockopt\<close> is the \<open>SO_ERROR\<close> of
  \<open>getsockopt\<close>, \<open>k_poll\<close> gives the \<open>revents\<close> of all entries, \<open>k_clock\<close> seconds and nanoseconds.
\<close>

record kernel =
  k_resolve :: "nat \<Rightarrow> string \<Rightarrow> string \<Rightarrow> bool"
  k_socket :: "nat \<Rightarrow> int + int"
  k_fcntl :: "nat \<Rightarrow> int \<Rightarrow> int + int"
  k_connect :: "nat \<Rightarrow> int \<Rightarrow> int + unit"
  k_sockopt :: "nat \<Rightarrow> int \<Rightarrow> int + int"
  k_write :: "nat \<Rightarrow> int \<Rightarrow> nat \<Rightarrow> int + nat"
  k_read :: "nat \<Rightarrow> int \<Rightarrow> nat \<Rightarrow> int + string"
  k_poll :: "nat \<Rightarrow> (int \<times> poll_flag set) list \<Rightarrow> int \<Rightarrow> int + poll_flag set list"
  k_clock :: "nat \<Rightarrow> nat \<times> nat"
  k_strerror :: "int \<Rightarrow> string"

record os =
  os_calls :: nat
  os_errno :: int
  os_open :: "int set"
  os_addrs :: "nat set"
  os_sent :: "int \<Rightarrow> string"

section \<open>Data\<close>

datatype conn_state = CS_CLOSED | CS_CONNECTING | CS_CONNECTED | CS_ABORTED

datatype event = EVENT_READ | EVENT_WRITE | EVENT_TIMEOUT | EVENT_ERROR

text \<open>Pointers to batches are their addresses; \<open>cn_executor\<close> says that \<open>current_executor\<close> is set.\<close>

record connection =
  cn_addr :: string
  cn_serv :: string
  cn_addrinfo :: "nat option"
  cn_sockfd :: int
  cn_state :: conn_state
  cn_batch :: "nat option"
  cn_executor :: bool
  cn_parser :: "rparser option"

record pollfd =
  pf_fd :: int
  pf_events :: "poll_flag set"
  pf_revents :: "poll_flag set"

text \<open>A pair is the address of a batch and that of a connection.\<close>

record executor =
  ex_numpairs :: nat
  ex_numevents :: int
  ex_fds :: "pollfd list"
  ex_pairs :: "(nat \<times> nat) list"
  ex_end_tm_ms :: rat

record world =
  w_heap :: rheap
  w_conns :: "nat \<Rightarrow> connection option"
  w_batches :: "nat \<Rightarrow> batch option"
  w_exec :: executor
  w_os :: os

text \<open>Sizes on LP64.\<close>

definition sizeof_Connection :: nat where "sizeof_Connection = 320"

definition sizeof_Executor :: nat where "sizeof_Executor = 24592"

definition MAX_PAIRS :: nat where "MAX_PAIRS = 1024"

definition get_conn :: "nat \<Rightarrow> world \<Rightarrow> connection res" where
  "get_conn c w = (case w_conns w c of None \<Rightarrow> Inl Undefined | Some cn \<Rightarrow> Inr cn)"

definition put_conn :: "nat \<Rightarrow> connection \<Rightarrow> world \<Rightarrow> world" where
  "put_conn c cn w = w\<lparr>w_conns := (w_conns w)(c \<mapsto> cn)\<rparr>"

definition get_batch :: "nat \<Rightarrow> world \<Rightarrow> batch res" where
  "get_batch b w = (case w_batches w b of None \<Rightarrow> Inl Undefined | Some bt \<Rightarrow> Inr bt)"

definition put_batch :: "nat \<Rightarrow> batch \<Rightarrow> world \<Rightarrow> world" where
  "put_batch b bt w = w\<lparr>w_batches := (w_batches w)(b \<mapsto> bt)\<rparr>"

text \<open>One more system call; a failing one sets \<open>errno\<close>.\<close>

definition tick :: "world \<Rightarrow> world" where
  "tick w = w\<lparr>w_os := (w_os w)\<lparr>os_calls := Suc (os_calls (w_os w))\<rparr>\<rparr>"

definition calls :: "world \<Rightarrow> nat" where
  "calls w = os_calls (w_os w)"

definition set_errno :: "int \<Rightarrow> world \<Rightarrow> world" where
  "set_errno e w = w\<lparr>w_os := (w_os w)\<lparr>os_errno := e\<rparr>\<rparr>"

definition errno :: "world \<Rightarrow> int" where
  "errno w = os_errno (w_os w)"

definition errno_text :: "kernel \<Rightarrow> string \<Rightarrow> world \<Rightarrow> string" where
  "errno_text K prefix w = prefix @ dec_int (errno w) @ ''] '' @ k_strerror K (errno w)"

section \<open>Closing, aborting\<close>

text \<open>\<open>freeaddrinfo\<close> of anything but a live address list is undefined.\<close>

definition Connection_close :: "nat \<Rightarrow> world \<Rightarrow> world res" where
  "Connection_close c w =
     bindE (get_conn c w) (\<lambda>cn.
       let (cn1, w1) = (if cn_sockfd cn > 0
                        then (cn\<lparr>cn_sockfd := 0\<rparr>,
                              w\<lparr>w_os := (w_os w)\<lparr>os_open := os_open (w_os w) - {cn_sockfd cn}\<rparr>\<rparr>)
                        else (cn, w)) in
       case cn_addrinfo cn1 of
         None \<Rightarrow> Inr (put_conn c cn1 w1)
       | Some a \<Rightarrow>
           if a \<in> os_addrs (w_os w1)
           then Inr (put_conn c (cn1\<lparr>cn_addrinfo := None\<rparr>)
                  (w1\<lparr>w_os := (w_os w1)\<lparr>os_addrs := os_addrs (w_os w1) - {a}\<rparr>\<rparr>))
           else Inl Undefined)"

definition abort_text :: "string \<Rightarrow> connection \<Rightarrow> string" where
  "abort_text text cn =
     snprintf_text MAX_ERROR_SIZE (''Connection error '' @ snprintf_text MAX_ERROR_SIZE text @
       '' [addr: '' @ cn_addr cn @ '':'' @ cn_serv cn @ '']'')"

text \<open>\<open>text\<close> is the formatted message.\<close>

definition Connection_abort :: "nat \<Rightarrow> string \<Rightarrow> world \<Rightarrow> world res" where
  "Connection_abort c text w =
     bindE (get_conn c w) (\<lambda>cn.
     if cn_state cn = CS_ABORTED then Inr w
     else
       bindE (derefE (cn_batch cn)) (\<lambda>b.
       bindE (get_batch b w) (\<lambda>bt.
       bindE (Batch_abort bt (abort_text text cn) (w_heap w)) (\<lambda>(bt', h').
         let w1 = put_conn c (cn\<lparr>cn_batch := None, cn_executor := False\<rparr>) (put_batch b bt' (w\<lparr>w_heap := h'\<rparr>)) in
         bindE (Connection_close c w1) (\<lambda>w2.
         bindE (get_conn c w2) (\<lambda>cn2.
           Inr (put_conn c (cn2\<lparr>cn_state := CS_ABORTED\<rparr>) w2)))))))"

section \<open>Creating and freeing a connection\<close>

definition Connection_free :: "nat option \<Rightarrow> world \<Rightarrow> world res" where
  "Connection_free p w =
     (case p of
        None \<Rightarrow> Inr w
      | Some c \<Rightarrow>
          bindE (get_conn c w) (\<lambda>cn.
          bindE (if cn_parser cn \<noteq> None then ReplyParser_free (cn_parser cn) (w_heap w) else Inr (w_heap w)) (\<lambda>h1.
          bindE (Connection_close c (w\<lparr>w_heap := h1\<rparr>)) (\<lambda>w1.
          bindE (Alloc_free sizeof_Connection (w_heap w1)) (\<lambda>h2.
            Inr (w1\<lparr>w_heap := h2, w_conns := (w_conns w1)(c := None)\<rparr>))))))"

text \<open>
  The address and service \<open>Connection_new\<close> stores, and whether it takes the address for invalid;
  what is not written keeps the contents of the block.
\<close>

definition split_address :: "string \<Rightarrow> string \<Rightarrow> string \<Rightarrow> string \<times> string \<times> bool" where
  "split_address addr0 serv0 in_addr =
     (case strchr in_addr (CHR '':'') of
        None \<Rightarrow>
          (let addr = snprintf_text ADDR_SIZE in_addr in
           if ADDR_SIZE < length in_addr then (addr, serv0, True)
           else (addr, snprintf_text SERV_SIZE ''6379'', SERV_SIZE < length ''6379''))
      | Some service \<Rightarrow>
          (let addr_length = wrap32 (int (length in_addr) - int (length service) + 1) in
           if int ADDR_SIZE < addr_length then (addr0, serv0, True)
           else (snprintf_text (to_size addr_length) in_addr, snprintf_text SERV_SIZE (tl service),
                 SERV_SIZE < length (tl service))))"

text \<open>\<open>c\<close> is the address of the new block, \<open>raw\<close> and \<open>praw\<close> what the two blocks hold.\<close>

definition Connection_new ::
    "nat \<Rightarrow> connection \<Rightarrow> rparser \<Rightarrow> string \<Rightarrow> world \<Rightarrow> (nat option \<times> world) res" where
  "Connection_new c raw praw in_addr w =
     bindE (Alloc_alloc sizeof_Connection (w_heap w)) (\<lambda>(p, h1).
     if p = None
     then Inr (None, w\<lparr>w_heap := Module_set_error ''Out of memory while allocating Connection'' h1\<rparr>)
     else
       let cn1 = raw\<lparr>cn_state := CS_CLOSED, cn_batch := None, cn_executor := False\<rparr> in
       bindE (ReplyParser_new praw h1) (\<lambda>(rp, h2).
         let cn2 = cn1\<lparr>cn_parser := rp\<rparr>; w2 = put_conn c cn2 (w\<lparr>w_heap := h2\<rparr>) in
         if rp = None then bindE (Connection_free (Some c) w2) (\<lambda>w3. Inr (None, w3))
         else
           case split_address (cn_addr cn2) (cn_serv cn2) in_addr of (addr, serv, invalid_address) \<Rightarrow>
             let cn3 = cn2\<lparr>cn_addr := addr, cn_serv := serv\<rparr>; w3 = put_conn c cn3 w2 in
             if invalid_address
             then bindE (Connection_free (Some c)
                      (w3\<lparr>w_heap := Module_set_error ''Invalid address for Connection'' (w_heap w3)\<rparr>))
                    (\<lambda>w4. Inr (None, w4))
             else Inr (Some c, put_conn c (cn3\<lparr>cn_addrinfo := None, cn_sockfd := 0\<rparr>) w3)))"

section \<open>Requesting events\<close>

definition Executor_notify_event :: "nat \<Rightarrow> event set \<Rightarrow> nat \<Rightarrow> world \<Rightarrow> world res" where
  "Executor_notify_event c event ordinal w =
     bindE (get_conn c w) (\<lambda>cn.
     bindE (assertE (cn_executor cn)) (\<lambda>_.
     bindE (assertE (cn_sockfd cn \<noteq> 0)) (\<lambda>_.
     bindE (assertE (cn_state cn \<noteq> CS_ABORTED)) (\<lambda>_.
     bindE (nthE (ex_fds (w_exec w)) ordinal) (\<lambda>fd.
       let fd1 = fd\<lparr>pf_fd := cn_sockfd cn\<rparr>;
           (fd2, n2) = (if EVENT_READ \<in> event
                        then (fd1\<lparr>pf_events := insert POLLIN (pf_events fd1)\<rparr>, ex_numevents (w_exec w) + 1)
                        else (fd1, ex_numevents (w_exec w)));
           (fd3, n3) = (if EVENT_WRITE \<in> event
                        then (fd2\<lparr>pf_events := insert POLLOUT (pf_events fd2)\<rparr>, n2 + 1)
                        else (fd2, n2))
       in Inr (w\<lparr>w_exec := (w_exec w)\<lparr>ex_fds := (ex_fds (w_exec w))[ordinal := fd3], ex_numevents := n3\<rparr>\<rparr>))))))"

section \<open>Connecting\<close>

definition Connection_create_socket :: "kernel \<Rightarrow> nat \<Rightarrow> world \<Rightarrow> (int \<times> world) res" where
  "Connection_create_socket K c w =
     bindE (get_conn c w) (\<lambda>cn.
     bindE (assertE (cn_state cn = CS_CLOSED)) (\<lambda>_.
     if \<not> k_resolve K (calls w) (cn_addr cn) (cn_serv cn)
     then bindE (Connection_abort c ''could not resolve address'' (tick w)) (\<lambda>w'. Inr (-1, w'))
     else
       let a = calls w;
           w1 = tick w;
           cn1 = cn\<lparr>cn_addrinfo := Some a\<rparr>;
           w2 = put_conn c cn1 (w1\<lparr>w_os := (w_os w1)\<lparr>os_addrs := insert a (os_addrs (w_os w1))\<rparr>\<rparr>) in
       case k_socket K (calls w2) of
         Inl e \<Rightarrow> bindE (Connection_abort c ''could not create socket''
                    (put_conn c (cn1\<lparr>cn_sockfd := -1\<rparr>) (set_errno e (tick w2)))) (\<lambda>w'. Inr (-1, w'))
       | Inr fd \<Rightarrow>
         let w3 = tick w2;
             w4 = put_conn c (cn1\<lparr>cn_sockfd := fd\<rparr>)
                    (w3\<lparr>w_os := (w_os w3)\<lparr>os_open := insert fd (os_open (w_os w3)),
                                          os_sent := (os_sent (w_os w3))(fd := [])\<rparr>\<rparr>) in
         case k_fcntl K (calls w4) fd of
           Inl e \<Rightarrow> bindE (Connection_abort c ''could not get socket flags for'' (set_errno e (tick w4)))
                      (\<lambda>w'. Inr (-1, w'))
         | Inr flags \<Rightarrow>
           let w5 = tick w4 in
           case k_fcntl K (calls w5) fd of
             Inl e \<Rightarrow> bindE (Connection_abort c ''could not set socket to non-blocking mode''
                        (set_errno e (tick w5))) (\<lambda>w'. Inr (-1, w'))
           | Inr _ \<Rightarrow> Inr (0, tick w5)))"

text \<open>
  The block of \<open>Connection_write_data\<close> for a closed connection; the second component of the
  result says that the function returns.
\<close>

definition open_connection :: "kernel \<Rightarrow> nat \<Rightarrow> nat \<Rightarrow> world \<Rightarrow> (world \<times> bool) res" where
  "open_connection K c ordinal w =
     bindE (Connection_create_socket K c w) (\<lambda>(r, w1).
     if r = -1 then Inr (w1, True)
     else
       bindE (get_conn c w1) (\<lambda>cn.
       bindE (derefE (cn_addrinfo cn)) (\<lambda>_.
       case k_connect K (calls w1) (cn_sockfd cn) of
         Inl e \<Rightarrow>
           let w2 = set_errno e (tick w1) in
           if errno w2 = EINPROGRESS
           then bindE (Executor_notify_event c {EVENT_WRITE} ordinal
                  (put_conn c (cn\<lparr>cn_state := CS_CONNECTING\<rparr>) w2)) (\<lambda>w3. Inr (w3, True))
           else bindE (Connection_abort c (errno_text K ''connect error 1, errno ['' w2) w2)
                  (\<lambda>w3. Inr (w3, True))
       | Inr _ \<Rightarrow> Inr (put_conn c (cn\<lparr>cn_state := CS_CONNECTED\<rparr>) (tick w1), False))))"

text \<open>The block for a connection in progress; the message of the second error prints \<open>errno\<close>.\<close>

definition check_connected :: "kernel \<Rightarrow> nat \<Rightarrow> nat \<Rightarrow> world \<Rightarrow> (world \<times> bool) res" where
  "check_connected K c ordinal w =
     bindE (get_conn c w) (\<lambda>cn.
     case k_sockopt K (calls w) (cn_sockfd cn) of
       Inl e \<Rightarrow>
         let w1 = set_errno e (tick w) in
         bindE (Connection_abort c (errno_text K ''getsockopt error for connect result, errno: ['' w1) w1)
           (\<lambda>w2. Inr (w2, True))
     | Inr error \<Rightarrow>
         let w1 = tick w in
         if error \<noteq> 0
         then bindE (Connection_abort c (errno_text K ''connect error 2, errno: ['' w1) w1)
                (\<lambda>w2. Inr (w2, True))
         else bindE (Executor_notify_event c {EVENT_READ} ordinal (put_conn c (cn\<lparr>cn_state := CS_CONNECTED\<rparr>) w1))
                (\<lambda>w2. Inr (w2, False)))"

section \<open>Writing\<close>

text \<open>One turn of the loop that sends what is left of the write buffer.\<close>

definition write_turn :: "kernel \<Rightarrow> nat \<Rightarrow> nat \<Rightarrow> world \<Rightarrow> (world \<times> bool) res" where
  "write_turn K c ordinal w =
     bindE (get_conn c w) (\<lambda>cn.
     bindE (derefE (cn_batch cn)) (\<lambda>b.
     bindE (get_batch b w) (\<lambda>bt.
     let buffer = Batch_write_buffer bt; answer = k_write K (calls w) (cn_sockfd cn) in
     if Buffer_remaining buffer = 0 then Inr (w, False)
     else
       bindE (Buffer_send buffer (\<lambda>n. case answer n of Inl e \<Rightarrow> None | Inr k \<Rightarrow> Some k)) (\<lambda>(res, out, buffer').
         let w1 = tick (put_batch b (bt\<lparr>bt_write_buffer := buffer'\<rparr>) w);
             w2 = w1\<lparr>w_os := (w_os w1)\<lparr>os_sent := (os_sent (w_os w1))
                    (cn_sockfd cn := os_sent (w_os w1) (cn_sockfd cn) @ out)\<rparr>\<rparr> in
         case res of
           Some _ \<Rightarrow> Inr (w2, True)
         | None \<Rightarrow>
             let w3 = (case answer (Buffer_remaining buffer) of Inl e \<Rightarrow> set_errno e w2 | Inr _ \<Rightarrow> w2) in
             if errno w3 = EAGAIN
             then bindE (Executor_notify_event c {EVENT_WRITE} ordinal w3) (\<lambda>w4. Inr (w4, False))
             else bindE (Connection_abort c (errno_text K ''write error, errno: ['' w3) w3) (\<lambda>w4. Inr (w4, False))))))"

definition Connection_write_data :: "kernel \<Rightarrow> nat \<Rightarrow> nat \<Rightarrow> world \<Rightarrow> world res" where
  "Connection_write_data K c ordinal w =
     bindE (get_conn c w) (\<lambda>cn.
     bindE (assertE (cn_batch cn \<noteq> None)) (\<lambda>_.
     bindE (assertE (cn_executor cn)) (\<lambda>_.
     if cn_state cn = CS_ABORTED then Inr w
     else
       bindE (if cn_state cn = CS_CLOSED then open_connection K c ordinal w else Inr (w, False)) (\<lambda>(w1, ret1).
       if ret1 then Inr w1
       else
         bindE (get_conn c w1) (\<lambda>cn1.
         bindE (if cn_state cn1 = CS_CONNECTING then check_connected K c ordinal w1 else Inr (w1, False))
           (\<lambda>(w2, ret2).
         if ret2 then Inr w2
         else
           bindE (get_conn c w2) (\<lambda>cn2.
           if cn_state cn2 = CS_CONNECTED then loopE (write_turn K c ordinal) w2 else Inr w2)))))))"

section \<open>Reading\<close>

text \<open>One turn of the loop that parses what was received and asks for more.\<close>

definition recv_more :: "kernel \<Rightarrow> nat \<Rightarrow> nat \<Rightarrow> nat \<Rightarrow> world \<Rightarrow> (world \<times> bool) res" where
  "recv_more K c b ordinal w =
     bindE (get_conn c w) (\<lambda>cn.
     bindE (get_batch b w) (\<lambda>bt.
     let answer = k_read K (calls w) (cn_sockfd cn) in
     bindE (Buffer_recv (Batch_read_buffer bt) (\<lambda>n. case answer n of Inl e \<Rightarrow> None | Inr bs \<Rightarrow> Some bs) (w_heap w))
       (\<lambda>(res, buffer', h').
       let w1 = tick (put_batch b (bt\<lparr>bt_read_buffer := buffer'\<rparr>) (w\<lparr>w_heap := h'\<rparr>)) in
       case res of
         None \<Rightarrow>
           let w2 = (case answer (Buffer_remaining buffer') of Inl e \<Rightarrow> set_errno e w1 | Inr _ \<Rightarrow> w1) in
           if errno w2 = EAGAIN
           then bindE (Executor_notify_event c {EVENT_READ} ordinal w2) (\<lambda>w3. Inr (w3, False))
           else bindE (Connection_abort c (errno_text K ''read error, errno: ['' w2) w2) (\<lambda>w3. Inr (w3, False))
       | Some n \<Rightarrow>
           if n = 0 then bindE (Connection_abort c ''read eof'' w1) (\<lambda>w2. Inr (w2, False))
           else Inr (w1, True))))"

definition read_turn :: "kernel \<Rightarrow> nat \<Rightarrow> nat \<Rightarrow> world \<Rightarrow> (world \<times> bool) res" where
  "read_turn K c ordinal w =
     bindE (get_conn c w) (\<lambda>cn.
     bindE (derefE (cn_batch cn)) (\<lambda>b.
     bindE (get_batch b w) (\<lambda>bt.
     if \<not> Batch_has_command bt then Inr (w, False)
     else
       let buffer = Batch_read_buffer bt in
       bindE (derefE (cn_parser cn)) (\<lambda>rp.
       bindE (ReplyParser_execute rp (ReadBuffer b) (Buffer_data buffer) (Buffer_position buffer) None (w_heap w))
         (\<lambda>(rp_res, rp', h', reply).
         let w1 = put_conn c (cn\<lparr>cn_parser := Some rp'\<rparr>) (w\<lparr>w_heap := h'\<rparr>) in
         case rp_res of
           RPR_ERROR \<Rightarrow> bindE (Connection_abort c ''result parse error'' w1) (\<lambda>w2. Inr (w2, False))
         | RPR_MORE \<Rightarrow> recv_more K c b ordinal w1
         | RPR_REPLY \<Rightarrow>
             bindE (derefE reply) (\<lambda>r.
             bindE (Batch_add_reply bt r (w_heap w1)) (\<lambda>(bt', h2).
               Inr (put_batch b bt' (w1\<lparr>w_heap := h2\<rparr>), True))))))))"

definition Connection_read_data :: "kernel \<Rightarrow> nat \<Rightarrow> nat \<Rightarrow> world \<Rightarrow> world res" where
  "Connection_read_data K c ordinal w =
     bindE (get_conn c w) (\<lambda>cn.
     if cn_state cn = CS_ABORTED then Inr w
     else
       bindE (assertE (cn_batch cn \<noteq> None)) (\<lambda>_.
       bindE (assertE (cn_executor cn)) (\<lambda>_.
       bindE (assertE (cn_state cn = CS_CONNECTED)) (\<lambda>_.
         loopE (read_turn K c ordinal) w))))"

section \<open>Starting and handling events\<close>

definition Connection_execute_start :: "kernel \<Rightarrow> nat \<Rightarrow> nat \<Rightarrow> nat \<Rightarrow> world \<Rightarrow> world res" where
  "Connection_execute_start K c b ordinal w =
     bindE (get_conn c w) (\<lambda>cn.
       let cn1 = cn\<lparr>cn_batch := Some b, cn_executor := True\<rparr>;
           cn2 = (if cn_state cn1 = CS_ABORTED then cn1\<lparr>cn_state := CS_CLOSED\<rparr> else cn1) in
       bindE (derefE (cn_parser cn2)) (\<lambda>rp.
       bindE (get_batch b w) (\<lambda>bt.
         let w1 = put_batch b (bt\<lparr>bt_write_buffer := Buffer_flip (Batch_write_buffer bt)\<rparr>)
                    (put_conn c (cn2\<lparr>cn_parser := Some (ReplyParser_reset rp)\<rparr>) w) in
         bindE (Connection_write_data K c ordinal w1) (\<lambda>w2.
         bindE (get_conn c w2) (\<lambda>cn3.
           if cn_state cn3 = CS_CONNECTED then Executor_notify_event c {EVENT_READ} ordinal w2
           else Inr w2)))))"

definition Connection_handle_event :: "kernel \<Rightarrow> nat \<Rightarrow> event set \<Rightarrow> nat \<Rightarrow> world \<Rightarrow> world res" where
  "Connection_handle_event K c event ordinal w =
     bindE (get_conn c w) (\<lambda>cn.
     if cn_state cn = CS_ABORTED then Inr w
     else if EVENT_ERROR \<in> event then Connection_abort c ''event error'' w
     else if EVENT_TIMEOUT \<in> event
     then Connection_abort c (if cn_state cn = CS_CONNECTING then ''connect timeout'' else ''read/write timeout'') w
     else
       bindE (if EVENT_WRITE \<in> event then Connection_write_data K c ordinal w else Inr w) (\<lambda>w1.
         if EVENT_READ \<in> event then Connection_read_data K c ordinal w1 else Inr w1))"

section \<open>The executor\<close>

definition Executor_new :: "executor \<Rightarrow> 'a module_scheme \<Rightarrow> (executor option \<times> 'a module_scheme) res" where
  "Executor_new raw m =
     bindE (Alloc_alloc sizeof_Executor m) (\<lambda>(p, m1).
       if p = None
       then Inr (None, Module_set_error ''Out of memory while allocating Executor'' m1)
       else Inr (Some (raw\<lparr>ex_numpairs := 0, ex_numevents := 0\<rparr>), m1))"

definition Executor_free :: "executor option \<Rightarrow> 'a module_scheme \<Rightarrow> 'a module_scheme res" where
  "Executor_free ex m = (if ex = None then Inr m else Alloc_free sizeof_Executor m)"

definition Executor_add :: "nat \<Rightarrow> nat \<Rightarrow> world \<Rightarrow> (int \<times> world) res" where
  "Executor_add c b w =
     (let ex = w_exec w in
      if ex_numpairs ex \<ge> MAX_PAIRS
      then Inr (-1, w\<lparr>w_heap := Module_set_error (''Executor is full, max = '' @ dec_int (int MAX_PAIRS)) (w_heap w)\<rparr>)
      else
        bindE (nthE (ex_pairs ex) (ex_numpairs ex)) (\<lambda>_.
        bindE (nthE (ex_fds ex) (ex_numpairs ex)) (\<lambda>_.
          Inr (0, w\<lparr>w_exec := ex\<lparr>ex_pairs := (ex_pairs ex)[ex_numpairs ex := (b, c)],
            ex_fds := (ex_fds ex)[ex_numpairs ex := \<lparr>pf_fd = 0, pf_events = {}, pf_revents = {}\<rparr>],
            ex_numpairs := ex_numpairs ex + 1\<rparr>\<rparr>))))"

text \<open>\<open>TIMESPEC_TO_MS\<close>, in \<open>double\<close>.\<close>

definition TIMESPEC_TO_MS :: "nat \<times> nat \<Rightarrow> rat" where
  "TIMESPEC_TO_MS tm = dbl (dbl (of_nat (fst tm) * 1000) + dbl (of_nat (snd tm) / 1000000))"

text \<open>The time left, \<open>None\<close> when there is none; a conversion out of range is undefined.\<close>

definition Executor_current_timeout :: "kernel \<Rightarrow> world \<Rightarrow> (int option \<times> world) res" where
  "Executor_current_timeout K w =
     (let cur_tm_ms = TIMESPEC_TO_MS (k_clock K (calls w));
          left_ms = sfl 53 (ex_end_tm_ms (w_exec w) - cur_tm_ms) in
      if left_ms < 0 then Inr (None, tick w)
      else if \<lfloor>left_ms\<rfloor> < 2147483648 then Inr (Some \<lfloor>left_ms\<rfloor>, tick w)
      else Inl Undefined)"

text \<open>One pair in the loop over all of them: \<open>revents\<close> is turned into an event and handled.\<close>

definition dispatch :: "kernel \<Rightarrow> int \<Rightarrow> nat \<Rightarrow> world \<Rightarrow> world res" where
  "dispatch K poll_result i w =
     bindE (nthE (ex_pairs (w_exec w)) i) (\<lambda>(b, c).
     bindE (nthE (ex_fds (w_exec w)) i) (\<lambda>fd.
       let rd = (POLLIN \<in> pf_revents fd);
           fd1 = (if rd then fd\<lparr>pf_events := pf_events fd - {POLLIN}, pf_revents := pf_revents fd - {POLLIN}\<rparr> else fd);
           n1 = (if rd then ex_numevents (w_exec w) - 1 else ex_numevents (w_exec w));
           wr = (POLLOUT \<in> pf_revents fd1);
           fd2 = (if wr then fd1\<lparr>pf_events := pf_events fd1 - {POLLOUT}, pf_revents := pf_revents fd1 - {POLLOUT}\<rparr> else fd1);
           n2 = (if wr then n1 - 1 else n1);
           event = (if poll_result = 0 then {EVENT_TIMEOUT}
                    else if poll_result < 0 then {EVENT_ERROR}
                    else (if rd then {EVENT_READ} else {}) \<union> (if wr then {EVENT_WRITE} else {}));
           w1 = w\<lparr>w_exec := (w_exec w)\<lparr>ex_fds := (ex_fds (w_exec w))[i := fd2], ex_numevents := n2\<rparr>\<rparr> in
       bindE (get_batch b w1) (\<lambda>bt.
         if event \<noteq> {} \<and> Batch_has_command bt then Connection_handle_event K c event i w1 else Inr w1)))"

text \<open>The call of \<open>poll\<close>, whose result is the number of entries with events.\<close>

definition do_poll :: "kernel \<Rightarrow> int \<Rightarrow> world \<Rightarrow> int \<times> world" where
  "do_poll K timeout w =
     (let ex = w_exec w; fds = take (ex_numpairs ex) (ex_fds ex) in
      case k_poll K (calls w) (map (\<lambda>fd. (pf_fd fd, pf_events fd)) fds) timeout of
        Inl e \<Rightarrow> (-1, set_errno e (tick w))
      | Inr revs \<Rightarrow> (int (length (filter (\<lambda>r. r \<noteq> {}) revs)),
          (tick w)\<lparr>w_exec := ex\<lparr>ex_fds := map2 (\<lambda>fd r. fd\<lparr>pf_revents := r\<rparr>) fds revs @ drop (ex_numpairs ex) (ex_fds ex)\<rparr>\<rparr>))"

definition executor_turn :: "kernel \<Rightarrow> world \<times> int \<Rightarrow> ((world \<times> int) \<times> bool) res" where
  "executor_turn K s = (case s of (w, poll_result) \<Rightarrow>
     if \<not> (ex_numevents (w_exec w) > 0 \<and> poll_result > 0) then Inr ((w, poll_result), False)
     else
       bindE (Executor_current_timeout K w) (\<lambda>(timeout, w1).
         let (pr, w2) = (case timeout of None \<Rightarrow> (0, w1) | Some t \<Rightarrow> do_poll K t w1) in
         bindE (foldE (dispatch K pr) [0..<ex_numpairs (w_exec w2)] w2) (\<lambda>w3.
           Inr ((w3, pr), True))))"

definition start_pair :: "kernel \<Rightarrow> nat \<Rightarrow> world \<Rightarrow> world res" where
  "start_pair K i w =
     bindE (nthE (ex_pairs (w_exec w)) i) (\<lambda>(b, c). Connection_execute_start K c b i w)"

definition Executor_execute :: "kernel \<Rightarrow> int \<Rightarrow> world \<Rightarrow> (int \<times> world) res" where
  "Executor_execute K timeout_ms w =
     (let end_tm_ms = sfl 53 (TIMESPEC_TO_MS (k_clock K (calls w)) + sfl 24 (of_int timeout_ms));
          w1 = tick w;
          w2 = w1\<lparr>w_exec := (w_exec w1)\<lparr>ex_end_tm_ms := end_tm_ms, ex_numevents := 0\<rparr>\<rparr> in
      bindE (foldE (start_pair K) [0..<ex_numpairs (w_exec w2)] w2) (\<lambda>w3.
      bindE (loopE (executor_turn K) (w3, 1)) (\<lambda>(w4, poll_result).
        if poll_result < 0
        then Inr (poll_result, w4\<lparr>w_heap := Module_set_error (errno_text K ''Execute select error, errno: ['' w4) (w_heap w4)\<rparr>)
        else if poll_result = 0
        then Inr (0, w4\<lparr>w_heap := Module_set_error ''Execute timeout'' (w_heap w4)\<rparr>)
        else Inr (min poll_result 1, w4))))"

end
