(* ===== verification/Md5.thy ===== *)
theory Md5
  imports Prelude
begin


text \<open>
  The MD5 routines of \<open>libredis/md5.c\<close>, which the consistent hashing of \<open>ketama.c\<close> calls.
  Bytes and words are machine words of 8 and 32 bits; \<open>md_buf\<close> is the block being filled.
  \<open>md5_process\<close> reads a block as sixteen little-endian words, in all of its variants for the
  byte order of the machine.
\<close>

unbundle bit_operations_syntax

type_synonym byte = "8 word"
type_synonym word32 = "32 word"
type_synonym regs = "word32 \<times> word32 \<times> word32 \<times> word32"

record md5_state =
  md_count0 :: word32
  md_count1 :: word32
  md_abcd :: regs
  md_buf :: "byte list"

section \<open>The block function\<close>

definition T_MASK :: word32 where
  "T_MASK = NOT 0"

text \<open>\<open>T1\<close> to \<open>T64\<close>, as the source writes them.\<close>

definition T_table :: "word32 list" where
  "T_table =
  [T_MASK XOR 0x28955b87, T_MASK XOR 0x173848a9, 0x242070db, T_MASK XOR 0x3e423111,
   T_MASK XOR 0x0a83f050, 0x4787c62a, T_MASK XOR 0x57cfb9ec, T_MASK XOR 0x02b96afe,
   0x698098d8, T_MASK XOR 0x74bb0850, T_MASK XOR 0x0000a44e, T_MASK XOR 0x76a32841,
   0x6b901122, T_MASK XOR 0x02678e6c, T_MASK XOR 0x5986bc71, 0x49b40821,
   T_MASK XOR 0x09e1da9d, T_MASK XOR 0x3fbf4cbf, 0x265e5a51, T_MASK XOR 0x16493855,
   T_MASK XOR 0x29d0efa2, 0x02441453, T_MASK XOR 0x275e197e, T_MASK XOR 0x182c0437,
   0x21e1cde6, T_MASK XOR 0x3cc8f829, T_MASK XOR 0x0b2af278, 0x455a14ed,
   T_MASK XOR 0x561c16fa, T_MASK XOR 0x03105c07, 0x676f02d9, T_MASK XOR 0x72d5b375,
   T_MASK XOR 0x0005c6bd, T_MASK XOR 0x788e097e, 0x6d9d6122, T_MASK XOR 0x021ac7f3,
   T_MASK XOR 0x5b4115bb, 0x4bdecfa9, T_MASK XOR 0x0944b49f, T_MASK XOR 0x4140438f,
   0x289b7ec6, T_MASK XOR 0x155ed805, T_MASK XOR 0x2b10cf7a, 0x04881d05,
   T_MASK XOR 0x262b2fc6, T_MASK XOR 0x1924661a, 0x1fa27cf8, T_MASK XOR 0x3b53a99a,
   T_MASK XOR 0x0bd6ddbb, 0x432aff97, T_MASK XOR 0x546bdc58, T_MASK XOR 0x036c5fc6,
   0x655b59c3, T_MASK XOR 0x70f3336d, T_MASK XOR 0x00100b82, T_MASK XOR 0x7a7ba22e,
   0x6fa87e4f, T_MASK XOR 0x01d3191f, T_MASK XOR 0x5cfebceb, 0x4e0811a1,
   T_MASK XOR 0x08ac817d, T_MASK XOR 0x42c50dca, 0x2ad7d2bb, T_MASK XOR 0x14792c6e]"

definition ROTATE_LEFT :: "word32 \<Rightarrow> nat \<Rightarrow> word32" where
  "ROTATE_LEFT x n = push_bit n x OR drop_bit (32 - n) x"

definition F :: "word32 \<Rightarrow> word32 \<Rightarrow> word32 \<Rightarrow> word32" where
  "F x y z = (x AND y) OR (NOT x AND z)"

definition G :: "word32 \<Rightarrow> word32 \<Rightarrow> word32 \<Rightarrow> word32" where
  "G x y z = (x AND z) OR (y AND NOT z)"

definition H :: "word32 \<Rightarrow> word32 \<Rightarrow> word32 \<Rightarrow> word32" where
  "H x y z = x XOR y XOR z"

definition I :: "word32 \<Rightarrow> word32 \<Rightarrow> word32 \<Rightarrow> word32" where
  "I x y z = y XOR (x OR NOT z)"

text \<open>
  \<open>SET (a, b, c, d, k, s, Ti)\<close> changes its first register; the next one is called with the
  registers turned by one place, which is how the result is written here.
\<close>

definition SET ::
    "(word32 \<Rightarrow> word32 \<Rightarrow> word32 \<Rightarrow> word32) \<Rightarrow> word32 list \<Rightarrow> nat \<times> nat \<times> nat \<Rightarrow> regs \<Rightarrow> regs" where
  "SET f X op r = (case op of (k, s, i) \<Rightarrow> case r of (a, b, c, d) \<Rightarrow>
     let t = a + f b c d + X ! k + T_table ! (i - 1);
         a' = ROTATE_LEFT t s + b
     in (d, a', b, c))"

text \<open>The operations \<open>(k, s, i)\<close> of the four rounds.\<close>

definition round1_ops :: "(nat \<times> nat \<times> nat) list" where
  "round1_ops =
  [(0, 7, 1), (1, 12, 2), (2, 17, 3), (3, 22, 4),
   (4, 7, 5), (5, 12, 6), (6, 17, 7), (7, 22, 8),
   (8, 7, 9), (9, 12, 10), (10, 17, 11), (11, 22, 12),
   (12, 7, 13), (13, 12, 14), (14, 17, 15), (15, 22, 16)]"

definition round2_ops :: "(nat \<times> nat \<times> nat) list" where
  "round2_ops =
  [(1, 5, 17), (6, 9, 18), (11, 14, 19), (0, 20, 20),
   (5, 5, 21), (10, 9, 22), (15, 14, 23), (4, 20, 24),
   (9, 5, 25), (14, 9, 26), (3, 14, 27), (8, 20, 28),
   (13, 5, 29), (2, 9, 30), (7, 14, 31), (12, 20, 32)]"

definition round3_ops :: "(nat \<times> nat \<times> nat) list" where
  "round3_ops =
  [(5, 4, 33), (8, 11, 34), (11, 16, 35), (14, 23, 36),
   (1, 4, 37), (4, 11, 38), (7, 16, 39), (10, 23, 40),
   (13, 4, 41), (0, 11, 42), (3, 16, 43), (6, 23, 44),
   (9, 4, 45), (12, 11, 46), (15, 16, 47), (2, 23, 48)]"

definition round4_ops :: "(nat \<times> nat \<times> nat) list" where
  "round4_ops =
  [(0, 6, 49), (7, 10, 50), (14, 15, 51), (5, 21, 52),
   (12, 6, 53), (3, 10, 54), (10, 15, 55), (1, 21, 56),
   (8, 6, 57), (15, 10, 58), (6, 15, 59), (13, 21, 60),
   (4, 6, 61), (11, 10, 62), (2, 15, 63), (9, 21, 64)]"

text \<open>\<open>X[k]\<close>: the \<open>k\<close>-th little-endian word of the block.\<close>

definition X_word :: "byte list \<Rightarrow> nat \<Rightarrow> word32" where
  "X_word data k = ucast (data ! (4 * k)) + push_bit 8 (ucast (data ! (4 * k + 1))) +
     push_bit 16 (ucast (data ! (4 * k + 2))) + push_bit 24 (ucast (data ! (4 * k + 3)))"

definition block_words :: "byte list \<Rightarrow> word32 list" where
  "block_words data = map (X_word data) [0..<16]"

definition process_block :: "regs \<Rightarrow> byte list \<Rightarrow> regs" where
  "process_block r0 data =
     (let X = block_words data;
          r1 = fold (SET F X) round1_ops r0;
          r2 = fold (SET G X) round2_ops r1;
          r3 = fold (SET H X) round3_ops r2;
          r4 = fold (SET I X) round4_ops r3
      in case (r0, r4) of ((a0, b0, c0, d0), (a, b, c, d)) \<Rightarrow> (a0 + a, b0 + b, c0 + c, d0 + d))"

definition md5_process :: "md5_state \<Rightarrow> byte list \<Rightarrow> md5_state res" where
  "md5_process pms data =
     (if length data < 64 then Inl OutOfBounds
      else Inr (pms\<lparr>md_abcd := process_block (md_abcd pms) data\<rparr>))"

section \<open>Initialising, appending and finishing\<close>

text \<open>\<open>raw\<close> is what the 64 bytes of the state held before.\<close>

definition md5_init :: "byte list \<Rightarrow> md5_state" where
  "md5_init raw = \<lparr>md_count0 = 0, md_count1 = 0,
     md_abcd = (0x67452301, T_MASK XOR 0x10325476, T_MASK XOR 0x67452301, 0x10325476),
     md_buf = raw\<rparr>"

text \<open>The loop over full blocks and the copy of what remains.\<close>

fun append_blocks :: "md5_state \<Rightarrow> byte list \<Rightarrow> nat \<Rightarrow> md5_state res" where
  "append_blocks pms p left =
     (if left \<ge> 64 then bindE (md5_process pms p) (\<lambda>pms1. append_blocks pms1 (drop 64 p) (left - 64))
      else if left > 0 then bindE (memcpy (md_buf pms) 0 p left) (\<lambda>b. Inr (pms\<lparr>md_buf := b\<rparr>))
      else Inr pms)"

declare append_blocks.simps [simp del]

text \<open>\<open>nbytes\<close> is an \<open>int\<close>; the sum \<open>offset + nbytes\<close> stays in range below \<open>2 ^ 31 - 64\<close>.\<close>

definition md5_append :: "md5_state \<Rightarrow> byte list \<Rightarrow> int \<Rightarrow> md5_state res" where
  "md5_append pms data nbytes =
     (let offset = unat (drop_bit 3 (md_count0 pms) AND 63);
          nbits = word_of_int (nbytes * 8) in
      if nbytes \<le> 0 then Inr pms
      else
        let n = nat nbytes;
            c1 = md_count1 pms + word_of_int (nbytes div 536870912);
            c0 = md_count0 pms + nbits;
            pms1 = pms\<lparr>md_count0 := c0, md_count1 := (if c0 < nbits then c1 + 1 else c1)\<rparr> in
        if offset \<noteq> 0 then
          let copy = (if offset + n > 64 then 64 - offset else n) in
          bindE (memcpy (md_buf pms1) offset data copy) (\<lambda>b.
            let pms2 = pms1\<lparr>md_buf := b\<rparr> in
            if offset + copy < 64 then Inr pms2
            else bindE (md5_process pms2 (md_buf pms2)) (\<lambda>pms3.
              append_blocks pms3 (drop copy data) (n - copy)))
        else append_blocks pms1 data n)"

definition md5_pad :: "byte list" where
  "md5_pad = 0x80 # replicate 63 0"

text \<open>Byte \<open>i\<close> of two or four words in little-endian order.\<close>

definition word_byte :: "word32 list \<Rightarrow> nat \<Rightarrow> byte" where
  "word_byte ws i = ucast (drop_bit (8 * (i mod 4)) (ws ! (i div 4)))"

definition md5_finish :: "md5_state \<Rightarrow> (md5_state \<times> byte list) res" where
  "md5_finish pms =
     (let data = map (word_byte [md_count0 pms, md_count1 pms]) [0..<8];
          padding = uint ((55 - drop_bit 3 (md_count0 pms)) AND 63) + 1 in
      bindE (md5_append pms md5_pad padding) (\<lambda>pms1.
      bindE (md5_append pms1 data 8) (\<lambda>pms2.
        case md_abcd pms2 of (a, b, c, d) \<Rightarrow> Inr (pms2, map (word_byte [a, b, c, d]) [0..<16]))))"

section \<open>The algorithm of RFC 1321\<close>

text \<open>
  The reference: the constants \<open>floor (2 ^ 32 * abs (sin (i + 1)))\<close>, the schedule of message words
  and of shifts by formula, rotation as an operation on words, padding by the bit \<open>1\<close>, zeros and the
  length in bits.
\<close>

definition rfc_K :: "word32 list" where
  "rfc_K =
  [0xd76aa478, 0xe8c7b756, 0x242070db, 0xc1bdceee,
   0xf57c0faf, 0x4787c62a, 0xa8304613, 0xfd469501,
   0x698098d8, 0x8b44f7af, 0xffff5bb1, 0x895cd7be,
   0x6b901122, 0xfd987193, 0xa679438e, 0x49b40821,
   0xf61e2562, 0xc040b340, 0x265e5a51, 0xe9b6c7aa,
   0xd62f105d, 0x02441453, 0xd8a1e681, 0xe7d3fbc8,
   0x21e1cde6, 0xc33707d6, 0xf4d50d87, 0x455a14ed,
   0xa9e3e905, 0xfcefa3f8, 0x676f02d9, 0x8d2a4c8a,
   0xfffa3942, 0x8771f681, 0x6d9d6122, 0xfde5380c,
   0xa4beea44, 0x4bdecfa9, 0xf6bb4b60, 0xbebfbc70,
   0x289b7ec6, 0xeaa127fa, 0xd4ef3085, 0x04881d05,
   0xd9d4d039, 0xe6db99e5, 0x1fa27cf8, 0xc4ac5665,
   0xf4292244, 0x432aff97, 0xab9423a7, 0xfc93a039,
   0x655b59c3, 0x8f0ccc92, 0xffeff47d, 0x85845dd1,
   0x6fa87e4f, 0xfe2ce6e0, 0xa3014314, 0x4e0811a1,
   0xf7537e82, 0xbd3af235, 0x2ad7d2bb, 0xeb86d391]"

definition rfc_f :: "nat \<Rightarrow> word32 \<Rightarrow> word32 \<Rightarrow> word32 \<Rightarrow> word32" where
  "rfc_f i b c d =
     (if i < 16 then (b AND c) OR (NOT b AND d)
      else if i < 32 then (d AND b) OR (NOT d AND c)
      else if i < 48 then b XOR c XOR d
      else c XOR (b OR NOT d))"

definition rfc_g :: "nat \<Rightarrow> nat" where
  "rfc_g i = (if i < 16 then i else if i < 32 then (5 * i + 1) mod 16
     else if i < 48 then (3 * i + 5) mod 16 else (7 * i) mod 16)"

definition rfc_s :: "nat \<Rightarrow> nat" where
  "rfc_s i = [[7, 12, 17, 22], [5, 9, 14, 20], [4, 11, 16, 23], [6, 10, 15, 21]] ! (i div 16) ! (i mod 4)"

definition rfc_step :: "word32 list \<Rightarrow> nat \<Rightarrow> regs \<Rightarrow> regs" where
  "rfc_step X i r = (case r of (a, b, c, d) \<Rightarrow>
     (d, b + word_rotl (rfc_s i) (a + rfc_f i b c d + X ! rfc_g i + rfc_K ! i), b, c))"

definition rfc_block :: "regs \<Rightarrow> byte list \<Rightarrow> regs" where
  "rfc_block r0 data =
     (case (r0, fold (rfc_step (block_words data)) [0..<64] r0) of
        ((a0, b0, c0, d0), (a, b, c, d)) \<Rightarrow> (a0 + a, b0 + b, c0 + c, d0 + d))"

fun rfc_blocks :: "regs \<Rightarrow> byte list \<Rightarrow> regs" where
  "rfc_blocks r msg =
     (if length msg \<ge> 64 then rfc_blocks (rfc_block r (take 64 msg)) (drop 64 msg) else r)"

declare rfc_blocks.simps [simp del]

definition rfc_init :: regs where
  "rfc_init = (0x67452301, 0xefcdab89, 0x98badcfe, 0x10325476)"

definition rfc_zeros :: "nat \<Rightarrow> nat" where
  "rfc_zeros n = nat ((55 - int n) mod 64)"

definition rfc_length :: "nat \<Rightarrow> byte list" where
  "rfc_length n = map (\<lambda>i. word_of_nat (8 * n div 256 ^ i)) [0..<8]"

definition rfc_padded :: "byte list \<Rightarrow> byte list" where
  "rfc_padded msg = msg @ 0x80 # replicate (rfc_zeros (length msg)) 0 @ rfc_length (length msg)"

definition rfc_md5 :: "byte list \<Rightarrow> byte list" where
  "rfc_md5 msg = (case rfc_blocks rfc_init (rfc_padded msg) of
     (a, b, c, d) \<Rightarrow> map (word_byte [a, b, c, d]) [0..<16])"

section \<open>The rounds\<close>

lemma ROTATE_LEFT_rotl:
  assumes "0 < n" "n < 32"
  shows "ROTATE_LEFT x n = word_rotl n x"
proof (rule bit_word_eqI)
  fix m assume m: "m < LENGTH(32)"
  show "bit (ROTATE_LEFT x n) m = bit (word_rotl n x) m"
  proof (cases "m < n")
    case True
    then have "(m + (32 - n)) mod 32 = 32 - n + m" using assms m by simp
    with True assms m show ?thesis
      by (simp add: ROTATE_LEFT_def bit_or_iff bit_push_bit_iff bit_drop_bit_eq bit_word_rotl_iff del: diff_add_assoc2)
  next
    case False
    then have "(m + (32 - n)) mod 32 = (32 + (m - n)) mod 32" using assms by (simp add: algebra_simps)
    also have "\<dots> = m - n" using m by simp
    finally show ?thesis using False assms m
      by (simp add: ROTATE_LEFT_def bit_or_iff bit_push_bit_iff bit_drop_bit_eq bit_word_rotl_iff)
        (use bit_imp_le_length in fastforce)
  qed
qed

lemma T_table_K: "T_table = rfc_K"
  unfolding T_table_def rfc_K_def T_MASK_def by simp

lemma G_swap: "G x y z = (z AND x) OR (NOT z AND y)"
  by (simp add: G_def ac_simps)

lemma rounds_rfc: "fold (SET F X) round1_ops r = fold (rfc_step X) [0..<16] r"
  "fold (SET G X) round2_ops r = fold (rfc_step X) [16..<32] r"
  "fold (SET H X) round3_ops r = fold (rfc_step X) [32..<48] r"
  "fold (SET I X) round4_ops r = fold (rfc_step X) [48..<64] r"
proof -
  have step: "SET f X (k, s, Suc i) = rfc_step X i"
    if "0 < s" "s < 32" "rfc_f i = f" "rfc_g i = k" "rfc_s i = s" for f k s i
    using that by (auto simp: SET_def rfc_step_def T_table_K ROTATE_LEFT_rotl fun_eq_iff Let_def add.commute)
  have f: "rfc_f i = (if i < 16 then F else if i < 32 then G else if i < 48 then H else I)" for i
    by (auto simp: rfc_f_def fun_eq_iff F_def G_swap H_def I_def)
  have fold_eq: "fold (SET f X) ops r = fold (rfc_step X) is r"
    if "list_all2 (\<lambda>(k, s, j) i. j = Suc i \<and> 0 < s \<and> s < 32 \<and> rfc_f i = f \<and> rfc_g i = k \<and> rfc_s i = s) ops is"
    for f ops "is"
    using that by (induction ops "is" arbitrary: r rule: list_all2_induct) (auto simp: step)
  show "fold (SET F X) round1_ops r = fold (rfc_step X) [0..<16] r"
    by (rule fold_eq) (simp add: round1_ops_def upt_rec f rfc_g_def rfc_s_def)
  show "fold (SET G X) round2_ops r = fold (rfc_step X) [16..<32] r"
    by (rule fold_eq) (simp add: round2_ops_def upt_rec f rfc_g_def rfc_s_def)
  show "fold (SET H X) round3_ops r = fold (rfc_step X) [32..<48] r"
    by (rule fold_eq) (simp add: round3_ops_def upt_rec f rfc_g_def rfc_s_def)
  show "fold (SET I X) round4_ops r = fold (rfc_step X) [48..<64] r"
    by (rule fold_eq) (simp add: round4_ops_def upt_rec f rfc_g_def rfc_s_def)
qed

lemma process_block_rfc: "process_block r data = rfc_block r data"
proof -
  have "[0..<64] = [0..<16] @ [16..<32] @ [32..<48] @ [48..<64]"
    using upt_add_eq_append [of 0 16 48] upt_add_eq_append [of 16 32 32] upt_add_eq_append [of 32 48 16] by simp
  then have "fold (rfc_step X) [0..<64] r = fold (rfc_step X) [48..<64] (fold (rfc_step X) [32..<48]
      (fold (rfc_step X) [16..<32] (fold (rfc_step X) [0..<16] r)))" for X by (simp only: fold_append comp_apply)
  then show ?thesis by (simp only: process_block_def rfc_block_def rounds_rfc Let_def)
qed

lemma block_words_take: "length data \<ge> 64 \<Longrightarrow> block_words (take 64 data) = block_words data"
  by (simp add: block_words_def X_word_def)

lemma rfc_block_take: "length data \<ge> 64 \<Longrightarrow> rfc_block r (take 64 data) = rfc_block r data"
  by (simp add: rfc_block_def block_words_take)

section \<open>Blocks of a message\<close>

lemma rfc_blocks_short: "length xs < 64 \<Longrightarrow> rfc_blocks r xs = r"
  by (subst rfc_blocks.simps) simp

lemma rfc_blocks_first: "length xs = 64 \<Longrightarrow> rfc_blocks r (xs @ ys) = rfc_blocks (rfc_block r xs) ys"
  by (subst rfc_blocks.simps) simp

lemma rfc_blocks_append:
  "length xs = 64 * k \<Longrightarrow> rfc_blocks r (xs @ ys) = rfc_blocks (rfc_blocks r xs) ys"
proof (induction k arbitrary: r xs)
  case 0
  then show ?case by (simp add: rfc_blocks_short)
next
  case (Suc k)
  then have l: "length (take 64 xs) = 64" "length (drop 64 xs) = 64 * k" by simp_all
  have "rfc_blocks r (xs @ ys) = rfc_blocks r (take 64 xs @ drop 64 xs @ ys)"
    by (simp only: append_assoc [symmetric] append_take_drop_id)
  also have "\<dots> = rfc_blocks (rfc_block r (take 64 xs)) (drop 64 xs @ ys)" by (rule rfc_blocks_first [OF l(1)])
  also have "\<dots> = rfc_blocks (rfc_blocks (rfc_block r (take 64 xs)) (drop 64 xs)) ys" by (rule Suc.IH [OF l(2)])
  also have "rfc_blocks (rfc_block r (take 64 xs)) (drop 64 xs) = rfc_blocks r (take 64 xs @ drop 64 xs)"
    by (rule rfc_blocks_first [OF l(1), symmetric])
  finally show ?case by simp
qed

text \<open>The full blocks of a message and what is left over.\<close>

definition full :: "byte list \<Rightarrow> byte list" where
  "full msg = take (64 * (length msg div 64)) msg"

definition left_over :: "byte list \<Rightarrow> byte list" where
  "left_over msg = drop (64 * (length msg div 64)) msg"

lemma full_left [simp]: "full msg @ left_over msg = msg"
  by (simp add: full_def left_over_def)

lemma length_left_over: "length (left_over msg) = length msg mod 64"
  by (simp add: left_over_def minus_mult_div_eq_mod)

lemma length_full: "length (full msg) = 64 * (length msg div 64)"
proof -
  have "64 * (length msg div 64) \<le> length msg" by (rule times_div_less_eq_dividend)
  then show ?thesis by (simp add: full_def)
qed

lemma rfc_blocks_full: "rfc_blocks r msg = rfc_blocks r (full msg)"
proof -
  have "rfc_blocks r msg = rfc_blocks (rfc_blocks r (full msg)) (left_over msg)"
    using rfc_blocks_append [OF length_full, of r msg "left_over msg"] by simp
  then show ?thesis by (simp add: rfc_blocks_short length_left_over)
qed

lemma rfc_blocks_extend:
  "rfc_blocks r (msg @ data) = rfc_blocks (rfc_blocks r msg) (left_over msg @ data)"
proof -
  have "rfc_blocks r (full msg @ (left_over msg @ data)) = rfc_blocks (rfc_blocks r (full msg)) (left_over msg @ data)"
    by (rule rfc_blocks_append [OF length_full])
  moreover have "full msg @ (left_over msg @ data) = msg @ data" by (metis append_assoc full_left)
  ultimately show ?thesis by (metis rfc_blocks_full)
qed

lemma left_over_extend:
  "left_over (msg @ data) = left_over (left_over msg @ data)"
proof -
  have *: "left_over (xs @ ys) = left_over ys" if "length xs = 64 * k" for xs ys :: "byte list" and k
    using that by (simp add: left_over_def)
  have "msg @ data = full msg @ (left_over msg @ data)" by (metis append_assoc full_left)
  then show ?thesis using * [OF length_full] by metis
qed

section \<open>What the state stands for\<close>

text \<open>
  \<open>md5_rep st msg\<close>: \<open>msg\<close> has been appended so far.  The two counters are its length in bits modulo
  \<open>2 ^ 64\<close>, the registers have taken in its full blocks, the buffer starts with what is left over.
\<close>

definition bit_count :: "md5_state \<Rightarrow> nat" where
  "bit_count st = unat (md_count0 st) + 4294967296 * unat (md_count1 st)"

definition md5_rep :: "md5_state \<Rightarrow> byte list \<Rightarrow> bool" where
  "md5_rep st msg \<longleftrightarrow> length (md_buf st) = 64 \<and>
     bit_count st = 8 * length msg mod 18446744073709551616 \<and>
     md_abcd st = rfc_blocks rfc_init msg \<and>
     take (length msg mod 64) (md_buf st) = left_over msg"

lemma md5_init_rep: "length raw = 64 \<Longrightarrow> md5_rep (md5_init raw) []"
  by (simp add: md5_rep_def md5_init_def bit_count_def rfc_init_def T_MASK_def left_over_def rfc_blocks_short)

lemma unat32: "unat (w :: word32) < 4294967296"
proof -
  have "unat w < 2 ^ LENGTH(32)" by (rule unsigned_less)
  then show ?thesis by simp
qed

lemma count_offset:
  assumes "unat c0 + 4294967296 * unat (c1 :: word32) = 8 * n mod 18446744073709551616"
  shows "unat (drop_bit 3 (c0 :: word32) AND 63) = n mod 64"
proof -
  have c0: "unat c0 = 8 * n mod 4294967296"
  proof -
    have "unat c0 = (unat c0 + 4294967296 * unat c1) mod 4294967296" using unat32 [of c0] by simp
    also have "\<dots> = 8 * n mod 4294967296" unfolding assms by (simp add: mod_mod_cancel)
    finally show ?thesis .
  qed
  have "drop_bit 3 c0 AND 63 = take_bit 6 (drop_bit 3 c0)" by (simp add: take_bit_eq_mask mask_eq_exp_minus_1)
  then have "unat (drop_bit 3 c0 AND 63) = unat (take_bit 6 (drop_bit 3 c0))" by (simp only:)
  also have "\<dots> = take_bit 6 (unat (drop_bit 3 c0))" by (rule unsigned_take_bit_eq)
  also have "\<dots> = unat (drop_bit 3 c0) mod 64" by (simp add: take_bit_eq_mod)
  also have "\<dots> = (8 * n mod 4294967296 div 8) mod 64" unfolding unat_drop_bit_eq c0 by (simp add: drop_bit_eq_div)
  also have "8 * n mod 4294967296 div 8 = n mod 536870912"
    using mult_mod_right [of 8 n 536870912] by simp
  also have "n mod 536870912 mod 64 = n mod 64" by (simp add: mod_mod_cancel)
  finally show ?thesis .
qed

lemma two_digits:
  fixes e s :: nat
  assumes "e < 4294967296"
  shows "e + 4294967296 * (s mod 4294967296) = (e + 4294967296 * s) mod 18446744073709551616"
proof -
  have "(e + 4294967296 * s) mod (4294967296 * 4294967296) =
      4294967296 * ((e + 4294967296 * s) div 4294967296 mod 4294967296) + (e + 4294967296 * s) mod 4294967296"
    by (rule mod_mult2_eq)
  moreover have "(e + 4294967296 * s) div 4294967296 = s" "(e + 4294967296 * s) mod 4294967296 = e"
    using assms by simp_all
  ultimately show ?thesis by simp
qed

lemma count_update:
  assumes c: "unat c0 + 4294967296 * unat (c1 :: word32) = 8 * n mod 18446744073709551616"
    and e: "e = (c0 :: word32) + nbits" and nbits: "nbits = word_of_int (int k * 8)"
    and d: "d = c1 + word_of_int (int k div 536870912)"
  shows "unat e + 4294967296 * unat (if e < nbits then d + 1 else d) = 8 * (n + k) mod 18446744073709551616"
proof -
  let ?hi = "word_of_int (int k div 536870912) :: word32"
  define carry where "carry = (if e < nbits then 1 else 0 :: nat)"
  have nb: "unat nbits = 8 * k mod 4294967296"
  proof -
    have "int k * 8 = int (8 * k)" by simp
    then have "nbits = word_of_nat (8 * k)" unfolding nbits by (metis of_int_of_nat_eq)
    then have "unat nbits = unat (word_of_nat (8 * k) :: word32)" by (simp only:)
    also have "\<dots> = 8 * k mod 2 ^ LENGTH(32)" by (rule unat_of_nat)
    finally show ?thesis by simp
  qed
  have hi: "unat ?hi = k div 536870912 mod 4294967296"
  proof -
    have "int k div 536870912 = int (k div 536870912)" by (simp add: zdiv_int)
    then have "?hi = word_of_nat (k div 536870912)" by (metis of_int_of_nat_eq)
    then have "unat ?hi = unat (word_of_nat (k div 536870912) :: word32)" by (simp only:)
    also have "\<dots> = k div 536870912 mod 2 ^ LENGTH(32)" by (rule unat_of_nat)
    finally show ?thesis by simp
  qed
  have ue: "unat e = (unat c0 + unat nbits) mod 4294967296" unfolding e by (simp add: unat_word_ariths)
  have ud: "unat (if e < nbits then d + 1 else d) = (unat c1 + k div 536870912 + carry) mod 4294967296"
    unfolding d carry_def by (simp add: unat_word_ariths hi mod_simps)
  have lt: "unat c0 < 4294967296" "unat nbits < 4294967296" using unat32 by blast+
  have carry: "unat e + 4294967296 * carry = unat c0 + unat nbits"
    unfolding carry_def word_less_nat_alt ue using lt by (cases "unat c0 + unat nbits < 4294967296") (auto simp: mod_if)
  have "8 * k = 8 * k mod 4294967296 + 4294967296 * (8 * k div 4294967296)"
    by (rule mod_mult_div_eq [symmetric])
  also have "8 * k div 4294967296 = k div 536870912" using div_mult_mult1 [of 8 k 536870912] by simp
  finally have k8: "8 * k = unat nbits + 4294967296 * (k div 536870912)" unfolding nb .
  have "unat e < 4294967296" by (rule unat32)
  from two_digits [OF this, of "unat c1 + k div 536870912 + carry"]
  have "unat e + 4294967296 * unat (if e < nbits then d + 1 else d) =
      (unat e + 4294967296 * carry + 4294967296 * (unat c1 + k div 536870912)) mod 18446744073709551616"
    unfolding ud by (simp add: algebra_simps)
  also have "\<dots> = ((unat c0 + 4294967296 * unat c1) + 8 * k) mod 18446744073709551616"
    unfolding carry k8 by (simp add: algebra_simps)
  also have "\<dots> = (8 * n + 8 * k) mod 18446744073709551616" unfolding c by (simp add: mod_simps)
  finally show ?thesis by (simp add: algebra_simps)
qed

section \<open>Appending\<close>

lemma md5_process_ok:
  "length data \<ge> 64 \<Longrightarrow> md5_process st data = Inr (st\<lparr>md_abcd := rfc_block (md_abcd st) (take 64 data)\<rparr>)"
  by (simp add: md5_process_def process_block_rfc rfc_block_take)

text \<open>The bytes of a block buffer that count.\<close>

lemma memcpy_front:
  assumes "length buf = 64" "off + n \<le> 64" "n \<le> length src"
  shows "\<exists>b. memcpy buf off src n = Inr b \<and> length b = 64 \<and> take (off + n) b = take off buf @ take n src"
  using assms by (simp add: memcpy_def)

lemma append_blocks_ok:
  assumes "length (md_buf st) = 64" "n \<le> length data"
  shows "\<exists>b. append_blocks st data n =
      Inr (st\<lparr>md_abcd := rfc_blocks (md_abcd st) (take n data), md_buf := b\<rparr>) \<and>
    length b = 64 \<and> take (n mod 64) b = left_over (take n data)"
  using assms
proof (induction st data n rule: append_blocks.induct)
  case (1 st data n)
  note prems = "1.prems"
  show ?case
  proof (cases "n \<ge> 64")
    case True
    let ?st = "st\<lparr>md_abcd := rfc_block (md_abcd st) (take 64 data)\<rparr>"
    have p: "md5_process st data = Inr ?st" using True prems by (intro md5_process_ok) simp
    have split: "take n data = take 64 data @ take (n - 64) (drop 64 data)"
      using True by (simp add: take_add [symmetric])
    have l64: "length (take 64 data) = 64" using True prems by simp
    have pr: "length (md_buf ?st) = 64" "n - 64 \<le> length (drop 64 data)" using prems True by simp_all
    from "1.IH" [OF True p pr] obtain b where b:
      "append_blocks ?st (drop 64 data) (n - 64) =
        Inr (?st\<lparr>md_abcd := rfc_blocks (md_abcd ?st) (take (n - 64) (drop 64 data)), md_buf := b\<rparr>)"
      "length b = 64" "take ((n - 64) mod 64) b = left_over (take (n - 64) (drop 64 data))" by blast
    have "rfc_blocks (md_abcd st) (take n data) = rfc_blocks (rfc_block (md_abcd st) (take 64 data)) (take (n - 64) (drop 64 data))"
      unfolding split by (rule rfc_blocks_first [OF l64])
    moreover have "left_over (take n data) = left_over (take (n - 64) (drop 64 data))"
    proof -
      have "left_over (take 64 data) = []" using l64 by (simp add: left_over_def)
      then show ?thesis unfolding split using left_over_extend [of "take 64 data"] by simp
    qed
    moreover have "(n - 64) mod 64 = n mod 64" using True by (simp add: le_mod_geq)
    ultimately show ?thesis using True p b
      by (subst append_blocks.simps) (auto intro!: exI [of _ b])
  next
    case False
    then have r: "rfc_blocks (md_abcd st) (take n data) = md_abcd st" "n mod 64 = n" "left_over (take n data) = take n data"
      using prems by (simp_all add: rfc_blocks_short left_over_def)
    have s: "st\<lparr>md_abcd := md_abcd st, md_buf := b\<rparr> = st\<lparr>md_buf := b\<rparr>" for b by simp
    show ?thesis
    proof (cases "n = 0")
      case True
      then show ?thesis unfolding r using prems
        by (subst append_blocks.simps) (auto intro!: exI [of _ "md_buf st"])
    next
      case n0: False
      from memcpy_front [of "md_buf st" 0 n data] prems False obtain b where
        "memcpy (md_buf st) 0 data n = Inr b" "length b = 64" "take n b = take n data" by auto
      then show ?thesis unfolding r using False n0
        by (subst append_blocks.simps) (auto intro!: exI [of _ b])
    qed
  qed
qed

lemma md5_append_ok:
  assumes rep: "md5_rep st msg" and n: "n \<le> length src" "n < 2147483584"
  shows "\<exists>st'. md5_append st src (int n) = Inr st' \<and> md5_rep st' (msg @ take n src)"
proof (cases "n = 0")
  case True
  then show ?thesis using rep by (simp add: md5_append_def Let_def)
next
  case False
  define data where "data = take n src"
  let ?n = "length data" and ?off = "length msg mod 64"
  have dn: "?n = n" using n by (simp add: data_def)
  have buf: "length (md_buf st) = 64" "take ?off (md_buf st) = left_over msg"
    and abcd: "md_abcd st = rfc_blocks rfc_init msg"
    and cnt: "unat (md_count0 st) + 4294967296 * unat (md_count1 st) = 8 * length msg mod 18446744073709551616"
    using rep by (auto simp: md5_rep_def bit_count_def)
  have off: "unat (drop_bit 3 (md_count0 st) AND 63) = ?off" by (rule count_offset [OF cnt])
  define nbits :: word32 where "nbits = word_of_int (int ?n * 8)"
  define c1 where "c1 = md_count1 st + word_of_int (int ?n div 536870912)"
  define c0 where "c0 = md_count0 st + nbits"
  define st1 where "st1 = st\<lparr>md_count0 := c0, md_count1 := (if c0 < nbits then c1 + 1 else c1)\<rparr>"
  have cnt1: "bit_count st1 = 8 * length (msg @ data) mod 18446744073709551616"
    using count_update [OF cnt c0_def nbits_def c1_def] by (simp add: bit_count_def st1_def)
  have st1: "md_buf st1 = md_buf st" "md_abcd st1 = md_abcd st" by (simp_all add: st1_def)
  have run: "md5_append st src (int n) =
      (if ?off \<noteq> 0 then
         let copy = (if ?off + ?n > 64 then 64 - ?off else ?n) in
         bindE (memcpy (md_buf st1) ?off src copy) (\<lambda>b.
           if ?off + copy < 64 then Inr (st1\<lparr>md_buf := b\<rparr>)
           else bindE (md5_process (st1\<lparr>md_buf := b\<rparr>) b) (\<lambda>pms3. append_blocks pms3 (drop copy src) (?n - copy)))
       else append_blocks st1 src ?n)"
    unfolding md5_append_def Let_def off nat_int dn [symmetric] nbits_def [symmetric] c1_def [symmetric] c0_def [symmetric] st1_def [symmetric]
    using False dn by (simp cong: if_cong)
  have repI: "md5_rep (st1\<lparr>md_abcd := r, md_buf := b\<rparr>) (msg @ data)"
    if "length b = 64" "r = rfc_blocks (rfc_blocks rfc_init msg) (left_over msg @ data)"
      "take (length (left_over msg @ data) mod 64) b = left_over (left_over msg @ data)" for r b
    using that cnt1 unfolding md5_rep_def
    by (simp add: bit_count_def rfc_blocks_extend [of _ msg data] left_over_extend [of msg data] length_left_over mod_simps)
  show ?thesis
  proof (cases "?off = 0")
    case True
    then have lo: "left_over msg = []" using length_left_over [of msg] by simp
    from append_blocks_ok [of st1 ?n src] st1 buf(1) n dn obtain b where
      "append_blocks st1 src ?n = Inr (st1\<lparr>md_abcd := rfc_blocks (md_abcd st1) data, md_buf := b\<rparr>)"
      "length b = 64" "take (?n mod 64) b = left_over data" by (auto simp: data_def)
    with True run lo st1(2) abcd repI [of b] show ?thesis unfolding data_def [symmetric] by auto
  next
    case off0: False
    show ?thesis
    proof (cases "?off + ?n < 64")
      case True
      from memcpy_front [of "md_buf st1" ?off ?n src] True buf st1 n dn obtain b where
        b: "memcpy (md_buf st1) ?off src ?n = Inr b" "length b = 64" "take (?off + ?n) b = left_over msg @ data"
        by (auto simp: data_def)
      have short: "length (left_over msg @ data) < 64" using True by (simp add: length_left_over)
      have "st1\<lparr>md_abcd := rfc_blocks rfc_init msg, md_buf := b\<rparr> = st1\<lparr>md_buf := b\<rparr>"
        using abcd st1(2) by (cases st1) simp
      moreover have "md5_rep (st1\<lparr>md_abcd := rfc_blocks rfc_init msg, md_buf := b\<rparr>) (msg @ data)"
        using b short True
        by (intro repI) (simp_all add: rfc_blocks_short length_left_over left_over_def [of "left_over msg @ data"])
      ultimately have "md5_rep (st1\<lparr>md_buf := b\<rparr>) (msg @ data)" by simp
      with off0 True run b(1) show ?thesis unfolding data_def [symmetric] by (simp add: Let_def)
    next
      case False
      define copy where "copy = 64 - ?off"
      have c: "(if ?off + ?n > 64 then 64 - ?off else ?n) = copy" "?off + copy = 64" "copy \<le> ?n"
        using False by (auto simp: copy_def)
      from memcpy_front [of "md_buf st1" ?off copy src] c buf st1 n dn obtain b where
        b: "memcpy (md_buf st1) ?off src copy = Inr b" "length b = 64" "take 64 b = left_over msg @ take copy data"
        by (auto simp: data_def min_absorb2)
      then have bb: "b = left_over msg @ take copy data" by simp
      let ?st2 = "st1\<lparr>md_buf := b, md_abcd := rfc_block (rfc_blocks rfc_init msg) b\<rparr>"
      have p: "md5_process (st1\<lparr>md_buf := b\<rparr>) b = Inr ?st2"
        using b(2) st1(2) abcd by (simp add: md5_process_ok)
      have td: "take (?n - copy) (drop copy src) = drop copy data" using dn by (simp add: data_def drop_take)
      have pr: "length (md_buf ?st2) = 64" "?n - copy \<le> length (drop copy src)" using b(2) n dn by simp_all
      from append_blocks_ok [OF pr, unfolded td] obtain b2 where b2:
        "append_blocks ?st2 (drop copy src) (?n - copy) =
          Inr (?st2\<lparr>md_abcd := rfc_blocks (md_abcd ?st2) (drop copy data), md_buf := b2\<rparr>)"
        "length b2 = 64" "take ((?n - copy) mod 64) b2 = left_over (drop copy data)" by blast
      have split: "left_over msg @ data = b @ drop copy data" unfolding bb by simp
      have l: "length (left_over msg @ data) = 64 + (?n - copy)" unfolding split using b(2) by simp
      have "left_over b = []" using b(2) by (simp add: left_over_def)
      then have lo: "left_over (left_over msg @ data) = left_over (drop copy data)"
        unfolding split using left_over_extend [of b] by simp
      have "md5_rep (st1\<lparr>md_abcd := rfc_blocks (md_abcd ?st2) (drop copy data), md_buf := b2\<rparr>) (msg @ data)"
      proof (rule repI [OF b2(2)])
        show "rfc_blocks (md_abcd ?st2) (drop copy data) = rfc_blocks (rfc_blocks rfc_init msg) (left_over msg @ data)"
          unfolding split using rfc_blocks_first [OF b(2)] by simp
        show "take (length (left_over msg @ data) mod 64) b2 = left_over (left_over msg @ data)"
          unfolding l lo using b2(3) by simp
      qed
      moreover have "md5_append st src (int n) =
          Inr (?st2\<lparr>md_abcd := rfc_blocks (md_abcd ?st2) (drop copy data), md_buf := b2\<rparr>)"
        unfolding run c(1) Let_def using off0 b(1) c(2) p b2(1) by simp
      ultimately show ?thesis unfolding data_def [symmetric] by simp
    qed
  qed
qed

section \<open>Finishing\<close>

lemma byte_of_word:
  assumes w: "unat (w :: word32) = M mod 4294967296" and j: "j < 4"
  shows "ucast (drop_bit (8 * j) w) = (word_of_nat (M div 256 ^ j) :: byte)"
proof -
  have w': "unat w = take_bit 32 M" unfolding w by (simp add: take_bit_eq_mod)
  have "M div 256 ^ j = drop_bit (8 * j) M" by (simp add: drop_bit_eq_div power_mult)
  moreover have "ucast (drop_bit (8 * j) w) = (word_of_nat (drop_bit (8 * j) M) :: byte)"
  proof (rule bit_word_eqI)
    fix n assume n: "n < LENGTH(8)"
    have "bit w (8 * j + n) = bit (unat w) (8 * j + n)" using n j by (simp add: bit_unsigned_iff)
    also have "\<dots> = bit M (8 * j + n)" unfolding w' using n j by (simp add: bit_take_bit_iff)
    also have "\<dots> = bit (drop_bit (8 * j) M) n" by (simp add: bit_drop_bit_eq)
    finally have l: "bit (ucast (drop_bit (8 * j) w) :: byte) n = bit (drop_bit (8 * j) M) n"
      using n by (simp add: bit_unsigned_iff bit_drop_bit_eq)
    have "(word_of_nat (drop_bit (8 * j) M) :: byte) = word_of_int (int (drop_bit (8 * j) M))"
      by (rule of_int_of_nat_eq [symmetric])
    then have "bit (word_of_nat (drop_bit (8 * j) M) :: byte) n = bit (int (drop_bit (8 * j) M)) n"
      using n by (simp only: bit_word_of_int_iff) simp
    also have "\<dots> = bit (drop_bit (8 * j) M) n" by (rule bit_of_nat_iff_bit)
    finally show "bit (ucast (drop_bit (8 * j) w) :: byte) n = bit (word_of_nat (drop_bit (8 * j) M) :: byte) n"
      unfolding l by simp
  qed
  ultimately show ?thesis by simp
qed

lemma count_bytes:
  assumes c: "unat c0 + 4294967296 * unat (c1 :: word32) = N mod 18446744073709551616"
  shows "map (word_byte [c0, c1]) [0..<8] = map (\<lambda>i. word_of_nat (N div 256 ^ i)) [0..<8]"
proof -
  have c0: "unat c0 = N mod 4294967296"
  proof -
    have "unat c0 = (unat c0 + 4294967296 * unat c1) mod 4294967296" using unat32 [of c0] by simp
    also have "\<dots> = N mod 4294967296" unfolding c by (simp add: mod_mod_cancel)
    finally show ?thesis .
  qed
  have c1: "unat c1 = N div 4294967296 mod 4294967296"
  proof -
    have "unat c1 = (unat c0 + 4294967296 * unat c1) div 4294967296" using unat32 [of c0] by simp
    also have "\<dots> = N mod (4294967296 * 4294967296) div 4294967296" unfolding c by simp
    also have "\<dots> = N div 4294967296 mod 4294967296" unfolding mod_mult2_eq by simp
    finally show ?thesis .
  qed
  have "word_byte [c0, c1] i = word_of_nat (N div 256 ^ i)" if "i < 8" for i
  proof (cases "i < 4")
    case True
    with byte_of_word [OF c0, of i] show ?thesis by (simp add: word_byte_def)
  next
    case False
    then obtain j where j: "i = 4 + j" "j < 4" using \<open>i < 8\<close> by (metis add_less_cancel_left le_Suc_ex not_less numeral_Bit0)
    have "N div 256 ^ i = N div 4294967296 div 256 ^ j" by (simp add: j(1) power_add div_mult2_eq)
    with byte_of_word [OF c1 j(2)] j show ?thesis by (simp add: word_byte_def)
  qed
  then show ?thesis by simp
qed

lemma uint_mask6: "uint (x AND 63 :: word32) = uint x mod 64"
proof -
  have "x AND 63 = take_bit 6 x" by (simp add: take_bit_eq_mask mask_eq_exp_minus_1)
  then have "uint (x AND 63) = uint (take_bit 6 x)" by (simp only:)
  also have "\<dots> = take_bit 6 (uint x)" by (rule unsigned_take_bit_eq)
  also have "\<dots> = uint x mod 64" by (simp add: take_bit_eq_mod)
  finally show ?thesis .
qed

lemma padding_eq:
  assumes "unat c0 + 4294967296 * unat (c1 :: word32) = 8 * n mod 18446744073709551616"
  shows "uint ((55 - drop_bit 3 (c0 :: word32)) AND 63) = int (rfc_zeros n)"
proof -
  let ?d = "drop_bit 3 c0"
  have "uint (?d AND 63) = int (n mod 64)" using count_offset [OF assms] by (metis uint_nat)
  then have d: "uint ?d mod 64 = int n mod 64" by (simp only: uint_mask6 of_nat_mod of_nat_numeral)
  have "uint ((55 - ?d) AND 63) = (55 - uint ?d) mod 4294967296 mod 64"
    unfolding uint_mask6 by (simp only: uint_word_ariths) simp
  also have "\<dots> = (55 - uint ?d) mod 64" by (rule mod_mod_cancel) simp
  also have "\<dots> = (55 - int n) mod 64" using d by (metis mod_diff_right_eq)
  finally show ?thesis by (simp add: rfc_zeros_def)
qed

lemma md5_finish_ok:
  assumes rep: "md5_rep st msg"
  shows "\<exists>st'. md5_finish st = Inr (st', rfc_md5 msg)"
proof -
  let ?n = "length msg" and ?z = "rfc_zeros (length msg)"
  have cnt: "unat (md_count0 st) + 4294967296 * unat (md_count1 st) = 8 * ?n mod 18446744073709551616"
    using rep by (simp add: md5_rep_def bit_count_def)
  have z: "?z < 64" by (simp add: rfc_zeros_def nat_less_iff)
  have pad: "take (Suc ?z) md5_pad = 0x80 # replicate ?z 0" using z by (simp add: md5_pad_def)
  have data: "map (word_byte [md_count0 st, md_count1 st]) [0..<8] = rfc_length ?n"
    unfolding rfc_length_def by (rule count_bytes [OF cnt])
  have padlen: "uint ((55 - drop_bit 3 (md_count0 st)) AND 63) + 1 = int (Suc ?z)"
    unfolding padding_eq [OF cnt] by simp
  from md5_append_ok [OF rep, of "Suc ?z" md5_pad] z obtain st1 where
    s1: "md5_append st md5_pad (int (Suc ?z)) = Inr st1" "md5_rep st1 (msg @ take (Suc ?z) md5_pad)"
    by (auto simp: md5_pad_def simp del: of_nat_Suc)
  from md5_append_ok [OF s1(2), of 8 "rfc_length ?n"] obtain st2 where
    s2: "md5_append st1 (rfc_length ?n) 8 = Inr st2" "md5_rep st2 ((msg @ take (Suc ?z) md5_pad) @ rfc_length ?n)"
    by (auto simp: rfc_length_def)
  have "md_abcd st2 = rfc_blocks rfc_init (rfc_padded msg)"
    using s2(2) unfolding md5_rep_def rfc_padded_def pad by simp
  then show ?thesis
    unfolding md5_finish_def Let_def data padlen using s1(1) s2(1)
    by (simp add: rfc_md5_def split: prod.split)
qed

section \<open>The interface of a streaming digest\<close>

text \<open>
  What a caller relies on, for any digest that is fed piece by piece: \<open>rep st msg\<close> says that the
  state \<open>st\<close> has taken the message \<open>msg\<close>.
\<close>

locale streaming_digest =
  fixes rep :: "'s \<Rightarrow> byte list \<Rightarrow> bool"
    and init :: "byte list \<Rightarrow> 's"
    and append :: "'s \<Rightarrow> byte list \<Rightarrow> int \<Rightarrow> 's res"
    and finish :: "'s \<Rightarrow> ('s \<times> byte list) res"
    and digest :: "byte list \<Rightarrow> byte list"
  assumes init_rep: "length raw = 64 \<Longrightarrow> rep (init raw) []"
    and append_rep: "rep st msg \<Longrightarrow> n \<le> length data \<Longrightarrow> n < 2147483584 \<Longrightarrow>
      \<exists>st'. append st data (int n) = Inr st' \<and> rep st' (msg @ take n data)"
    and finish_digest: "rep st msg \<Longrightarrow> \<exists>st'. finish st = Inr (st', digest msg)"
begin

lemma one_call:
  assumes "length raw = 64" "n \<le> length data" "n < 2147483584"
  shows "bindE (append (init raw) data (int n)) (\<lambda>st. bindE (finish st) (\<lambda>(_, d). Inr d)) =
    Inr (digest (take n data))"
proof -
  from append_rep [OF init_rep [OF assms(1)] assms(2,3)] obtain st where
    st: "append (init raw) data (int n) = Inr st" "rep st (take n data)" by auto
  from finish_digest [OF st(2)] obtain st' where "finish st = Inr (st', digest (take n data))" by blast
  with st(1) show ?thesis by simp
qed

end

interpretation md: streaming_digest md5_rep md5_init md5_append md5_finish rfc_md5
  by unfold_locales (fact md5_init_rep md5_append_ok md5_finish_ok)+

lemma length_rfc_md5 [simp]: "length (rfc_md5 msg) = 16"
  by (simp add: rfc_md5_def split: prod.split)

section \<open>Properties\<close>

text \<open>A message handed over in pieces.\<close>

fun md5_appends :: "md5_state \<Rightarrow> byte list list \<Rightarrow> md5_state res" where
  "md5_appends st [] = Inr st"
| "md5_appends st (c # cs) = bindE (md5_append st c (int (length c))) (\<lambda>st1. md5_appends st1 cs)"

lemma md5_appends_ok:
  "md5_rep st msg \<Longrightarrow> \<forall>c \<in> set chunks. length c < 2147483584 \<Longrightarrow>
   \<exists>st'. md5_appends st chunks = Inr st' \<and> md5_rep st' (msg @ concat chunks)"
proof (induction chunks arbitrary: st msg)
  case Nil
  then show ?case by simp
next
  case (Cons c cs)
  have c: "length c < 2147483584" "\<forall>d \<in> set cs. length d < 2147483584" using Cons.prems(2) by simp_all
  from md5_append_ok [OF Cons.prems(1) order_refl c(1)] obtain st1 where
    s1: "md5_append st c (int (length c)) = Inr st1" "md5_rep st1 (msg @ c)" by auto
  from Cons.IH [OF s1(2) c(2)] s1(1) show ?case by simp
qed

text \<open>
  C16: the digest is the MD5 digest of RFC 1321.  However the message is cut into pieces, of
  whatever sizes and in particular not multiples of the block size, \<open>md5_init\<close>, one \<open>md5_append\<close>
  per piece and \<open>md5_finish\<close> never touch memory out of bounds and give the digest that the
  algorithm of the RFC gives for the whole message.
\<close>

theorem md5_digest_rfc:
  assumes "length raw = 64" "\<forall>c \<in> set chunks. length c < 2147483584"
  shows "\<exists>st st'. md5_appends (md5_init raw) chunks = Inr st \<and> md5_finish st = Inr (st', rfc_md5 (concat chunks))"
proof -
  from md5_appends_ok [OF md5_init_rep [OF assms(1)] assms(2)] obtain st where
    st: "md5_appends (md5_init raw) chunks = Inr st" "md5_rep st (concat chunks)" by auto
  from md5_finish_ok [OF st(2)] st(1) show ?thesis by blast
qed

theorem md5_digest_rfc_witness:
  "\<exists>st st'. md5_appends (md5_init (replicate 64 7)) [[97], replicate 100 98, [99]] = Inr st \<and>
    md5_finish st = Inr (st', rfc_md5 ([97] @ replicate 100 98 @ [99]))"
proof -
  have l: "\<forall>c \<in> set [[97], replicate 100 98, [99 :: byte]]. length c < 2147483584" by simp
  from md5_digest_rfc [of "replicate 64 7", OF _ l] show ?thesis by simp
qed

text \<open>
  Two values of the test suite in RFC 1321, computed with the code's functions: the digests of
  the empty message and of \<open>abc\<close>.
\<close>

theorem md5_test_suite:
  "bindE (md5_finish (md5_init (replicate 64 0))) (\<lambda>(_, d). Inr d) =
    Inr [0xd4, 0x1d, 0x8c, 0xd9, 0x8f, 0x00, 0xb2, 0x04, 0xe9, 0x80, 0x09, 0x98, 0xec, 0xf8, 0x42, 0x7e] \<and>
   bindE (md5_append (md5_init (replicate 64 0)) [97, 98, 99] 3) (\<lambda>st. bindE (md5_finish st) (\<lambda>(_, d). Inr d)) =
    Inr [0x90, 0x01, 0x50, 0x98, 0x3c, 0xd2, 0x4f, 0xb0, 0xd6, 0x96, 0x3f, 0x7d, 0x28, 0xe1, 0x7f, 0x72]"
  by code_simp


end
