(* ===== verification/Ketama.thy ===== *)
theory Ketama
  imports Md5 Module_Alloc C_Float "HOL-Library.Multiset"
begin

text \<open>
  Consistent hashing, \<open>libredis/ketama.c\<close>.  A \<open>Ketama\<close> object is a record \<open>ketama\<close>; the arrays
  \<open>servers\<close> and \<open>continuum\<close> are lists of the length of their block, whose entries are
  \<^const>\<open>None\<close> until they are first written, and every access checks the bounds.  Floating-point
  operations are those of \<open>C_Float\<close>.  \<open>qsort\<close> is a parameter with its documented behaviour as
  hypothesis (\<open>qsort_ok\<close>), since the order of equal elements is open.  \<open>stk\<close> is what the stack
  holds where \<open>md5state\<close> is placed.  \<open>Ketama_print_continuum\<close> only prints.
\<close>

section \<open>Data\<close>

record mcs =
  mc_point :: word32
  mc_ordinal :: int

record serverinfo =
  si_addr :: string
  si_memory :: nat

record ketama =
  kt_numpoints :: int
  kt_numservers :: nat
  kt_maxservers :: nat
  kt_memory :: nat
  kt_continuum :: "mcs option list option"
  kt_servers :: "serverinfo option list option"

text \<open>Sizes on LP64.\<close>

definition sizeof_mcs :: nat where "sizeof_mcs = 8"

definition sizeof_serverinfo :: nat where "sizeof_serverinfo = 264"

definition sizeof_Ketama :: nat where "sizeof_Ketama = 40"

definition INIT_MAX_SERVERS :: nat where "INIT_MAX_SERVERS = 1"

text \<open>Reading and writing an array entry.\<close>

definition read_entry :: "'a option list \<Rightarrow> int \<Rightarrow> 'a res" where
  "read_entry blk i =
     (if 0 \<le> i \<and> i < int (length blk)
      then case blk ! nat i of None \<Rightarrow> Inl Undefined | Some x \<Rightarrow> Inr x
      else Inl OutOfBounds)"

definition write_entry :: "'a option list \<Rightarrow> nat \<Rightarrow> 'a \<Rightarrow> 'a option list res" where
  "write_entry blk i x = (if i < length blk then Inr (blk[i := Some x]) else Inl OutOfBounds)"

section \<open>Creating, freeing, adding servers\<close>

definition Ketama_new :: "'a module_scheme \<Rightarrow> (ketama \<times> 'a module_scheme) res" where
  "Ketama_new m =
     bindE (Alloc_alloc sizeof_Ketama m) (\<lambda>(p, m1).
     bindE (derefE p) (\<lambda>_.
       Inr (\<lparr>kt_numpoints = 0, kt_numservers = 0, kt_maxservers = 0, kt_memory = 0,
             kt_continuum = None, kt_servers = None\<rparr>, m1)))"

definition Ketama_free :: "ketama \<Rightarrow> 'a module_scheme \<Rightarrow> 'a module_scheme res" where
  "Ketama_free kt m =
     bindE (if kt_continuum kt \<noteq> None
            then Alloc_free (size_mul (size_mul (kt_numservers kt) sizeof_mcs) 160) m
            else Inr m) (\<lambda>m1.
     bindE (if kt_servers kt \<noteq> None
            then Alloc_free (size_mul (kt_maxservers kt) sizeof_serverinfo) m1
            else Inr m1) (\<lambda>m2.
       Alloc_free sizeof_Ketama m2))"

text \<open>The entry behind the last one is filled in and counted.\<close>

definition server_store ::
    "ketama \<Rightarrow> string \<Rightarrow> int \<Rightarrow> nat \<Rightarrow> 'a module_scheme \<Rightarrow> (int \<times> ketama \<times> 'a module_scheme) res" where
  "server_store kt addr port weight m =
     bindE (derefE (kt_servers kt)) (\<lambda>blk.
     bindE (write_entry blk (kt_numservers kt)
              \<lparr>si_addr = snprintf_text ADDR_SIZE (addr @ '':'' @ dec_int port), si_memory = weight\<rparr>) (\<lambda>blk'.
       Inr (0, kt\<lparr>kt_servers := Some blk',
                  kt_numservers := Suc (kt_numservers kt) mod 4294967296,
                  kt_memory := size_add (kt_memory kt) weight\<rparr>, m)))"

text \<open>
  \<open>realloc\<close> keeps the old entries; only its result and the accounting concern the allocator of
  the model, whose blocks are strings.
\<close>

definition Ketama_add_server ::
    "ketama \<Rightarrow> string \<Rightarrow> int \<Rightarrow> nat \<Rightarrow> 'a module_scheme \<Rightarrow> (int \<times> ketama \<times> 'a module_scheme) res" where
  "Ketama_add_server kt addr port weight m =
     bindE (assertE (kt_numservers kt \<le> kt_maxservers kt)) (\<lambda>_.
     bindE (if kt_servers kt = None then
              bindE (Alloc_alloc (size_mul sizeof_serverinfo INIT_MAX_SERVERS) m) (\<lambda>(p, m1).
                Inr (kt\<lparr>kt_maxservers := INIT_MAX_SERVERS,
                       kt_servers := map_option (\<lambda>_. replicate INIT_MAX_SERVERS None) p\<rparr>, m1))
            else Inr (kt, m)) (\<lambda>(kt1, m1).
     bindE (if kt_numservers kt1 \<ge> kt_maxservers kt1 then
              let oldmax = wrap32 (int (kt_maxservers kt1));
                  newmax = kt_maxservers kt1 * 2 mod 4294967296 in
              bindE (Alloc_realloc [] (size_mul sizeof_serverinfo newmax)
                       (size_mul sizeof_serverinfo (to_size oldmax)) m1) (\<lambda>(p, m2).
                Inr (kt1\<lparr>kt_maxservers := newmax,
                        kt_servers := (case p of None \<Rightarrow> None
                          | Some _ \<Rightarrow> map_option (\<lambda>old. take newmax old @ replicate (newmax - length old) None)
                                        (kt_servers kt1))\<rparr>, m2))
            else Inr (kt1, m1)) (\<lambda>(kt2, m2).
       server_store kt2 addr port weight m2)))"

section \<open>Hashing\<close>

definition Ketama_md5_digest :: "byte list \<Rightarrow> string \<Rightarrow> nat \<Rightarrow> byte list res" where
  "Ketama_md5_digest stk inString inLen =
     bindE (md5_append (md5_init stk) (map of_char inString) (wrap32 (int inLen))) (\<lambda>st.
     bindE (md5_finish st) (\<lambda>(_, digest). Inr digest))"

text \<open>\<open>(d[3+4h] << 24) | (d[2+4h] << 16) | (d[1+4h] << 8) | d[4h]\<close>, as an \<open>unsigned int\<close>.\<close>

definition digest_point :: "byte list \<Rightarrow> nat \<Rightarrow> word32" where
  "digest_point d h =
     push_bit 24 (ucast (d ! (3 + h * 4))) OR push_bit 16 (ucast (d ! (2 + h * 4))) OR
     push_bit 8 (ucast (d ! (1 + h * 4))) OR ucast (d ! (h * 4))"

definition Ketama_hashi :: "byte list \<Rightarrow> string \<Rightarrow> nat \<Rightarrow> word32 res" where
  "Ketama_hashi stk inString inLen =
     bindE (Ketama_md5_digest stk inString inLen) (\<lambda>d. Inr (digest_point d 0))"

section \<open>Looking up a server\<close>

definition Ketama_get_server_address :: "ketama \<Rightarrow> int \<Rightarrow> string res" where
  "Ketama_get_server_address kt ordinal =
     (if ordinal < 0 \<or> ordinal \<ge> int (kt_numservers kt) then Inr []
      else case kt_servers kt of
             None \<Rightarrow> Inr []
           | Some blk \<Rightarrow> bindE (read_entry blk ordinal) (\<lambda>si. Inr (si_addr si)))"

text \<open>\<open>(int) ((lowp + highp) / 2)\<close>: division rounds towards zero.\<close>

definition half :: "int \<Rightarrow> int" where
  "half x = (if x < 0 then - ((- x) div 2) else x div 2)"

text \<open>The loop of \<open>Ketama_get_server_ordinal\<close>; an overflowing sum of the bounds is a fault.\<close>

function search_points ::
    "mcs option list \<Rightarrow> int \<Rightarrow> word32 \<Rightarrow> int \<Rightarrow> int \<Rightarrow> int res" where
  "search_points arr numpoints h lowp highp =
     (if lowp + highp \<ge> 2147483648 then Inl Undefined
      else let midp = half (lowp + highp) in
      if midp = numpoints then bindE (read_entry arr 0) (\<lambda>e. Inr (mc_ordinal e))
      else bindE (read_entry arr midp) (\<lambda>e.
        bindE (if midp = 0 then Inr 0 else bindE (read_entry arr (midp - 1)) (\<lambda>e1. Inr (mc_point e1)))
         (\<lambda>midval1.
          let midval = mc_point e in
          if h \<le> midval \<and> h > midval1 then Inr (mc_ordinal e)
          else let lowp1 = (if midval < h then midp + 1 else lowp);
                   highp1 = (if midval < h then highp else midp - 1) in
            if lowp1 > highp1 then bindE (read_entry arr 0) (\<lambda>e0. Inr (mc_ordinal e0))
            else search_points arr numpoints h lowp1 highp1)))"
  by pat_completeness auto

lemma read_entry_bounds: "read_entry blk i = Inr x \<Longrightarrow> 0 \<le> i \<and> i < int (length blk) \<and> blk ! nat i = Some x"
  by (auto simp: read_entry_def split: if_splits option.splits)

termination search_points
proof (relation "measure (\<lambda>(_, _, _, lowp, highp). nat (highp - lowp + 1))", goal_cases)
  case (2 arr numpoints h lowp highp midp e midval1 midval lowp1 highp1)
  then have "read_entry arr (half (lowp + highp)) = Inr e" by simp
  then have "0 \<le> half (lowp + highp)" by (auto dest: read_entry_bounds)
  with 2 show ?case by (auto simp: half_def split: if_splits)
qed simp

declare search_points.simps [simp del]

definition Ketama_get_server_ordinal :: "byte list \<Rightarrow> ketama \<Rightarrow> string \<Rightarrow> nat \<Rightarrow> int res" where
  "Ketama_get_server_ordinal stk kt key key_len =
     (case kt_continuum kt of
        None \<Rightarrow> Inr (- 1)
      | Some arr \<Rightarrow> bindE (Ketama_hashi stk key key_len) (\<lambda>h.
          search_points arr (kt_numpoints kt) h 0 (kt_numpoints kt)))"

section \<open>Building the continuum\<close>

definition Ketama_compare :: "mcs \<Rightarrow> mcs \<Rightarrow> int" where
  "Ketama_compare a b =
     (if mc_point a < mc_point b then - 1 else if mc_point a > mc_point b then 1 else 0)"

text \<open>
  \<open>floorf (pct * 40.0 * (float) numservers)\<close> with \<open>pct = (float) memory / (float) total\<close>: the
  products are formed in \<open>double\<close>, the argument of \<open>floorf\<close> is a \<open>float\<close> again.
\<close>

definition server_share :: "nat \<Rightarrow> nat \<Rightarrow> nat \<Rightarrow> rat" where
  "server_share memory tot n =
     (let pct = flt (flt (of_nat memory) / flt (of_nat tot))
      in flt (dbl (dbl (pct * 40) * flt (of_nat n))))"

text \<open>A zero divisor gives a NaN or an infinity, whose conversion to \<open>unsigned\<close> is undefined.\<close>

definition server_ks :: "nat \<Rightarrow> nat \<Rightarrow> nat \<Rightarrow> nat res" where
  "server_ks memory tot n =
     (if tot = 0 then Inl Undefined
      else let ks = \<lfloor>server_share memory tot n\<rfloor>
           in if ks < 4294967296 then Inr (nat ks) else Inl Undefined)"

text \<open>The innermost loop: four points from one digest; \<open>cont\<close> is an \<open>unsigned\<close> counter.\<close>

definition store_point ::
    "byte list \<Rightarrow> int \<Rightarrow> nat \<Rightarrow> mcs option list \<times> nat \<Rightarrow> (mcs option list \<times> nat) res" where
  "store_point digest i h s = (case s of (arr, cont) \<Rightarrow>
     bindE (write_entry arr cont \<lparr>mc_point = digest_point digest h, mc_ordinal = i\<rparr>) (\<lambda>arr'.
       Inr (arr', Suc cont mod 4294967296)))"

definition hash_points ::
    "byte list \<Rightarrow> string \<Rightarrow> int \<Rightarrow> nat \<Rightarrow> mcs option list \<times> nat \<Rightarrow> (mcs option list \<times> nat) res" where
  "hash_points stk addr i k s =
     (let text = addr @ ''-'' @ dec_int (wrap32 (int k));
          len = min (length text) (ADDR_SIZE + 11 - 1) in
      bindE (Ketama_md5_digest stk (snprintf_text (ADDR_SIZE + 11) text) len) (\<lambda>digest.
        foldE (store_point digest i) [0..<4] s))"

definition server_points ::
    "byte list \<Rightarrow> ketama \<Rightarrow> nat \<Rightarrow> mcs option list \<times> nat \<Rightarrow> (mcs option list \<times> nat) res" where
  "server_points stk kt i s =
     bindE (derefE (kt_servers kt)) (\<lambda>blk.
     bindE (read_entry blk (int i)) (\<lambda>si.
     bindE (server_ks (si_memory si) (kt_memory kt) (kt_numservers kt)) (\<lambda>ks.
       foldE (hash_points stk (si_addr si) (int i)) [0..<ks] s)))"

text \<open>\<open>qsort\<close> on the first \<open>cont\<close> entries, which must have been written.\<close>

definition sort_points ::
    "((mcs \<Rightarrow> mcs \<Rightarrow> int) \<Rightarrow> mcs list \<Rightarrow> mcs list) \<Rightarrow> mcs option list \<Rightarrow> nat \<Rightarrow> mcs option list res" where
  "sort_points qsort arr cont =
     (if cont > length arr then Inl OutOfBounds
      else if None \<in> set (take cont arr) then Inl Undefined
      else Inr (map Some (qsort Ketama_compare (map the (take cont arr))) @ drop cont arr))"

definition Ketama_create_continuum ::
    "((mcs \<Rightarrow> mcs \<Rightarrow> int) \<Rightarrow> mcs list \<Rightarrow> mcs list) \<Rightarrow> byte list \<Rightarrow> ketama \<Rightarrow>
     'a module_scheme \<Rightarrow> (ketama \<times> 'a module_scheme) res" where
  "Ketama_create_continuum qsort stk kt m =
     (if kt_numservers kt = 0 \<or> kt_continuum kt \<noteq> None then Inr (kt, m)
      else
        bindE (Alloc_alloc (size_mul (size_mul (kt_numservers kt) sizeof_mcs) 160) m) (\<lambda>(p, m1).
        bindE (derefE p) (\<lambda>_.
        bindE (foldE (server_points stk kt) [0..<kt_numservers kt]
                 (replicate (kt_numservers kt * 160) None, 0)) (\<lambda>(arr, cont).
        bindE (sort_points qsort arr cont) (\<lambda>arr'.
          Inr (kt\<lparr>kt_continuum := Some arr', kt_numpoints := wrap32 (int cont)\<rparr>, m1))))))"


section \<open>The digest\<close>

lemma Ketama_md5_digest_ok:
  assumes "length stk = 64" "n \<le> length s" "n < 2147483584"
  shows "Ketama_md5_digest stk s n = Inr (rfc_md5 (take n (map of_char s)))"
proof -
  have "wrap32 (int n) = int n" using assms(3) by (simp add: wrap32_id)
  then show ?thesis using md.one_call [OF assms(1), of n "map of_char s"] assms(2,3)
    by (simp add: Ketama_md5_digest_def)
qed

definition key_point :: "string \<Rightarrow> word32" where
  "key_point s = digest_point (rfc_md5 (map of_char s)) 0"

lemma Ketama_hashi_ok:
  assumes "length stk = 64" "length key < 2147483584"
  shows "Ketama_hashi stk key (length key) = Inr (key_point key)"
  using Ketama_md5_digest_ok [OF assms(1) order_refl assms(2)] by (simp add: Ketama_hashi_def key_point_def)

section \<open>The search\<close>

text \<open>
  The specification: on the circle of points the key belongs to the first point that is not
  smaller than its hash, and to the first point of all when there is none.
\<close>

definition succ_index :: "word32 list \<Rightarrow> word32 \<Rightarrow> nat" where
  "succ_index ps h = (let j = length (takeWhile (\<lambda>p. p < h) ps) in if j < length ps then j else 0)"

lemma takeWhile_sorted_less:
  assumes "sorted ps" "i < length ps"
  shows "ps ! i < h \<longleftrightarrow> i < length (takeWhile (\<lambda>p. p < h) ps)"
proof
  assume less: "i < length (takeWhile (\<lambda>p. p < h) ps)"
  then have "takeWhile (\<lambda>p. p < h) ps ! i \<in> set (takeWhile (\<lambda>p. p < h) ps)" by (rule nth_mem)
  with less show "ps ! i < h" by (metis set_takeWhileD takeWhile_nth)
next
  assume h: "ps ! i < h"
  show "i < length (takeWhile (\<lambda>p. p < h) ps)"
  proof (rule ccontr)
    assume *: "\<not> ?thesis"
    then have "length (takeWhile (\<lambda>p. p < h) ps) < length ps" using assms(2) by linarith
    from nth_length_takeWhile [OF this] have "\<not> ps ! length (takeWhile (\<lambda>p. p < h) ps) < h" .
    moreover have "ps ! length (takeWhile (\<lambda>p. p < h) ps) \<le> ps ! i"
      using assms * by (intro sorted_nth_mono) auto
    ultimately show False using h by simp
  qed
qed

lemma succ_index_less: "ps \<noteq> [] \<Longrightarrow> succ_index ps h < length ps"
  by (simp add: succ_index_def Let_def)

lemma read_points:
  "0 \<le> i \<Longrightarrow> i < int (length xs) \<Longrightarrow> read_entry (map Some xs @ rest) i = Inr (xs ! nat i)"
  by (auto simp: read_entry_def nth_append)

lemma half_bounds:
  assumes "0 \<le> lo" "lo \<le> hi"
  shows "lo \<le> half (lo + hi)" "half (lo + hi) \<le> hi"
  using assms by (simp_all add: half_def)

text \<open>\<open>j\<close>, the number of points below the hash, stays between the bounds of the search.\<close>

lemma search_points_ok:
  assumes xs: "xs \<noteq> []" "length xs < 1073741824" "sorted (map mc_point xs)"
    and j: "j = length (takeWhile (\<lambda>p. p < h) (map mc_point xs))"
    and "0 \<le> lo" "lo \<le> int j" "int j \<le> hi" "hi \<le> int (length xs)"
  shows "search_points (map Some xs @ rest) (int (length xs)) h lo hi =
    Inr (mc_ordinal (xs ! succ_index (map mc_point xs) h))"
  using assms(5-8)
proof (induction "nat (hi - lo)" arbitrary: lo hi rule: less_induct)
  case less
  let ?n = "length xs" and ?arr = "map Some xs @ rest" and ?mid = "half (lo + hi)"
  note rd = read_points [of _ xs rest]
  have below: "mc_point (xs ! i) < h \<longleftrightarrow> i < j" if "i < ?n" for i
    using takeWhile_sorted_less [OF xs(3), of i h] that j by simp
  have idx: "succ_index (map mc_point xs) h = (if j < ?n then j else 0)"
    by (simp add: succ_index_def j Let_def)
  have sum: "\<not> 2147483648 \<le> lo + hi" using less.prems xs(2) by linarith
  have mid: "lo \<le> ?mid" "?mid \<le> hi" "0 \<le> ?mid"
    using half_bounds [of lo hi] less.prems by linarith+
  have zero: "read_entry ?arr 0 = Inr (xs ! 0)" using rd [of 0] xs(1) by simp
  note unfold = search_points.simps [of ?arr "int ?n" h lo hi]
  show ?case
  proof (cases "?mid = int ?n")
    case True
    then have "j = ?n" using less.prems mid by (simp add: half_def split: if_splits)
    with True sum zero show ?thesis by (simp add: unfold idx)
  next
    case False
    with mid less.prems(4) have m: "nat ?mid < ?n" "?mid < int ?n" by linarith+
    have e: "read_entry ?arr ?mid = Inr (xs ! nat ?mid)" using rd m mid by simp
    define v where "v = (if ?mid = 0 then 0 else mc_point (xs ! nat (?mid - 1)))"
    have e1: "(if ?mid = 0 then Inr 0 else bindE (read_entry ?arr (?mid - 1)) (\<lambda>e1. Inr (mc_point e1))) = Inr v"
      using rd [of "?mid - 1"] m mid by (auto simp: v_def)
    have step: "search_points ?arr (int ?n) h lo hi =
       (let e = xs ! nat ?mid in
        if h \<le> mc_point e \<and> h > v then Inr (mc_ordinal e)
        else let lo1 = (if mc_point e < h then ?mid + 1 else lo);
                 hi1 = (if mc_point e < h then hi else ?mid - 1) in
          if lo1 > hi1 then Inr (mc_ordinal (xs ! 0))
          else search_points ?arr (int ?n) h lo1 hi1)"
      using sum False by (subst unfold) (simp add: e e1 zero Let_def)
    consider (up) "nat ?mid < j" | (hit) "nat ?mid = j" | (down) "j < nat ?mid" by linarith
    then show ?thesis
    proof cases
      case up
      with below m have lt: "mc_point (xs ! nat ?mid) < h" by blast
      with step up less.prems mid have
        "search_points ?arr (int ?n) h lo hi = search_points ?arr (int ?n) h (?mid + 1) hi"
        by (auto simp: Let_def)
      also have "\<dots> = Inr (mc_ordinal (xs ! succ_index (map mc_point xs) h))"
        using up less.prems mid by (intro less.hyps) linarith+
      finally show ?thesis .
    next
      case hit
      have ge: "h \<le> mc_point (xs ! nat ?mid)" using below [OF m(1)] hit by simp
      show ?thesis
      proof (cases "v < h")
        case True
        with ge hit m show ?thesis by (simp add: step idx)
      next
        case False
        have "?mid = 0"
        proof (rule ccontr)
          assume "?mid \<noteq> 0"
          with hit mid below [of "nat (?mid - 1)"] m False show False by (simp add: v_def)
        qed
        with hit have "j = 0" "?mid = 0" by simp_all
        moreover have "\<not> mc_point (xs ! 0) < h" using ge \<open>?mid = 0\<close> by simp
        moreover have "lo = 0" using less.prems(1) mid \<open>?mid = 0\<close> by linarith
        ultimately show ?thesis unfolding step using False xs(1) by (simp add: Let_def idx)
      qed
    next
      case down
      have ge: "h \<le> mc_point (xs ! nat ?mid)" using below [OF m(1)] down by simp
      have "h \<le> v" using below [of "nat (?mid - 1)"] m down by (auto simp: v_def not_less [symmetric])
      with step ge down less.prems mid have
        "search_points ?arr (int ?n) h lo hi = search_points ?arr (int ?n) h lo (?mid - 1)"
        by (auto simp: Let_def)
      also have "\<dots> = Inr (mc_ordinal (xs ! succ_index (map mc_point xs) h))"
        using down less.prems mid by (intro less.hyps) linarith+
      finally show ?thesis .
    qed
  qed
qed


section \<open>The share of a server\<close>

text \<open>What the share would be in exact arithmetic.\<close>

definition exact_share :: "nat \<Rightarrow> nat \<Rightarrow> nat \<Rightarrow> rat" where
  "exact_share memory tot n = of_nat memory / of_nat tot * 40 * of_nat n"

text \<open>Seven roundings together are off by less than \<open>6 / 2 ^ 24\<close> of the value.\<close>

definition ks_error :: rat where
  "ks_error = 6 / 16777216"

lemma server_share_near:
  assumes "0 < tot"
  shows "near (1 - ks_error) (1 + ks_error) (exact_share memory tot n) (server_share memory tot n)"
proof -
  define e d :: rat where "e = 1 / 2 ^ 24" and "d = 1 / 2 ^ 53"
  have m: "near (1 - e) (1 + e) (of_nat k) (flt (of_nat k))" for k
    using near_fl [OF near_exact, of "of_nat k" 24] by (simp add: e_def)
  have t: "0 < (of_nat tot :: rat)" using assms by simp
  have pos: "0 < 1 - e" by (simp add: e_def)
  have q: "near ((1 - e) / (1 + e) * (1 - e)) ((1 + e) / (1 - e) * (1 + e)) (of_nat memory / of_nat tot)
      (flt (flt (of_nat memory) / flt (of_nat tot)))"
    using near_fl [OF near_div [OF m m pos t], of 24] by (simp add: e_def)
  have c: "near 1 1 40 40" by (rule near_exact) simp
  have "near ((((1 - e) / (1 + e) * (1 - e) * 1 * (1 - d)) * (1 - e)) * (1 - d) * (1 - e))
      ((((1 + e) / (1 - e) * (1 + e) * 1 * (1 + d)) * (1 + e)) * (1 + d) * (1 + e))
      (exact_share memory tot n) (server_share memory tot n)"
    using near_fl [OF near_fl [OF near_mult [OF near_fl [OF near_mult [OF q c], of 53] m], of 53], of 24]
    by (simp add: exact_share_def server_share_def Let_def e_def d_def)
  then show ?thesis
    by (rule near_weaken) (simp_all add: ks_error_def e_def d_def)
qed


definition ks_of :: "nat \<Rightarrow> nat \<Rightarrow> nat \<Rightarrow> nat" where
  "ks_of memory tot n = nat \<lfloor>server_share memory tot n\<rfloor>"

lemma exact_share_bound: "memory \<le> tot \<Longrightarrow> 0 < tot \<Longrightarrow> exact_share memory tot n \<le> 40 * of_nat n"
proof -
  assume "memory \<le> tot" "0 < tot"
  then have "of_nat memory / of_nat tot \<le> (1::rat)" by simp
  then have "of_nat memory / of_nat tot * (40 * of_nat n) \<le> 1 * (40 * of_nat n :: rat)"
    by (rule mult_right_mono) simp
  then show ?thesis by (simp add: exact_share_def mult_ac)
qed

lemma ks_of_bounds:
  assumes "0 < tot"
  shows "of_nat (ks_of memory tot n) \<le> exact_share memory tot n * (1 + ks_error)"
    and "exact_share memory tot n * (1 - ks_error) < of_nat (ks_of memory tot n) + 1"
proof -
  note nr = server_share_near [OF assms, of memory n]
  have s: "0 \<le> server_share memory tot n" by (rule near_nonneg [OF nr])
  have "(of_nat (ks_of memory tot n) :: rat) = of_int \<lfloor>server_share memory tot n\<rfloor>"
    using s by (simp add: ks_of_def)
  then have "of_nat (ks_of memory tot n) \<le> server_share memory tot n"
    "server_share memory tot n < of_nat (ks_of memory tot n) + 1" by linarith+
  with nr show "of_nat (ks_of memory tot n) \<le> exact_share memory tot n * (1 + ks_error)"
    "exact_share memory tot n * (1 - ks_error) < of_nat (ks_of memory tot n) + 1"
    by (simp_all add: near_def)
qed

lemma ks_of_less:
  assumes "0 < tot" "memory \<le> tot" "n \<le> 65536"
  shows "ks_of memory tot n < 2621442"
proof -
  have "of_nat (ks_of memory tot n) \<le> exact_share memory tot n * (1 + ks_error)"
    by (rule ks_of_bounds [OF assms(1)])
  also have "\<dots> \<le> 40 * of_nat n * (1 + ks_error)"
    using exact_share_bound [OF assms(2,1)] by (rule mult_right_mono) (simp add: ks_error_def)
  also have "\<dots> \<le> 40 * 65536 * (1 + ks_error)"
    using assms(3) by (intro mult_right_mono) (simp_all add: ks_error_def)
  finally have "of_nat (ks_of memory tot n) < (of_nat 2621442 :: rat)" by (simp add: ks_error_def)
  then show ?thesis by (simp only: of_nat_less_iff)
qed

lemma server_ks_ok:
  assumes "0 < tot" "memory \<le> tot" "n \<le> 65536"
  shows "server_ks memory tot n = Inr (ks_of memory tot n)"
proof -
  have "\<lfloor>server_share memory tot n\<rfloor> < 2621442" using ks_of_less [OF assms] by (simp add: ks_of_def nat_less_iff del: floor_less_iff floor_less_numeral)
  then show ?thesis using assms(1) by (simp add: server_ks_def ks_of_def Let_def del: floor_less_iff floor_less_numeral)
qed

text \<open>All servers together: at most forty hashes each on average, and at least one of them has 39.\<close>

lemma sum_share:
  assumes "0 < sum_list ms"
  shows "(\<Sum>w\<leftarrow>ms. exact_share w (sum_list ms) n) = 40 * of_nat n"
proof -
  have "(\<Sum>w\<leftarrow>ms. exact_share w t n) * of_nat t = of_nat (sum_list ms) * (40 * of_nat n)" if "0 < t" for t
    using that by (induction ms) (simp_all add: exact_share_def algebra_simps)
  from this [OF assms] have "(\<Sum>w\<leftarrow>ms. exact_share w (sum_list ms) n) * of_nat (sum_list ms) =
    40 * of_nat n * of_nat (sum_list ms)" by (simp only: mult.commute)
  with assms show ?thesis by (simp del: sum_list_eq_0_iff)
qed

lemma sum_ks_le:
  assumes "0 < sum_list ms" "n \<le> 65536"
  shows "(\<Sum>w\<leftarrow>ms. ks_of w (sum_list ms) n) \<le> 40 * n"
proof -
  have "of_nat (\<Sum>w\<leftarrow>ws. ks_of w (sum_list ms) n) \<le> (\<Sum>w\<leftarrow>ws. exact_share w (sum_list ms) n) * (1 + ks_error)" for ws
    by (induction ws) (simp_all add: add_mono ks_of_bounds(1) [OF assms(1)] distrib_right)
  then have "of_nat (\<Sum>w\<leftarrow>ms. ks_of w (sum_list ms) n) \<le> 40 * of_nat n * (1 + ks_error)"
    using sum_share [OF assms(1)] by metis
  also have "\<dots> < 40 * of_nat n + (1::rat)"
  proof -
    have "(of_nat n :: rat) \<le> 65536" using assms(2) by simp
    then show ?thesis by (simp add: ks_error_def algebra_simps)
  qed
  also have "\<dots> = of_nat (40 * n + 1)" by simp
  finally show ?thesis by (simp only: of_nat_less_iff)
qed

lemma heavy_server:
  assumes "ms \<noteq> []"
  shows "\<exists>i < length ms. sum_list ms \<le> length ms * ms ! i"
proof -
  obtain i where i: "i < length ms" "ms ! i = Max (set ms)"
    using assms by (metis List.finite_set Max_in in_set_conv_nth set_empty)
  have "sum_list ws \<le> length ws * Max (set ms)" if "set ws \<subseteq> set ms" for ws
    using that by (induction ws) (auto intro: add_mono)
  with i show ?thesis by auto
qed

lemma heavy_ks:
  assumes "0 < tot" "tot \<le> n * w" "w \<le> tot" "n \<le> 65536"
  shows "39 \<le> ks_of w tot n"
proof -
  have "(of_nat tot :: rat) \<le> of_nat (n * w)" using assms(2) by (simp only: of_nat_le_iff)
  then have "40 \<le> exact_share w tot n"
    using assms(1) by (simp add: exact_share_def field_simps)
  then have "40 * (1 - ks_error) \<le> exact_share w tot n * (1 - ks_error)"
    by (rule mult_right_mono) (simp add: ks_error_def)
  also have "\<dots> < of_nat (ks_of w tot n) + 1" by (rule ks_of_bounds(2) [OF assms(1)])
  finally have "(of_nat 38 :: rat) < of_nat (ks_of w tot n)" by (simp add: ks_error_def)
  then show ?thesis by (simp only: of_nat_less_iff)
qed


section \<open>What an object stands for\<close>

text \<open>
  \<open>servers_rep kt infos\<close>: the servers added so far are \<open>infos\<close>.  The array has room for
  \<open>kt_maxservers\<close> of them, which is at most twice what is used.
\<close>

definition server_array :: "ketama \<Rightarrow> serverinfo list \<Rightarrow> bool" where
  "server_array kt infos =
     (case kt_servers kt of
        None \<Rightarrow> infos = [] \<and> kt_maxservers kt = 0
      | Some blk \<Rightarrow> infos \<noteq> [] \<and> length blk = kt_maxservers kt \<and> take (length infos) blk = map Some infos)"

definition servers_rep :: "ketama \<Rightarrow> serverinfo list \<Rightarrow> bool" where
  "servers_rep kt infos \<longleftrightarrow>
     kt_numservers kt = length infos \<and> length infos \<le> kt_maxservers kt \<and>
     kt_maxservers kt \<le> 2 * length infos \<and> server_array kt infos \<and>
     kt_memory kt = sum_list (map si_memory infos) mod 18446744073709551616 \<and>
     (\<forall>si \<in> set infos. length (si_addr si) \<le> 254)"

definition new_info :: "string \<Rightarrow> int \<Rightarrow> nat \<Rightarrow> serverinfo" where
  "new_info addr port weight = \<lparr>si_addr = take 254 (addr @ '':'' @ dec_int port), si_memory = weight\<rparr>"

text \<open>The bytes \<open>Ketama_free\<close> deducts for the arrays.\<close>

definition server_bytes :: "ketama \<Rightarrow> int" where
  "server_bytes kt = (if kt_servers kt \<noteq> None then 264 * int (kt_maxservers kt) else 0)"

definition ring_bytes :: "ketama \<Rightarrow> int" where
  "ring_bytes kt = (if kt_continuum kt \<noteq> None then 1280 * int (kt_numservers kt) else 0)"

lemma read_server:
  assumes "servers_rep kt infos" "i < length infos"
  shows "\<exists>blk. kt_servers kt = Some blk \<and> read_entry blk (int i) = Inr (infos ! i)"
proof -
  obtain blk where blk: "kt_servers kt = Some blk" "length blk = kt_maxservers kt"
      "take (length infos) blk = map Some infos"
    using assms by (auto simp: servers_rep_def server_array_def split: option.splits)
  have "blk ! i = take (length infos) blk ! i" using assms(2) by simp
  then have "blk ! i = Some (infos ! i)" unfolding blk(3) using assms(2) by simp
  with blk assms show ?thesis by (simp add: read_entry_def servers_rep_def)
qed

lemma Ketama_get_server_address_ok:
  assumes "servers_rep kt infos"
  shows "Ketama_get_server_address kt i =
    Inr (if 0 \<le> i \<and> i < int (length infos) then si_addr (infos ! nat i) else [])"
proof (cases "0 \<le> i \<and> i < int (length infos)")
  case True
  then obtain k where k: "i = int k" "k < length infos" by (metis nonneg_int_cases of_nat_less_iff)
  from read_server [OF assms k(2)] obtain blk where
    "kt_servers kt = Some blk" "read_entry blk (int k) = Inr (infos ! k)" by blast
  with True k assms show ?thesis by (simp add: Ketama_get_server_address_def servers_rep_def)
next
  case False
  with assms show ?thesis by (auto simp: Ketama_get_server_address_def servers_rep_def)
qed

lemma Ketama_new_ok:
  assumes "allocator_ok m"
  shows "\<exists>kt m'. Ketama_new m = Inr (kt, m') \<and> servers_rep kt [] \<and> kt_continuum kt = None \<and>
    allocator_ok m' \<and> charged m m' 40"
proof -
  from Alloc_alloc_ok [OF assms, of sizeof_Ketama] obtain blk m' where
    "Alloc_alloc sizeof_Ketama m = Inr (Some blk, m')" "allocator_ok m'" "charged m m' 40"
    by (auto simp: sizeof_Ketama_def)
  then show ?thesis by (simp add: Ketama_new_def servers_rep_def server_array_def)
qed

lemma write_next:
  assumes "length infos < length blk" "take (length infos) blk = map Some infos"
  shows "\<exists>blk'. write_entry blk (length infos) si = Inr blk' \<and> length blk' = length blk \<and>
    take (Suc (length infos)) blk' = map Some (infos @ [si])"
  using assms by (auto simp: write_entry_def take_Suc_conv_app_nth)

text \<open>The last step of adding a server, once there is room.\<close>

lemma server_store_ok:
  assumes blk: "kt_servers kt = Some blk" "length blk = kt_maxservers kt" "length infos < length blk"
      "take (length infos) blk = map Some infos"
    and n: "kt_numservers kt = length infos" "kt_maxservers kt \<le> 2 * Suc (length infos)"
      "length infos < 1073741824"
    and mem: "kt_memory kt = sum_list (map si_memory infos) mod 18446744073709551616"
    and addrs: "\<forall>si \<in> set infos. length (si_addr si) \<le> 254"
  shows "\<exists>kt'. server_store kt addr port weight m = Inr (0, kt', m) \<and>
    servers_rep kt' (infos @ [new_info addr port weight]) \<and>
    server_bytes kt' = 264 * int (kt_maxservers kt) \<and> kt_continuum kt' = kt_continuum kt \<and>
    kt_numservers kt' = Suc (length infos)"
proof -
  let ?si = "new_info addr port weight"
  from write_next [OF blk(3,4), of ?si] obtain blk' where
    w: "write_entry blk (length infos) ?si = Inr blk'" "length blk' = length blk"
      "take (Suc (length infos)) blk' = map Some (infos @ [?si])" by blast
  have si: "\<lparr>si_addr = snprintf_text ADDR_SIZE (addr @ '':'' @ dec_int port), si_memory = weight\<rparr> = ?si"
    "length (si_addr ?si) \<le> 254" "si_memory ?si = weight"
    by (simp_all add: new_info_def snprintf_text_def ADDR_SIZE_def)
  have sum: "size_add (kt_memory kt) weight = (sum_list (map si_memory infos) + weight) mod 18446744073709551616"
    unfolding mem size_add_def by (rule mod_add_left_eq)
  show ?thesis unfolding server_store_def si(1) using blk n addrs w si(2,3) sum
    by (simp add: servers_rep_def server_array_def server_bytes_def)
qed

lemma Ketama_add_server_ok:
  assumes rep: "servers_rep kt infos" and ok: "allocator_ok m" and n: "length infos < 1073741824"
  shows "\<exists>kt' m'. Ketama_add_server kt addr port weight m = Inr (0, kt', m') \<and>
    servers_rep kt' (infos @ [new_info addr port weight]) \<and> allocator_ok m' \<and>
    charged m m' (server_bytes kt' - server_bytes kt) \<and> kt_continuum kt' = kt_continuum kt \<and>
    kt_numservers kt' = Suc (length infos)"
proof -
  have r: "kt_numservers kt = length infos" "length infos \<le> kt_maxservers kt" "server_array kt infos"
    "kt_maxservers kt \<le> 2 * length infos"
    "kt_memory kt = sum_list (map si_memory infos) mod 18446744073709551616"
    "\<forall>si \<in> set infos. length (si_addr si) \<le> 254"
    using rep by (simp_all add: servers_rep_def)
  have step: ?thesis
    if "Ketama_add_server kt addr port weight m = server_store kt1 addr port weight m1"
      "kt_servers kt1 = Some blk" "length blk = kt_maxservers kt1" "length infos < length blk"
      "take (length infos) blk = map Some infos" "kt_maxservers kt1 \<le> 2 * Suc (length infos)"
      "kt_numservers kt1 = kt_numservers kt" "kt_memory kt1 = kt_memory kt"
      "kt_continuum kt1 = kt_continuum kt" "allocator_ok m1"
      "charged m m1 (264 * int (kt_maxservers kt1) - server_bytes kt)" for kt1 m1 blk
    using server_store_ok [OF that(2-5), of addr port weight m1] that r n by auto
  consider (first) "kt_servers kt = None"
    | (room) blk where "kt_servers kt = Some blk" "length infos < kt_maxservers kt"
    | (grow) blk where "kt_servers kt = Some blk" "kt_maxservers kt = length infos"
    using r(2) by fastforce
  then show ?thesis
  proof cases
    case first
    with r have e: "infos = []" "kt_maxservers kt = 0" by (simp_all add: server_array_def)
    from Alloc_alloc_ok [OF ok, of 264] obtain q m1 where
      m1: "Alloc_alloc 264 m = Inr (Some q, m1)" "allocator_ok m1" "charged m m1 264" by auto
    show ?thesis
      by (rule step [of "kt\<lparr>kt_maxservers := 1, kt_servers := Some [None]\<rparr>" m1 "[None]"])
        (use first e r m1 in \<open>simp_all add: Ketama_add_server_def sizeof_serverinfo_def INIT_MAX_SERVERS_def server_bytes_def\<close>)
  next
    case room
    with r have "length blk = kt_maxservers kt" "take (length infos) blk = map Some infos"
      by (simp_all add: server_array_def)
    then show ?thesis
      by (intro step [of kt m blk])
        (use room r ok in \<open>simp_all add: Ketama_add_server_def server_bytes_def\<close>)
  next
    case grow
    let ?n = "length infos"
    from grow r have b: "infos \<noteq> []" "length blk = ?n" "take ?n blk = map Some infos"
      by (simp_all add: server_array_def)
    from n have szs: "size_mul sizeof_serverinfo (?n * 2) = 528 * ?n" "size_mul sizeof_serverinfo ?n = 264 * ?n"
      "wrap32 (int ?n) = int ?n" "?n * 2 mod 4294967296 = ?n * 2"
      by (simp_all add: sizeof_serverinfo_def wrap32_id)
    from Alloc_realloc_ok [OF ok, of "[]" "528 * ?n" "264 * ?n"] obtain q m1 where
      m1: "Alloc_realloc [] (528 * ?n) (264 * ?n) m = Inr (Some q, m1)" "allocator_ok m1"
        "charged m m1 (int (528 * ?n) - int (264 * ?n))" by auto
    show ?thesis
      by (rule step [of "kt\<lparr>kt_maxservers := ?n * 2, kt_servers := Some (blk @ replicate ?n None)\<rparr>" m1
            "blk @ replicate ?n None"])
        (use grow b r n szs m1 in \<open>simp_all add: Ketama_add_server_def Let_def server_bytes_def\<close>)
  qed
qed


section \<open>The ring\<close>

text \<open>The points the code computes, in the order in which it writes them.\<close>

definition hash_ring :: "string \<Rightarrow> nat \<Rightarrow> nat \<Rightarrow> mcs list" where
  "hash_ring addr i k =
     map (\<lambda>h. \<lparr>mc_point = digest_point (rfc_md5 (map of_char (addr @ ''-'' @ dec_nat k))) h, mc_ordinal = int i\<rparr>) [0..<4]"

definition server_ring :: "string \<Rightarrow> nat \<Rightarrow> nat \<Rightarrow> mcs list" where
  "server_ring addr ks i = concat (map (hash_ring addr i) [0..<ks])"

definition total_weight :: "serverinfo list \<Rightarrow> nat" where
  "total_weight infos = sum_list (map si_memory infos)"

definition ks_list :: "serverinfo list \<Rightarrow> nat list" where
  "ks_list infos = map (\<lambda>si. ks_of (si_memory si) (total_weight infos) (length infos)) infos"

definition ring :: "serverinfo list \<Rightarrow> mcs list" where
  "ring infos = concat (map (\<lambda>i. server_ring (si_addr (infos ! i)) (ks_list infos ! i) i) [0..<length infos])"

lemma length_server_ring [simp]: "length (server_ring addr ks i) = 4 * ks"
  by (induction ks) (simp_all add: server_ring_def hash_ring_def)

lemma length_ring: "length (ring infos) = 4 * sum_list (ks_list infos)"
proof -
  have "length (ring infos) = (\<Sum>i\<leftarrow>[0..<length (ks_list infos)]. 4 * (ks_list infos ! i))"
    by (simp add: ring_def length_concat comp_def ks_list_def)
  also have "\<dots> = 4 * (\<Sum>i\<leftarrow>[0..<length (ks_list infos)]. ks_list infos ! i)"
    by (rule sum_list_const_mult)
  also have "map ((!) (ks_list infos)) [0..<length (ks_list infos)] = ks_list infos" by (rule map_nth)
  finally show ?thesis .
qed

lemma ring_ordinals: "e \<in> set (ring infos) \<Longrightarrow> 0 \<le> mc_ordinal e \<and> mc_ordinal e < int (length infos)"
  by (auto simp: ring_def server_ring_def hash_ring_def)

lemma weight_le_total: "si \<in> set infos \<Longrightarrow> si_memory si \<le> total_weight infos"
  by (simp add: total_weight_def member_le_sum_list)

lemma ring_fits:
  assumes "0 < total_weight infos" "length infos \<le> 65536"
  shows "length (ring infos) \<le> 160 * length infos"
proof -
  have "sum_list (ks_list infos) \<le> 40 * length infos"
    using sum_ks_le [of "map si_memory infos" "length infos"] assms
    by (simp add: ks_list_def total_weight_def comp_def)
  then show ?thesis by (simp add: length_ring)
qed

lemma ring_nonempty:
  assumes "0 < total_weight infos" "length infos \<le> 65536"
  shows "ring infos \<noteq> []"
proof -
  have "map si_memory infos \<noteq> []" using assms(1) by (auto simp: total_weight_def)
  from heavy_server [OF this] obtain i where i: "i < length infos"
    "total_weight infos \<le> length infos * si_memory (infos ! i)" by (auto simp: total_weight_def)
  have "39 \<le> ks_list infos ! i"
    using heavy_ks [OF assms(1) i(2) _ assms(2)] weight_le_total [of "infos ! i" infos] i(1)
    by (simp add: ks_list_def)
  moreover have "ks_list infos ! i \<le> sum_list (ks_list infos)"
    using i(1) by (intro member_le_sum_list) (simp_all add: ks_list_def)
  ultimately have "0 < length (ring infos)" by (simp only: length_ring)
  then show ?thesis by simp
qed

section \<open>Building the ring\<close>

text \<open>The array while it is being filled.\<close>

definition filled :: "nat \<Rightarrow> mcs list \<Rightarrow> mcs option list \<times> nat" where
  "filled N pts = (map Some pts @ replicate (N - length pts) None, length pts)"

lemma foldE_filled:
  assumes "\<And>x pts. x \<in> set xs \<Longrightarrow> length pts + length (g x) \<le> N \<Longrightarrow> f x (filled N pts) = Inr (filled N (pts @ g x))"
  shows "length pts + length (concat (map g xs)) \<le> N \<Longrightarrow>
    foldE f xs (filled N pts) = Inr (filled N (pts @ concat (map g xs)))"
  using assms
proof (induction xs arbitrary: pts)
  case (Cons x xs)
  have "f x (filled N pts) = Inr (filled N (pts @ g x))" using Cons.prems by simp
  moreover have "foldE f xs (filled N (pts @ g x)) = Inr (filled N ((pts @ g x) @ concat (map g xs)))"
    using Cons.prems by (intro Cons.IH) simp_all
  ultimately show ?case by simp
qed simp

lemma store_point_filled:
  assumes "length pts + 1 \<le> N" "N < 4294967296"
  shows "store_point d i h (filled N pts) =
    Inr (filled N (pts @ [\<lparr>mc_point = digest_point d h, mc_ordinal = i\<rparr>]))"
proof -
  have "replicate (N - length pts) None = None # replicate (N - Suc (length pts)) (None :: mcs option)"
    using assms(1) by (metis Suc_diff_le Suc_eq_plus1 diff_Suc_Suc replicate_Suc)
  moreover have "(map Some pts @ None # xs)[length pts := Some e] = map Some pts @ Some e # xs" for xs and e :: mcs
    using list_update_length [of "map Some pts" None xs "Some e"] by simp
  ultimately show ?thesis using assms by (simp add: store_point_def filled_def write_entry_def)
qed

lemma hash_points_filled:
  assumes stk: "length stk = 64" and "length addr \<le> 254" and k: "k < 2621442"
    and N: "length pts + length (hash_ring addr i k) \<le> N" "N < 4294967296"
  shows "hash_points stk addr (int i) k (filled N pts) = Inr (filled N (pts @ hash_ring addr i k))"
proof -
  let ?text = "addr @ ''-'' @ dec_nat k"
  have len: "length ?text \<le> 265" using assms(2) k length_dec_nat [of k 9] by simp
  have k': "dec_int (wrap32 (int k)) = dec_nat k" using k by (simp add: wrap32_id)
  have digest: "Ketama_md5_digest stk ?text (length ?text) = Inr (rfc_md5 (map of_char ?text))"
    using Ketama_md5_digest_ok [OF stk order_refl, of ?text] len by simp
  have "foldE (store_point d (int i)) [0..<4] (filled N pts) =
      Inr (filled N (pts @ concat (map (\<lambda>h. [\<lparr>mc_point = digest_point d h, mc_ordinal = int i\<rparr>]) [0..<4])))" for d
    using N by (intro foldE_filled store_point_filled) (simp_all add: hash_ring_def)
  then show ?thesis unfolding hash_points_def Let_def k' using digest len
    by (simp add: snprintf_text_def ADDR_SIZE_def hash_ring_def)
qed

lemma server_points_filled:
  assumes rep: "servers_rep kt infos" and stk: "length stk = 64" and i: "i < length infos"
    and w: "0 < total_weight infos" "total_weight infos < 18446744073709551616" "length infos \<le> 65536"
    and N: "length pts + length (server_ring (si_addr (infos ! i)) (ks_list infos ! i) i) \<le> N" "N < 4294967296"
  shows "server_points stk kt i (filled N pts) =
    Inr (filled N (pts @ server_ring (si_addr (infos ! i)) (ks_list infos ! i) i))"
proof -
  let ?si = "infos ! i"
  have si: "?si \<in> set infos" using i by simp
  from read_server [OF rep i] obtain blk where
    blk: "kt_servers kt = Some blk" "read_entry blk (int i) = Inr ?si" by blast
  have kt: "kt_memory kt = total_weight infos" "kt_numservers kt = length infos" "length (si_addr ?si) \<le> 254"
    using rep w si by (simp_all add: servers_rep_def total_weight_def)
  have ks: "server_ks (si_memory ?si) (total_weight infos) (length infos) = Inr (ks_list infos ! i)"
    "ks_list infos ! i < 2621442"
    using server_ks_ok ks_of_less w i weight_le_total [OF si] by (simp_all add: ks_list_def)
  have "foldE (hash_points stk (si_addr ?si) (int i)) [0..<ks_list infos ! i] (filled N pts) =
      Inr (filled N (pts @ concat (map (hash_ring (si_addr ?si) i) [0..<ks_list infos ! i])))"
    using N ks(2) kt(3) stk by (intro foldE_filled hash_points_filled) (simp_all add: server_ring_def)
  then show ?thesis by (simp add: server_points_def blk kt ks server_ring_def)
qed

lemma all_points_filled:
  assumes rep: "servers_rep kt infos" and stk: "length stk = 64"
    and w: "0 < total_weight infos" "total_weight infos < 18446744073709551616" "length infos \<le> 65536"
  shows "foldE (server_points stk kt) [0..<length infos] (replicate (length infos * 160) None, 0) =
    Inr (filled (160 * length infos) (ring infos))"
proof -
  have "foldE (server_points stk kt) [0..<length infos] (filled (160 * length infos) []) =
      Inr (filled (160 * length infos) ([] @ ring infos))"
    unfolding ring_def
    by (intro foldE_filled server_points_filled)
      (use assms ring_fits [OF w(1,3)] in \<open>simp_all add: ring_def\<close>)
  then show ?thesis by (simp add: filled_def mult.commute)
qed


section \<open>Sorting\<close>

text \<open>
  What the C standard says of \<open>qsort\<close>: for a comparison that is a total preorder the result is a
  permutation in ascending order.  \<open>demo_qsort\<close>, an insertion sort, is one such function.
\<close>

definition total_preorder :: "('a \<Rightarrow> 'a \<Rightarrow> int) \<Rightarrow> bool" where
  "total_preorder cmp \<longleftrightarrow> (\<forall>a b. cmp a b \<le> 0 \<or> cmp b a \<le> 0) \<and>
     (\<forall>a b c. cmp a b \<le> 0 \<longrightarrow> cmp b c \<le> 0 \<longrightarrow> cmp a c \<le> 0)"

definition qsort_ok :: "(('a \<Rightarrow> 'a \<Rightarrow> int) \<Rightarrow> 'a list \<Rightarrow> 'a list) \<Rightarrow> bool" where
  "qsort_ok qsort \<longleftrightarrow> (\<forall>cmp xs. total_preorder cmp \<longrightarrow>
     mset (qsort cmp xs) = mset xs \<and> sorted_wrt (\<lambda>a b. cmp a b \<le> 0) (qsort cmp xs))"

fun demo_insert :: "('a \<Rightarrow> 'a \<Rightarrow> int) \<Rightarrow> 'a \<Rightarrow> 'a list \<Rightarrow> 'a list" where
  "demo_insert cmp x [] = [x]"
| "demo_insert cmp x (y # ys) = (if cmp x y \<le> 0 then x # y # ys else y # demo_insert cmp x ys)"

definition demo_qsort :: "('a \<Rightarrow> 'a \<Rightarrow> int) \<Rightarrow> 'a list \<Rightarrow> 'a list" where
  "demo_qsort cmp xs = foldr (demo_insert cmp) xs []"

lemma demo_insert_mset: "mset (demo_insert cmp x ys) = add_mset x (mset ys)"
  by (induction ys) auto

lemma demo_insert_sorted:
  assumes "total_preorder cmp"
  shows "sorted_wrt (\<lambda>a b. cmp a b \<le> 0) ys \<Longrightarrow> sorted_wrt (\<lambda>a b. cmp a b \<le> 0) (demo_insert cmp x ys)"
proof (induction ys)
  case (Cons y ys)
  have set_ins: "set (demo_insert cmp x ys) = insert x (set ys)"
    using demo_insert_mset [of cmp x ys] by (metis set_mset_add_mset_insert set_mset_mset)
  show ?case
  proof (cases "cmp x y \<le> 0")
    case True
    then have "\<forall>z \<in> set ys. cmp x z \<le> 0" using assms Cons.prems unfolding total_preorder_def by auto
    with True Cons.prems show ?thesis by simp
  next
    case False
    then have "cmp y x \<le> 0" using assms unfolding total_preorder_def by blast
    with False Cons show ?thesis by (auto simp: set_ins)
  qed
qed simp

lemma demo_qsort_ok: "qsort_ok demo_qsort"
proof -
  have "mset (demo_qsort cmp xs) = mset xs" for cmp and xs :: "'a list"
    by (induction xs) (simp_all add: demo_qsort_def demo_insert_mset)
  moreover have "sorted_wrt (\<lambda>a b. cmp a b \<le> 0) (demo_qsort cmp xs)" if "total_preorder cmp" for cmp and xs :: "'a list"
    using that by (induction xs) (simp_all add: demo_qsort_def demo_insert_sorted)
  ultimately show ?thesis by (simp add: qsort_ok_def)
qed

lemma Ketama_compare_preorder: "total_preorder Ketama_compare"
  by (auto simp: total_preorder_def Ketama_compare_def)

lemma qsort_points:
  assumes "qsort_ok qsort"
  shows "mset (qsort Ketama_compare pts) = mset pts" "sorted (map mc_point (qsort Ketama_compare pts))"
proof -
  let ?xs = "qsort Ketama_compare pts"
  have *: "mset ?xs = mset pts \<and> sorted_wrt (\<lambda>a b. Ketama_compare a b \<le> 0) ?xs"
    using assms Ketama_compare_preorder by (simp add: qsort_ok_def)
  then show "mset ?xs = mset pts" by simp
  have "(\<lambda>a b. Ketama_compare a b \<le> 0) = (\<lambda>a b. mc_point a \<le> mc_point b)"
    by (auto simp: Ketama_compare_def fun_eq_iff)
  with * show "sorted (map mc_point ?xs)" by (simp add: sorted_map)
qed

section \<open>The continuum\<close>

text \<open>\<open>ring_rep kt pts\<close>: the continuum is there, sorted, and holds the points \<open>pts\<close>.\<close>

definition ring_rep :: "ketama \<Rightarrow> mcs list \<Rightarrow> bool" where
  "ring_rep kt pts \<longleftrightarrow> (\<exists>xs rest. kt_continuum kt = Some (map Some xs @ rest) \<and>
     kt_numpoints kt = int (length xs) \<and> sorted (map mc_point xs) \<and> mset xs = mset pts)"

lemma Ketama_create_continuum_rep:
  assumes rep: "servers_rep kt infos" "kt_continuum kt = None" and ok: "allocator_ok m"
    and q: "qsort_ok qsort" and stk: "length stk = 64"
    and w: "0 < total_weight infos" "total_weight infos < 18446744073709551616" "length infos \<le> 65536"
  shows "\<exists>kt' m'. Ketama_create_continuum qsort stk kt m = Inr (kt', m') \<and>
    servers_rep kt' infos \<and> ring_rep kt' (ring infos) \<and> allocator_ok m' \<and>
    charged m m' (ring_bytes kt') \<and> ring_bytes kt' = 1280 * int (length infos) \<and>
    server_bytes kt' = server_bytes kt"
proof -
  let ?n = "length infos" and ?xs = "qsort Ketama_compare (ring infos)"
  have n: "kt_numservers kt = ?n" "?n \<noteq> 0" using rep(1) w(1) by (auto simp: servers_rep_def total_weight_def)
  have sz: "size_mul (size_mul ?n sizeof_mcs) 160 = 1280 * ?n" using w(3) by (simp add: sizeof_mcs_def)
  from Alloc_alloc_ok [OF ok, of "1280 * ?n"] obtain blk m1 where
    m1: "Alloc_alloc (1280 * ?n) m = Inr (Some blk, m1)" "allocator_ok m1" "charged m m1 (int (1280 * ?n))" by auto
  have fits: "length (ring infos) \<le> 160 * ?n" by (rule ring_fits [OF w(1,3)])
  have sorted: "sort_points qsort (map Some (ring infos) @ replicate (160 * ?n - length (ring infos)) None)
      (length (ring infos)) = Inr (map Some ?xs @ replicate (160 * ?n - length (ring infos)) None)"
    by (simp add: sort_points_def comp_def)
  have len: "length ?xs = length (ring infos)" using qsort_points(1) [OF q] by (metis size_mset)
  have "wrap32 (int (length (ring infos))) = int (length ?xs)" using fits w(3) len by (simp add: wrap32_id)
  with all_points_filled [OF rep(1) stk w] m1 n sz rep sorted qsort_points [OF q, of "ring infos"]
  show ?thesis
    by (auto simp: Ketama_create_continuum_def filled_def servers_rep_def server_array_def ring_rep_def
        ring_bytes_def server_bytes_def split: option.splits)
qed

text \<open>\<open>next_on_circle h pts e\<close>: \<open>e\<close> is the point of the circle to which the hash \<open>h\<close> belongs.\<close>

definition next_on_circle :: "word32 \<Rightarrow> mcs list \<Rightarrow> mcs \<Rightarrow> bool" where
  "next_on_circle h pts e \<longleftrightarrow> e \<in> set pts \<and>
     (if \<exists>x \<in> set pts. h \<le> mc_point x
      then h \<le> mc_point e \<and> (\<forall>x \<in> set pts. h \<le> mc_point x \<longrightarrow> mc_point e \<le> mc_point x)
      else \<forall>x \<in> set pts. mc_point e \<le> mc_point x)"

lemma succ_index_next:
  assumes "sorted (map mc_point xs)" "xs \<noteq> []"
  shows "next_on_circle h xs (xs ! succ_index (map mc_point xs) h)"
proof -
  define j where "j = length (takeWhile (\<lambda>p. p < h) (map mc_point xs))"
  have below: "mc_point (xs ! i) < h \<longleftrightarrow> i < j" if "i < length xs" for i
    using takeWhile_sorted_less [OF assms(1), of i h] that by (simp add: j_def)
  have mono: "mc_point (xs ! a) \<le> mc_point (xs ! b)" if "a \<le> b" "b < length xs" for a b
    using sorted_nth_mono [OF assms(1), of a b] that by simp
  have idx: "succ_index (map mc_point xs) h = (if j < length xs then j else 0)"
    by (simp add: succ_index_def j_def Let_def)
  show ?thesis
  proof (cases "j < length xs")
    case True
    have e: "h \<le> mc_point (xs ! j)" using below [OF True] by simp
    have "mc_point (xs ! j) \<le> mc_point x" if "x \<in> set xs" "h \<le> mc_point x" for x
    proof -
      from that(1) obtain i where i: "i < length xs" "x = xs ! i" by (auto simp: in_set_conv_nth)
      with below that(2) have "j \<le> i" by (metis not_less)
      then show ?thesis using mono i by simp
    qed
    with True e show ?thesis by (auto simp: next_on_circle_def idx)
  next
    case False
    then have "mc_point x < h" if "x \<in> set xs" for x
      using that below by (auto simp: in_set_conv_nth)
    then have "\<not> (\<exists>x \<in> set xs. h \<le> mc_point x)" by (meson not_less)
    moreover have "mc_point (xs ! 0) \<le> mc_point x" if "x \<in> set xs" for x
      using that mono by (auto simp: in_set_conv_nth)
    ultimately show ?thesis using False assms(2) by (auto simp: next_on_circle_def idx)
  qed
qed

lemma Ketama_get_server_ordinal_next:
  assumes "ring_rep kt pts" "pts \<noteq> []" "length pts < 1073741824"
    and "length stk = 64" "length key < 2147483584"
  shows "\<exists>e. Ketama_get_server_ordinal stk kt key (length key) = Inr (mc_ordinal e) \<and>
    next_on_circle (key_point key) pts e"
proof -
  from assms(1) obtain xs rest where xs: "kt_continuum kt = Some (map Some xs @ rest)"
      "kt_numpoints kt = int (length xs)" "sorted (map mc_point xs)" "mset xs = mset pts"
    by (auto simp: ring_rep_def)
  have same: "set xs = set pts" "length xs = length pts" using xs(4) by (metis set_mset_mset, metis size_mset)
  then have ne: "xs \<noteq> []" "length xs < 1073741824" using assms by auto
  let ?j = "length (takeWhile (\<lambda>p. p < key_point key) (map mc_point xs))"
  have "?j \<le> length xs" using length_takeWhile_le [of _ "map mc_point xs"] by simp
  then have "search_points (map Some xs @ rest) (int (length xs)) (key_point key) 0 (int (length xs)) =
      Inr (mc_ordinal (xs ! succ_index (map mc_point xs) (key_point key)))"
    using search_points_ok [OF ne xs(3) refl, of 0 "key_point key" "int (length xs)" rest] by simp
  moreover have "next_on_circle (key_point key) pts (xs ! succ_index (map mc_point xs) (key_point key))"
    using succ_index_next [OF xs(3) ne(1)] by (simp add: next_on_circle_def same)
  ultimately show ?thesis using xs assms(4,5)
    by (auto simp: Ketama_get_server_ordinal_def Ketama_hashi_ok)
qed


lemma Ketama_free_ok:
  assumes "allocator_ok m" "kt_numservers kt < 4294967296" "kt_maxservers kt < 4294967296"
  shows "\<exists>m'. Ketama_free kt m = Inr m' \<and> allocator_ok m' \<and>
    charged m m' (- (ring_bytes kt) - server_bytes kt - 40)"
proof -
  have sz: "size_mul (size_mul (kt_numservers kt) sizeof_mcs) 160 = 1280 * kt_numservers kt"
    "size_mul (kt_maxservers kt) sizeof_serverinfo = 264 * kt_maxservers kt"
    using assms by (simp_all add: sizeof_mcs_def sizeof_serverinfo_def)
  obtain m1 where m1: "(if kt_continuum kt \<noteq> None then Alloc_free (1280 * kt_numservers kt) m else Inr m) = Inr m1"
      "allocator_ok m1" "charged m m1 (- ring_bytes kt)"
    using Alloc_free_ok [OF assms(1), of "1280 * kt_numservers kt"] assms(1)
    by (cases "kt_continuum kt") (auto simp: ring_bytes_def)
  obtain m2 where m2: "(if kt_servers kt \<noteq> None then Alloc_free (264 * kt_maxservers kt) m1 else Inr m1) = Inr m2"
      "allocator_ok m2" "charged m1 m2 (- server_bytes kt)"
    using Alloc_free_ok [OF m1(2), of "264 * kt_maxservers kt"] m1(2)
    by (cases "kt_servers kt") (auto simp: server_bytes_def)
  from Alloc_free_ok [OF m2(2), of 40] obtain m3 where
    m3: "Alloc_free 40 m2 = Inr m3" "allocator_ok m3" "charged m2 m3 (- 40)" by auto
  have "charged m m3 (- (ring_bytes kt) - server_bytes kt - 40)"
    using charged_trans [OF charged_trans [OF m1(3) m2(3)] m3(3)] by simp
  then show ?thesis using m1 m2 m3 unfolding Ketama_free_def sz by (simp add: sizeof_Ketama_def)
qed

section \<open>A client's session\<close>

text \<open>What \<open>test.c\<close> and the PHP extension do: create an object and add the servers one by one.\<close>

type_synonym server_spec = "string \<times> int \<times> nat"

definition add_one ::
    "server_spec \<Rightarrow> ketama \<times> 'a module_scheme \<Rightarrow> (ketama \<times> 'a module_scheme) res" where
  "add_one s km = (case s of (addr, port, weight) \<Rightarrow> case km of (kt, m) \<Rightarrow>
     bindE (Ketama_add_server kt addr port weight m) (\<lambda>(_, kt', m'). Inr (kt', m')))"

definition Ketama_setup :: "server_spec list \<Rightarrow> 'a module_scheme \<Rightarrow> (ketama \<times> 'a module_scheme) res" where
  "Ketama_setup specs m = bindE (Ketama_new m) (foldE add_one specs)"

definition spec_info :: "server_spec \<Rightarrow> serverinfo" where
  "spec_info s = (case s of (addr, port, weight) \<Rightarrow> new_info addr port weight)"

abbreviation infos_of :: "server_spec list \<Rightarrow> serverinfo list" where
  "infos_of specs \<equiv> map spec_info specs"

definition spec_weight :: "server_spec list \<Rightarrow> nat" where
  "spec_weight specs = (\<Sum>(addr, port, weight)\<leftarrow>specs. weight)"

lemma total_weight_infos [simp]: "total_weight (infos_of specs) = spec_weight specs"
  by (simp add: total_weight_def spec_weight_def spec_info_def new_info_def comp_def case_prod_unfold)

lemma add_all_ok:
  assumes "servers_rep kt infos" "kt_continuum kt = None" "allocator_ok m"
    "length infos + length specs \<le> 1073741824"
  shows "\<exists>kt' m'. foldE add_one specs (kt, m) = Inr (kt', m') \<and> servers_rep kt' (infos @ infos_of specs) \<and>
    kt_continuum kt' = None \<and> allocator_ok m' \<and> charged m m' (server_bytes kt' - server_bytes kt)"
  using assms
proof (induction specs arbitrary: kt m infos)
  case (Cons s specs)
  obtain addr port weight where s: "s = (addr, port, weight)" by (cases s)
  from Cons.prems Ketama_add_server_ok [of kt infos m addr port weight] obtain kt1 m1 where
    kt1: "Ketama_add_server kt addr port weight m = Inr (0, kt1, m1)"
      "servers_rep kt1 (infos @ [new_info addr port weight])" "allocator_ok m1" "kt_continuum kt1 = None"
      "charged m m1 (server_bytes kt1 - server_bytes kt)" by auto
  from Cons.IH [OF kt1(2,4,3)] Cons.prems(4) obtain kt' m' where
    kt': "foldE add_one specs (kt1, m1) = Inr (kt', m')"
      "servers_rep kt' ((infos @ [new_info addr port weight]) @ infos_of specs)"
      "kt_continuum kt' = None" "allocator_ok m'" "charged m1 m' (server_bytes kt' - server_bytes kt1)" by auto
  from charged_trans [OF kt1(5) kt'(5)] have "charged m m' (server_bytes kt' - server_bytes kt)" by simp
  moreover have "add_one s (kt, m) = Inr (kt1, m1)" "spec_info s = new_info addr port weight"
    by (simp_all add: s add_one_def kt1(1) spec_info_def)
  ultimately show ?case using kt' by simp
qed simp

lemma Ketama_setup_ok:
  assumes "allocator_ok m" "length specs \<le> 1073741824"
  shows "\<exists>kt m'. Ketama_setup specs m = Inr (kt, m') \<and> servers_rep kt (infos_of specs) \<and>
    kt_continuum kt = None \<and> allocator_ok m' \<and> charged m m' (server_bytes kt + 40)"
proof -
  from Ketama_new_ok [OF assms(1)] obtain kt0 m0 where
    n: "Ketama_new m = Inr (kt0, m0)" "servers_rep kt0 []" "kt_continuum kt0 = None" "allocator_ok m0" "charged m m0 40"
    by blast
  from add_all_ok [OF n(2,3,4), of specs] assms(2) obtain kt m' where
    a: "foldE add_one specs (kt0, m0) = Inr (kt, m')" "servers_rep kt (infos_of specs)"
      "kt_continuum kt = None" "allocator_ok m'" "charged m0 m' (server_bytes kt - server_bytes kt0)" by auto
  have "server_bytes kt0 = 0" using n(2) by (auto simp: servers_rep_def server_array_def server_bytes_def split: option.splits)
  with charged_trans [OF n(5) a(5)] have "charged m m' (server_bytes kt + 40)" by (simp add: add.commute)
  with a n(1) show ?thesis by (simp add: Ketama_setup_def)
qed

text \<open>The weights for which the continuum is defined: not all zero, and their sum does not wrap.\<close>

definition weights_ok :: "server_spec list \<Rightarrow> bool" where
  "weights_ok specs \<longleftrightarrow> 0 < spec_weight specs \<and> spec_weight specs < 18446744073709551616 \<and> length specs \<le> 65536"

lemma Ketama_ring_ok:
  assumes "allocator_ok m" "qsort_ok qsort" "length stk = 64" "weights_ok specs"
  shows "\<exists>kt m1 kt' m'. Ketama_setup specs m = Inr (kt, m1) \<and>
    Ketama_create_continuum qsort stk kt m1 = Inr (kt', m') \<and>
    servers_rep kt' (infos_of specs) \<and> ring_rep kt' (ring (infos_of specs)) \<and> allocator_ok m' \<and>
    charged m m' (ring_bytes kt' + server_bytes kt' + 40) \<and> ring_bytes kt' = 1280 * int (length specs)"
proof -
  from assms Ketama_setup_ok [of m specs] obtain kt m1 where
    s: "Ketama_setup specs m = Inr (kt, m1)" "servers_rep kt (infos_of specs)" "kt_continuum kt = None"
      "allocator_ok m1" "charged m m1 (server_bytes kt + 40)" by (auto simp: weights_ok_def)
  from Ketama_create_continuum_rep [OF s(2-4) assms(2,3)] assms(4) obtain kt' m' where
    c: "Ketama_create_continuum qsort stk kt m1 = Inr (kt', m')" "servers_rep kt' (infos_of specs)"
      "ring_rep kt' (ring (infos_of specs))" "allocator_ok m'" "charged m1 m' (ring_bytes kt')"
      "ring_bytes kt' = 1280 * int (length specs)" "server_bytes kt' = server_bytes kt"
    by (auto simp: weights_ok_def)
  from charged_trans [OF s(5) c(5)] c(7) have "charged m m' (ring_bytes kt' + server_bytes kt' + 40)"
    by (simp add: algebra_simps)
  with s c show ?thesis by blast
qed

lemma server_ring_count:
  assumes "i < length infos"
  shows "length (filter (\<lambda>e. mc_ordinal e = int i) (ring infos)) = 4 * ks_list infos ! i"
proof -
  let ?g = "\<lambda>k. server_ring (si_addr (infos ! k)) (ks_list infos ! k) k"
  have ord: "mc_ordinal e = int k" if "e \<in> set (?g k)" for e k
    using that by (auto simp: server_ring_def hash_ring_def)
  have one: "filter (\<lambda>e. mc_ordinal e = int i) (?g k) = (if k = i then ?g k else [])" for k
    using ord by (auto simp: filter_empty_conv filter_id_conv)
  have "filter (\<lambda>e. mc_ordinal e = int i) (ring infos) = concat (map (\<lambda>k. if k = i then ?g k else []) [0..<length infos])"
    unfolding ring_def filter_concat map_map comp_def one ..
  also have "length \<dots> = (\<Sum>k\<leftarrow>[0..<length infos]. if k = i then length (?g k) else 0)"
    by (simp add: length_concat comp_def if_distrib cong: if_cong)
  also have "\<dots> = 4 * ks_list infos ! i"
    using assms by (simp add: interv_sum_list_conv_sum_set_nat)
  finally show ?thesis .
qed


section \<open>Properties\<close>

lemma ring_rep_length:
  assumes "weights_ok specs"
  shows "ring (infos_of specs) \<noteq> []" "length (ring (infos_of specs)) \<le> 160 * length specs"
    "length (ring (infos_of specs)) < 1073741824"
proof -
  show *: "ring (infos_of specs) \<noteq> []" "length (ring (infos_of specs)) \<le> 160 * length specs"
    using assms ring_nonempty [of "infos_of specs"] ring_fits [of "infos_of specs"] by (simp_all add: weights_ok_def)
  show "length (ring (infos_of specs)) < 1073741824" using *(2) assms by (simp add: weights_ok_def)
qed

text \<open>Three servers, the first without weight.\<close>

definition demo_specs :: "server_spec list" where
  "demo_specs = [(''a'', 6379, 0), (''b'', 6379, 5), (''c'', 6380, 10)]"

lemma demo_length: "length demo_specs = 3" "length ''foo'' = 3"
  by (simp_all add: demo_specs_def)

lemma demo_weights_ok: "weights_ok demo_specs"
  by (simp add: weights_ok_def demo_specs_def spec_weight_def)

text \<open>
  C10: consistent hashing.  After the servers have been added and the continuum was created, looking
  up any key returns without a fault the ordinal of the server that owns the next point on the
  circle: the smallest point not below the key's hash, or the smallest point of all.  The ordinal
  is valid and its address is the one the server was added with.
\<close>

theorem Ketama_lookup_next_server:
  assumes "allocator_ok m" "qsort_ok qsort" "length stk = 64" "length stk' = 64" "weights_ok specs"
    and "length key < 2147483584"
  shows "\<exists>kt m1 kt' m' e. Ketama_setup specs m = Inr (kt, m1) \<and>
    Ketama_create_continuum qsort stk kt m1 = Inr (kt', m') \<and>
    next_on_circle (key_point key) (ring (infos_of specs)) e \<and>
    Ketama_get_server_ordinal stk' kt' key (length key) = Inr (mc_ordinal e) \<and>
    0 \<le> mc_ordinal e \<and> mc_ordinal e < int (length specs) \<and>
    Ketama_get_server_address kt' (mc_ordinal e) = Inr (si_addr (spec_info (specs ! nat (mc_ordinal e))))"
proof -
  from Ketama_ring_ok [OF assms(1-3,5)] obtain kt m1 kt' m' where
    k: "Ketama_setup specs m = Inr (kt, m1)" "Ketama_create_continuum qsort stk kt m1 = Inr (kt', m')"
      "servers_rep kt' (infos_of specs)" "ring_rep kt' (ring (infos_of specs))" by blast
  from Ketama_get_server_ordinal_next [OF k(4) ring_rep_length(1,3) [OF assms(5)] assms(4,6)] obtain e where
    e: "Ketama_get_server_ordinal stk' kt' key (length key) = Inr (mc_ordinal e)"
      "next_on_circle (key_point key) (ring (infos_of specs)) e" by blast
  from e(2) ring_ordinals [of e "infos_of specs"] have "0 \<le> mc_ordinal e" "mc_ordinal e < int (length specs)"
    by (auto simp: next_on_circle_def)
  with k e show ?thesis by (auto simp: Ketama_get_server_address_ok nat_less_iff)
qed

theorem Ketama_lookup_next_server_witness:
  "\<exists>kt m1 kt' m' e. Ketama_setup demo_specs demo_module = Inr (kt, m1) \<and>
    Ketama_create_continuum demo_qsort (replicate 64 0) kt m1 = Inr (kt', m') \<and>
    next_on_circle (key_point ''foo'') (ring (infos_of demo_specs)) e \<and>
    Ketama_get_server_ordinal (replicate 64 1) kt' ''foo'' 3 = Inr (mc_ordinal e) \<and>
    0 \<le> mc_ordinal e \<and> mc_ordinal e < 3 \<and>
    Ketama_get_server_address kt' (mc_ordinal e) = Inr (si_addr (spec_info (demo_specs ! nat (mc_ordinal e))))"
  using Ketama_lookup_next_server [OF demo_allocator_ok demo_qsort_ok _ _ demo_weights_ok,
      of "replicate 64 0" "replicate 64 1" "''foo''"]
  unfolding demo_length by simp

text \<open>
  C17: the continuum fits into its block.  Despite the rounding of all floating-point steps the
  points of all servers together never exceed the 160 per server that were allocated, for up to
  65536 servers and any weights; the block ends up holding exactly the computed points, in
  ascending order, and there is at least one.
\<close>

theorem Ketama_create_continuum_fits:
  assumes "allocator_ok m" "qsort_ok qsort" "length stk = 64" "weights_ok specs"
  shows "\<exists>kt m1 kt' m' xs rest. Ketama_setup specs m = Inr (kt, m1) \<and>
    Ketama_create_continuum qsort stk kt m1 = Inr (kt', m') \<and>
    kt_continuum kt' = Some (map Some xs @ rest) \<and> kt_numpoints kt' = int (length xs) \<and>
    0 < length xs \<and> length xs \<le> 160 * length specs \<and>
    sorted (map mc_point xs) \<and> mset xs = mset (ring (infos_of specs))"
proof -
  from Ketama_ring_ok [OF assms] obtain kt m1 kt' m' where
    k: "Ketama_setup specs m = Inr (kt, m1)" "Ketama_create_continuum qsort stk kt m1 = Inr (kt', m')"
      "ring_rep kt' (ring (infos_of specs))" by blast
  from k(3) obtain xs rest where xs: "kt_continuum kt' = Some (map Some xs @ rest)"
      "kt_numpoints kt' = int (length xs)" "sorted (map mc_point xs)" "mset xs = mset (ring (infos_of specs))"
    by (auto simp: ring_rep_def)
  have "length xs = length (ring (infos_of specs))" using xs(4) by (metis size_mset)
  with ring_rep_length [OF assms(4)] have "0 < length xs" "length xs \<le> 160 * length specs" by auto
  with k xs show ?thesis by blast
qed

theorem Ketama_create_continuum_fits_witness:
  "\<exists>kt m1 kt' m' xs rest. Ketama_setup demo_specs demo_module = Inr (kt, m1) \<and>
    Ketama_create_continuum demo_qsort (replicate 64 0) kt m1 = Inr (kt', m') \<and>
    kt_continuum kt' = Some (map Some xs @ rest) \<and> kt_numpoints kt' = int (length xs) \<and>
    0 < length xs \<and> length xs \<le> 480 \<and> sorted (map mc_point xs) \<and> mset xs = mset (ring (infos_of demo_specs))"
  using Ketama_create_continuum_fits [OF demo_allocator_ok demo_qsort_ok _ demo_weights_ok, of "replicate 64 0"]
  unfolding demo_length by simp

text \<open>
  C27: servers get points in proportion to their weight.  The number of points of server \<open>i\<close> is
  four times a whole number that differs by less than 2 from forty times the number of servers times
  the share of its weight in the total, rounding included.
\<close>

theorem Ketama_points_proportional:
  assumes "weights_ok specs" "i < length specs"
  shows "\<exists>ks. server_ks (si_memory (spec_info (specs ! i))) (spec_weight specs) (length specs) = Inr ks \<and>
    length (filter (\<lambda>e. mc_ordinal e = int i) (ring (infos_of specs))) = 4 * ks \<and>
    \<bar>of_nat ks - exact_share (si_memory (spec_info (specs ! i))) (spec_weight specs) (length specs)\<bar> < 2"
proof -
  let ?w = "si_memory (spec_info (specs ! i))" and ?t = "spec_weight specs" and ?n = "length specs"
  have w: "?w \<le> ?t" "0 < ?t" "?n \<le> 65536"
    using weight_le_total [of "spec_info (specs ! i)" "infos_of specs"] assms by (auto simp: weights_ok_def)
  have ks: "ks_list (infos_of specs) ! i = ks_of ?w ?t ?n" using assms(2) by (simp add: ks_list_def)
  have "exact_share ?w ?t ?n * ks_error \<le> 40 * of_nat ?n * ks_error"
    using exact_share_bound [OF w(1,2)] by (rule mult_right_mono) (simp add: ks_error_def)
  also have "\<dots> \<le> 40 * 65536 * ks_error"
    using w(3) by (intro mult_right_mono) (simp_all add: ks_error_def)
  finally have "exact_share ?w ?t ?n * ks_error < 1" by (simp add: ks_error_def)
  with ks_of_bounds [OF w(2), of ?w ?n] have "\<bar>of_nat (ks_of ?w ?t ?n) - exact_share ?w ?t ?n\<bar> < 2"
    by (simp add: algebra_simps abs_less_iff)
  with server_ring_count [of i "infos_of specs"] assms(2) server_ks_ok [OF w(2,1,3)] show ?thesis
    by (simp add: ks)
qed

theorem Ketama_points_proportional_witness:
  "\<exists>ks. server_ks 10 15 3 = Inr ks \<and>
    length (filter (\<lambda>e. mc_ordinal e = 2) (ring (infos_of demo_specs))) = 4 * ks \<and>
    \<bar>of_nat ks - (80 :: rat)\<bar> < 2"
proof -
  have "si_memory (spec_info (demo_specs ! 2)) = 10" "spec_weight demo_specs = 15"
    by (simp_all add: demo_specs_def spec_weight_def spec_info_def new_info_def)
  with Ketama_points_proportional [OF demo_weights_ok, of 2] show ?thesis
    unfolding demo_length by (simp add: exact_share_def)
qed

text \<open>
  C28: no memory of the hash table is lost.  Creating an object, adding servers (which doubles the
  server array as it grows), creating the continuum and freeing the object leaves
  \<open>Module_get_allocated\<close> where it was.
\<close>

theorem Ketama_session_allocated:
  assumes "allocator_ok m" "qsort_ok qsort" "length stk = 64" "weights_ok specs"
  shows "\<exists>kt m1 kt' m2 m3. Ketama_setup specs m = Inr (kt, m1) \<and>
    Ketama_create_continuum qsort stk kt m1 = Inr (kt', m2) \<and> Ketama_free kt' m2 = Inr m3 \<and>
    Module_get_allocated m3 = Module_get_allocated m"
proof -
  from Ketama_ring_ok [OF assms] obtain kt m1 kt' m2 where
    k: "Ketama_setup specs m = Inr (kt, m1)" "Ketama_create_continuum qsort stk kt m1 = Inr (kt', m2)"
      "servers_rep kt' (infos_of specs)" "allocator_ok m2"
      "charged m m2 (ring_bytes kt' + server_bytes kt' + 40)" by blast
  from k(3) assms(4) have "kt_numservers kt' < 4294967296" "kt_maxservers kt' < 4294967296"
    by (simp_all add: servers_rep_def weights_ok_def)
  from Ketama_free_ok [OF k(4) this] obtain m3 where m3: "Ketama_free kt' m2 = Inr m3" "allocator_ok m3"
      "charged m2 m3 (- ring_bytes kt' - server_bytes kt' - 40)" by blast
  from charged_trans [OF k(5) m3(3)] have "charged m m3 0" by simp
  with charged_zero_eq [of m m3] assms(1) m3(2) have "allocated m3 = allocated m" by (simp add: allocator_ok_def)
  with k m3(1) show ?thesis by (auto simp: Module_get_allocated_def)
qed

theorem Ketama_session_allocated_witness:
  "\<exists>kt m1 kt' m2 m3. Ketama_setup demo_specs demo_module = Inr (kt, m1) \<and>
    Ketama_create_continuum demo_qsort (replicate 64 0) kt m1 = Inr (kt', m2) \<and> Ketama_free kt' m2 = Inr m3 \<and>
    Module_get_allocated m3 = 0"
  using Ketama_session_allocated [OF demo_allocator_ok demo_qsort_ok _ demo_weights_ok, of "replicate 64 0"]
  by (simp add: Module_get_allocated_def)

text \<open>
  C38: a server added after the continuum was created makes \<open>Ketama_free\<close> deduct more than was
  allocated: it computes the size of the continuum from the current number of servers, and the
  counter ends 1280 bytes (for one such server) below its old value, modulo the range of \<open>size_t\<close>.
\<close>

theorem Ketama_late_server_allocated:
  assumes "allocator_ok m" "qsort_ok qsort" "length stk = 64" "weights_ok specs"
  shows "\<exists>kt m1 kt' m2 kt'' m3 m4. Ketama_setup specs m = Inr (kt, m1) \<and>
    Ketama_create_continuum qsort stk kt m1 = Inr (kt', m2) \<and>
    Ketama_add_server kt' addr port weight m2 = Inr (0, kt'', m3) \<and> Ketama_free kt'' m3 = Inr m4 \<and>
    Module_get_allocated m4 = size_sub (Module_get_allocated m) 1280"
proof -
  from Ketama_ring_ok [OF assms] obtain kt m1 kt' m2 where
    k: "Ketama_setup specs m = Inr (kt, m1)" "Ketama_create_continuum qsort stk kt m1 = Inr (kt', m2)"
      "servers_rep kt' (infos_of specs)" "ring_rep kt' (ring (infos_of specs))" "allocator_ok m2"
      "charged m m2 (ring_bytes kt' + server_bytes kt' + 40)" by blast
  have n: "length (infos_of specs) < 1073741824" "length specs \<le> 65536" using assms(4) by (simp_all add: weights_ok_def)
  from Ketama_add_server_ok [OF k(3,5) n(1), of addr port weight] obtain kt'' m3 where
    a: "Ketama_add_server kt' addr port weight m2 = Inr (0, kt'', m3)"
      "servers_rep kt'' (infos_of specs @ [new_info addr port weight])" "allocator_ok m3"
      "charged m2 m3 (server_bytes kt'' - server_bytes kt')" "kt_continuum kt'' = kt_continuum kt'"
      "kt_numservers kt'' = Suc (length specs)" by auto
  have "kt_continuum kt' \<noteq> None" using k(4) by (auto simp: ring_rep_def)
  then have ring: "ring_bytes kt'' = ring_bytes kt' + 1280"
    using a(5,6) k(3) by (auto simp: ring_bytes_def servers_rep_def)
  from a(2) n have "kt_numservers kt'' < 4294967296" "kt_maxservers kt'' < 4294967296"
    by (simp_all add: servers_rep_def)
  from Ketama_free_ok [OF a(3) this] obtain m4 where m4: "Ketama_free kt'' m3 = Inr m4" "allocator_ok m4"
      "charged m3 m4 (- ring_bytes kt'' - server_bytes kt'' - 40)" by blast
  let ?ref = "m\<lparr>allocated := size_sub (allocated m) 1280\<rparr>"
  have "charged m ?ref (- int 1280)" by (rule charged_size_sub) simp
  moreover from charged_trans [OF charged_trans [OF k(6) a(4)] m4(3)] have "charged m m4 (- 1280)"
    by (simp add: ring)
  ultimately have "charged ?ref m4 0"
    using dvd_diff [of 18446744073709551616 "int (allocated m4) - int (allocated m) + 1280"
        "int (allocated ?ref) - int (allocated m) + 1280"] by (simp add: charged_def)
  with charged_zero_eq [of ?ref m4] m4(2) have "allocated m4 = size_sub (allocated m) 1280" by (simp add: allocator_ok_def)
  with k a m4(1) show ?thesis by (auto simp: Module_get_allocated_def)
qed

theorem Ketama_late_server_allocated_witness:
  "\<exists>kt m1 kt' m2 kt'' m3 m4. Ketama_setup demo_specs demo_module = Inr (kt, m1) \<and>
    Ketama_create_continuum demo_qsort (replicate 64 0) kt m1 = Inr (kt', m2) \<and>
    Ketama_add_server kt' ''d'' 1 7 m2 = Inr (0, kt'', m3) \<and> Ketama_free kt'' m3 = Inr m4 \<and>
    Module_get_allocated m4 = 18446744073709550336"
  using Ketama_late_server_allocated [OF demo_allocator_ok demo_qsort_ok _ demo_weights_ok, of "replicate 64 0" "''d''" 1 7]
  by (simp add: Module_get_allocated_def size_sub_def to_size_def)

text \<open>
  C39: servers that all have weight 0 are not refused: the first share is a division of zero by
  zero, and the conversion of the resulting NaN to \<open>unsigned\<close> is undefined.
\<close>

theorem Ketama_zero_weights:
  assumes "allocator_ok m" "specs \<noteq> []" "length specs \<le> 65536" "spec_weight specs = 0"
  shows "\<exists>kt m1. Ketama_setup specs m = Inr (kt, m1) \<and>
    Ketama_create_continuum qsort stk kt m1 = Inl Undefined"
proof -
  from Ketama_setup_ok [OF assms(1), of specs] assms(3) obtain kt m1 where
    s: "Ketama_setup specs m = Inr (kt, m1)" "servers_rep kt (infos_of specs)" "kt_continuum kt = None"
      "allocator_ok m1" by auto
  have n: "kt_numservers kt = length specs" "kt_memory kt = 0"
    using s(2) assms(4) total_weight_infos [of specs]
    by (auto simp: servers_rep_def total_weight_def simp del: map_map sum_list_eq_0_iff total_weight_infos)
  from read_server [OF s(2), of 0] assms(2) obtain blk si where
    b: "kt_servers kt = Some blk" "read_entry blk 0 = Inr si" by auto
  have "[0..<length specs] = 0 # [1..<length specs]" using assms(2) by (simp add: upt_conv_Cons)
  moreover have "server_points stk kt 0 s0 = Inl Undefined" for s0
    using b n by (simp add: server_points_def server_ks_def)
  ultimately have "foldE (server_points stk kt) [0..<length specs] s0 = Inl Undefined" for s0 by simp
  moreover obtain blk' m2 where "Alloc_alloc (size_mul (size_mul (length specs) sizeof_mcs) 160) m1 = Inr (Some blk', m2)"
    using Alloc_alloc_ok [OF s(4)] by blast
  ultimately show ?thesis using s assms(2) n by (simp add: Ketama_create_continuum_def)
qed

theorem Ketama_zero_weights_witness:
  "\<exists>kt m1. Ketama_setup [(''a'', 6379, 0)] demo_module = Inr (kt, m1) \<and>
    Ketama_create_continuum demo_qsort (replicate 64 0) kt m1 = Inl Undefined"
  using Ketama_zero_weights [OF demo_allocator_ok, of "[(''a'', 6379, 0)]"] by (simp add: spec_weight_def)

end
