(* ===== verification/Php_Extension.thy ===== *)
theory Php_Extension
  imports Connection Ketama
begin

text \<open>
  The PHP extension \<open>php/ext/libredis/libredis.c\<close>: what a script can call, and the hooks of the PHP
  engine at the start and end of the process and of each request.  The engine is not code of the
  repository: \<open>zend\<close> has the functions of its hash tables and says whether a fatal error ends the
  script; what \<open>zend_parse_parameters\<close> hands out is an argument of the methods, \<open>None\<close> when it fails.
  A PHP object has the address of its C object in the property \<open>handle\<close>, \<open>None\<close> being 0.  Objects of the
  library live at addresses, those of new ones are arguments as well.  Log messages are left out.
\<close>

section \<open>The engine\<close>

type_synonym handle = "nat option"

text \<open>The bytes that are the key of an entry: an address text, or a pointer.\<close>

datatype hkey = KText string | KPointer handle

text \<open>
  \<open>zh_items\<close> lists the entries in the order of \<open>zend_hash_apply\<close>; \<open>zend_halts\<close> says whether
  \<open>zend_error (E_ERROR, ...)\<close> with this message ends the script.
\<close>

record 't zend =
  zh_init :: 't
  zh_find :: "'t \<Rightarrow> hkey \<Rightarrow> handle option"
  zh_update :: "'t \<Rightarrow> hkey \<Rightarrow> handle \<Rightarrow> 't"
  zh_del :: "'t \<Rightarrow> hkey \<Rightarrow> 't"
  zh_items :: "'t \<Rightarrow> (hkey \<times> handle) list"
  zend_halts :: "string \<Rightarrow> bool"

section \<open>Data\<close>

datatype php_class = KETAMA_CE | EXECUTOR_CE | CONNECTION_CE | BATCH_CE | REDIS_CE

record php_object =
  ob_class :: php_class
  ob_handle :: handle

datatype zval = ZNull | ZBool bool | ZLong int | ZString string | ZObject nat

text \<open>
  The state of the process: the world of the library, the executors and hash tables of servers by
  address, the objects of the script, the tables \<open>g_connections\<close>, \<open>g_batch\<close>, \<open>g_ketama\<close> and
  \<open>g_executor\<close>, and \<open>g_module_error\<close>.
\<close>

record 't php =
  ph_world :: world
  ph_executors :: "nat \<Rightarrow> executor option"
  ph_ketamas :: "nat \<Rightarrow> ketama option"
  ph_objects :: "nat \<Rightarrow> php_object option"
  g_connections :: 't
  g_batch :: 't
  g_ketama :: 't
  g_executor :: 't
  g_module_error :: string

text \<open>A method returns, faults, or ends the script with a fatal error, which leaves a state behind.\<close>

datatype 't stop = Fault fault | Halt string "'t php"

type_synonym ('a, 't) outcome = "'t stop + 'a"

definition bindP :: "('a, 't) outcome \<Rightarrow> ('a \<Rightarrow> ('b, 't) outcome) \<Rightarrow> ('b, 't) outcome" where
  "bindP m f = (case m of Inl e \<Rightarrow> Inl e | Inr x \<Rightarrow> f x)"

definition lib :: "'a res \<Rightarrow> ('a, 't) outcome" where
  "lib m = (case m of Inl e \<Rightarrow> Inl (Fault e) | Inr x \<Rightarrow> Inr x)"

lemma bindP_simps [simp]: "bindP (Inl e) f = Inl e" "bindP (Inr x) f = f x"
  by (simp_all add: bindP_def)

lemma lib_simps [simp]: "lib (Inl e) = Inl (Fault e)" "lib (Inr x) = Inr x"
  by (simp_all add: lib_def)

lemma bindP_eq_Inr: "bindP m f = Inr y \<longleftrightarrow> (\<exists>x. m = Inr x \<and> f x = Inr y)"
  by (cases m) auto

lemma lib_eq_Inr: "lib m = Inr y \<longleftrightarrow> m = Inr y"
  by (cases m) auto

text \<open>The code behind \<open>zend_error\<close> is reached only if the engine lets the script go on.\<close>

definition zend_error :: "'t zend \<Rightarrow> string \<Rightarrow> 't php \<Rightarrow> (unit, 't) outcome" where
  "zend_error Z msg st = (if zend_halts Z msg then Inl (Halt msg st) else Inr ())"

definition object_init_ex :: "nat \<Rightarrow> php_class \<Rightarrow> 't php \<Rightarrow> 't php" where
  "object_init_ex ob ce st = st\<lparr>ph_objects := (ph_objects st)(ob \<mapsto> \<lparr>ob_class = ce, ob_handle = None\<rparr>)\<rparr>"

definition get_handle :: "nat \<Rightarrow> 't php \<Rightarrow> (handle, 't) outcome" where
  "get_handle ob st = (case ph_objects st ob of None \<Rightarrow> Inl (Fault Undefined) | Some x \<Rightarrow> Inr (ob_handle x))"

definition set_handle :: "nat \<Rightarrow> handle \<Rightarrow> 't php \<Rightarrow> ('t php, 't) outcome" where
  "set_handle ob p st = (case ph_objects st ob of
     None \<Rightarrow> Inl (Fault Undefined)
   | Some x \<Rightarrow> Inr (st\<lparr>ph_objects := (ph_objects st)(ob \<mapsto> x\<lparr>ob_handle := p\<rparr>)\<rparr>))"

text \<open>The C object behind a pointer.\<close>

definition at_pointer :: "(nat \<Rightarrow> 'a option) \<Rightarrow> handle \<Rightarrow> (nat \<times> 'a) res" where
  "at_pointer objs p = bindE (derefE p) (\<lambda>a. case objs a of None \<Rightarrow> Inl Undefined | Some x \<Rightarrow> Inr (a, x))"

text \<open>A C string of a PHP string ends at its first null; one in a block must have a null.\<close>

definition cstr :: "string \<Rightarrow> string" where
  "cstr s = takeWhile (\<lambda>c. c \<noteq> CHR 0x00) s"

definition read_cstr :: "string \<Rightarrow> string res" where
  "read_cstr blk = (if CHR 0x00 \<in> set blk then Inr (cstr blk) else Inl OutOfBounds)"

definition to_long :: "int \<Rightarrow> int" where
  "to_long x = (x + 9223372036854775808) mod 18446744073709551616 - 9223372036854775808"

section \<open>Operations on batches\<close>

definition DEFAULT_TIMEOUT_MS :: int where "DEFAULT_TIMEOUT_MS = 5000"

definition put_heap :: "rheap \<Rightarrow> 't php \<Rightarrow> 't php" where
  "put_heap h st = st\<lparr>ph_world := (ph_world st)\<lparr>w_heap := h\<rparr>\<rparr>"

text \<open>A call of the library on the batch behind a pointer.\<close>

definition with_batch ::
    "handle \<Rightarrow> (batch \<Rightarrow> rheap \<Rightarrow> (batch \<times> rheap) res) \<Rightarrow> 't php \<Rightarrow> ('t php, 't) outcome" where
  "with_batch p f st =
     bindP (lib (at_pointer (w_batches (ph_world st)) p)) (\<lambda>(b, bt).
     bindP (lib (f bt (w_heap (ph_world st)))) (\<lambda>(bt', h').
       Inr (st\<lparr>ph_world := put_batch b bt' ((ph_world st)\<lparr>w_heap := h'\<rparr>)\<rparr>)))"

definition new_batch :: "nat \<Rightarrow> 't php \<Rightarrow> ('t php, 't) outcome" where
  "new_batch b st =
     bindP (lib (Batch_new b (w_heap (ph_world st)))) (\<lambda>(bt, h').
       Inr (st\<lparr>ph_world := put_batch b bt ((ph_world st)\<lparr>w_heap := h'\<rparr>)\<rparr>))"

definition free_batch :: "handle \<Rightarrow> 't php \<Rightarrow> ('t php, 't) outcome" where
  "free_batch p st =
     bindP (lib (at_pointer (w_batches (ph_world st)) p)) (\<lambda>(b, bt).
     bindP (lib (Batch_free bt (w_heap (ph_world st)))) (\<lambda>h'.
       Inr (st\<lparr>ph_world := (ph_world st)\<lparr>w_heap := h', w_batches := (w_batches (ph_world st))(b := None)\<rparr>\<rparr>)))"

text \<open>The bytes behind the pointer of a reply, at most up to the end of their block.\<close>

definition reply_block :: "bufref \<Rightarrow> 't php \<Rightarrow> string res" where
  "reply_block ref st =
     (case ref of
        ReadBuffer b \<Rightarrow> bindE (get_batch b (ph_world st)) (\<lambda>bt. Inr (Buffer_data (bt_read_buffer bt)))
      | ErrorBuffer b \<Rightarrow> bindE (get_batch b (ph_world st)) (\<lambda>bt.
          bindE (derefE (bt_error bt)) (\<lambda>e. Inr (Buffer_data e))))"

definition reply_text :: "(bufref \<times> nat) option \<Rightarrow> nat \<Rightarrow> 't php \<Rightarrow> string res" where
  "reply_text p len st =
     (case p of
        None \<Rightarrow> Inr []
      | Some (ref, off) \<Rightarrow>
          if len = 0 then Inr []
          else bindE (reply_block ref st) (\<lambda>blk.
            if off + len \<le> length blk then Inr (take len (drop off blk)) else Inl OutOfBounds))"

text \<open>\<open>Batch_next_reply\<close> on a batch of the state.\<close>

definition php_next_reply ::
    "handle \<Rightarrow> 't php \<Rightarrow> (int \<times> reply_out \<times> 't php, 't) outcome" where
  "php_next_reply p st =
     bindP (lib (at_pointer (w_batches (ph_world st)) p)) (\<lambda>(b, bt).
     bindP (lib (Batch_next_reply True bt (w_heap (ph_world st)))) (\<lambda>(level, out, bt', h').
     bindP (lib (derefE out)) (\<lambda>r.
       Inr (level, r, st\<lparr>ph_world := put_batch b bt' ((ph_world st)\<lparr>w_heap := h'\<rparr>)\<rparr>))))"

section \<open>The last error\<close>

text \<open>\<open>strncpy\<close> into the array of 255 bytes: a longer text leaves no null at its end.\<close>

definition set_last_error_from_global_error :: "'t php \<Rightarrow> 't php" where
  "set_last_error_from_global_error st =
     st\<lparr>g_module_error := take MAX_ERROR_SIZE (Module_last_error (w_heap (ph_world st)))\<rparr>"

definition set_last_error_from_batch_error :: "handle \<Rightarrow> 't php \<Rightarrow> ('t php, 't) outcome" where
  "set_last_error_from_batch_error p st =
     bindP (lib (at_pointer (w_batches (ph_world st)) p)) (\<lambda>(b, bt).
       case Batch_error bt of
         Some blk \<Rightarrow> bindP (lib (read_cstr blk)) (\<lambda>s. Inr (st\<lparr>g_module_error := take MAX_ERROR_SIZE s\<rparr>))
       | None \<Rightarrow> Inr (st\<lparr>g_module_error := []\<rparr>))"

definition Redis_last_error :: "'t php \<Rightarrow> (zval \<times> 't php, 't) outcome" where
  "Redis_last_error st =
     (if length (g_module_error st) < MAX_ERROR_SIZE
      then Inr (ZString (g_module_error st), st\<lparr>g_module_error := []\<rparr>)
      else Inl (Fault OutOfBounds))"


section \<open>Ketama\<close>

definition with_ketama ::
    "handle \<Rightarrow> (ketama \<Rightarrow> rheap \<Rightarrow> (ketama \<times> rheap) res) \<Rightarrow> 't php \<Rightarrow> ('t php, 't) outcome" where
  "with_ketama p f st =
     bindP (lib (at_pointer (ph_ketamas st) p)) (\<lambda>(a, kt).
     bindP (lib (f kt (w_heap (ph_world st)))) (\<lambda>(kt', h').
       Inr (put_heap h' st\<lparr>ph_ketamas := (ph_ketamas st)(a \<mapsto> kt')\<rparr>)))"

definition free_ketama :: "handle \<Rightarrow> 't php \<Rightarrow> ('t php, 't) outcome" where
  "free_ketama p st =
     bindP (lib (at_pointer (ph_ketamas st) p)) (\<lambda>(a, kt).
     bindP (lib (Ketama_free kt (w_heap (ph_world st)))) (\<lambda>h'.
       Inr (put_heap h' st\<lparr>ph_ketamas := (ph_ketamas st)(a := None)\<rparr>)))"

definition Ketama_destruct :: "'t zend \<Rightarrow> nat \<Rightarrow> 't php \<Rightarrow> (zval \<times> 't php, 't) outcome" where
  "Ketama_destruct Z this st =
     bindP (get_handle this st) (\<lambda>p.
     bindP (free_ketama p (st\<lparr>g_ketama := zh_del Z (g_ketama st) (KPointer p)\<rparr>)) (\<lambda>st1.
     bindP (set_handle this None st1) (\<lambda>st2. Inr (ZNull, st2))))"

text \<open>\<open>port\<close> becomes an \<open>int\<close>, \<open>weight\<close> an \<open>unsigned long\<close>.\<close>

definition Ketama_add_server_method ::
    "nat \<Rightarrow> (string \<times> int \<times> int) option \<Rightarrow> 't php \<Rightarrow> (zval \<times> 't php, 't) outcome" where
  "Ketama_add_server_method this args st =
     (case args of None \<Rightarrow> Inr (ZNull, st) | Some (ip, port, weight) \<Rightarrow>
        bindP (get_handle this st) (\<lambda>p.
        bindP (with_ketama p (\<lambda>kt h. bindE (Ketama_add_server kt (cstr ip) (wrap32 port) (to_size weight) h)
                 (\<lambda>(_, kt', h'). Inr (kt', h'))) st) (\<lambda>st1.
          Inr (ZNull, st1))))"

definition Ketama_get_server_ordinal_method ::
    "byte list \<Rightarrow> nat \<Rightarrow> string option \<Rightarrow> 't php \<Rightarrow> (zval \<times> 't php, 't) outcome" where
  "Ketama_get_server_ordinal_method stk this args st =
     (case args of None \<Rightarrow> Inr (ZNull, st) | Some key \<Rightarrow>
        bindP (get_handle this st) (\<lambda>p.
        bindP (lib (at_pointer (ph_ketamas st) p)) (\<lambda>(_, kt).
        bindP (lib (Ketama_get_server_ordinal stk kt key (to_size (int (length key))))) (\<lambda>i.
          Inr (ZLong i, st)))))"

definition Ketama_get_server_address_method ::
    "nat \<Rightarrow> int option \<Rightarrow> 't php \<Rightarrow> (zval \<times> 't php, 't) outcome" where
  "Ketama_get_server_address_method this args st =
     (case args of None \<Rightarrow> Inr (ZNull, st) | Some ordinal \<Rightarrow>
        bindP (get_handle this st) (\<lambda>p.
        bindP (lib (at_pointer (ph_ketamas st) p)) (\<lambda>(_, kt).
        bindP (lib (Ketama_get_server_address kt (wrap32 ordinal))) (\<lambda>s.
          Inr (ZString s, st)))))"

definition Ketama_create_continuum_method ::
    "((mcs \<Rightarrow> mcs \<Rightarrow> int) \<Rightarrow> mcs list \<Rightarrow> mcs list) \<Rightarrow> byte list \<Rightarrow> nat \<Rightarrow> 't php \<Rightarrow> (zval \<times> 't php, 't) outcome" where
  "Ketama_create_continuum_method qsort stk this st =
     bindP (get_handle this st) (\<lambda>p.
     bindP (with_ketama p (\<lambda>kt h. Ketama_create_continuum qsort stk kt h) st) (\<lambda>st1. Inr (ZNull, st1)))"

section \<open>Executors\<close>

definition free_executor :: "handle \<Rightarrow> 't php \<Rightarrow> ('t php, 't) outcome" where
  "free_executor p st =
     (case p of None \<Rightarrow> Inr st | Some a \<Rightarrow>
        bindP (lib (at_pointer (ph_executors st) p)) (\<lambda>(a, ex).
        bindP (lib (Executor_free (Some ex) (w_heap (ph_world st)))) (\<lambda>h'.
          Inr (put_heap h' st\<lparr>ph_executors := (ph_executors st)(a := None)\<rparr>))))"

definition Executor_destruct :: "'t zend \<Rightarrow> nat \<Rightarrow> 't php \<Rightarrow> (zval \<times> 't php, 't) outcome" where
  "Executor_destruct Z this st =
     bindP (get_handle this st) (\<lambda>p.
     bindP (free_executor p (st\<lparr>g_executor := zh_del Z (g_executor st) (KPointer p)\<rparr>)) (\<lambda>st1.
     bindP (set_handle this None st1) (\<lambda>st2. Inr (ZNull, st2))))"

text \<open>The executor at an address is the one the world works on during a call.\<close>

definition with_executor ::
    "handle \<Rightarrow> (world \<Rightarrow> (int \<times> world) res) \<Rightarrow> 't php \<Rightarrow> (int \<times> 't php, 't) outcome" where
  "with_executor p f st =
     bindP (lib (at_pointer (ph_executors st) p)) (\<lambda>(a, ex).
     bindP (lib (f ((ph_world st)\<lparr>w_exec := ex\<rparr>))) (\<lambda>(r, w').
       Inr (r, st\<lparr>ph_world := w', ph_executors := (ph_executors st)(a \<mapsto> w_exec w')\<rparr>)))"

text \<open>The arguments are objects of the classes asked for; \<open>Executor_add\<close> asserts that no pointer is null.\<close>

definition Executor_add_method ::
    "'t zend \<Rightarrow> nat \<Rightarrow> (nat \<times> nat) option \<Rightarrow> 't php \<Rightarrow> (zval \<times> 't php, 't) outcome" where
  "Executor_add_method Z this args st =
     (case args of None \<Rightarrow> Inr (ZNull, st) | Some (z_connection, z_batch) \<Rightarrow>
        bindP (get_handle z_connection st) (\<lambda>connection.
        bindP (get_handle z_batch st) (\<lambda>batch.
        bindP (get_handle this st) (\<lambda>p.
        bindP (lib (assertE (p \<noteq> None \<and> connection \<noteq> None \<and> batch \<noteq> None))) (\<lambda>_.
        bindP (with_executor p (Executor_add (the connection) (the batch)) st) (\<lambda>(r, st1).
          if r = -1
          then bindP (zend_error Z (Module_last_error (w_heap (ph_world st1))) st1) (\<lambda>_. Inr (ZNull, st1))
          else Inr (ZBool True, st1)))))))"

definition Executor_execute_method ::
    "'t zend \<Rightarrow> kernel \<Rightarrow> nat \<Rightarrow> int option option \<Rightarrow> 't php \<Rightarrow> (zval \<times> 't php, 't) outcome" where
  "Executor_execute_method Z K this args st =
     (case args of None \<Rightarrow> Inr (ZNull, st) | Some t \<Rightarrow>
        let timeout = (case t of None \<Rightarrow> DEFAULT_TIMEOUT_MS | Some x \<Rightarrow> x) in
        bindP (get_handle this st) (\<lambda>p.
        bindP (with_executor p (Executor_execute K (wrap32 timeout)) st) (\<lambda>(execute_res, st1).
          if execute_res > 0 then Inr (ZBool True, st1)
          else if execute_res = 0 then Inr (ZBool False, set_last_error_from_global_error st1)
          else bindP (zend_error Z (Module_last_error (w_heap (ph_world st1))) st1) (\<lambda>_. Inr (ZNull, st1)))))"

section \<open>Connections\<close>

text \<open>\<open>raw\<close> is what the block of the new executor holds; it lives for this call only.\<close>

definition Connection_execute_simple ::
    "'t zend \<Rightarrow> kernel \<Rightarrow> executor \<Rightarrow> handle \<Rightarrow> handle \<Rightarrow> int \<Rightarrow> 't php \<Rightarrow> (int \<times> 't php, 't) outcome" where
  "Connection_execute_simple Z K raw connection batch timeout st =
     (let w = ph_world st in
      bindP (lib (Executor_new raw (w_heap w))) (\<lambda>(p, h1).
      bindP (lib (assertE (p \<noteq> None \<and> connection \<noteq> None \<and> batch \<noteq> None))) (\<lambda>_.
      bindP (lib (Executor_add (the connection) (the batch) (w\<lparr>w_heap := h1, w_exec := the p\<rparr>))) (\<lambda>(_, w1).
      bindP (lib (Executor_execute K (wrap32 timeout) w1)) (\<lambda>(execute_result, w2).
      bindP (lib (Executor_free (Some (w_exec w2)) (w_heap w2))) (\<lambda>h3.
        let st1 = st\<lparr>ph_world := w2\<lparr>w_heap := h3\<rparr>\<rparr> in
        bindP (if execute_result < 0 then zend_error Z (Module_last_error h3) st1 else Inr ()) (\<lambda>_.
          Inr (execute_result, st1))))))))"

definition Connection_destruct :: "nat \<Rightarrow> 't php \<Rightarrow> (zval \<times> 't php, 't) outcome" where
  "Connection_destruct this st = bindP (set_handle this None st) (\<lambda>st1. Inr (ZNull, st1))"

definition Connection_execute_method ::
    "'t zend \<Rightarrow> kernel \<Rightarrow> executor \<Rightarrow> nat \<Rightarrow> (nat \<times> int option) option \<Rightarrow> 't php \<Rightarrow> (zval \<times> 't php, 't) outcome" where
  "Connection_execute_method Z K raw this args st =
     (case args of None \<Rightarrow> Inr (ZNull, st) | Some (z_batch, t) \<Rightarrow>
        let timeout = (case t of None \<Rightarrow> DEFAULT_TIMEOUT_MS | Some x \<Rightarrow> x) in
        bindP (get_handle z_batch st) (\<lambda>batch.
        bindP (get_handle this st) (\<lambda>connection.
        bindP (Connection_execute_simple Z K raw connection batch timeout st) (\<lambda>(r, st1).
          Inr (ZBool (r \<noteq> 0), st1)))))"


text \<open>What \<open>Connection::set\<close> and \<open>Connection::get\<close> return for the reply to their command.\<close>

definition unexpected :: "'t zend \<Rightarrow> string \<Rightarrow> 't php \<Rightarrow> (zval \<times> 't php, 't) outcome" where
  "unexpected Z msg st = bindP (zend_error Z msg st) (\<lambda>_. Inr (ZNull, st))"

definition set_result ::
    "'t zend \<Rightarrow> handle \<Rightarrow> int \<Rightarrow> reply_out \<Rightarrow> 't php \<Rightarrow> (zval \<times> 't php, 't) outcome" where
  "set_result Z batch level r st =
     (case r of (ty, _, _) \<Rightarrow>
      if level \<noteq> 1 then unexpected Z ''Unexpected level'' st
      else if ty = RT_OK then Inr (ZBool True, st)
      else if ty = RT_ERROR then
        bindP (set_last_error_from_batch_error batch st) (\<lambda>st1. Inr (ZBool False, st1))
      else unexpected Z ''Unexpected reply type'' st)"

definition get_result ::
    "'t zend \<Rightarrow> handle \<Rightarrow> int \<Rightarrow> reply_out \<Rightarrow> 't php \<Rightarrow> (zval \<times> 't php, 't) outcome" where
  "get_result Z batch level r st =
     (case r of (ty, p, len) \<Rightarrow>
      if level \<noteq> 1 then unexpected Z ''Unexpected level'' st
      else if ty = RT_BULK then bindP (lib (reply_text p len st)) (\<lambda>s. Inr (ZString s, st))
      else if ty = RT_BULK_NIL then Inr (ZNull, st)
      else if ty = RT_ERROR then
        bindP (set_last_error_from_batch_error batch st) (\<lambda>st1. Inr (ZBool False, st1))
      else unexpected Z ''Unexpected reply type'' st)"

text \<open>Both write one command into a batch of their own, execute it and free the batch.\<close>

definition one_command ::
    "'t zend \<Rightarrow> kernel \<Rightarrow> executor \<Rightarrow> nat \<Rightarrow> (batch \<Rightarrow> rheap \<Rightarrow> (batch \<times> rheap) res) \<Rightarrow>
     (handle \<Rightarrow> int \<Rightarrow> reply_out \<Rightarrow> 't php \<Rightarrow> (zval \<times> 't php, 't) outcome) \<Rightarrow>
     nat \<Rightarrow> int option \<Rightarrow> 't php \<Rightarrow> (zval \<times> 't php, 't) outcome" where
  "one_command Z K raw b write result this t st =
     (let timeout = (case t of None \<Rightarrow> DEFAULT_TIMEOUT_MS | Some x \<Rightarrow> x); batch = Some b in
      bindP (new_batch b st) (\<lambda>st1.
      bindP (with_batch batch write st1) (\<lambda>st2.
      bindP (get_handle this st2) (\<lambda>connection.
      bindP (Connection_execute_simple Z K raw connection batch timeout st2) (\<lambda>(r, st3).
      bindP (if r \<noteq> 0
             then bindP (php_next_reply batch st3) (\<lambda>(level, reply, st4). result batch level reply st4)
             else Inr (ZBool False, set_last_error_from_global_error st3)) (\<lambda>(v, st5).
      bindP (free_batch batch st5) (\<lambda>st6. Inr (v, st6))))))))"

definition Connection_set_method ::
    "'t zend \<Rightarrow> kernel \<Rightarrow> executor \<Rightarrow> nat \<Rightarrow> nat \<Rightarrow> (string \<times> string \<times> int option) option \<Rightarrow> 't php \<Rightarrow>
     (zval \<times> 't php, 't) outcome" where
  "Connection_set_method Z K raw b this args st =
     (case args of None \<Rightarrow> Inr (ZNull, st) | Some (key, val, t) \<Rightarrow>
        one_command Z K raw b
          (\<lambda>bt h. Batch_write_set bt (Some key) (int (length key)) (Some val) (int (length val)) h)
          (set_result Z) this t st)"

definition Connection_get_method ::
    "'t zend \<Rightarrow> kernel \<Rightarrow> executor \<Rightarrow> nat \<Rightarrow> nat \<Rightarrow> (string \<times> int option) option \<Rightarrow> 't php \<Rightarrow>
     (zval \<times> 't php, 't) outcome" where
  "Connection_get_method Z K raw b this args st =
     (case args of None \<Rightarrow> Inr (ZBool False, st) | Some (key, t) \<Rightarrow>
        one_command Z K raw b (\<lambda>bt h. Batch_write_get bt (Some key) (int (length key)) h)
          (get_result Z) this t st)"

section \<open>Batches\<close>

definition Batch_destruct :: "'t zend \<Rightarrow> nat \<Rightarrow> 't php \<Rightarrow> (zval \<times> 't php, 't) outcome" where
  "Batch_destruct Z this st =
     bindP (get_handle this st) (\<lambda>p.
     bindP (free_batch p (st\<lparr>g_batch := zh_del Z (g_batch st) (KPointer p)\<rparr>)) (\<lambda>st1.
     bindP (set_handle this None st1) (\<lambda>st2. Inr (ZNull, st2))))"

definition Batch_write_method ::
    "nat \<Rightarrow> (string \<times> int option) option \<Rightarrow> 't php \<Rightarrow> (zval \<times> 't php, 't) outcome" where
  "Batch_write_method this args st =
     (case args of None \<Rightarrow> Inr (ZNull, st) | Some (str, n) \<Rightarrow>
        let num_commands = (case n of None \<Rightarrow> 0 | Some x \<Rightarrow> x) in
        bindP (get_handle this st) (\<lambda>p.
        bindP (with_batch p (\<lambda>bt h. Batch_write bt (Some str) (to_size (int (length str))) (wrap32 num_commands) h) st)
          (\<lambda>st1. Inr (ZNull, st1))))"

definition Batch_set_method ::
    "nat \<Rightarrow> (string \<times> string) option \<Rightarrow> 't php \<Rightarrow> (zval \<times> 't php, 't) outcome" where
  "Batch_set_method this args st =
     (case args of None \<Rightarrow> Inr (ZNull, st) | Some (key, val) \<Rightarrow>
        bindP (get_handle this st) (\<lambda>p.
        bindP (with_batch p (\<lambda>bt h. Batch_write_set bt (Some key) (int (length key)) (Some val) (int (length val)) h) st)
          (\<lambda>st1. Inr (ZObject this, st1))))"

definition Batch_get_method :: "nat \<Rightarrow> string option \<Rightarrow> 't php \<Rightarrow> (zval \<times> 't php, 't) outcome" where
  "Batch_get_method this args st =
     (case args of None \<Rightarrow> Inr (ZNull, st) | Some key \<Rightarrow>
        bindP (get_handle this st) (\<lambda>p.
        bindP (with_batch p (\<lambda>bt h. Batch_write_get bt (Some key) (int (length key)) h) st)
          (\<lambda>st1. Inr (ZObject this, st1))))"

text \<open>One argument of \<open>Batch_cmd\<close>: its length and its bytes.\<close>

definition cmd_arg :: "string \<Rightarrow> batch \<times> 'a module_scheme \<Rightarrow> (batch \<times> 'a module_scheme) res" where
  "cmd_arg s bm = (case bm of (bt, m) \<Rightarrow>
     bindE (Batch_write bt (Some ''$'') 1 0 m) (\<lambda>(bt, m).
     bindE (Batch_write_decimal bt (int (length s)) m) (\<lambda>(bt, m).
     bindE (Batch_write bt (Some crlf) 2 0 m) (\<lambda>(bt, m).
     bindE (Batch_write bt (Some s) (to_size (int (length s))) 0 m) (\<lambda>(bt, m).
       Batch_write bt (Some crlf) 2 0 m)))))"

fun is_string :: "zval \<Rightarrow> bool" where
  "is_string (ZString _) = True"
| "is_string _ = False"

fun string_val :: "zval \<Rightarrow> string" where
  "string_val (ZString s) = s"
| "string_val _ = []"

definition cmd_write :: "zval list \<Rightarrow> batch \<Rightarrow> 'a module_scheme \<Rightarrow> (batch \<times> 'a module_scheme) res" where
  "cmd_write varargs bt m =
     bindE (Batch_write bt (Some ''*'') 1 1 m) (\<lambda>(bt, m).
     bindE (Batch_write_decimal bt (int (length varargs)) m) (\<lambda>(bt, m).
     bindE (Batch_write bt (Some crlf) 2 0 m) (\<lambda>(bt, m).
       foldE cmd_arg (map string_val varargs) (bt, m))))"

definition Batch_cmd :: "'t zend \<Rightarrow> handle \<Rightarrow> zval list \<Rightarrow> 't php \<Rightarrow> ('t php, 't) outcome" where
  "Batch_cmd Z batch varargs st =
     (if \<not> list_all is_string varargs
      then bindP (zend_error Z ''all arguments must be strings!'' st) (\<lambda>_. Inr st)
      else with_batch batch (cmd_write varargs) st)"

definition Batch_cmd_method ::
    "'t zend \<Rightarrow> nat \<Rightarrow> zval list option \<Rightarrow> 't php \<Rightarrow> (zval \<times> 't php, 't) outcome" where
  "Batch_cmd_method Z this args st =
     (case args of None \<Rightarrow> Inr (ZNull, st) | Some varargs \<Rightarrow>
        bindP (get_handle this st) (\<lambda>p.
        bindP (Batch_cmd Z p varargs st) (\<lambda>st1. Inr (ZNull, st1))))"

text \<open>
  \<open>Batch::next_reply\<close> gets three variables, by reference; what it stores in them is the second
  component of the result.
\<close>

definition reply_value :: "reply_out \<Rightarrow> 't php \<Rightarrow> zval res" where
  "reply_value r st =
     (case r of (ty, p, len) \<Rightarrow>
        if ty \<in> {RT_OK, RT_ERROR, RT_BULK} then bindE (reply_text p len st) (\<lambda>s. Inr (ZString s))
        else if ty = RT_INTEGER then
          bindE (derefE p) (\<lambda>(ref, off).
          bindE (reply_block ref st) (\<lambda>blk. Inr (ZLong (strtol10 (drop off blk)))))
        else Inr ZNull)"

definition Batch_next_reply_method ::
    "'t zend \<Rightarrow> nat \<Rightarrow> (bool \<times> bool \<times> bool) option \<Rightarrow> 't php \<Rightarrow>
     (zval \<times> (zval \<times> zval \<times> zval) option \<times> 't php, 't) outcome" where
  "Batch_next_reply_method Z this refs st =
     (case refs of None \<Rightarrow> Inr (ZNull, None, st) | Some (type_ref, value_ref, length_ref) \<Rightarrow>
        let no_ref = (\<lambda>name. bindP (zend_error Z (''Parameter wasn't passed by reference ('' @ name @ '')'') st)
                        (\<lambda>_. Inr (ZNull, None, st))) in
        if \<not> type_ref then no_ref ''reply_type''
        else if \<not> value_ref then no_ref ''reply_value''
        else if \<not> length_ref then no_ref ''reply_length''
        else
          bindP (get_handle this st) (\<lambda>p.
          bindP (php_next_reply p st) (\<lambda>(res, r, st1).
          bindP (lib (reply_value r st1)) (\<lambda>v.
            Inr (ZLong res, Some (ZLong (reply_type_code (fst r)), v, ZLong (to_long (int (snd (snd r))))), st1)))))"

definition Batch_execute_method ::
    "'t zend \<Rightarrow> kernel \<Rightarrow> executor \<Rightarrow> nat \<Rightarrow> (nat \<times> int option) option \<Rightarrow> 't php \<Rightarrow> (zval \<times> 't php, 't) outcome" where
  "Batch_execute_method Z K raw this args st =
     (case args of None \<Rightarrow> Inr (ZNull, st) | Some (z_connection, t) \<Rightarrow>
        let timeout = (case t of None \<Rightarrow> DEFAULT_TIMEOUT_MS | Some x \<Rightarrow> x) in
        bindP (get_handle z_connection st) (\<lambda>connection.
        bindP (get_handle this st) (\<lambda>batch.
        bindP (Connection_execute_simple Z K raw connection batch timeout st) (\<lambda>(r, st1).
          Inr (ZBool (r \<noteq> 0), st1)))))"

section \<open>The factory\<close>

definition Libredis :: "nat \<Rightarrow> 't php \<Rightarrow> zval \<times> 't php" where
  "Libredis ob st = (ZObject ob, object_init_ex ob REDIS_CE st)"

definition Redis_create_ketama :: "'t zend \<Rightarrow> nat \<Rightarrow> nat \<Rightarrow> 't php \<Rightarrow> (zval \<times> 't php, 't) outcome" where
  "Redis_create_ketama Z a ob st =
     (let st1 = object_init_ex ob KETAMA_CE st in
      bindP (lib (Ketama_new (w_heap (ph_world st1)))) (\<lambda>(kt, h').
      bindP (set_handle ob (Some a) (put_heap h' st1\<lparr>ph_ketamas := (ph_ketamas st1)(a \<mapsto> kt)\<rparr>)) (\<lambda>st2.
        Inr (ZObject ob, st2\<lparr>g_ketama := zh_update Z (g_ketama st2) (KPointer (Some a)) (Some a)\<rparr>))))"

definition Redis_create_executor ::
    "'t zend \<Rightarrow> executor \<Rightarrow> nat \<Rightarrow> nat \<Rightarrow> 't php \<Rightarrow> (zval \<times> 't php, 't) outcome" where
  "Redis_create_executor Z raw a ob st =
     (let st1 = object_init_ex ob EXECUTOR_CE st in
      bindP (lib (Executor_new raw (w_heap (ph_world st1)))) (\<lambda>(ex, h').
        let p = (if ex = None then None else Some a);
            st2 = put_heap h' st1\<lparr>ph_executors := (if ex = None then ph_executors st1 else (ph_executors st1)(a := ex))\<rparr> in
        bindP (set_handle ob p st2) (\<lambda>st3.
          Inr (ZObject ob, st3\<lparr>g_executor := zh_update Z (g_executor st3) (KPointer p) p\<rparr>))))"

definition Redis_get_connection ::
    "'t zend \<Rightarrow> nat \<Rightarrow> connection \<Rightarrow> rparser \<Rightarrow> nat \<Rightarrow> string option \<Rightarrow> 't php \<Rightarrow> (zval \<times> 't php, 't) outcome" where
  "Redis_get_connection Z c raw praw ob args st =
     (case args of None \<Rightarrow> Inr (ZNull, st) | Some addr \<Rightarrow>
        let wrap = (\<lambda>connection st1.
              bindP (set_handle ob connection (object_init_ex ob CONNECTION_CE st1)) (\<lambda>st2. Inr (ZObject ob, st2))) in
        case zh_find Z (g_connections st) (KText addr) of
          Some connection \<Rightarrow> wrap connection st
        | None \<Rightarrow>
            bindP (lib (Connection_new c raw praw (cstr addr) (ph_world st))) (\<lambda>(connection, w').
              let st1 = st\<lparr>ph_world := w'\<rparr> in
              if connection = None
              then bindP (zend_error Z (Module_last_error (w_heap w')) st1) (\<lambda>_. Inr (ZNull, st1))
              else wrap connection (st1\<lparr>g_connections := zh_update Z (g_connections st1) (KText addr) connection\<rparr>)))"

text \<open>The batch is created and registered before its arguments are looked at.\<close>

definition Redis_create_batch ::
    "'t zend \<Rightarrow> nat \<Rightarrow> nat \<Rightarrow> (string option \<times> int option) option \<Rightarrow> 't php \<Rightarrow> (zval \<times> 't php, 't) outcome" where
  "Redis_create_batch Z b ob args st =
     bindP (new_batch b st) (\<lambda>st1.
     bindP (set_handle ob (Some b) (object_init_ex ob BATCH_CE st1)) (\<lambda>st2.
       let st3 = st2\<lparr>g_batch := zh_update Z (g_batch st2) (KPointer (Some b)) (Some b)\<rparr> in
       case args of None \<Rightarrow> Inr (ZNull, st3) | Some (str, n) \<Rightarrow>
         let num_commands = (case n of None \<Rightarrow> 0 | Some x \<Rightarrow> x) in
         case str of
           None \<Rightarrow> Inr (ZObject ob, st3)
         | Some s \<Rightarrow>
             if s = [] then Inr (ZObject ob, st3)
             else bindP (with_batch (Some b)
                    (\<lambda>bt h. Batch_write bt (Some s) (to_size (int (length s))) (wrap32 num_commands) h) st3)
                    (\<lambda>st4. Inr (ZObject ob, st4))))"


section \<open>The hooks of the engine\<close>

text \<open>
  At process start: the tables are created and the library gets the persistent allocator of the engine.
  \<open>os\<close> and \<open>raw\<close> are what the process has at that time.
\<close>

definition PHP_MINIT ::
    "'t zend \<Rightarrow> malloc_fn \<Rightarrow> realloc_fn \<Rightarrow> malloc_fn \<Rightarrow> realloc_fn \<Rightarrow> os \<Rightarrow> executor \<Rightarrow> 't php" where
  "PHP_MINIT Z zend_malloc zend_realloc libc_malloc libc_realloc os raw =
     (let m = Module_set_alloc_free (Module_set_alloc_realloc zend_realloc (Module_set_alloc_alloc zend_malloc Module_new));
          (_, m1) = Module_init libc_malloc libc_realloc m;
          h = module.extend m1 (rheap.fields \<lparr>lh_next = (\<lambda>_. None), lh_prev = (\<lambda>_. None)\<rparr> (\<lambda>_. None) 0) in
      \<lparr>ph_world = \<lparr>w_heap = h, w_conns = (\<lambda>_. None), w_batches = (\<lambda>_. None), w_exec = raw, w_os = os\<rparr>,
       ph_executors = (\<lambda>_. None), ph_ketamas = (\<lambda>_. None), ph_objects = (\<lambda>_. None),
       g_connections = zh_init Z, g_batch = zh_init Z, g_ketama = zh_init Z, g_executor = zh_init Z,
       g_module_error = []\<rparr>)"

definition free_connection :: "handle \<Rightarrow> 't php \<Rightarrow> ('t php, 't) outcome" where
  "free_connection p st =
     bindP (lib (Connection_free p (ph_world st))) (\<lambda>w'. Inr (st\<lparr>ph_world := w'\<rparr>))"

text \<open>\<open>zend_hash_apply\<close> with a function that frees the object of an entry and has the entry removed.\<close>

fun apply_free ::
    "(('t \<Rightarrow> 't) \<Rightarrow> 't php \<Rightarrow> 't php) \<Rightarrow> (handle \<Rightarrow> 't php \<Rightarrow> ('t php, 't) outcome) \<Rightarrow>
     't zend \<Rightarrow> (hkey \<times> handle) list \<Rightarrow> 't php \<Rightarrow> ('t php, 't) outcome" where
  "apply_free upd free Z [] st = Inr st"
| "apply_free upd free Z ((k, p) # items) st =
     bindP (free p st) (\<lambda>st1. apply_free upd free Z items (upd (\<lambda>t. zh_del Z t k) st1))"

definition shutdown_Batch :: "'t zend \<Rightarrow> 't php \<Rightarrow> ('t php, 't) outcome" where
  "shutdown_Batch Z st = apply_free g_batch_update free_batch Z (zh_items Z (g_batch st)) st"

definition shutdown_Ketama :: "'t zend \<Rightarrow> 't php \<Rightarrow> ('t php, 't) outcome" where
  "shutdown_Ketama Z st = apply_free g_ketama_update free_ketama Z (zh_items Z (g_ketama st)) st"

definition shutdown_Executor :: "'t zend \<Rightarrow> 't php \<Rightarrow> ('t php, 't) outcome" where
  "shutdown_Executor Z st = apply_free g_executor_update free_executor Z (zh_items Z (g_executor st)) st"

definition shutdown_Connection :: "'t zend \<Rightarrow> 't php \<Rightarrow> ('t php, 't) outcome" where
  "shutdown_Connection Z st =
     apply_free g_connections_update free_connection Z (zh_items Z (g_connections st)) st"

definition PHP_RSHUTDOWN :: "'t zend \<Rightarrow> 't php \<Rightarrow> ('t php, 't) outcome" where
  "PHP_RSHUTDOWN Z st =
     bindP (shutdown_Batch Z st) (\<lambda>st1. bindP (shutdown_Ketama Z st1) (\<lambda>st2. shutdown_Executor Z st2))"

text \<open>The engine frees what it keeps for a table; the tables are empty afterwards.\<close>

definition PHP_MSHUTDOWN :: "'t zend \<Rightarrow> 't php \<Rightarrow> ('t php, 't) outcome" where
  "PHP_MSHUTDOWN Z st =
     bindP (shutdown_Connection Z st) (\<lambda>st1.
       Inr (st1\<lparr>g_connections := zh_init Z, g_batch := zh_init Z, g_ketama := zh_init Z, g_executor := zh_init Z,
         ph_world := (ph_world st1)\<lparr>w_heap := Module_free (w_heap (ph_world st1))\<rparr>\<rparr>))"

end
