(* ===== verification/Parser_Pure.thy ===== *)
theory Parser_Pure
  imports Reply_Grammar
begin

text \<open>
  The parser of \<open>libredis/parser.c\<close> as a function of the bytes alone.  \<open>parser_move\<close> is what a turn of
  the loop does, without the heap; \<open>pure_loop\<close> runs it on a parser state and the multibulk under
  construction as a value.  The reply objects the parser builds are exactly these values
  (\<open>ReplyParser_execute_pure\<close>), whatever else lies on the heap.  \<open>understood\<close> collects the replies of a
  growing stream; on the encodings of values it yields these values, in order.
\<close>


section \<open>A turn without the heap\<close>

type_synonym view = "reply \<times> reply list"

datatype move =
    Stay rparser
  | Fault
  | Done rparser reply
  | Bulk rparser reply
  | Open rparser reply
  | Shut rparser

definition a_reply :: "reply_type \<Rightarrow> bufref option \<Rightarrow> nat \<Rightarrow> nat \<Rightarrow> reply" where
  "a_reply ty buf off n = \<lparr>rep_type = ty, rep_buffer = buf, rep_offset = off, rep_len = n\<rparr>"

definition parser_move :: "bufref \<Rightarrow> string \<Rightarrow> nat \<Rightarrow> char \<Rightarrow> rparser \<Rightarrow> move" where
  "parser_move bref data len c rp =
     (let s = ps_cs rp; lf = (c = CHR 0x0A); cr = (c = CHR 0x0D);
          line = (\<lambda>ty. Done (go 0 rp) (a_reply ty (Some bref) (ps_mark rp) (line_len (go 0 rp)))) in
      if s = 0 then
        (if c = CHR ''$'' then Stay (go 5 rp)
         else if ps_multibulk_count rp \<noteq> 0 then Fault
         else if c = CHR ''+'' then Stay (MARK (go 1 rp))
         else if c = CHR ''-'' then Stay (MARK (go 3 rp))
         else if c = CHR ''*'' then Stay (go 13 rp)
         else if c = CHR '':'' then Stay (MARK (go 19 rp))
         else Fault)
      else if s \<in> {1, 3, 19} then Stay (go (if cr then s + 1 else s) rp)
      else if s = 2 then (if lf then line RT_OK else Fault)
      else if s = 4 then (if lf then line RT_ERROR else Fault)
      else if s = 20 then (if lf then line RT_INTEGER else Fault)
      else if s \<in> {5, 13} then
        (if c = CHR ''-'' then Stay (go (s + 1) rp)
         else if isdigit c then Stay (go (s + 4) (MARK rp)) else Fault)
      else if s \<in> {6, 14} then (if c = CHR ''1'' then Stay (go (s + 1) rp) else Fault)
      else if s \<in> {7, 15} then (if cr then Stay (go (s + 1) rp) else Fault)
      else if s = 8 then (if lf then Bulk (go 0 rp) (a_reply RT_BULK_NIL (Some bref) 0 0) else Fault)
      else if s = 9 then
        (if cr then Stay (go 10 (rp\<lparr>ps_bulk_count := atoi (drop (ps_mark rp) data)\<rparr>))
         else if isdigit c then Stay (go 9 rp) else Fault)
      else if s = 10 then (if lf then Stay (MARK (go 11 rp)) else Fault)
      else if s = 11 then
        (let n = wrap32 (int (min (to_size (ps_bulk_count rp)) (len - ps_p rp))) in
         if n = 0 \<and> cr then Stay (go 12 rp)
         else if n > 0 then Stay (rp\<lparr>ps_p := ps_p rp + nat n, ps_bulk_count := wrap32 (ps_bulk_count rp - n)\<rparr>)
         else Fault)
      else if s = 12 then
        (if lf then Bulk (go 0 rp) (a_reply RT_BULK (Some bref) (ps_mark rp) (line_len (go 0 rp))) else Fault)
      else if s = 16 then (if lf then Done (go 0 rp) (a_reply RT_MULTIBULK_NIL None 0 0) else Fault)
      else if s = 17 then
        (if cr then
           (let n = atoi (drop (ps_mark rp) data) in
            Open (go 18 (rp\<lparr>ps_multibulk_count := n\<rparr>)) (a_reply RT_MULTIBULK None 0 (to_size n)))
         else if isdigit c then Stay (go 17 rp) else Fault)
      else if s = 18 then
        (if lf then (if ps_multibulk_count rp = 0 then Shut (go 0 rp) else Stay (go 0 rp)) else Fault)
      else Fault)"

text \<open>What the code does with the heap for each kind of move.\<close>

definition make_reply :: "reply \<Rightarrow> rheap \<Rightarrow> (nat \<times> rheap) res" where
  "make_reply rep h = Reply_new (rep_type rep) (rep_buffer rep) (rep_offset rep) (rep_len rep) h"

fun perform :: "move \<Rightarrow> rparser \<Rightarrow> rheap \<Rightarrow> flow res" where
  "perform (Stay rp') rp h = Inr (Continue rp' h None)"
| "perform Fault rp h = Inr (Return RPR_ERROR rp h None)"
| "perform (Done rp' rep) rp h = bindE (make_reply rep h) (\<lambda>(r, h1). Inr (Return RPR_REPLY rp' h1 (Some r)))"
| "perform (Bulk rp' rep) rp h = bindE (make_reply rep h) (\<lambda>(r, h1). finish_bulk rp' r h1)"
| "perform (Open rp' rep) rp h = bindE (make_reply rep h) (\<lambda>(r, h1).
     Inr (Continue (rp'\<lparr>ps_multibulk_reply := Some r\<rparr>) h1 None))"
| "perform (Shut rp') rp h = Inr (Return RPR_REPLY (rp'\<lparr>ps_multibulk_reply := None\<rparr>) h (ps_multibulk_reply rp))"

lemma twenty: "n \<le> 20 \<Longrightarrow> n \<in> {0, 1, 2, 3, 4, 5, 6, 7, 8, 9, 10, 11, 12, 13, 14, 15, 16, 17, 18, 19, 20 :: nat}"
  by simp arith

lemma go_multibulk: "go s (rp\<lparr>ps_multibulk_count := n, ps_multibulk_reply := r\<rparr>) =
    (go s (rp\<lparr>ps_multibulk_count := n\<rparr>))\<lparr>ps_multibulk_reply := r\<rparr>"
  by (simp add: go_def)

lemma parser_step_move:
  assumes "machine_inv data rp"
  shows "parser_step bref data len c rp h = perform (parser_move bref data len c rp) rp h"
proof -
  have "ps_cs rp \<le> 20" "ps_cs rp = 12 \<longrightarrow> ps_bulk_count rp = 0" using assms by (auto simp: machine_inv_def)
  from twenty [OF this(1)] this(2) show ?thesis
    by (elim insertE emptyE)
      (simp_all add: parser_step_defs parser_move_def Let_def report_line_def make_reply_def a_reply_def go_multibulk)
qed

text \<open>A turn looks at everything of the state but the multibulk's address.\<close>

abbreviation bare :: "rparser \<Rightarrow> rparser" where
  "bare rp \<equiv> rp\<lparr>ps_multibulk_reply := None\<rparr>"

fun bare_move :: "move \<Rightarrow> move" where
  "bare_move (Stay rp) = Stay (bare rp)"
| "bare_move Fault = Fault"
| "bare_move (Done rp rep) = Done (bare rp) rep"
| "bare_move (Bulk rp rep) = Bulk (bare rp) rep"
| "bare_move (Open rp rep) = Open (bare rp) rep"
| "bare_move (Shut rp) = Shut (bare rp)"

lemma bare_go [simp]: "bare (go s rp) = go s (bare rp)" "bare (MARK rp) = MARK (bare rp)"
  "line_len (go s (bare rp)) = line_len (go s rp)"
  by (simp_all add: go_def MARK_def line_len_def)

lemma parser_move_bare: "parser_move bref data len c (bare rp) = bare_move (parser_move bref data len c rp)"
  by (simp add: parser_move_def Let_def)


section \<open>The loop without the heap\<close>

datatype pflow =
    PContinue rparser "view option"
  | PReturn parser_result rparser "view option" "view option"

fun pure_do :: "move \<Rightarrow> rparser \<Rightarrow> view option \<Rightarrow> pflow" where
  "pure_do (Stay rp') rp pd = PContinue rp' pd"
| "pure_do Fault rp pd = PReturn RPR_ERROR rp pd None"
| "pure_do (Done rp' rep) rp pd = PReturn RPR_REPLY rp' pd (Some (rep, []))"
| "pure_do (Bulk rp' rep) rp pd =
     (if ps_multibulk_count rp' > 0 then
        (let rp1 = rp'\<lparr>ps_multibulk_count := ps_multibulk_count rp' - 1\<rparr>;
             pd1 = map_option (\<lambda>(m, ks). (m, ks @ [rep])) pd in
         if ps_multibulk_count rp1 = 0 then PReturn RPR_REPLY rp1 None pd1 else PContinue rp1 pd1)
      else PReturn RPR_REPLY rp' pd (Some (rep, [])))"
| "pure_do (Open rp' rep) rp pd = PContinue rp' (Some (rep, []))"
| "pure_do (Shut rp') rp pd = PReturn RPR_REPLY rp' None pd"

lemma pure_do_progress:
  assumes "pure_do (parser_move bref data len c rp) rp pd = PContinue rp' pd'"
  shows "ps_p rp < ps_p rp'"
proof -
  have "ps_p rp < ps_p rp1" if "parser_move bref data len c rp \<in> {Stay rp1, Bulk rp1 rep, Open rp1 rep}" for rp1 rep
    using that by (auto simp: parser_move_def Let_def split: if_splits)
  with assms show ?thesis
    by (cases "parser_move bref data len c rp") (auto simp: Let_def split: if_splits)
qed

function pure_loop :: "bufref \<Rightarrow> string \<Rightarrow> nat \<Rightarrow> rparser \<Rightarrow> view option \<Rightarrow>
    parser_result \<times> rparser \<times> view option \<times> view option" where
  "pure_loop bref data len rp pd =
     (if ps_p rp < len then
        (case pure_do (parser_move bref data len (data ! ps_p rp) rp) rp pd of
           PContinue rp1 pd1 \<Rightarrow> pure_loop bref data len rp1 pd1
         | PReturn res rp1 pd1 out \<Rightarrow> (res, rp1, pd1, out))
      else (RPR_MORE, rp, pd, None))"
  by pat_completeness auto
termination
  by (relation "measure (\<lambda>(bref, data, len, rp, pd). len - ps_p rp)")
    (auto dest: pure_do_progress intro: diff_less_mono2)

declare pure_loop.simps [simp del]

section \<open>The reply objects are these values\<close>

text \<open>The lists of a heap are determined by its links.\<close>

lemma reply_heap_unique:
  "reply_heap h B L \<Longrightarrow> reply_heap h B L' \<Longrightarrow> a \<in> heads h B \<Longrightarrow> L' a = L a"
  unfolding reply_heap_def using list_for_each_dlist rings_dlist by (metis option.inject)

lemma view_unique:
  "reply_heap h B L \<Longrightarrow> reply_heap h B L' \<Longrightarrow> r \<in> dom (rh_replies h) \<Longrightarrow> reply_view h L' r = reply_view h L r"
  using reply_heap_unique [of h B L L' "RChildren r"] by (simp add: reply_view_def heads_def)

definition pending_view :: "rparser \<Rightarrow> rheap \<Rightarrow> (rnode \<Rightarrow> rnode list) \<Rightarrow> view option" where
  "pending_view rp h L = map_option (reply_view h L) (ps_multibulk_reply rp)"

definition handed_view :: "parser_result \<Rightarrow> nat option \<Rightarrow> rheap \<Rightarrow> (rnode \<Rightarrow> rnode list) \<Rightarrow> view option" where
  "handed_view res out h L = (if res = RPR_REPLY then map_option (reply_view h L) out else None)"

text \<open>A new reply beside the old ones, and what it does to the views.\<close>

lemma make_reply_inv:
  assumes i: "heap_inv bref p mr B h L" and n: "make_reply rep h = Inr (r, h')"
  shows "reply_heap h' B (L(RChildren r := []))" "reply_view h' (L(RChildren r := [])) r = (rep, [])"
    "r \<notin> dom (rh_replies h)" "rh_replies h' r = Some rep" "orphan h' B (L(RChildren r := [])) r"
    "mr = Some m \<Longrightarrow> reply_view h' (L(RChildren r := [])) m = reply_view h L m"
    "mr = Some m \<Longrightarrow> m \<in> dom (rh_replies h') \<and> m \<noteq> r"
proof -
  have rh: "reply_heap h B L" and pd: "pending_ok mr h B L" using i by (simp_all add: heap_inv_def)
  from Reply_new_ok [OF rh, of "rep_type rep" "rep_buffer rep" "rep_offset rep" "rep_len rep"] n
  have h': "r = rh_next h" "rh_replies h' = (rh_replies h)(r \<mapsto> rep)" "r \<notin> dom (rh_replies h)"
    "reply_heap h' B (L(RChildren r := []))" "orphan h' B (L(RChildren r := [])) r"
    by (auto simp: make_reply_def)
  show "reply_heap h' B (L(RChildren r := []))" "reply_view h' (L(RChildren r := [])) r = (rep, [])"
    "r \<notin> dom (rh_replies h)" "rh_replies h' r = Some rep" "orphan h' B (L(RChildren r := [])) r"
    using h' by (simp_all add: reply_view_def)
  show "m \<in> dom (rh_replies h') \<and> m \<noteq> r" if "mr = Some m"
    using pd that h'(2,3) by (auto simp: pending_ok_def orphan_def)
  show "reply_view h' (L(RChildren r := [])) m = reply_view h L m" if "mr = Some m"
  proof -
    have m: "m \<in> dom (rh_replies h)" using pd that by (simp add: pending_ok_def orphan_def)
    then obtain mrep where mrep: "rh_replies h m = Some mrep" by auto
    have "rh_replies h' (link_id x) = rh_replies h (link_id x)" if "x \<in> set (L (RChildren m))" for x
      using links_of_live [OF rh mrep that] h'(2,3) by (auto simp: link_id_def)
    moreover have "m \<noteq> r" using m h'(3) by auto
    ultimately show ?thesis using h'(2) by (simp add: reply_view_def)
  qed
qed

lemma finish_bulk_pure:
  assumes m: "machine_inv data rp'" and i: "heap_inv bref p (ps_multibulk_reply rp') B h L"
    and n: "make_reply rep h = Inr (r, h1)" and f: "finish_bulk rp' r h1 = Inr f"
  shows "case f of
      Continue rp2 h2 out \<Rightarrow> \<forall>L2. reply_heap h2 B L2 \<longrightarrow>
        pure_do (Bulk (bare rp') rep) rp0 (pending_view rp' h L) = PContinue (bare rp2) (pending_view rp2 h2 L2)
    | Return res rp2 h2 out \<Rightarrow> \<forall>L2. reply_heap h2 B L2 \<longrightarrow>
        pure_do (Bulk (bare rp') rep) rp0 (pending_view rp' h L) =
          PReturn res (bare rp2) (pending_view rp2 h2 L2) (handed_view res out h2 L2)"
proof -
  let ?L1 = "L(RChildren r := [])"
  note k = make_reply_inv [OF i n]
  show ?thesis
  proof (cases "ps_multibulk_count rp' > 0")
    case False
    then have ff: "f = Return RPR_REPLY rp' h1 (Some r)" using f by (simp add: finish_bulk_def)
    have "reply_view h1 L2 r = (rep, [])" "pending_view rp' h1 L2 = pending_view rp' h L" if "reply_heap h1 B L2" for L2
    proof -
      show "reply_view h1 L2 r = (rep, [])" using view_unique [OF k(1) that, of r] k(2,4) by auto
      show "pending_view rp' h1 L2 = pending_view rp' h L"
        using view_unique [OF k(1) that] k(6,7) by (cases "ps_multibulk_reply rp'") (auto simp: pending_view_def)
    qed
    with ff False show ?thesis by (simp add: handed_view_def)
  next
    case True
    then obtain q where q: "ps_multibulk_reply rp' = Some q" using m by (auto simp: machine_inv_def)
    note kq = k(6,7) [OF q]
    let ?rp1 = "rp'\<lparr>ps_multibulk_count := ps_multibulk_count rp' - 1\<rparr>"
    from Reply_add_child_ok [OF k(1) conjunct1 [OF kq(2)] k(5)] obtain lk where
      lk: "Reply_add_child q r h1 = Inr (h1\<lparr>rh_links := lk\<rparr>)"
      "reply_heap (h1\<lparr>rh_links := lk\<rparr>) B (?L1(RChildren q := ?L1 (RChildren q) @ [RLink r]))" by blast
    let ?h2 = "h1\<lparr>rh_links := lk\<rparr>" and ?L2 = "?L1(RChildren q := ?L1 (RChildren q) @ [RLink r])"
    have v: "reply_view ?h2 L2 q = (fst (reply_view h L q), snd (reply_view h L q) @ [rep])" if "reply_heap ?h2 B L2" for L2
    proof -
      have "reply_view ?h2 L2 q = reply_view ?h2 ?L2 q" using view_unique [OF lk(2) that, of q] kq(2) by simp
      also have "\<dots> = (fst (reply_view h1 ?L1 q), snd (reply_view h1 ?L1 q) @ [rep])"
        using kq(2) k(4) by (simp add: reply_view_def link_id_def)
      finally show ?thesis using kq(1) by simp
    qed
    have ff: "f = (if ps_multibulk_count ?rp1 = 0 then Return RPR_REPLY (bare ?rp1) ?h2 (Some q)
        else Continue ?rp1 ?h2 (Some r))" using f True q lk(1) by (simp add: finish_bulk_def Let_def split: if_splits)
    show ?thesis using True q v unfolding ff
      by (cases "ps_multibulk_count ?rp1 = 0") (simp_all add: handed_view_def pending_view_def Let_def split_beta)
  qed
qed

text \<open>One turn.\<close>

lemma parser_step_pure:
  assumes i: "parser_inv bref data B rp h L" and s: "parser_step bref data len c rp h = Inr f"
    and mv: "\<And>rp' rep. parser_move bref data len c rp = Bulk rp' rep \<Longrightarrow> machine_inv data rp'"
  shows "case f of
      Continue rp2 h2 out \<Rightarrow> \<forall>L2. reply_heap h2 B L2 \<longrightarrow>
        pure_do (parser_move bref data len c (bare rp)) (bare rp) (pending_view rp h L) = PContinue (bare rp2) (pending_view rp2 h2 L2)
    | Return res rp2 h2 out \<Rightarrow> \<forall>L2. reply_heap h2 B L2 \<longrightarrow>
        pure_do (parser_move bref data len c (bare rp)) (bare rp) (pending_view rp h L) =
          PReturn res (bare rp2) (pending_view rp2 h2 L2) (handed_view res out h2 L2)"
proof -
  have m: "machine_inv data rp" and hi: "heap_inv bref (ps_p rp) (ps_multibulk_reply rp) B h L"
    using i by (simp_all add: parser_inv_heap)
  have rh: "reply_heap h B L" and pd: "pending_ok (ps_multibulk_reply rp) h B L" using hi by (simp_all add: heap_inv_def)
  have same: "pending_view rp h L2 = pending_view rp h L" if "reply_heap h B L2" for L2
    using view_unique [OF rh that] pd by (cases "ps_multibulk_reply rp") (auto simp: pending_view_def pending_ok_def orphan_def)
  have keep: "ps_multibulk_reply rp' = ps_multibulk_reply rp"
    if "parser_move bref data len c rp \<in> {Stay rp', Done rp' rep, Bulk rp' rep, Shut rp'}" for rp' rep
    using that by (auto simp: parser_move_def Let_def split: if_splits)
  have p: "perform (parser_move bref data len c rp) rp h = Inr f" using s parser_step_move [OF m] by simp
  show ?thesis
  proof (cases "parser_move bref data len c rp")
    case (Stay rp')
    with p keep [of rp'] same show ?thesis by (auto simp: parser_move_bare pending_view_def)
  next
    case Fault
    with p same show ?thesis by (auto simp: parser_move_bare handed_view_def)
  next
    case (Done rp' rep)
    with p obtain r h1 where n: "make_reply rep h = Inr (r, h1)" "f = Return RPR_REPLY rp' h1 (Some r)"
      by (auto simp: bindE_eq_Inr)
    note k = make_reply_inv [OF hi n(1)]
    have "reply_view h1 L2 r = (rep, [])" "pending_view rp' h1 L2 = pending_view rp h L" if "reply_heap h1 B L2" for L2
    proof -
      show "reply_view h1 L2 r = (rep, [])" using view_unique [OF k(1) that, of r] k(2,4) by auto
      show "pending_view rp' h1 L2 = pending_view rp h L" using view_unique [OF k(1) that] k(6,7) keep [of rp' rep] Done
        by (cases "ps_multibulk_reply rp") (auto simp: pending_view_def)
    qed
    with n(2) Done show ?thesis by (simp add: parser_move_bare handed_view_def)
  next
    case (Bulk rp' rep)
    with p obtain r h1 where n: "make_reply rep h = Inr (r, h1)" "finish_bulk rp' r h1 = Inr f"
      by (auto simp: bindE_eq_Inr)
    have "heap_inv bref (ps_p rp) (ps_multibulk_reply rp') B h L" "pending_view rp' h L = pending_view rp h L"
      using hi keep [of rp' rep] Bulk by (simp_all add: pending_view_def)
    with finish_bulk_pure [OF mv [OF Bulk] _ n, of bref "ps_p rp" B L "bare rp"] Bulk show ?thesis
      by (simp only: parser_move_bare bare_move.simps)
  next
    case (Open rp' rep)
    with p obtain r h1 where n: "make_reply rep h = Inr (r, h1)" "f = Continue (rp'\<lparr>ps_multibulk_reply := Some r\<rparr>) h1 None"
      by (auto simp: bindE_eq_Inr)
    note k = make_reply_inv [OF hi n(1)]
    have "reply_view h1 L2 r = (rep, [])" if "reply_heap h1 B L2" for L2
      using view_unique [OF k(1) that, of r] k(2,4) by auto
    with n(2) Open show ?thesis by (simp add: parser_move_bare pending_view_def)
  next
    case (Shut rp')
    with p keep [of rp'] same show ?thesis by (auto simp: parser_move_bare pending_view_def handed_view_def)
  qed
qed


lemma bulk_move_inv:
  assumes "machine_inv data rp" "parser_move bref data len c rp = Bulk rp' rep"
  shows "machine_inv data rp'"
proof -
  have "rp' = go 0 rp \<and> ps_cs rp \<in> {8, 12}"
    using assms(2) by (auto simp: parser_move_def Let_def split: if_splits)
  with assms(1) show ?thesis by (auto simp: machine_inv_def)
qed

lemma parser_loop_pure:
  assumes "parser_inv bref data B rp h L" "ps_p rp \<le> len" "len \<le> length data" "len < 2147483648"
    and "parser_loop bref data len rp h out = Inr (res, rp', h', out')" "reply_heap h' B L'"
  shows "pure_loop bref data len (bare rp) (pending_view rp h L) =
    (res, bare rp', pending_view rp' h' L', handed_view res out' h' L')"
  using assms
proof (induction bref data len rp h out arbitrary: L rule: parser_loop.induct)
  case (1 bref data len rp h out)
  note prems = "1.prems"
  show ?case
  proof (cases "ps_p rp < len")
    case False
    with prems(5) have "ps_p rp = len" "res = RPR_MORE" "rp' = rp" "h' = h"
      by (auto simp: parser_loop.simps bindE_eq_Inr)
    moreover from this have "pending_view rp h L' = pending_view rp h L"
      using view_unique [of h B L L'] prems(1,6)
      by (cases "ps_multibulk_reply rp") (auto simp: pending_view_def parser_inv_def pending_ok_def orphan_def)
    ultimately show ?thesis by (simp add: pure_loop.simps handed_view_def)
  next
    case True
    let ?c = "data ! ps_p rp"
    have c: "ps_p rp < length data" using True prems(3) by simp
    from parser_step_ok [OF prems(1) True prems(4)] obtain f where s: "parser_step bref data len ?c rp h = Inr f"
      unfolding turn_ok_def by blast
    have r: "(case f of Continue rp1 h1 out1 \<Rightarrow> parser_loop bref data len rp1 h1 out1
        | Return res rp1 h1 out1 \<Rightarrow> Inr (res, rp1, h1, out1)) = Inr (res, rp', h', out')"
      using prems(5) True c s by (subst (asm) parser_loop.simps) simp
    have "machine_inv data rp" using prems(1) by (simp add: parser_inv_def)
    note pure = parser_step_pure [OF prems(1) s bulk_move_inv [OF this]]
    note run = pure_loop.simps [of bref data len "bare rp" "pending_view rp h L"]
    show ?thesis
    proof (cases f)
      case (Continue rp1 h1 out1)
      from parser_step_ok [OF prems(1) True prems(4)] s Continue obtain L1 where
        o1: "parser_inv bref data B rp1 h1 L1" "ps_p rp1 \<le> len" unfolding turn_ok_def by auto
      have ih: "pure_loop bref data len (bare rp1) (pending_view rp1 h1 L1) =
          (res, bare rp', pending_view rp' h' L', handed_view res out' h' L')"
        by (rule "1.IH" [OF True _ s Continue o1 prems(3,4) _ prems(6)]) (use r Continue c in simp_all)
      have "pure_do (parser_move bref data len ?c (bare rp)) (bare rp) (pending_view rp h L) =
          PContinue (bare rp1) (pending_view rp1 h1 L1)"
        using pure o1(1) unfolding Continue by (simp add: parser_inv_def)
      with ih True show ?thesis unfolding run by simp
    next
      case (Return res1 rp1 h1 out1)
      with r have "res1 = res" "rp1 = rp'" "h1 = h'" "out1 = out'" by simp_all
      with pure prems(6) True show ?thesis unfolding run Return by simp
    qed
  qed
qed

text \<open>
  C7: the parser's replies are a function of the bytes.  On a valid heap \<open>ReplyParser_execute\<close> returns what
  \<open>pure_loop\<close> computes without it: the same result, the same state, and reply objects that, with
  their children, are exactly the computed values, wherever the allocator puts them and whatever
  other parsers and batches have on the heap.
\<close>

theorem ReplyParser_execute_pure:
  assumes "parser_inv bref data B rp h L" "ps_p rp \<le> len" "len \<le> length data" "len < 2147483648"
  shows "\<exists>res rp' h' out' L'. ReplyParser_execute rp bref data len out h = Inr (res, rp', h', out') \<and>
    parser_inv bref data B rp' h' L' \<and> grows (ps_multibulk_reply rp) B h L h' L' \<and>
    pure_loop bref data len (bare rp) (pending_view rp h L) =
      (res, bare rp', pending_view rp' h' L', handed_view res out' h' L')"
proof -
  from parser_loop_ok [OF assms, of out] obtain res rp' h' out' L' where
    r: "parser_loop bref data len rp h out = Inr (res, rp', h', out')" "parser_inv bref data B rp' h' L'"
    "grows (ps_multibulk_reply rp) B h L h' L'" unfolding outcome_ok_def by blast
  have "reply_heap h' B L'" using r(2) by (simp add: parser_inv_def)
  from parser_loop_pure [OF assms r(1) this] r assms(2) show ?thesis by (auto simp: ReplyParser_execute_def)
qed

theorem ReplyParser_execute_pure_witness:
  "\<exists>res rp' h' out' L'. ReplyParser_execute fresh_parser (ReadBuffer 0) (''*1'' @ crlf @ ''$-1'' @ crlf) 9 None demo_heap =
      Inr (res, rp', h', out') \<and>
    pure_loop (ReadBuffer 0) (''*1'' @ crlf @ ''$-1'' @ crlf) 9 fresh_parser None =
      (res, bare rp', pending_view rp' h' L', handed_view res out' h' L')"
proof -
  have "bare fresh_parser = fresh_parser" "pending_view fresh_parser demo_heap (\<lambda>_. []) = None" "ps_p fresh_parser = 0"
    by (simp_all add: fresh_parser_def pending_view_def)
  with ReplyParser_execute_pure [OF demo_parser_inv, of 9 "''*1'' @ crlf @ ''$-1'' @ crlf" "ReadBuffer 0" None]
  show ?thesis by (auto simp: crlf_def)
qed

section \<open>A growing stream\<close>


text \<open>While a count is read, the bytes since \<open>mark\<close> are digits; the rest of \<open>machine_inv\<close> is not needed.\<close>

definition counting :: "string \<Rightarrow> rparser \<Rightarrow> bool" where
  "counting data rp \<longleftrightarrow> (ps_cs rp \<in> {9, 17} \<longrightarrow> ps_mark rp < ps_p rp \<and>
     (\<forall>i. ps_mark rp \<le> i \<and> i < ps_p rp \<longrightarrow> isdigit (data ! i)))"

lemma parser_move_agree:
  assumes "counting xs rp" "agree n xs ys" "ps_p rp < n"
  shows "parser_move bref xs len (xs ! ps_p rp) rp = parser_move bref ys len (ys ! ps_p rp) rp"
proof -
  have c: "ys ! ps_p rp = xs ! ps_p rp" using agree_nth [OF assms(2,3)] by simp
  have "atoi (drop (ps_mark rp) xs) = atoi (drop (ps_mark rp) ys)"
    if "ps_cs rp \<in> {9, 17}" "xs ! ps_p rp = CHR 0x0D"
    using assms(1) that by (intro atoi_agree [OF assms(2) _ assms(3)]) (auto simp: counting_def)
  then show ?thesis unfolding c parser_move_def Let_def by auto
qed

lemma counting_move:
  assumes c: "counting data rp" and m: "parser_move bref data len (data ! ps_p rp) rp = m"
  shows "case m of Stay rp' \<Rightarrow> counting data rp' | Fault \<Rightarrow> True | Done rp' rep \<Rightarrow> ps_cs rp' = 0
    | Bulk rp' rep \<Rightarrow> ps_cs rp' = 0 | Open rp' rep \<Rightarrow> ps_cs rp' = 18 | Shut rp' \<Rightarrow> ps_cs rp' = 0"
proof (cases "ps_cs rp \<in> {9, 17}")
  case True
  have "\<forall>i. ps_mark rp \<le> i \<and> i < Suc (ps_p rp) \<longrightarrow> isdigit (data ! i)" if "isdigit (data ! ps_p rp)"
    using c True that by (auto simp: counting_def less_Suc_eq)
  with True c show ?thesis unfolding m [symmetric] by (auto simp: parser_move_def Let_def counting_def)
next
  case False
  have d: "counting data (go s (MARK rp))" if "isdigit (data ! ps_p rp)" for s
    using that by (auto simp: counting_def less_Suc_eq)
  have o1: "counting data rp'" if "ps_cs rp' \<notin> {9, 17}" for rp' using that by (simp add: counting_def)
  show ?thesis unfolding m [symmetric] using False d o1
    by (auto simp: parser_move_def Let_def eval_nat_numeral)
qed

lemma counting_do:
  assumes "counting data rp" "pure_do (parser_move bref data len (data ! ps_p rp) rp) rp pd = PContinue rp1 pd1"
  shows "counting data rp1"
  using counting_move [OF assms(1) refl, of bref len] assms(2)
  by (cases "parser_move bref data len (data ! ps_p rp) rp") (auto simp: Let_def counting_def split: if_splits)

lemma pure_loop_agree:
  assumes "counting xs rp" "agree len xs ys"
  shows "pure_loop bref xs len rp pd = pure_loop bref ys len rp pd"
  using assms
proof (induction bref xs len rp pd rule: pure_loop.induct)
  case (1 bref xs len rp pd)
  show ?case
  proof (cases "ps_p rp < len")
    case False
    then show ?thesis by (simp add: pure_loop.simps)
  next
    case True
    note mv = parser_move_agree [OF "1.prems" True, of bref len]
    note run = pure_loop.simps [of bref _ len rp pd]
    show ?thesis
    proof (cases "pure_do (parser_move bref xs len (xs ! ps_p rp) rp) rp pd")
      case (PContinue rp1 pd1)
      from "1.IH" [OF True PContinue counting_do [OF "1.prems"(1) PContinue] "1.prems"(2)] True PContinue mv
      show ?thesis unfolding run by simp
    next
      case (PReturn res rp1 pd1 out)
      with True mv show ?thesis unfolding run by simp
    qed
  qed
qed

lemma pure_loop_counting:
  assumes "counting data rp" "pure_loop bref data len rp pd = (res, rp', pd', out)"
  shows "counting data rp'"
  using assms
proof (induction bref data len rp pd rule: pure_loop.induct)
  case (1 bref data len rp pd)
  show ?case
  proof (cases "ps_p rp < len")
    case False
    with "1.prems" show ?thesis by (simp add: pure_loop.simps)
  next
    case True
    note run = pure_loop.simps [of bref data len rp pd]
    show ?thesis
    proof (cases "pure_do (parser_move bref data len (data ! ps_p rp) rp) rp pd")
      case (PContinue rp1 pd1)
      with "1.IH" [OF True PContinue counting_do [OF "1.prems"(1) PContinue]] "1.prems"(2) True run show ?thesis by simp
    next
      case (PReturn res1 rp1 pd1 out1)
      with "1.prems"(2) True run have r: "rp1 = rp'" by simp
      with PReturn counting_move [OF "1.prems"(1) refl, of bref len] "1.prems"(1)
      show ?thesis by (cases "parser_move bref data len (data ! ps_p rp) rp")
        (auto simp: Let_def counting_def split: if_splits)
    qed
  qed
qed

text \<open>The replies in a stream, and the state of the parser behind them.\<close>

inductive understood :: "bufref \<Rightarrow> string \<Rightarrow> view list \<Rightarrow> rparser \<Rightarrow> view option \<Rightarrow> bool" for bref data where
  nothing: "understood bref data [] fresh_parser None"
| more: "understood bref data vs rp pd \<Longrightarrow> ps_p rp \<le> len \<Longrightarrow> len \<le> length data \<Longrightarrow>
    pure_loop bref data len rp pd = (res, rp', pd', out) \<Longrightarrow> length data < 2147483648 \<Longrightarrow>
    understood bref data (vs @ (case out of None \<Rightarrow> [] | Some v \<Rightarrow> [v])) rp' pd'"

lemma understood_counting: "understood bref data vs rp pd \<Longrightarrow> counting data rp"
proof (induction rule: understood.induct)
  case nothing
  show ?case by (simp add: counting_def fresh_parser_def)
qed (blast intro: pure_loop_counting)

lemma agree_le: "agree n xs ys \<Longrightarrow> m \<le> n \<Longrightarrow> agree m xs ys"
  unfolding agree_def by (metis min.absorb1 le_trans take_take)

lemma understood_agree:
  assumes "understood bref xs vs rp pd" "agree (length xs) xs ys" "length ys < 2147483648"
  shows "understood bref ys vs rp pd"
  using assms
proof (induction rule: understood.induct)
  case nothing
  show ?case by (rule understood.nothing)
next
  case (more vs rp pd len res rp' pd' out)
  have "pure_loop bref ys len rp pd = (res, rp', pd', out)"
    using pure_loop_agree [OF understood_counting [OF more.hyps(1)] agree_le [OF more.prems(1) more.hyps(3)]] more.hyps(4) by simp
  moreover have "len \<le> length ys" using more.hyps(3) more.prems(1) by (simp add: agree_def)
  ultimately show ?case using understood.more [OF more.IH [OF more.prems] more.hyps(2)] more.prems(2) by blast
qed

section \<open>What a server's stream is understood as\<close>

lemma demo_at_rest_inv: "at_rest rp \<Longrightarrow> parser_inv bref data {} rp demo_heap (\<lambda>_. [])"
  using demo_reply_heap
  by (simp add: parser_inv_def at_rest_inv at_rest_def pending_ok_def replies_ok_def)

lemma demo_heap_inv_at: "heap_inv bref p None {} demo_heap (\<lambda>_. [])"
  using demo_reply_heap by (simp add: heap_inv_def pending_ok_def replies_ok_def)

lemma at_rest_bare: "at_rest rp \<Longrightarrow> bare rp = rp" "at_rest rp \<Longrightarrow> pending_view rp h L = None"
  by (cases rp; simp add: at_rest_def pending_view_def)+

text \<open>A run from a parser at rest, on a heap of its own.\<close>

lemma pure_run:
  assumes "at_rest rp" "ps_p rp \<le> len" "len \<le> length data" "len < 2147483648"
  obtains res rp' h' out' L' where "parser_loop bref data len rp demo_heap None = Inr (res, rp', h', out')"
    "parser_inv bref data {} rp' h' L'" "ps_p rp' \<le> len" "res = RPR_MORE \<Longrightarrow> ps_p rp' = len"
    "pure_loop bref data len rp None = (res, bare rp', pending_view rp' h' L', handed_view res out' h' L')"
proof -
  note i = demo_at_rest_inv [OF assms(1), of bref data]
  from parser_loop_ok [OF i assms(2-4), of None] obtain res rp' h' out' L' where
    r: "parser_loop bref data len rp demo_heap None = Inr (res, rp', h', out')" "parser_inv bref data {} rp' h' L'"
    "ps_p rp' \<le> len" "res = RPR_MORE \<longrightarrow> ps_p rp' = len" unfolding outcome_ok_def by blast
  have "reply_heap h' {} L'" using r(2) by (simp add: parser_inv_def)
  from parser_loop_pure [OF i assms(2-4) r(1) this] r that show thesis by (simp add: at_rest_bare [OF assms(1)])
qed

text \<open>A whole encoding, and the first part of one.\<close>

lemma pure_deliver:
  assumes "at_rest rp" "sendable v" "text_at data (ps_p rp) (encode v)"
    "ps_p rp + length (encode v) \<le> len" "len \<le> length data" "len < 2147483648"
  obtains rp' w where "pure_loop bref data len rp None = (RPR_REPLY, rp', None, Some w)" "at_rest rp'"
    "ps_p rp' = ps_p rp + length (encode v)" "value_of data w = Some v"
proof -
  from deliver [OF assms(1) demo_heap_inv_at assms(2-6), where out = None] obtain rp' h' r L' where
    r: "parser_loop bref data len rp demo_heap None = Inr (RPR_REPLY, rp', h', Some r)" "at_rest rp'"
    "ps_p rp' = ps_p rp + length (encode v)" "reply_heap h' {} L'" "value_of data (reply_view h' L' r) = Some v"
    unfolding delivered_def heap_inv_def by blast
  have "ps_p rp \<le> len" using assms(4) by simp
  from parser_loop_pure [OF demo_at_rest_inv [OF assms(1)] this assms(5,6) r(1,4)] r that show thesis
    by (simp add: at_rest_bare [OF assms(1)] at_rest_bare [OF r(2)] handed_view_def)
qed

lemma pure_cut:
  assumes a: "at_rest ap" "ps_p ap \<le> l1" "l1 \<le> len" "len \<le> length data" "len < 2147483648"
    and 1: "pure_loop bref data l1 ap None = (RPR_MORE, rp, pd, None)"
  shows "pure_loop bref data len rp pd = pure_loop bref data len ap None" "ps_p rp = l1"
proof -
  have l1: "l1 \<le> length data" "l1 < 2147483648" using a by simp_all
  from pure_run [OF a(1,2) l1, of bref] obtain res r1 h1 o1 L1 where
    r: "parser_loop bref data l1 ap demo_heap None = Inr (res, r1, h1, o1)" "parser_inv bref data {} r1 h1 L1"
    "ps_p r1 \<le> l1" "res = RPR_MORE \<Longrightarrow> ps_p r1 = l1"
    "pure_loop bref data l1 ap None = (res, bare r1, pending_view r1 h1 L1, handed_view res o1 h1 L1)" by metis
  have same: "res = RPR_MORE" "rp = bare r1" "pd = pending_view r1 h1 L1" using 1 r(5) by simp_all
  then show "ps_p rp = l1" using r(4) by simp
  have p1: "ps_p r1 \<le> len" using r(3) a(3) by simp
  have cut: "parser_loop bref data len ap demo_heap None = parser_loop bref data len r1 h1 o1"
    using parser_loop_cut [OF demo_at_rest_inv [OF a(1)] a(2) agree_refl [OF l1(1)] a(3-5), of bref None] r(1) same(1)
    by (simp add: resume_def)
  have "ps_p ap \<le> len" using a(2,3) by simp
  from pure_run [OF a(1) this a(4,5), of bref] obtain res2 r2 h2 o2 L2 where
    r2: "parser_loop bref data len ap demo_heap None = Inr (res2, r2, h2, o2)" "parser_inv bref data {} r2 h2 L2"
    "pure_loop bref data len ap None = (res2, bare r2, pending_view r2 h2 L2, handed_view res2 o2 h2 L2)" by metis
  have "reply_heap h2 {} L2" using r2(2) by (simp add: parser_inv_def)
  from parser_loop_pure [OF r(2) p1 a(4,5) r2(1) [unfolded cut] this] r2(3) same
  show "pure_loop bref data len rp pd = pure_loop bref data len ap None" by simp
qed

lemma pure_incomplete:
  assumes a: "at_rest rp" "sendable v" "text_at full (ps_p rp) (encode v)" "agree len data full"
    and len: "ps_p rp \<le> len" "len < ps_p rp + length (encode v)" "length full < 2147483648"
  obtains rp' pd where "pure_loop bref data len rp None = (RPR_MORE, rp', pd, None)" "ps_p rp' = len"
proof -
  have l: "len \<le> length data" "len \<le> length full" "len < 2147483648" using a(4) len(3) by (auto simp: agree_def)
  have f: "ps_p rp + length (encode v) \<le> length full"
    using a(3) by (auto simp: text_at_def dest: arg_cong [of _ _ length])
  from pure_run [OF a(1) len(1) l(1,3), of bref] obtain res r1 h1 o1 L1 where
    r: "parser_loop bref data len rp demo_heap None = Inr (res, r1, h1, o1)" "ps_p r1 \<le> len"
    "res = RPR_MORE \<Longrightarrow> ps_p r1 = len"
    "pure_loop bref data len rp None = (res, bare r1, pending_view r1 h1 L1, handed_view res o1 h1 L1)" by metis
  have "delivered bref full {} (ps_p rp + length (encode v)) demo_heap (\<lambda>_. []) v
      (parser_loop bref full (length full) rp demo_heap None)"
    by (rule deliver [OF a(1) demo_heap_inv_at a(2,3) f order_refl len(3)])
  then obtain r2 h2 r where
    d: "parser_loop bref full (length full) rp demo_heap None = Inr (RPR_REPLY, r2, h2, Some r)"
    "ps_p r2 = ps_p rp + length (encode v)" unfolding delivered_def by blast
  have "parser_loop bref full (length full) rp demo_heap None = resume bref full (length full) (parser_loop bref data len rp demo_heap None)"
    by (rule parser_loop_cut [OF demo_at_rest_inv [OF a(1)] len(1) a(4) l(2) order_refl len(3)])
  with d r(1,2) len(2) have "res = RPR_MORE" by (auto simp: resume_def split: if_splits)
  with r(3,4) that show thesis by (simp add: handed_view_def)
qed

text \<open>
  In a stream of encoded values, the parser is never wrong: it understands the first values, and is in
  the middle of the next.
\<close>

definition midway :: "bufref \<Rightarrow> string \<Rightarrow> nat \<Rightarrow> rparser \<Rightarrow> view option \<Rightarrow> bool" where
  "midway bref data p rp pd \<longleftrightarrow> (\<exists>ap. at_rest ap \<and> ps_p ap = p \<and> p \<le> ps_p rp \<and> ps_p rp \<le> length data \<and>
     pure_loop bref data (ps_p rp) ap None = (RPR_MORE, rp, pd, None))"

lemma midway_rest: "at_rest rp \<Longrightarrow> ps_p rp \<le> length data \<Longrightarrow> midway bref data (ps_p rp) rp None"
  unfolding midway_def by (intro exI [of _ rp]) (simp add: pure_loop.simps)

lemma encode_all_split: "k < length ws \<Longrightarrow> encode_all ws = encode_all (take k ws) @ encode (ws ! k) @ encode_all (drop (Suc k) ws)"
  by (subst id_take_nth_drop [of k ws]) (simp_all add: encode_all_def del: take_drop)

lemma text_at_agree:
  assumes "text_at full p s" "agree n data full" "p + length s \<le> n"
  shows "text_at data p s"
proof -
  have "take (length s) (drop p xs) = drop p (take (p + length s) xs)" for xs :: string
    by (simp add: take_drop add.commute)
  moreover have "take (p + length s) data = take (p + length s) full"
    using agree_le [OF assms(2,3)] by (simp add: agree_def)
  ultimately show ?thesis using assms by (simp add: text_at_def agree_def)
qed

lemma pure_next:
  assumes m: "midway bref data (length (encode_all (take k ws))) rp pd" and k: "k \<le> length ws"
    and v: "\<forall>v \<in> set ws. sendable v" "data @ rest = encode_all ws" "length (encode_all ws) < 2147483648"
    and len: "ps_p rp \<le> len" "len \<le> length data"
    and r: "pure_loop bref data len rp pd = (res, rp', pd', out)"
  shows "res = RPR_MORE \<and> out = None \<and> midway bref data (length (encode_all (take k ws))) rp' pd' \<or>
    res = RPR_REPLY \<and> k < length ws \<and> midway bref data (length (encode_all (take (Suc k) ws))) rp' pd' \<and>
      (\<exists>w. out = Some w \<and> value_of data w = Some (ws ! k))"
proof -
  let ?p = "length (encode_all (take k ws))"
  from m obtain ap where ap: "at_rest ap" "ps_p ap = ?p" "?p \<le> ps_p rp" "ps_p rp \<le> length data"
    "pure_loop bref data (ps_p rp) ap None = (RPR_MORE, rp, pd, None)" unfolding midway_def by blast
  have ld: "length data \<le> length (encode_all ws)" using arg_cong [OF v(2), of length] by simp
  have l31: "len < 2147483648" using len(2) ld v(3) by simp
  from pure_cut(1) [OF ap(1) _ len l31 ap(5)] ap(2,3) r
  have run: "pure_loop bref data len ap None = (res, rp', pd', out)" by simp
  show ?thesis
  proof (cases "k < length ws")
    case False
    then have "?p = length (encode_all ws)" using k by simp
    with ld ap(3) len have "ps_p rp = len" by simp
    with r m show ?thesis by (auto simp: pure_loop.simps)
  next
    case True
    let ?v = "ws ! k"
    note split = encode_all_split [OF True]
    have sv: "sendable ?v" using v(1) True by simp
    have next1: "length (encode_all (take (Suc k) ws)) = ?p + length (encode ?v)"
      using True by (simp add: take_Suc_conv_app_nth encode_all_def)
    have full: "text_at (encode_all ws) (ps_p ap) (encode ?v)" unfolding split ap(2) by (rule text_at_pre)
    have agr: "agree len data (encode_all ws)" unfolding v(2) [symmetric] agree_def using len(2) by simp
    show ?thesis
    proof (cases "?p + length (encode ?v) \<le> len")
      case fits: True
      have "text_at data (ps_p ap) (encode ?v)" by (rule text_at_agree [OF full agr]) (use fits ap(2) in simp)
      from pure_deliver [OF ap(1) sv this _ len(2) l31, of bref] fits ap(2) obtain r2 w where
        d: "pure_loop bref data len ap None = (RPR_REPLY, r2, None, Some w)" "at_rest r2"
        "ps_p r2 = ?p + length (encode ?v)" "value_of data w = Some ?v" by metis
      have "midway bref data (length (encode_all (take (Suc k) ws))) r2 None"
        using midway_rest [OF d(2), of data bref] d(3) fits len(2) next1 by simp
      with d run True show ?thesis by simp
    next
      case False
      then have "len < ps_p ap + length (encode ?v)" "ps_p ap \<le> len" using ap(2,3) len(1) by simp_all
      from pure_incomplete [OF ap(1) sv full agr this(2,1) v(3), of bref] obtain r2 pd2 where
        d: "pure_loop bref data len ap None = (RPR_MORE, r2, pd2, None)" "ps_p r2 = len" by metis
      with ap(1,2,3) len have "midway bref data ?p r2 pd2" unfolding midway_def by (intro exI [of _ ap]) auto
      with d(1) run show ?thesis by simp
    qed
  qed
qed

lemma understood_values:
  assumes "understood bref data vs rp pd" "\<forall>v \<in> set ws. sendable v" "data @ rest = encode_all ws"
    "length (encode_all ws) < 2147483648"
  shows "length vs \<le> length ws \<and> map (value_of data) vs = map Some (take (length vs) ws) \<and>
    midway bref data (length (encode_all (take (length vs) ws))) rp pd"
  using assms
proof (induction rule: understood.induct)
  case nothing
  have "midway bref data (ps_p fresh_parser) fresh_parser None" by (rule midway_rest [OF fresh_at_rest]) (simp add: fresh_parser_def)
  then show ?case by (simp add: fresh_parser_def encode_all_def)
next
  case (more vs rp pd len res rp' pd' out)
  from more.IH [OF more.prems] have
    ih: "length vs \<le> length ws" "map (value_of data) vs = map Some (take (length vs) ws)"
      "midway bref data (length (encode_all (take (length vs) ws))) rp pd" by blast+
  from pure_next [OF ih(3,1) more.prems more.hyps(2-4)] ih show ?case
    by (auto simp: take_Suc_conv_app_nth)
qed

end
