(* ===== verification/Connection_Inv.thy ===== *)
theory Connection_Inv
  imports Connection Parser_Pure
begin

text \<open>
  The invariant of a (batch, connection) pair and what an operation on one pair leaves alone of all
  others.  It is what makes the operations of \<open>libredis/connection.c\<close> free of faults: the
  asserts hold, the parser and the buffers are used within their contracts, and the number of
  requested events agrees with the flags in the poll array.
\<close>

section \<open>What is assumed of the kernel\<close>

text \<open>
  Documented behaviour of the system calls: descriptors are positive (0 is standard input), a
  \<open>write\<close> of \<open>m > 0\<close> bytes that succeeds takes between 1 and \<open>m\<close> of them, a \<open>read\<close> delivers at
  most what was asked for, and \<open>poll\<close> reports \<open>POLLIN\<close> and \<open>POLLOUT\<close> only where they were requested.
  \<open>f n\<close> bounds what call number \<open>n\<close> can deliver; all servers together send less than a gigabyte.
\<close>

definition kernel_ok :: "kernel \<Rightarrow> (nat \<Rightarrow> nat) \<Rightarrow> bool" where
  "kernel_ok K f \<longleftrightarrow>
     (\<forall>n fd. k_socket K n = Inr fd \<longrightarrow> 0 < fd) \<and>
     (\<forall>n fd m j. k_write K n fd m = Inr j \<longrightarrow> 0 < m \<longrightarrow> 0 < j \<and> j \<le> m) \<and>
     (\<forall>n fd m bs. k_read K n fd m = Inr bs \<longrightarrow> length bs \<le> m \<and> length bs \<le> f n) \<and>
     (\<forall>n. sum f {..<n} < 1073741824) \<and>
     (\<forall>n fds t revs. k_poll K n fds t = Inr revs \<longrightarrow> length revs = length fds \<and>
        (\<forall>i < length fds. revs ! i \<inter> {POLLIN, POLLOUT} \<subseteq> snd (fds ! i)))"

definition received :: "(nat \<Rightarrow> nat) \<Rightarrow> nat \<Rightarrow> nat" where
  "received f n = sum f {..<n}"

lemma received_Suc [simp]: "received f (Suc n) = received f n + f n"
  by (simp add: received_def)

lemma received_mono: "m \<le> n \<Longrightarrow> received f m \<le> received f n"
  unfolding received_def by (rule sum_mono2) auto

lemma received_bound: "kernel_ok K f \<Longrightarrow> received f n < 1073741824"
  by (simp add: kernel_ok_def received_def)

section \<open>The heap seen from another pair\<close>

text \<open>
  What operations on the batch \<open>b\<close> with pending multibulk \<open>mr\<close> leave alone of the reply heap: old
  replies, the lists that are not its own, and the replies other parsers have pending.
\<close>

definition heap_frame ::
    "nat \<Rightarrow> nat option \<Rightarrow> nat option \<Rightarrow> nat set \<Rightarrow> rheap \<Rightarrow> (rnode \<Rightarrow> rnode list) \<Rightarrow>
     rheap \<Rightarrow> (rnode \<Rightarrow> rnode list) \<Rightarrow> bool" where
  "heap_frame b mr mr' B h L h' L' \<longleftrightarrow>
     rh_replies h \<subseteq>\<^sub>m rh_replies h' \<and>
     (\<forall>a \<in> heads h B. a \<noteq> RQueue b \<longrightarrow> Some a \<noteq> map_option RChildren mr \<longrightarrow> L' a = L a) \<and>
     (\<forall>a \<in> heads h' B. \<forall>r \<in> dom (rh_replies h). RLink r \<in> set (L' a) \<longrightarrow>
        mr = Some r \<or> a \<in> heads h B \<and> RLink r \<in> set (L a)) \<and>
     own_pending mr h mr' \<and>
     (\<forall>r rep. rh_replies h' r = Some rep \<longrightarrow>
        rh_replies h r = Some rep \<or> rep_buffer rep \<in> {None, Some (ReadBuffer b), Some (ErrorBuffer b)}) \<and>
     (\<forall>b' \<in> B - {b}. \<forall>r. RLink r \<in> set (L (RQueue b')) \<longrightarrow> L' (RChildren r) = L (RChildren r))"

lemma heap_frame_refl: "own_pending mr h mr' \<Longrightarrow> heap_frame b mr mr' B h L h L"
  by (simp add: heap_frame_def)

lemma heap_frame_same:
  "own_pending mr h mr' \<Longrightarrow> rh_replies h' = rh_replies h \<Longrightarrow> heap_frame b mr mr' B h L h' L"
  by (simp add: heap_frame_def heads_def)

lemma heap_frameD:
  assumes "heap_frame b mr mr' B h L h' L'"
  shows "rh_replies h \<subseteq>\<^sub>m rh_replies h'"
    "a \<in> heads h B \<Longrightarrow> a \<noteq> RQueue b \<Longrightarrow> Some a \<noteq> map_option RChildren mr \<Longrightarrow> L' a = L a"
    "a \<in> heads h' B \<Longrightarrow> r \<in> dom (rh_replies h) \<Longrightarrow> RLink r \<in> set (L' a) \<Longrightarrow>
       mr = Some r \<or> a \<in> heads h B \<and> RLink r \<in> set (L a)"
    "own_pending mr h mr'"
    "rh_replies h' r = Some rep \<Longrightarrow>
       rh_replies h r = Some rep \<or> rep_buffer rep \<in> {None, Some (ReadBuffer b), Some (ErrorBuffer b)}"
    "b' \<in> B \<Longrightarrow> b' \<noteq> b \<Longrightarrow> RLink r \<in> set (L (RQueue b')) \<Longrightarrow> L' (RChildren r) = L (RChildren r)"
  using assms unfolding heap_frame_def by blast+

lemma heap_frame_trans:
  assumes 1: "heap_frame b mr mr1 B h L h1 L1" and 2: "heap_frame b mr1 mr2 B h1 L1 h2 L2"
  shows "heap_frame b mr mr2 B h L h2 L2"
proof -
  note le = heap_frameD(1) [OF 1] and own = heap_frameD(4) [OF 1] and own2 = heap_frameD(4) [OF 2]
  have d: "dom (rh_replies h) \<subseteq> dom (rh_replies h1)" using le by (rule map_le_implies_dom_le)
  have hd: "heads h B \<subseteq> heads h1 B" using le by (rule map_le_heads)
  have old: "mr1 = Some r \<Longrightarrow> r \<in> dom (rh_replies h) \<Longrightarrow> mr = Some r" for r using own by (auto simp: own_pending_def)
  have "rh_replies h \<subseteq>\<^sub>m rh_replies h2" by (rule map_le_trans [OF le heap_frameD(1) [OF 2]])
  moreover have "L2 a = L a" if a: "a \<in> heads h B" "a \<noteq> RQueue b" "Some a \<noteq> map_option RChildren mr" for a
  proof -
    have "Some a \<noteq> map_option RChildren mr1" using own a d by (cases mr1) (auto simp: own_pending_def heads_def)
    then have "L2 a = L1 a" using heap_frameD(2) [OF 2 _ a(2)] a(1) hd by blast
    also have "L1 a = L a" using heap_frameD(2) [OF 1 a] .
    finally show ?thesis .
  qed
  moreover have "mr = Some r \<or> a \<in> heads h B \<and> RLink r \<in> set (L a)"
    if a: "a \<in> heads h2 B" "r \<in> dom (rh_replies h)" "RLink r \<in> set (L2 a)" for a r
    using heap_frameD(3) [OF 2 a(1) _ a(3)] heap_frameD(3) [OF 1 _ a(2)] old [OF _ a(2)] a(2) d by blast
  moreover have "own_pending mr h mr2" using own own2 d by (auto simp: own_pending_def)
  moreover have "rh_replies h r = Some rep \<or> rep_buffer rep \<in> {None, Some (ReadBuffer b), Some (ErrorBuffer b)}"
    if "rh_replies h2 r = Some rep" for r rep
    using heap_frameD(5) [OF 2 that] heap_frameD(5) [OF 1, of r rep] by blast
  moreover have "L2 (RChildren r) = L (RChildren r)" if b': "b' \<in> B" "b' \<noteq> b" "RLink r \<in> set (L (RQueue b'))" for b' r
  proof -
    have "L1 (RQueue b') = L (RQueue b')" using b' by (intro heap_frameD(2) [OF 1]) (cases mr; simp add: heads_def)+
    with b'(3) have "L2 (RChildren r) = L1 (RChildren r)" by (intro heap_frameD(6) [OF 2 b'(1,2)]) simp
    also have "\<dots> = L (RChildren r)" by (rule heap_frameD(6) [OF 1 b'])
    finally show ?thesis .
  qed
  ultimately show ?thesis unfolding heap_frame_def by simp blast
qed

text \<open>The replies in the queue of a batch, as values.\<close>

definition queue_views :: "nat \<Rightarrow> rheap \<Rightarrow> (rnode \<Rightarrow> rnode list) \<Rightarrow> view list" where
  "queue_views b h L = map (\<lambda>n. reply_view h L (link_id n)) (L (RQueue b))"

lemma queue_views_same: "rh_replies h' = rh_replies h \<Longrightarrow> queue_views b h' L = queue_views b h L"
  by (simp add: queue_views_def reply_view_def)

lemma queue_views_keep:
  assumes rh: "reply_heap h B L" and b: "b \<in> B" and le: "rh_replies h \<subseteq>\<^sub>m rh_replies h'"
    and L: "L' (RQueue b) = L (RQueue b)" "\<And>r. RLink r \<in> set (L (RQueue b)) \<Longrightarrow> L' (RChildren r) = L (RChildren r)"
  shows "queue_views b h' L' = queue_views b h L"
proof -
  have "reply_view h' L' (link_id n) = reply_view h L (link_id n)" if n: "n \<in> set (L (RQueue b))" for n
  proof -
    have "set (L (RQueue b)) \<subseteq> RLink ` dom (rh_replies h)" using rh b by (auto simp: reply_heap_def heads_def)
    with n obtain r rep where r: "n = RLink r" "rh_replies h r = Some rep" by auto
    have "rh_replies h' (link_id x) = rh_replies h (link_id x)" if "x \<in> set (L (RChildren r))" for x
      using links_of_live [OF rh r(2) that] le by (auto simp: map_le_def link_id_def dom_def)
    moreover have "rh_replies h' r = rh_replies h r" using le r(2) by (auto simp: map_le_def dom_def)
    ultimately show ?thesis using L(2) n r(1) by (simp add: reply_view_def link_id_def)
  qed
  then show ?thesis by (simp add: queue_views_def L(1))
qed

lemma queue_views_other:
  assumes f: "heap_frame b mr mr' B h L h' L'" and rh: "reply_heap h B L" and b': "b' \<in> B" "b' \<noteq> b"
  shows "queue_views b' h' L' = queue_views b' h L"
proof (rule queue_views_keep [OF rh b'(1)])
  show "rh_replies h \<subseteq>\<^sub>m rh_replies h'" using f by (simp add: heap_frame_def)
  have "RQueue b' \<in> heads h B" "RQueue b' \<noteq> RQueue b" "Some (RQueue b') \<noteq> map_option RChildren mr"
    using b' by (cases mr; auto simp: heads_def)+
  then show "L' (RQueue b') = L (RQueue b')" using f unfolding heap_frame_def by blast
qed (use f b' in \<open>auto simp: heap_frame_def\<close>)

lemma queue_pending:
  assumes rh: "reply_heap h B L" and p: "pending_ok mr h B L" and b: "b \<in> B" and g: "grows mr B h L h' L'"
    and r: "RLink r \<in> set (L (RQueue b))"
  shows "L' (RChildren r) = L (RChildren r)"
proof -
  have q: "RQueue b \<in> heads h B" using b by (simp add: heads_def)
  have "set (L (RQueue b)) \<subseteq> RLink ` dom (rh_replies h)" using rh q by (auto simp: reply_heap_def)
  with r have "RChildren r \<in> heads h B" by (auto simp: heads_def)
  moreover have "mr \<noteq> Some r" using p q r by (auto simp: pending_ok_def orphan_def)
  then have "Some (RChildren r) \<noteq> map_option RChildren mr" by (cases mr) auto
  ultimately show ?thesis using g by (simp add: grows_def)
qed

lemma queue_views_grows:
  assumes rh: "reply_heap h B L" and p: "pending_ok mr h B L" and b: "b \<in> B" and g: "grows mr B h L h' L'"
  shows "queue_views b h' L' = queue_views b h L"
proof (rule queue_views_keep [OF rh b])
  show "rh_replies h \<subseteq>\<^sub>m rh_replies h'" using g by (simp add: grows_def)
  show "L' (RQueue b) = L (RQueue b)" using g b by (cases mr) (auto simp: grows_def heads_def)
qed (rule queue_pending [OF rh p b g])

text \<open>What another batch's replies and pending multibulk keep.\<close>

lemma replies_ok_other:
  assumes f: "heap_frame b mr mr' B h L h' L'" and ok: "replies_ok (ReadBuffer b) q h' L'"
    and ok': "replies_ok (ReadBuffer b') p h L" and "b' \<noteq> b"
  shows "replies_ok (ReadBuffer b') p h' L'"
proof -
  have "reply_ok (ReadBuffer b') p h' L' r rep" if r: "rh_replies h' r = Some rep" for r rep
  proof -
    have "rep_offset rep + rep_len rep \<le> p" if "rep_buffer rep = Some (ReadBuffer b')"
    proof -
      have "rh_replies h r = Some rep" using f r that \<open>b' \<noteq> b\<close> unfolding heap_frame_def by fastforce
      with ok' that show ?thesis by (simp add: replies_ok_def reply_ok_def)
    qed
    then show ?thesis using ok r by (auto simp: replies_ok_def reply_ok_def)
  qed
  then show ?thesis by (simp add: replies_ok_def)
qed

lemma pending_ok_other:
  assumes f: "heap_frame b mr mr' B h L h' L'" and p: "pending_ok m h B L" and "m = None \<or> m \<noteq> mr"
  shows "pending_ok m h' B L'"
proof (cases m)
  case (Some x)
  with p have x: "orphan h B L x" "rep_type (the (rh_replies h x)) = RT_MULTIBULK" by (auto simp: pending_ok_def)
  then have xd: "x \<in> dom (rh_replies h)" by (simp add: orphan_def)
  have le: "rh_replies h \<subseteq>\<^sub>m rh_replies h'" using f by (simp add: heap_frame_def)
  then have same: "rh_replies h' x = rh_replies h x" using xd by (auto simp: map_le_def)
  have "RLink x \<notin> set (L' a)" if "a \<in> heads h' B" for a
    using f xd x(1) assms(3) that Some unfolding heap_frame_def orphan_def by blast
  then have "orphan h' B L' x" using xd same by (auto simp: orphan_def)
  with x(2) same Some show ?thesis by (simp add: pending_ok_def)
qed (simp add: pending_ok_def)


section \<open>The operations on the heap\<close>

text \<open>The parser makes replies that refer to its buffer or to none.\<close>

definition new_bufs :: "bufref \<Rightarrow> rheap \<Rightarrow> rheap \<Rightarrow> bool" where
  "new_bufs bref h h' \<longleftrightarrow> (\<forall>r rep. rh_replies h' r = Some rep \<longrightarrow>
     rh_replies h r = Some rep \<or> rep_buffer rep \<in> {None, Some bref})"

lemma new_bufs_refl [simp]: "new_bufs bref h h"
  by (simp add: new_bufs_def)

lemma new_bufs_trans: "new_bufs bref h h1 \<Longrightarrow> new_bufs bref h1 h2 \<Longrightarrow> new_bufs bref h h2"
  unfolding new_bufs_def by blast

lemma new_bufs_links [simp]: "new_bufs bref h (h'\<lparr>rh_links := lk\<rparr>) = new_bufs bref h h'"
  by (simp add: new_bufs_def)

lemma Reply_new_bufs:
  assumes "Reply_new ty buf off len h = Inr (r, h')" "buf \<in> {None, Some bref}"
  shows "new_bufs bref h h'"
  using assms by (auto simp: Reply_new_def Alloc_alloc_def new_bufs_def bindE_eq_Inr Let_def split: if_splits)

lemma finish_bulk_bufs:
  "finish_bulk rp r h = Inr f \<Longrightarrow>
   (case f of Continue rp' h' out \<Rightarrow> new_bufs bref h h' | Return res rp' h' out \<Rightarrow> new_bufs bref h h')"
  by (auto simp: finish_bulk_def Let_def bindE_eq_Inr Reply_add_child_def split: if_splits)

lemma parser_step_bufs:
  assumes "parser_step bref data len c rp h = Inr f"
  shows "case f of Continue rp' h' out \<Rightarrow> new_bufs bref h h' | Return res rp' h' out \<Rightarrow> new_bufs bref h h'"
proof -
  have fb: "case f of Continue rp' h' out \<Rightarrow> new_bufs bref h h' | Return res rp' h' out \<Rightarrow> new_bufs bref h h'"
    if "Reply_new ty (Some bref) off n h = Inr (r, h1)" "finish_bulk rp1 r h1 = Inr f" for ty off n r h1 rp1
    using finish_bulk_bufs [OF that(2), of bref] Reply_new_bufs [OF that(1), of bref] new_bufs_trans
    by (auto split: flow.splits)
  show ?thesis using assms
    by (auto simp: parser_step_defs report_line_def Let_def bindE_eq_Inr
        dest: fb Reply_new_bufs [where bref = bref] split: if_splits)
qed

lemma parser_loop_bufs:
  "parser_loop bref data len rp h out = Inr (res, rp', h', out') \<Longrightarrow> new_bufs bref h h'"
proof (induction bref data len rp h out rule: parser_loop.induct)
  case (1 bref data len rp h out)
  show ?case
  proof (cases "ps_p rp < len")
    case True
    with "1.prems" obtain f where f: "ps_p rp < length data" "parser_step bref data len (data ! ps_p rp) rp h = Inr f"
      "(case f of Continue rp1 h1 out1 \<Rightarrow> parser_loop bref data len rp1 h1 out1
        | Return res rp1 h1 out1 \<Rightarrow> Inr (res, rp1, h1, out1)) = Inr (res, rp', h', out')"
      by (subst (asm) parser_loop.simps) (auto simp: bindE_eq_Inr split: if_splits)
    show ?thesis
    proof (cases f)
      case (Continue rp1 h1 out1)
      with f parser_step_bufs [OF f(2)] "1.IH" [OF True _ f(2) Continue] new_bufs_trans show ?thesis by auto
    next
      case (Return res1 rp1 h1 out1)
      with f parser_step_bufs [OF f(2)] show ?thesis by auto
    qed
  next
    case False
    with "1.prems" show ?thesis by (subst (asm) parser_loop.simps) (auto simp: bindE_eq_Inr)
  qed
qed

text \<open>A call of the parser, and the reply it completes being queued.\<close>

lemma parser_heap_frame:
  assumes run: "parser_loop (ReadBuffer b) data len rp h out = Inr (res, rp', h', out')"
    and g: "grows (ps_multibulk_reply rp) B h L h' L'" "own_pending (ps_multibulk_reply rp) h (ps_multibulk_reply rp')"
    and rh: "reply_heap h B L" and p: "pending_ok (ps_multibulk_reply rp) h B L"
  shows "heap_frame b (ps_multibulk_reply rp) (ps_multibulk_reply rp') B h L h' L'"
proof -
  have "\<forall>r rep. rh_replies h' r = Some rep \<longrightarrow>
      rh_replies h r = Some rep \<or> rep_buffer rep \<in> {None, Some (ReadBuffer b), Some (ErrorBuffer b)}"
    using parser_loop_bufs [OF run] unfolding new_bufs_def by blast
  moreover have "\<forall>b' \<in> B - {b}. \<forall>r. RLink r \<in> set (L (RQueue b')) \<longrightarrow> L' (RChildren r) = L (RChildren r)"
    using queue_pending [OF rh p _ g(1)] by blast
  ultimately show ?thesis using g unfolding heap_frame_def grows_def keeps_unlinked_def by blast
qed

lemma queue_heap_frame:
  assumes "heap_frame b mr mr' B h L h1 L1" "own_reply mr h (Some r)"
  shows "heap_frame b mr mr' B h L (h1\<lparr>rh_links := lk\<rparr>) (L1(RQueue b := L1 (RQueue b) @ [RLink r]))"
proof -
  have hd: "heads (h1\<lparr>rh_links := lk\<rparr>) B = heads h1 B" by (simp add: heads_def)
  have "mr = Some x \<or> a \<in> heads h B \<and> RLink x \<in> set (L a)"
    if "a \<in> heads h1 B" "x \<in> dom (rh_replies h)" "RLink x \<in> set ((L1(RQueue b := L1 (RQueue b) @ [RLink r])) a)" for a x
  proof (cases "RLink x \<in> set (L1 a)")
    case True
    with that(1,2) assms(1) show ?thesis unfolding heap_frame_def by blast
  next
    case False
    with that(3) have "x = r" by (auto split: if_splits)
    with that(2) assms(2) show ?thesis by (simp add: own_reply_def)
  qed
  then show ?thesis using assms(1) unfolding heap_frame_def hd by simp
qed

text \<open>An aborted batch.\<close>

lemma abort_heap_frame:
  assumes a: "rh_replies h \<subseteq>\<^sub>m rh_replies h'" "dom (rh_replies h') = dom (rh_replies h) \<union> set rs"
      "\<forall>a \<in> heads h B. a \<noteq> RQueue b \<longrightarrow> L' a = L a" "\<forall>r \<in> set rs. L' (RChildren r) = []"
      "L' (RQueue b) = L (RQueue b) @ map RLink rs" "b \<in> B"
      "\<forall>r \<in> set rs. rh_replies h r = None \<and> rh_replies h' r = Some (error_reply b len)"
    and rh: "reply_heap h B L"
  shows "heap_frame b mr mr B h L h' L'"
proof -
  have new: "r \<notin> set rs" if "r \<in> dom (rh_replies h)" for r using a(7) that by auto
  have "a \<in> heads h B \<and> RLink x \<in> set (L a)"
    if x: "a \<in> heads h' B" "x \<in> dom (rh_replies h)" "RLink x \<in> set (L' a)" for a x
  proof (cases "a \<in> heads h B")
    case True
    with x new [OF x(2)] a(3,5) show ?thesis by (cases "a = RQueue b") auto
  next
    case False
    with x(1) a(2) obtain r where "a = RChildren r" "r \<in> set rs" by (auto simp: heads_def)
    with a(4) x(3) show ?thesis by auto
  qed
  moreover have "rh_replies h r = Some rep \<or> rep_buffer rep \<in> {None, Some (ReadBuffer b), Some (ErrorBuffer b)}"
    if r: "rh_replies h' r = Some rep" for r rep
  proof (cases "r \<in> set rs")
    case True
    with a(7) r have "rep = error_reply b len" by simp
    then show ?thesis by (simp add: error_reply_def)
  next
    case False
    with r a(2) have "r \<in> dom (rh_replies h)" by blast
    with a(1) r show ?thesis by (auto simp: map_le_def)
  qed
  moreover have "L' (RChildren r) = L (RChildren r)" if "b' \<in> B - {b}" "RLink r \<in> set (L (RQueue b'))" for b' r
  proof -
    have "set (L (RQueue b')) \<subseteq> RLink ` dom (rh_replies h)" using rh that(1) by (auto simp: reply_heap_def heads_def)
    with that(2) have "RChildren r \<in> heads h B" by (auto simp: heads_def)
    with a(3) show ?thesis by simp
  qed
  ultimately show ?thesis using a(1,3) unfolding heap_frame_def by auto
qed

lemma abort_views:
  assumes a: "rh_replies h \<subseteq>\<^sub>m rh_replies h'"
      "\<forall>a \<in> heads h B. a \<noteq> RQueue b \<longrightarrow> L' a = L a" "\<forall>r \<in> set rs. L' (RChildren r) = []"
      "L' (RQueue b) = L (RQueue b) @ map RLink rs" "b \<in> B"
      "\<forall>r \<in> set rs. rh_replies h r = None \<and> rh_replies h' r = Some (error_reply b len)"
    and rh: "reply_heap h B L"
  shows "queue_views b h' L' = queue_views b h L @ replicate (length rs) (error_reply b len, [])"
proof -
  let ?L = "L'(RQueue b := L (RQueue b))"
  have "queue_views b h' ?L = queue_views b h L"
  proof (rule queue_views_keep [OF rh a(5,1)])
    fix r assume "RLink r \<in> set (L (RQueue b))"
    moreover have "set (L (RQueue b)) \<subseteq> RLink ` dom (rh_replies h)" using rh a(5) by (auto simp: reply_heap_def heads_def)
    ultimately have "RChildren r \<in> heads h B" by (auto simp: heads_def)
    with a(2) show "?L (RChildren r) = L (RChildren r)" by simp
  qed simp
  moreover have "reply_view h' ?L = reply_view h' L'" by (simp add: reply_view_def fun_eq_iff)
  moreover have "map (\<lambda>r. reply_view h' L' r) rs = replicate (length rs) (error_reply b len, [])"
    using a(3,6) by (intro replicate_eqI) (auto simp: reply_view_def)
  ultimately show ?thesis by (simp add: queue_views_def a(4) link_id_def comp_def)
qed

lemma abort_replies_kept:
  assumes a: "rh_replies h \<subseteq>\<^sub>m rh_replies h'" "dom (rh_replies h') = dom (rh_replies h) \<union> set rs"
      "\<forall>a \<in> heads h B. a \<noteq> RQueue b \<longrightarrow> L' a = L a" "\<forall>r \<in> set rs. L' (RChildren r) = []"
      "\<forall>r \<in> set rs. rh_replies h r = None \<and> rh_replies h' r = Some (error_reply b len)"
    and ok: "replies_ok (ReadBuffer b') p h L" and rh: "reply_heap h B L"
  shows "replies_ok (ReadBuffer b') p h' L'"
proof -
  have "reply_ok (ReadBuffer b') p h' L' r rep" if r: "rh_replies h' r = Some rep" for r rep
  proof (cases "r \<in> set rs")
    case True
    with a(4,5) r show ?thesis by (auto simp: reply_ok_def error_reply_def)
  next
    case False
    with r a(2) have rd: "r \<in> dom (rh_replies h)" by blast
    then have old: "rh_replies h r = Some rep" using a(1) r by (auto simp: map_le_def)
    have L: "L' (RChildren r) = L (RChildren r)" using a(3) rd by (auto simp: heads_def)
    have "rh_replies h' (link_id n) = rh_replies h (link_id n)" if "n \<in> set (L (RChildren r))" for n
      using links_of_live [OF rh old that] a(1) by (auto simp: map_le_def dom_def)
    moreover have "reply_ok (ReadBuffer b') p h L r rep" using ok old by (simp add: replies_ok_def)
    ultimately show ?thesis unfolding reply_ok_def L by auto
  qed
  then show ?thesis by (simp add: replies_ok_def)
qed


section \<open>The world seen from another pair\<close>

text \<open>The number of events a poll entry asks for; \<open>numevents\<close> is meant to be the sum of them.\<close>

definition bits :: "pollfd \<Rightarrow> int" where
  "bits fd = of_bool (POLLIN \<in> pf_events fd) + of_bool (POLLOUT \<in> pf_events fd)"

definition exec_frame :: "nat \<Rightarrow> executor \<Rightarrow> executor \<Rightarrow> bool" where
  "exec_frame i ex ex' \<longleftrightarrow>
     ex_numpairs ex' = ex_numpairs ex \<and> ex_pairs ex' = ex_pairs ex \<and> ex_end_tm_ms ex' = ex_end_tm_ms ex \<and>
     length (ex_fds ex') = length (ex_fds ex) \<and> (\<forall>k. k \<noteq> i \<longrightarrow> ex_fds ex' ! k = ex_fds ex ! k) \<and>
     ex_numevents ex' - bits (ex_fds ex' ! i) = ex_numevents ex - bits (ex_fds ex ! i) \<and>
     pf_revents (ex_fds ex' ! i) = pf_revents (ex_fds ex ! i)"

definition addr_of :: "nat \<Rightarrow> world \<Rightarrow> nat option" where
  "addr_of c w = Option.bind (w_conns w c) cn_addrinfo"

definition pending_of :: "nat \<Rightarrow> world \<Rightarrow> nat option" where
  "pending_of c w = Option.bind (w_conns w c) (\<lambda>cn. Option.bind (cn_parser cn) ps_multibulk_reply)"

text \<open>What operations on entry \<open>i\<close>, batch \<open>b\<close>, connection \<open>c\<close> leave alone.\<close>

definition frame ::
    "nat \<Rightarrow> nat \<Rightarrow> nat \<Rightarrow> nat set \<Rightarrow> world \<Rightarrow> (rnode \<Rightarrow> rnode list) \<Rightarrow> world \<Rightarrow> (rnode \<Rightarrow> rnode list) \<Rightarrow> bool" where
  "frame i b c B w L w' L' \<longleftrightarrow>
     (\<forall>c'. c' \<noteq> c \<longrightarrow> w_conns w' c' = w_conns w c') \<and>
     (\<forall>b'. b' \<noteq> b \<longrightarrow> w_batches w' b' = w_batches w b') \<and>
     exec_frame i (w_exec w) (w_exec w') \<and> calls w \<le> calls w' \<and>
     (\<forall>a \<in> os_addrs (w_os w). a < calls w \<longrightarrow> addr_of c w \<noteq> Some a \<longrightarrow> a \<in> os_addrs (w_os w')) \<and>
     (addr_of c w' = addr_of c w \<or> (\<forall>a. addr_of c w' = Some a \<longrightarrow> calls w \<le> a)) \<and>
     heap_frame b (pending_of c w) (pending_of c w') B (w_heap w) L (w_heap w') L'"

lemma exec_frame_refl [simp]: "exec_frame i ex ex"
  by (simp add: exec_frame_def)

lemma exec_frame_trans: "exec_frame i ex ex1 \<Longrightarrow> exec_frame i ex1 ex2 \<Longrightarrow> exec_frame i ex ex2"
  by (simp add: exec_frame_def)

lemma frame_refl [simp]: "frame i b c B w L w L"
  by (simp add: frame_def heap_frame_refl)

lemma frame_trans:
  assumes 1: "frame i b c B w L w1 L1" and 2: "frame i b c B w1 L1 w2 L2"
  shows "frame i b c B w L w2 L2"
proof -
  have c: "calls w \<le> calls w1" "calls w1 \<le> calls w2" using 1 2 by (simp_all add: frame_def)
  have a1: "addr_of c w1 = addr_of c w \<or> (\<forall>a. addr_of c w1 = Some a \<longrightarrow> calls w \<le> a)"
    using 1 by (simp add: frame_def)
  have "a \<in> os_addrs (w_os w2)" if "a \<in> os_addrs (w_os w)" "a < calls w" "addr_of c w \<noteq> Some a" for a
  proof -
    have "a \<in> os_addrs (w_os w1)" using 1 that by (simp add: frame_def)
    moreover have "addr_of c w1 \<noteq> Some a" using a1 that by auto
    moreover have "a < calls w1" using that c by simp
    ultimately show ?thesis using 2 by (simp add: frame_def)
  qed
  moreover have "addr_of c w2 = addr_of c w \<or> (\<forall>a. addr_of c w2 = Some a \<longrightarrow> calls w \<le> a)"
  proof -
    have "addr_of c w2 = addr_of c w1 \<or> (\<forall>a. addr_of c w2 = Some a \<longrightarrow> calls w1 \<le> a)"
      using 2 by (simp add: frame_def)
    then show ?thesis using a1 c by (metis le_trans)
  qed
  moreover have "heap_frame b (pending_of c w) (pending_of c w2) B (w_heap w) L (w_heap w2) L2"
    using 1 2 heap_frame_trans unfolding frame_def by blast
  moreover have "exec_frame i (w_exec w) (w_exec w2)"
    using 1 2 exec_frame_trans unfolding frame_def by blast
  moreover have "\<forall>c'. c' \<noteq> c \<longrightarrow> w_conns w2 c' = w_conns w c'" "\<forall>b'. b' \<noteq> b \<longrightarrow> w_batches w2 b' = w_batches w b'"
    using 1 2 by (simp_all add: frame_def)
  ultimately show ?thesis using c unfolding frame_def by (intro conjI) (blast | linarith)+
qed

lemma world_simps [simp]:
  "w_conns (put_conn c cn w) = (w_conns w)(c \<mapsto> cn)" "w_batches (put_conn c cn w) = w_batches w"
  "w_heap (put_conn c cn w) = w_heap w" "w_exec (put_conn c cn w) = w_exec w" "w_os (put_conn c cn w) = w_os w"
  "w_conns (put_batch b bt w) = w_conns w" "w_batches (put_batch b bt w) = (w_batches w)(b \<mapsto> bt)"
  "w_heap (put_batch b bt w) = w_heap w" "w_exec (put_batch b bt w) = w_exec w" "w_os (put_batch b bt w) = w_os w"
  "w_conns (tick w) = w_conns w" "w_batches (tick w) = w_batches w" "w_heap (tick w) = w_heap w"
  "w_exec (tick w) = w_exec w" "os_sent (w_os (tick w)) = os_sent (w_os w)"
  "os_sent (w_os (set_errno e w)) = os_sent (w_os w)" "os_addrs (w_os (tick w)) = os_addrs (w_os w)" "calls (tick w) = Suc (calls w)"
  "w_conns (set_errno e w) = w_conns w" "w_batches (set_errno e w) = w_batches w" "w_heap (set_errno e w) = w_heap w"
  "w_exec (set_errno e w) = w_exec w" "os_addrs (w_os (set_errno e w)) = os_addrs (w_os w)"
  "calls (set_errno e w) = calls w" "calls (put_conn c cn w) = calls w" "calls (put_batch b bt w) = calls w"
  "calls (w\<lparr>w_heap := h\<rparr>) = calls w" "calls (w\<lparr>w_exec := ex\<rparr>) = calls w"
  "calls (w\<lparr>w_os := (w_os w)\<lparr>os_sent := s\<rparr>\<rparr>) = calls w"
  "calls (w\<lparr>w_os := (w_os w)\<lparr>os_open := op1\<rparr>\<rparr>) = calls w"
  "calls (w\<lparr>w_os := (w_os w)\<lparr>os_addrs := as\<rparr>\<rparr>) = calls w"
  "calls (w\<lparr>w_os := (w_os w)\<lparr>os_open := op1, os_sent := s\<rparr>\<rparr>) = calls w"
  "get_conn c (w\<lparr>w_heap := h\<rparr>) = get_conn c w" "get_batch b (w\<lparr>w_heap := h\<rparr>) = get_batch b w"
  by (simp_all add: put_conn_def put_batch_def tick_def set_errno_def calls_def get_conn_def get_batch_def)

lemma get_simps [simp]:
  "get_conn c w = Inr cn \<longleftrightarrow> w_conns w c = Some cn" "get_batch b w = Inr bt \<longleftrightarrow> w_batches w b = Some bt"
  by (simp_all add: get_conn_def get_batch_def split: option.split)

lemma get_put [simp]:
  "get_conn c (put_conn c cn w) = Inr cn" "get_conn c (put_batch b bt w) = get_conn c w"
  "get_conn c (tick w) = get_conn c w" "get_conn c (set_errno e w) = get_conn c w"
  "get_conn c (w\<lparr>w_os := os\<rparr>) = get_conn c w" "get_conn c (w\<lparr>w_exec := ex\<rparr>) = get_conn c w"
  "get_batch b (put_batch b bt w) = Inr bt" "get_batch b (put_conn c cn w) = get_batch b w"
  "get_batch b (tick w) = get_batch b w" "get_batch b (set_errno e w) = get_batch b w"
  "get_batch b (w\<lparr>w_os := os\<rparr>) = get_batch b w" "get_batch b (w\<lparr>w_exec := ex\<rparr>) = get_batch b w"
  "put_conn c cn1 (put_conn c cn2 w) = put_conn c cn1 w"
  "put_batch b bt1 (put_batch b bt2 w) = put_batch b bt1 w"
  by (simp_all add: put_conn_def put_batch_def tick_def set_errno_def get_conn_def get_batch_def)

section \<open>The invariant of a pair\<close>

text \<open>
  \<open>pair_state\<close>: what always holds.  \<open>N b\<close> is the number of replies the queue of batch \<open>b\<close> will have
  in the end: those it has and one for each outstanding command.
\<close>

definition pair_state ::
    "(nat \<Rightarrow> nat) \<Rightarrow> (nat \<Rightarrow> nat) \<Rightarrow> nat set \<Rightarrow> nat \<Rightarrow> nat \<Rightarrow> nat \<Rightarrow> world \<Rightarrow> (rnode \<Rightarrow> rnode list) \<Rightarrow>
     connection \<Rightarrow> batch \<Rightarrow> rparser \<Rightarrow> bool" where
  "pair_state f N B i b c w L cn bt rp \<longleftrightarrow>
     reply_heap (w_heap w) B L \<and> i < length (ex_fds (w_exec w)) \<and>
     w_conns w c = Some cn \<and> w_batches w b = Some bt \<and> cn_parser cn = Some rp \<and> bt_id bt = b \<and> b \<in> B \<and>
     buffer_ok (bt_write_buffer bt) \<and> writable (bt_read_buffer bt) \<and>
     8 \<le> bf_capacity (bt_read_buffer bt) \<and> bf_capacity (bt_read_buffer bt) \<le> 4294967296 \<and>
     bf_position (bt_read_buffer bt) \<le> received f (calls w) \<and> int32 (bt_num_commands bt) \<and>
     int (length (L (RQueue b))) + max 0 (bt_num_commands bt) = int (N b) \<and>
     replies_ok (ReadBuffer b) (bf_position (bt_read_buffer bt)) (w_heap w) L \<and>
     (\<forall>a. cn_addrinfo cn = Some a \<longrightarrow> a < calls w \<and> a \<in> os_addrs (w_os w))"

text \<open>A connection that works on its batch, and one that was aborted.\<close>

definition live :: "nat set \<Rightarrow> nat \<Rightarrow> world \<Rightarrow> (rnode \<Rightarrow> rnode list) \<Rightarrow> connection \<Rightarrow> batch \<Rightarrow> rparser \<Rightarrow> bool" where
  "live B b w L cn bt rp \<longleftrightarrow>
     cn_batch cn = Some b \<and> cn_executor cn \<and> cn_state cn \<noteq> CS_ABORTED \<and> bt_error bt = None \<and>
     machine_inv (Buffer_data (bt_read_buffer bt)) rp \<and> ps_p rp \<le> bf_position (bt_read_buffer bt) \<and>
     pending_ok (ps_multibulk_reply rp) (w_heap w) B L \<and> replies_ok (ReadBuffer b) (ps_p rp) (w_heap w) L \<and>
     (cn_state cn \<in> {CS_CONNECTING, CS_CONNECTED} \<longrightarrow> 0 < cn_sockfd cn \<and> cn_addrinfo cn \<noteq> None)"

definition dead :: "connection \<Rightarrow> batch \<Rightarrow> bool" where
  "dead cn bt \<longleftrightarrow> cn_state cn = CS_ABORTED \<and> bt_num_commands bt \<le> 0 \<and> cn_addrinfo cn = None"

text \<open>
  A pair as a client sees it: the state of the connection, the commands that are outstanding, the
  replies that arrived and the state of the parser as values, what was sent over the present socket and
  what is still to be sent, and what was received; the error text and the iterator of the batch.
\<close>

record session =
  ss_batch :: nat
  ss_state :: conn_state
  ss_due :: int
  ss_log :: "view list"
  ss_parser :: rparser
  ss_pending :: "view option"
  ss_sent :: string
  ss_unsent :: string
  ss_got :: string
  ss_error :: "string option"
  ss_iter :: "int \<times> rnode option list"

abbreviation session_parse :: "session \<Rightarrow> parser_result \<times> rparser \<times> view option \<times> view option" where
  "session_parse s \<equiv> pure_loop (ReadBuffer (ss_batch s)) (ss_got s) (length (ss_got s)) (ss_parser s) (ss_pending s)"

inductive session_step :: "session \<Rightarrow> session \<Rightarrow> bool" where
  connecting: "ss_state s = CS_CLOSED \<Longrightarrow> session_step s (s\<lparr>ss_state := CS_CONNECTING\<rparr>)"
| connected: "ss_state s = CS_CLOSED \<Longrightarrow> session_step s (s\<lparr>ss_state := CS_CONNECTED\<rparr>)"
| established: "ss_state s = CS_CONNECTING \<Longrightarrow> session_step s (s\<lparr>ss_state := CS_CONNECTED\<rparr>)"
| wrote: "ss_state s = CS_CONNECTED \<Longrightarrow> ss_unsent s = out @ rest \<Longrightarrow>
    session_step s (s\<lparr>ss_sent := ss_sent s @ out, ss_unsent := rest\<rparr>)"
| received: "ss_state s = CS_CONNECTED \<Longrightarrow> length (ss_got s @ bs) < 2147483648 \<Longrightarrow>
    session_step s (s\<lparr>ss_got := ss_got s @ bs\<rparr>)"
| parsed: "ss_state s = CS_CONNECTED \<Longrightarrow> ps_p (ss_parser s) \<le> length (ss_got s) \<Longrightarrow>
    session_parse s = (res, rp, pd, None) \<Longrightarrow> session_step s (s\<lparr>ss_parser := rp, ss_pending := pd\<rparr>)"
| replied: "ss_state s = CS_CONNECTED \<Longrightarrow> ps_p (ss_parser s) \<le> length (ss_got s) \<Longrightarrow> 0 < ss_due s \<Longrightarrow>
    session_parse s = (RPR_REPLY, rp, pd, Some v) \<Longrightarrow>
    session_step s (s\<lparr>ss_due := ss_due s - 1, ss_log := ss_log s @ [v], ss_parser := rp, ss_pending := pd\<rparr>)"
| aborted: "ss_state s \<noteq> CS_ABORTED \<Longrightarrow>
    session_step s (s\<lparr>ss_state := CS_ABORTED, ss_due := min 0 (ss_due s),
      ss_log := ss_log s @ replicate (nat (ss_due s)) (error_reply (ss_batch s) (length t + 1), []), ss_sent := [],
      ss_error := Some (t @ [CHR 0x00])\<rparr>)"

lemma session_moves [simp]:
  fixes b n l p pd x u g er it
  defines "S \<equiv> \<lambda>st. \<lparr>ss_batch = b, ss_state = st, ss_due = n, ss_log = l, ss_parser = p, ss_pending = pd,
    ss_sent = x, ss_unsent = u, ss_got = g, ss_error = er, ss_iter = it\<rparr>"
  shows "session_step\<^sup>*\<^sup>* (S CS_CLOSED) (S CS_CONNECTING)" "session_step\<^sup>*\<^sup>* (S CS_CLOSED) (S CS_CONNECTED)"
    "session_step\<^sup>*\<^sup>* (S CS_CONNECTING) (S CS_CONNECTED)"
  unfolding S_def
  using session_step.intros(1-3) [of "\<lparr>ss_batch = b, ss_state = CS_CLOSED, ss_due = n, ss_log = l, ss_parser = p, ss_pending = pd,
      ss_sent = x, ss_unsent = u, ss_got = g, ss_error = er, ss_iter = it\<rparr>"]
    session_step.intros(3) [of "\<lparr>ss_batch = b, ss_state = CS_CONNECTING, ss_due = n, ss_log = l, ss_parser = p, ss_pending = pd,
      ss_sent = x, ss_unsent = u, ss_got = g, ss_error = er, ss_iter = it\<rparr>"]
  by (simp_all add: r_into_rtranclp)

lemma session_wrote [simp]:
  "session_step\<^sup>*\<^sup>* \<lparr>ss_batch = b, ss_state = CS_CONNECTED, ss_due = n, ss_log = l, ss_parser = p, ss_pending = pd,
     ss_sent = x, ss_unsent = out @ u, ss_got = g, ss_error = er, ss_iter = it\<rparr>
   \<lparr>ss_batch = b, ss_state = CS_CONNECTED, ss_due = n, ss_log = l, ss_parser = p, ss_pending = pd,
     ss_sent = x @ out, ss_unsent = u, ss_got = g, ss_error = er, ss_iter = it\<rparr>"
  using session_step.intros(4) [of "\<lparr>ss_batch = b, ss_state = CS_CONNECTED, ss_due = n, ss_log = l, ss_parser = p, ss_pending = pd,
     ss_sent = x, ss_unsent = out @ u, ss_got = g, ss_error = er, ss_iter = it\<rparr>" out u] by (simp add: r_into_rtranclp)

lemma session_received [simp]:
  "length g + length bs < 2147483648 \<Longrightarrow>
   session_step\<^sup>*\<^sup>* \<lparr>ss_batch = b, ss_state = CS_CONNECTED, ss_due = n, ss_log = l, ss_parser = p, ss_pending = pd,
     ss_sent = x, ss_unsent = u, ss_got = g, ss_error = er, ss_iter = it\<rparr>
   \<lparr>ss_batch = b, ss_state = CS_CONNECTED, ss_due = n, ss_log = l, ss_parser = p, ss_pending = pd,
     ss_sent = x, ss_unsent = u, ss_got = g @ bs, ss_error = er, ss_iter = it\<rparr>"
  using session_step.intros(5) [of "\<lparr>ss_batch = b, ss_state = CS_CONNECTED, ss_due = n, ss_log = l, ss_parser = p, ss_pending = pd,
     ss_sent = x, ss_unsent = u, ss_got = g, ss_error = er, ss_iter = it\<rparr>" bs] by (simp add: r_into_rtranclp)

lemma session_parsed:
  "ps_p p \<le> length g \<Longrightarrow> pure_loop (ReadBuffer b) g (length g) p pd = (res, p', pd', None) \<Longrightarrow>
   session_step\<^sup>*\<^sup>* \<lparr>ss_batch = b, ss_state = CS_CONNECTED, ss_due = n, ss_log = l, ss_parser = p, ss_pending = pd,
     ss_sent = x, ss_unsent = u, ss_got = g, ss_error = er, ss_iter = it\<rparr>
   \<lparr>ss_batch = b, ss_state = CS_CONNECTED, ss_due = n, ss_log = l, ss_parser = p', ss_pending = pd',
     ss_sent = x, ss_unsent = u, ss_got = g, ss_error = er, ss_iter = it\<rparr>"
  using session_step.intros(6) [of "\<lparr>ss_batch = b, ss_state = CS_CONNECTED, ss_due = n, ss_log = l, ss_parser = p, ss_pending = pd,
     ss_sent = x, ss_unsent = u, ss_got = g, ss_error = er, ss_iter = it\<rparr>" res p' pd'] by (simp add: r_into_rtranclp)

lemma session_replied:
  "ps_p p \<le> length g \<Longrightarrow> 0 < n \<Longrightarrow> pure_loop (ReadBuffer b) g (length g) p pd = (RPR_REPLY, p', pd', Some v) \<Longrightarrow>
   session_step\<^sup>*\<^sup>* \<lparr>ss_batch = b, ss_state = CS_CONNECTED, ss_due = n, ss_log = l, ss_parser = p, ss_pending = pd,
     ss_sent = x, ss_unsent = u, ss_got = g, ss_error = er, ss_iter = it\<rparr>
   \<lparr>ss_batch = b, ss_state = CS_CONNECTED, ss_due = n - 1, ss_log = l @ [v], ss_parser = p', ss_pending = pd',
     ss_sent = x, ss_unsent = u, ss_got = g, ss_error = er, ss_iter = it\<rparr>"
  using session_step.intros(7) [of "\<lparr>ss_batch = b, ss_state = CS_CONNECTED, ss_due = n, ss_log = l, ss_parser = p, ss_pending = pd,
     ss_sent = x, ss_unsent = u, ss_got = g, ss_error = er, ss_iter = it\<rparr>" p' pd' v] by (simp add: r_into_rtranclp)

lemma session_aborted [simp]:
  "st \<noteq> CS_ABORTED \<Longrightarrow>
   session_step\<^sup>*\<^sup>* \<lparr>ss_batch = b, ss_state = st, ss_due = n, ss_log = l, ss_parser = p, ss_pending = pd,
     ss_sent = x, ss_unsent = u, ss_got = g, ss_error = er, ss_iter = it\<rparr>
   \<lparr>ss_batch = b, ss_state = CS_ABORTED, ss_due = min 0 n, ss_log = l @ replicate (nat n) (error_reply b (Suc (length t)), []),
     ss_parser = p, ss_pending = pd, ss_sent = [], ss_unsent = u, ss_got = g, ss_error = Some (t @ [CHR 0x00]), ss_iter = it\<rparr>"
  using session_step.intros(8) [of "\<lparr>ss_batch = b, ss_state = st, ss_due = n, ss_log = l, ss_parser = p, ss_pending = pd,
     ss_sent = x, ss_unsent = u, ss_got = g, ss_error = er, ss_iter = it\<rparr>" t] by (simp add: r_into_rtranclp)

definition session_of :: "nat \<Rightarrow> nat \<Rightarrow> world \<Rightarrow> (rnode \<Rightarrow> rnode list) \<Rightarrow> session" where
  "session_of c b w L = (let cn = the (w_conns w c); bt = the (w_batches w b) in
     \<lparr>ss_batch = b, ss_state = cn_state cn, ss_due = bt_num_commands bt, ss_log = queue_views b (w_heap w) L,
      ss_parser = bare (the (cn_parser cn)), ss_pending = pending_view (the (cn_parser cn)) (w_heap w) L,
      ss_sent = (if cn_state cn \<in> {CS_CONNECTING, CS_CONNECTED} then os_sent (w_os w) (cn_sockfd cn) else []),
      ss_unsent = unsent (bt_write_buffer bt), ss_got = contents (bt_read_buffer bt),
      ss_error = map_option contents (bt_error bt), ss_iter = (bt_sp bt, bt_current bt)\<rparr>)"

lemma pending_view_keep:
  assumes rh: "reply_heap h B L" and p: "pending_ok (ps_multibulk_reply rp) h B L" and le: "rh_replies h \<subseteq>\<^sub>m rh_replies h'"
    and L: "\<And>a. a \<in> heads h B \<Longrightarrow> a \<noteq> RQueue b \<Longrightarrow> L' a = L a"
  shows "pending_view rp h' L' = pending_view rp h L"
proof (cases "ps_multibulk_reply rp")
  case (Some m)
  with p obtain rep where m: "rh_replies h m = Some rep" by (auto simp: pending_ok_def orphan_def)
  have "L' (RChildren m) = L (RChildren m)" using L m by (auto simp: heads_def)
  moreover have "rh_replies h' (link_id x) = rh_replies h (link_id x)" if "x \<in> set (L (RChildren m))" for x
    using links_of_live [OF rh m that] le by (auto simp: map_le_def link_id_def dom_def)
  moreover have "rh_replies h' m = rh_replies h m" using le m by (auto simp: map_le_def dom_def)
  ultimately show ?thesis using Some by (simp add: pending_view_def reply_view_def)
qed (simp add: pending_view_def)

text \<open>An operation serves a pair: it leaves all else alone and is a run of the session.\<close>

definition served ::
    "nat \<Rightarrow> nat \<Rightarrow> nat \<Rightarrow> nat set \<Rightarrow> world \<Rightarrow> (rnode \<Rightarrow> rnode list) \<Rightarrow> world \<Rightarrow> (rnode \<Rightarrow> rnode list) \<Rightarrow> bool" where
  "served i b c B w L w' L' \<longleftrightarrow> frame i b c B w L w' L' \<and>
     session_step\<^sup>*\<^sup>* (session_of c b w L) (session_of c b w' L')"

lemma served_refl [simp]: "served i b c B w L w L"
  by (simp add: served_def)

lemma served_trans: "served i b c B w L w1 L1 \<Longrightarrow> served i b c B w1 L1 w2 L2 \<Longrightarrow> served i b c B w L w2 L2"
  unfolding served_def using frame_trans rtranclp_trans by fast

lemma served_frame: "served i b c B w L w' L' \<Longrightarrow> frame i b c B w L w' L'"
  by (simp add: served_def)

text \<open>
  The result of an operation on a pair: all else is left alone, and the pair is aborted or its state
  satisfies \<open>Q\<close>.
\<close>

definition settled ::
    "(nat \<Rightarrow> nat) \<Rightarrow> (nat \<Rightarrow> nat) \<Rightarrow> nat set \<Rightarrow> nat \<Rightarrow> nat \<Rightarrow> nat \<Rightarrow> world \<Rightarrow> (rnode \<Rightarrow> rnode list) \<Rightarrow> world \<Rightarrow>
     (connection \<Rightarrow> batch \<Rightarrow> pollfd \<Rightarrow> bool) \<Rightarrow> bool" where
  "settled f N B i b c w L w' Q \<longleftrightarrow>
     (\<exists>L' cn bt rp. served i b c B w L w' L' \<and> pair_state f N B i b c w' L' cn bt rp \<and>
        (live B b w' L' cn bt rp \<and> Q cn bt (ex_fds (w_exec w') ! i) \<or> dead cn bt))"

lemma settled_frame:
  "served i b c B w L w1 L1 \<Longrightarrow> settled f N B i b c w1 L1 w' Q \<Longrightarrow> settled f N B i b c w L w' Q"
  unfolding settled_def using served_trans by blast

lemma settled_mono:
  "settled f N B i b c w L w' Q \<Longrightarrow> (\<And>cn bt fd. cn_state cn \<noteq> CS_ABORTED \<Longrightarrow> Q cn bt fd \<Longrightarrow> R cn bt fd) \<Longrightarrow>
   settled f N B i b c w L w' R"
  unfolding settled_def live_def by blast

lemma settled_dead:
  "pair_state f N B i b c w L cn bt rp \<Longrightarrow> dead cn bt \<Longrightarrow> settled f N B i b c w L w Q"
  unfolding settled_def using served_refl by blast

lemma settled_live:
  "served i b c B w L w' L' \<Longrightarrow> pair_state f N B i b c w' L' cn bt rp \<Longrightarrow> live B b w' L' cn bt rp \<Longrightarrow>
   Q cn bt (ex_fds (w_exec w') ! i) \<Longrightarrow> settled f N B i b c w L w' Q"
  unfolding settled_def by blast

text \<open>The other pairs keep their state.\<close>

lemma other_pair:
  assumes f: "frame i b c B w L w' L'" and st: "pair_state f N B i b c w' L' cn bt rp"
    and st': "pair_state f N B j b' c' w L cn' bt' rp'" and ne: "j \<noteq> i" "b' \<noteq> b" "c' \<noteq> c"
    and addr: "\<And>a. cn_addrinfo cn' = Some a \<Longrightarrow> addr_of c w \<noteq> Some a"
  shows "pair_state f N B j b' c' w' L' cn' bt' rp'"
proof -
  have hf: "heap_frame b (pending_of c w) (pending_of c w') B (w_heap w) L (w_heap w') L'"
    using f by (simp add: frame_def)
  have "replies_ok (ReadBuffer b') (bf_position (bt_read_buffer bt')) (w_heap w') L'"
    using replies_ok_other [OF hf _ _ ne(2)] st st' unfolding pair_state_def by blast
  moreover have "L' (RQueue b') = L (RQueue b')"
    using hf st' ne(2) unfolding heap_frame_def pair_state_def heads_def
    by (cases "pending_of c w") auto
  moreover have "bf_position (bt_read_buffer bt') \<le> received f (calls w')"
    using st' f received_mono [of "calls w" "calls w'" f] by (auto simp: pair_state_def frame_def)
  moreover have "\<forall>a. cn_addrinfo cn' = Some a \<longrightarrow> a < calls w' \<and> a \<in> os_addrs (w_os w')"
    using st' f addr unfolding pair_state_def frame_def by (meson order_less_le_trans)
  ultimately show ?thesis using st st' f ne unfolding pair_state_def frame_def exec_frame_def by simp
qed

lemma other_live:
  assumes f: "frame i b c B w L w' L'" and st: "pair_state f N B i b c w' L' cn bt rp"
    and lv: "live B b' w L cn' bt' rp'" and ne: "b' \<noteq> b"
    and pend: "\<And>m. ps_multibulk_reply rp' = Some m \<Longrightarrow> pending_of c w \<noteq> Some m"
  shows "live B b' w' L' cn' bt' rp'"
proof -
  have hf: "heap_frame b (pending_of c w) (pending_of c w') B (w_heap w) L (w_heap w') L'"
    using f by (simp add: frame_def)
  have "pending_ok (ps_multibulk_reply rp') (w_heap w') B L'"
    using pending_ok_other [OF hf] lv pend unfolding live_def by (cases "ps_multibulk_reply rp'") auto
  moreover have "replies_ok (ReadBuffer b') (ps_p rp') (w_heap w') L'"
    using replies_ok_other [OF hf _ _ ne] st lv unfolding pair_state_def live_def by blast
  ultimately show ?thesis using lv by (simp add: live_def)
qed

section \<open>Requesting an event, aborting\<close>

definition flags_of :: "event set \<Rightarrow> poll_flag set" where
  "flags_of ev = (if EVENT_READ \<in> ev then {POLLIN} else {}) \<union> (if EVENT_WRITE \<in> ev then {POLLOUT} else {})"

text \<open>A pair at work; \<open>same_pair\<close> says in which parts of the world its state does not show.\<close>

definition working ::
    "(nat \<Rightarrow> nat) \<Rightarrow> (nat \<Rightarrow> nat) \<Rightarrow> nat set \<Rightarrow> nat \<Rightarrow> nat \<Rightarrow> nat \<Rightarrow> world \<Rightarrow> (rnode \<Rightarrow> rnode list) \<Rightarrow>
     connection \<Rightarrow> batch \<Rightarrow> rparser \<Rightarrow> bool" where
  "working f N B i b c w L cn bt rp \<longleftrightarrow> pair_state f N B i b c w L cn bt rp \<and> live B b w L cn bt rp"

lemma working_conn:
  assumes "working f N B i b c w L cn bt rp"
    "w_conns w' c = Some cn'" "w_batches w' b = Some bt" "w_heap w' = w_heap w" "calls w \<le> calls w'"
    "length (ex_fds (w_exec w')) = length (ex_fds (w_exec w))"
    "cn_parser cn' = cn_parser cn" "cn_batch cn' = cn_batch cn" "cn_executor cn' = cn_executor cn"
    "cn_state cn' \<noteq> CS_ABORTED"
    "cn_state cn' \<in> {CS_CONNECTING, CS_CONNECTED} \<Longrightarrow> 0 < cn_sockfd cn' \<and> cn_addrinfo cn' \<noteq> None"
    "\<And>a. cn_addrinfo cn' = Some a \<Longrightarrow> a < calls w' \<and> a \<in> os_addrs (w_os w')"
  shows "working f N B i b c w' L cn' bt rp"
  using assms received_mono [OF assms(5), of f] unfolding working_def pair_state_def live_def
  by (auto intro: le_trans)

lemma working_same:
  assumes w: "working f N B i b c w L cn bt rp"
    "w_conns w' c = Some cn" "w_batches w' b = Some bt" "w_heap w' = w_heap w" "calls w \<le> calls w'"
    "length (ex_fds (w_exec w')) = length (ex_fds (w_exec w))" "os_addrs (w_os w') = os_addrs (w_os w)"
  shows "working f N B i b c w' L cn bt rp"
  by (rule working_conn [OF w(1-6)])
    (use w in \<open>auto simp: working_def pair_state_def live_def intro: order_less_le_trans\<close>)

lemma working_sel:
  assumes "working f N B i b c w L cn bt rp"
  shows "get_conn c w = Inr cn" "get_batch b w = Inr bt" "w_conns w c = Some cn" "w_batches w b = Some bt"
    "cn_parser cn = Some rp" "cn_batch cn = Some b" "cn_executor cn" "cn_state cn \<noteq> CS_ABORTED"
    "cn_addrinfo cn = Some a \<Longrightarrow> a < calls w \<and> a \<in> os_addrs (w_os w)"
  using assms by (simp_all add: working_def pair_state_def live_def)

lemmas served_simps = served_def frame_def addr_of_def pending_of_def heap_frame_refl session_of_def Let_def

lemma settled_working:
  "served i b c B w L w' L' \<Longrightarrow> working f N B i b c w' L' cn bt rp \<Longrightarrow>
   Q cn bt (ex_fds (w_exec w') ! i) \<Longrightarrow> settled f N B i b c w L w' Q"
  unfolding working_def using settled_live by blast

lemma notify_ok:
  assumes w: "working f N B i b c w L cn bt rp" and st: "cn_state cn \<noteq> CS_CLOSED"
    and new: "flags_of ev \<inter> pf_events (ex_fds (w_exec w) ! i) = {}"
  shows "\<exists>w'. Executor_notify_event c ev i w = Inr w' \<and> served i b c B w L w' L \<and>
    working f N B i b c w' L cn bt rp \<and>
    pf_events (ex_fds (w_exec w') ! i) = pf_events (ex_fds (w_exec w) ! i) \<union> flags_of ev"
proof -
  let ?fd = "ex_fds (w_exec w) ! i"
  let ?fd1 = "?fd\<lparr>pf_fd := cn_sockfd cn, pf_events := pf_events ?fd \<union> flags_of ev\<rparr>"
  let ?n = "ex_numevents (w_exec w) + of_bool (EVENT_READ \<in> ev) + of_bool (EVENT_WRITE \<in> ev)"
  let ?w = "w\<lparr>w_exec := (w_exec w)\<lparr>ex_fds := (ex_fds (w_exec w))[i := ?fd1], ex_numevents := ?n\<rparr>\<rparr>"
  have c: "w_conns w c = Some cn" and i: "i < length (ex_fds (w_exec w))"
    using w by (simp_all add: working_def pair_state_def)
  have l: "cn_executor cn" "cn_sockfd cn \<noteq> 0" "cn_state cn \<noteq> CS_ABORTED"
    using w st by (cases "cn_state cn"; auto simp: working_def live_def)+
  have gc: "get_conn c w = Inr cn" using c by simp
  have "Executor_notify_event c ev i w = Inr ?w"
    unfolding Executor_notify_event_def gc using i l by (simp add: flags_of_def Let_def insert_commute)
  moreover have "bits ?fd1 = bits ?fd + of_bool (EVENT_READ \<in> ev) + of_bool (EVENT_WRITE \<in> ev)"
    using new by (auto simp: bits_def flags_of_def split: if_splits)
  then have "exec_frame i (w_exec w) (w_exec ?w)" using i by (simp add: exec_frame_def)
  then have "served i b c B w L ?w L" by (simp add: served_simps)
  moreover have "working f N B i b c ?w L cn bt rp" 
    by (rule working_same [OF w]) (use w in \<open>simp_all add: working_def pair_state_def\<close>)
  ultimately show ?thesis using i by (intro exI [of _ ?w]) simp
qed

definition closed :: "connection \<Rightarrow> connection" where
  "closed cn = cn\<lparr>cn_sockfd := (if cn_sockfd cn > 0 then 0 else cn_sockfd cn), cn_addrinfo := None\<rparr>"

definition released :: "connection \<Rightarrow> os \<Rightarrow> os" where
  "released cn sys = sys\<lparr>os_open := (if cn_sockfd cn > 0 then os_open sys - {cn_sockfd cn} else os_open sys),
     os_addrs := os_addrs sys - set_option (cn_addrinfo cn)\<rparr>"

lemma Connection_close_ok:
  assumes "get_conn c w = Inr cn" "\<forall>a. cn_addrinfo cn = Some a \<longrightarrow> a \<in> os_addrs (w_os w)"
  shows "Connection_close c w = Inr (put_conn c (closed cn) (w\<lparr>w_os := released cn (w_os w)\<rparr>))"
  unfolding Connection_close_def assms(1) using assms(2)
  by (cases cn; cases "cn_addrinfo cn") (auto simp: Let_def closed_def released_def put_conn_def)

lemma released_simps [simp]:
  "os_calls (released cn sys) = os_calls sys" "os_addrs (released cn sys) = os_addrs sys - set_option (cn_addrinfo cn)"
  by (simp_all add: released_def)

definition aborted_world :: "nat \<Rightarrow> nat \<Rightarrow> connection \<Rightarrow> batch \<Rightarrow> buffer \<Rightarrow> rheap \<Rightarrow> world \<Rightarrow> world" where
  "aborted_world b c cn bt e h' w =
     put_conn c ((closed cn)\<lparr>cn_batch := None, cn_executor := False, cn_state := CS_ABORTED\<rparr>)
       (put_batch b (bt\<lparr>bt_error := Some e, bt_num_commands := min 0 (bt_num_commands bt)\<rparr>)
         (w\<lparr>w_heap := h', w_os := released cn (w_os w)\<rparr>))"

text \<open>What \<open>Connection_abort\<close> does, exactly.\<close>

lemma abort_exact:
  assumes w: "working f N B i b c w L cn bt rp"
  shows "\<exists>e rs h' L'. Connection_abort c t w = Inr (aborted_world b c cn bt e h' w) \<and>
    contents e = abort_text t cn @ [CHR 0x00] \<and> reply_heap h' B L' \<and> length rs = nat (bt_num_commands bt) \<and>
    L' (RQueue b) = L (RQueue b) @ map RLink rs \<and>
    (\<forall>r \<in> set rs. rh_replies (w_heap w) r = None \<and>
       rh_replies h' r = Some (error_reply b (length (abort_text t cn) + 1))) \<and>
    rh_replies (w_heap w) \<subseteq>\<^sub>m rh_replies h' \<and> dom (rh_replies h') = dom (rh_replies (w_heap w)) \<union> set rs \<and>
    (\<forall>a \<in> heads (w_heap w) B. a \<noteq> RQueue b \<longrightarrow> L' a = L a) \<and> (\<forall>r \<in> set rs. L' (RChildren r) = [])"
proof -
  note st = w [unfolded working_def pair_state_def live_def]
  let ?msg = "abort_text t cn"
  have bo: "bt_id bt \<in> B" "reply_heap (w_heap w) B L" "int32 (bt_num_commands bt)" "bt_error bt = None"
    using st by simp_all
  have len: "length ?msg + 1 < 2147483648"
    unfolding abort_text_def by (rule le_less_trans [OF add_right_mono [OF length_snprintf_text]])
      (simp add: MAX_ERROR_SIZE_def)
  from Batch_abort_ok [OF bo len] st obtain e rs h' L' where
    a: "Batch_abort bt ?msg (w_heap w) = Inr (bt\<lparr>bt_error := Some e, bt_num_commands := min 0 (bt_num_commands bt)\<rparr>, h')"
    "contents e = ?msg @ [CHR 0x00]"
    "reply_heap h' B L'" "length rs = nat (bt_num_commands bt)" "L' (RQueue b) = L (RQueue b) @ map RLink rs"
    "\<forall>r \<in> set rs. rh_replies (w_heap w) r = None \<and> rh_replies h' r = Some (error_reply b (length ?msg + 1))"
    "rh_replies (w_heap w) \<subseteq>\<^sub>m rh_replies h'" "dom (rh_replies h') = dom (rh_replies (w_heap w)) \<union> set rs"
    "\<forall>a \<in> heads (w_heap w) B. a \<noteq> RQueue b \<longrightarrow> L' a = L a" "\<forall>r \<in> set rs. L' (RChildren r) = []"
    by auto
  let ?cn = "cn\<lparr>cn_batch := None, cn_executor := False\<rparr>"
  let ?w1 = "put_conn c ?cn (put_batch b (bt\<lparr>bt_error := Some e, bt_num_commands := min 0 (bt_num_commands bt)\<rparr>) (w\<lparr>w_heap := h'\<rparr>))"
  have gc: "get_conn c w = Inr cn" "get_batch b w = Inr bt" using st by simp_all
  have "Connection_close c ?w1 = Inr (put_conn c (closed ?cn) (?w1\<lparr>w_os := released ?cn (w_os ?w1)\<rparr>))"
    by (rule Connection_close_ok) (use st in simp_all)
  then have "Connection_abort c t w = Inr (put_conn c ((closed ?cn)\<lparr>cn_state := CS_ABORTED\<rparr>)
      (?w1\<lparr>w_os := released ?cn (w_os ?w1)\<rparr>))"
    unfolding Connection_abort_def gc using st a(1) by (simp add: gc Let_def)
  then have "Connection_abort c t w = Inr (aborted_world b c cn bt e h' w)"
    by (cases w; cases cn; cases bt) (simp add: aborted_world_def closed_def released_def put_conn_def put_batch_def)
  with a(2-) show ?thesis by blast
qed

lemma abort_ok:
  assumes w: "working f N B i b c w L cn bt rp"
  shows "\<exists>w'. Connection_abort c t w = Inr w' \<and> settled f N B i b c w L w' Q"
proof -
  note st = w [unfolded working_def pair_state_def live_def]
  from abort_exact [OF w, of t] obtain e rs h' L' where
    a: "Connection_abort c t w = Inr (aborted_world b c cn bt e h' w)"
    "reply_heap h' B L'" "length rs = nat (bt_num_commands bt)" "L' (RQueue b) = L (RQueue b) @ map RLink rs"
    "\<forall>r \<in> set rs. rh_replies (w_heap w) r = None \<and> rh_replies h' r = Some (error_reply b (length (abort_text t cn) + 1))"
    "rh_replies (w_heap w) \<subseteq>\<^sub>m rh_replies h'" "dom (rh_replies h') = dom (rh_replies (w_heap w)) \<union> set rs"
    "\<forall>a \<in> heads (w_heap w) B. a \<noteq> RQueue b \<longrightarrow> L' a = L a" "\<forall>r \<in> set rs. L' (RChildren r) = []"
    and msg: "contents e = abort_text t cn @ [CHR 0x00]" by blast
  let ?bt = "bt\<lparr>bt_error := Some e, bt_num_commands := min 0 (bt_num_commands bt)\<rparr>"
  let ?cn = "(closed cn)\<lparr>cn_batch := None, cn_executor := False, cn_state := CS_ABORTED\<rparr>"
  let ?w' = "aborted_world b c cn bt e h' w"
  have hf: "heap_frame b (pending_of c w) (pending_of c ?w') B (w_heap w) L h' L'"
    using abort_heap_frame [OF a(6,7,8,9,4) _ a(5)] st by (simp add: pending_of_def closed_def aborted_world_def)
  have views: "queue_views b h' L' = queue_views b (w_heap w) L @ replicate (nat (bt_num_commands bt))
      (error_reply b (length (abort_text t cn) + 1), [])"
    using abort_views [OF a(6,8,9,4) _ a(5)] a(3) st by simp
  have pend: "pending_view rp h' L' = pending_view rp (w_heap w) L"
    using pending_view_keep [OF _ _ a(6)] a(8) st by blast
  have "frame i b c B w L ?w' L'"
    using st hf by (auto simp: frame_def addr_of_def calls_def closed_def aborted_world_def)
  moreover have "session_step\<^sup>*\<^sup>* (session_of c b w L) (session_of c b ?w' L')"
    using st by (simp add: session_of_def closed_def aborted_world_def views pend msg)
  ultimately have sv: "served i b c B w L ?w' L'" unfolding served_def by blast
  have "int32 (min 0 (bt_num_commands bt))" "int (length (L' (RQueue b))) = int (N b)"
    using st a(3,4) by (auto simp: int32_def)
  then have ps: "pair_state f N B i b c ?w' L' ?cn ?bt rp"
    using st a(2) abort_replies_kept [OF a(6,7,8,9,5)] by (auto simp: pair_state_def calls_def closed_def aborted_world_def)
  have "dead ?cn ?bt" by (simp add: dead_def closed_def)
  with a(1) sv ps show ?thesis unfolding settled_def by blast
qed

section \<open>Connecting\<close>

lemma abort_settled:
  assumes "served i b c B w L w1 L1" "working f N B i b c w1 L1 cn bt rp"
  shows "\<exists>w'. Connection_abort c text w1 = Inr w' \<and> settled f N B i b c w L w' Q"
  using abort_ok [OF assms(2)] settled_frame [OF assms(1)] by blast

text \<open>
  The socket is created and set up, or the connection is aborted.
\<close>

lemma create_socket_ok:
  assumes K: "kernel_ok K f" and w: "working f N B i b c w L cn bt rp" and st: "cn_state cn = CS_CLOSED"
  shows "\<exists>r w'. Connection_create_socket K c w = Inr (r, w') \<and>
    (if r = -1 then settled f N B i b c w L w' Q
     else \<exists>cn'. served i b c B w L w' L \<and> working f N B i b c w' L cn' bt rp \<and> w_exec w' = w_exec w \<and>
       0 < cn_sockfd cn' \<and> cn_addrinfo cn' \<noteq> None \<and> cn_state cn' = CS_CLOSED \<and>
       os_sent (w_os w') (cn_sockfd cn') = [])"
proof -
  note sel = working_sel [OF w]
  show ?thesis
  proof (cases "k_resolve K (calls w) (cn_addr cn) (cn_serv cn)")
    case False
    have "served i b c B w L (tick w) L" by (simp add: served_simps)
    moreover have "working f N B i b c (tick w) L cn bt rp" by (rule working_same [OF w]) (simp_all add: sel)
    ultimately obtain w' where
      "Connection_abort c ''could not resolve address'' (tick w) = Inr w'" "settled f N B i b c w L w' Q"
      using abort_settled by blast
    with False st show ?thesis unfolding Connection_create_socket_def sel(1) by simp
  next
    case resolved: True
    let ?a = "calls w"
    let ?cn = "cn\<lparr>cn_addrinfo := Some ?a\<rparr>"
    let ?w2 = "put_conn c ?cn ((tick w)\<lparr>w_os := (w_os (tick w))\<lparr>os_addrs := insert ?a (os_addrs (w_os (tick w)))\<rparr>\<rparr>)"
    have run: "Connection_create_socket K c w = (case k_socket K (calls ?w2) of
         Inl e \<Rightarrow> bindE (Connection_abort c ''could not create socket''
                    (put_conn c (?cn\<lparr>cn_sockfd := -1\<rparr>) (set_errno e (tick ?w2)))) (\<lambda>w'. Inr (-1, w'))
       | Inr fd \<Rightarrow>
         let w3 = tick ?w2;
             w4 = put_conn c (?cn\<lparr>cn_sockfd := fd\<rparr>)
                    (w3\<lparr>w_os := (w_os w3)\<lparr>os_open := insert fd (os_open (w_os w3)),
                                          os_sent := (os_sent (w_os w3))(fd := [])\<rparr>\<rparr>) in
         case k_fcntl K (calls w4) fd of
           Inl e \<Rightarrow> bindE (Connection_abort c ''could not get socket flags for'' (set_errno e (tick w4)))
                      (\<lambda>w'. Inr (-1, w'))
         | Inr flags \<Rightarrow>
           let w5 = tick w4 in
           case k_fcntl K (calls w5) fd of
             Inl e \<Rightarrow> bindE (Connection_abort c ''could not set socket to non-blocking mode''
                        (set_errno e (tick w5))) (\<lambda>w'. Inr (-1, w'))
           | Inr _ \<Rightarrow> Inr (0, tick w5))"
      unfolding Connection_create_socket_def sel(1) using st resolved by (simp add: Let_def)
    show ?thesis
    proof (cases "k_socket K (calls ?w2)")
      case (Inl e)
      let ?w = "put_conn c (?cn\<lparr>cn_sockfd := -1\<rparr>) (set_errno e (tick ?w2))"
      have "served i b c B w L ?w L" using sel st by (simp add: served_simps)
      moreover have "working f N B i b c ?w L (?cn\<lparr>cn_sockfd := -1\<rparr>) bt rp"
        by (rule working_conn [OF w]) (simp_all add: sel st)
      ultimately obtain w' where
        "Connection_abort c ''could not create socket'' ?w = Inr w'" "settled f N B i b c w L w' Q"
        using abort_settled by blast
      with Inl show ?thesis unfolding run by simp
    next
      case sock: (Inr fd)
      then have fd: "0 < fd" using K by (auto simp: kernel_ok_def)
      let ?cn' = "?cn\<lparr>cn_sockfd := fd\<rparr>"
      let ?w3 = "tick ?w2"
      let ?w4 = "put_conn c ?cn' (?w3\<lparr>w_os := (w_os ?w3)\<lparr>os_open := insert fd (os_open (w_os ?w3)),
                                          os_sent := (os_sent (w_os ?w3))(fd := [])\<rparr>\<rparr>)"
      have f4: "served i b c B w L w' L \<and> working f N B i b c w' L ?cn' bt rp"
        if "w' \<in> {tick (tick ?w4), set_errno e (tick ?w4), set_errno e (tick (tick ?w4))}" for w' e
        using that sel fd by (auto simp: served_simps st intro!: working_conn [OF w])
      show ?thesis
      proof (cases "k_fcntl K (calls ?w4) fd")
        case (Inl e)
        from abort_settled [OF conjunct1 [OF f4] conjunct2 [OF f4], of "set_errno e (tick ?w4)"] obtain w' where
          "Connection_abort c ''could not get socket flags for'' (set_errno e (tick ?w4)) = Inr w'"
          "settled f N B i b c w L w' Q" by blast
        with Inl sock show ?thesis unfolding run by (simp add: Let_def)
      next
        case flags: (Inr flags)
        show ?thesis
        proof (cases "k_fcntl K (calls (tick ?w4)) fd")
          case (Inl e)
          from abort_settled [OF conjunct1 [OF f4] conjunct2 [OF f4], of "set_errno e (tick (tick ?w4))"] obtain w' where
            "Connection_abort c ''could not set socket to non-blocking mode'' (set_errno e (tick (tick ?w4))) = Inr w'"
            "settled f N B i b c w L w' Q" by blast
          with Inl flags sock show ?thesis unfolding run by (simp add: Let_def)
        next
          case (Inr x)
          have "Connection_create_socket K c w = Inr (0, tick (tick ?w4))"
            unfolding run using Inr flags sock by (simp add: Let_def)
          moreover have "w_exec (tick (tick ?w4)) = w_exec w" "os_sent (w_os (tick (tick ?w4))) (cn_sockfd ?cn') = []"
            "0 < cn_sockfd ?cn'" "cn_addrinfo ?cn' \<noteq> None" "cn_state ?cn' = CS_CLOSED" using fd st by simp_all
          moreover note f4 [of "tick (tick ?w4)" 0]
          ultimately show ?thesis
            by (intro exI [of _ 0] exI [of _ "tick (tick ?w4)"]) (simp only: insertI1 simp_thms if_False zero_neq_neg_one, blast)
        qed
      qed
    qed
  qed
qed

text \<open>A closed connection starts to connect; \<open>POLLOUT\<close> will tell when it is done.\<close>

definition events_of :: "nat \<Rightarrow> world \<Rightarrow> poll_flag set" where
  "events_of i w = pf_events (ex_fds (w_exec w) ! i)"

lemma open_connection_ok:
  assumes K: "kernel_ok K f" and w: "working f N B i b c w L cn bt rp" and st: "cn_state cn = CS_CLOSED"
    and ev: "POLLOUT \<notin> events_of i w"
  shows "\<exists>ret w'. open_connection K c i w = Inr (w', ret) \<and>
    (if ret then settled f N B i b c w L w' (\<lambda>cn' bt' fd. cn_state cn' = CS_CONNECTING \<and>
         pf_events fd = insert POLLOUT (events_of i w))
     else \<exists>cn'. served i b c B w L w' L \<and> working f N B i b c w' L cn' bt rp \<and> w_exec w' = w_exec w \<and>
       cn_state cn' = CS_CONNECTED)"
proof -
  let ?Q = "\<lambda>cn' bt' fd. cn_state cn' = CS_CONNECTING \<and> pf_events fd = insert POLLOUT (events_of i w)"
  from create_socket_ok [OF K w st, of ?Q] obtain r w1 where
    r: "Connection_create_socket K c w = Inr (r, w1)"
    "if r = -1 then settled f N B i b c w L w1 ?Q
     else \<exists>cn'. served i b c B w L w1 L \<and> working f N B i b c w1 L cn' bt rp \<and> w_exec w1 = w_exec w \<and>
       0 < cn_sockfd cn' \<and> cn_addrinfo cn' \<noteq> None \<and> cn_state cn' = CS_CLOSED \<and>
       os_sent (w_os w1) (cn_sockfd cn') = []" by blast
  show ?thesis
  proof (cases "r = -1")
    case True
    with r show ?thesis by (intro exI [of _ True] exI [of _ w1]) (simp add: open_connection_def)
  next
    case False
    with r(2) obtain cn1 a where f1: "served i b c B w L w1 L" and w1: "working f N B i b c w1 L cn1 bt rp"
      and e1: "w_exec w1 = w_exec w" and c1: "0 < cn_sockfd cn1" "cn_addrinfo cn1 = Some a" "cn_state cn1 = CS_CLOSED" "os_sent (w_os w1) (cn_sockfd cn1) = []" by auto
    note sel = working_sel [OF w1]
    have run: "open_connection K c i w = (case k_connect K (calls w1) (cn_sockfd cn1) of
         Inl e \<Rightarrow>
           let w2 = set_errno e (tick w1) in
           if errno w2 = EINPROGRESS
           then bindE (Executor_notify_event c {EVENT_WRITE} i
                  (put_conn c (cn1\<lparr>cn_state := CS_CONNECTING\<rparr>) w2)) (\<lambda>w3. Inr (w3, True))
           else bindE (Connection_abort c (errno_text K ''connect error 1, errno ['' w2) w2)
                  (\<lambda>w3. Inr (w3, True))
       | Inr _ \<Rightarrow> Inr (put_conn c (cn1\<lparr>cn_state := CS_CONNECTED\<rparr>) (tick w1), False))"
      unfolding open_connection_def r(1) using False c1 by (simp add: sel)
    show ?thesis
    proof (cases "k_connect K (calls w1) (cn_sockfd cn1)")
      case (Inl e)
      let ?w2 = "set_errno e (tick w1)"
      show ?thesis
      proof (cases "errno ?w2 = EINPROGRESS")
        case True
        let ?cn = "cn1\<lparr>cn_state := CS_CONNECTING\<rparr>"
        let ?w = "put_conn c ?cn ?w2"
        have f2: "served i b c B w1 L ?w L" using sel c1 by (simp add: served_simps)
        have "working f N B i b c ?w L ?cn bt rp" by (rule working_conn [OF w1]) (use sel c1 in auto)
        from notify_ok [OF this, of "{EVENT_WRITE}"] ev e1 obtain w' where
          n: "Executor_notify_event c {EVENT_WRITE} i ?w = Inr w'" "served i b c B ?w L w' L"
          "working f N B i b c w' L ?cn bt rp" "events_of i w' = events_of i w \<union> {POLLOUT}"
          by (auto simp: flags_of_def events_of_def)
        from settled_working [OF served_trans [OF served_trans [OF f1 f2] n(2)] n(3), of ?Q] n(4)
        have "settled f N B i b c w L w' ?Q" by (simp add: events_of_def)
        with n(1) Inl True show ?thesis unfolding run by (intro exI [of _ True] exI [of _ w']) (simp add: Let_def)
      next
        case False
        have "served i b c B w1 L ?w2 L" by (simp add: served_simps)
        moreover have "working f N B i b c ?w2 L cn1 bt rp" by (rule working_same [OF w1]) (simp_all add: sel)
        ultimately obtain w' where
          a: "Connection_abort c (errno_text K ''connect error 1, errno ['' ?w2) ?w2 = Inr w'"
          "settled f N B i b c w L w' ?Q" using abort_settled served_trans [OF f1] by blast
        with Inl False show ?thesis unfolding run by (intro exI [of _ True] exI [of _ w']) (simp add: Let_def)
      qed
    next
      case (Inr u)
      let ?cn = "cn1\<lparr>cn_state := CS_CONNECTED\<rparr>"
      let ?w = "put_conn c ?cn (tick w1)"
      have "served i b c B w1 L ?w L" using sel c1 by (simp add: served_simps)
      moreover have "working f N B i b c ?w L ?cn bt rp" by (rule working_conn [OF w1]) (use sel c1 in auto)
      ultimately show ?thesis unfolding run using Inr e1 served_trans [OF f1]
        by (intro exI [of _ False] exI [of _ ?w]) auto
    qed
  qed
qed

lemma check_connected_ok:
  assumes w: "working f N B i b c w L cn bt rp" and st: "cn_state cn = CS_CONNECTING"
    and ev: "POLLIN \<notin> events_of i w"
  shows "\<exists>ret w'. check_connected K c i w = Inr (w', ret) \<and>
    (if ret then settled f N B i b c w L w' Q
     else \<exists>cn'. served i b c B w L w' L \<and> working f N B i b c w' L cn' bt rp \<and>
       events_of i w' = insert POLLIN (events_of i w) \<and> cn_state cn' = CS_CONNECTED)"
proof -
  note sel = working_sel [OF w]
  have same: "served i b c B w L w' L \<and> working f N B i b c w' L cn bt rp"
    if "w' \<in> {tick w, set_errno e (tick w)}" for w' e
    using that sel by (auto simp: served_simps intro!: working_same [OF w])
  have abort: "\<exists>w''. Connection_abort c msg w' = Inr w'' \<and> settled f N B i b c w L w'' Q"
    if "w' \<in> {tick w, set_errno e (tick w)}" for w' e msg
    using same [OF that] abort_settled by blast
  show ?thesis
  proof (cases "k_sockopt K (calls w) (cn_sockfd cn)")
    case (Inl e)
    let ?w = "set_errno e (tick w)"
    from abort [of ?w e] obtain w' where
      "Connection_abort c (errno_text K ''getsockopt error for connect result, errno: ['' ?w) ?w = Inr w'"
      "settled f N B i b c w L w' Q" by blast
    with Inl show ?thesis unfolding check_connected_def
      by (intro exI [of _ True] exI [of _ w']) (simp add: Let_def sel(1))
  next
    case (Inr error)
    show ?thesis
    proof (cases "error = 0")
      case False
      from abort [of "tick w" 0] obtain w' where
        "Connection_abort c (errno_text K ''connect error 2, errno: ['' (tick w)) (tick w) = Inr w'"
        "settled f N B i b c w L w' Q" by blast
      with Inr False show ?thesis unfolding check_connected_def
        by (intro exI [of _ True] exI [of _ w']) (simp add: Let_def sel(1))
    next
      case True
      let ?cn = "cn\<lparr>cn_state := CS_CONNECTED\<rparr>"
      let ?w = "put_conn c ?cn (tick w)"
      have f1: "served i b c B w L ?w L" using sel st by (simp add: served_simps)
      have "working f N B i b c ?w L ?cn bt rp"
        by (rule working_conn [OF w]) (use sel w st in \<open>auto simp: working_def live_def\<close>)
      from notify_ok [OF this, of "{EVENT_READ}"] ev obtain w' where
        n: "Executor_notify_event c {EVENT_READ} i ?w = Inr w'" "served i b c B ?w L w' L"
        "working f N B i b c w' L ?cn bt rp" "events_of i w' = events_of i w \<union> {POLLIN}"
        by (auto simp: flags_of_def events_of_def)
      with Inr True served_trans [OF f1 n(2)] show ?thesis unfolding check_connected_def sel(1)
        by (intro exI [of _ False] exI [of _ w']) (auto simp: Let_def)
    qed
  qed
qed

section \<open>Writing\<close>

lemma working_wbuf:
  assumes "working f N B i b c w L cn bt rp" "buffer_ok wb"
    "w_conns w' c = Some cn" "w_batches w' b = Some (bt\<lparr>bt_write_buffer := wb\<rparr>)" "w_heap w' = w_heap w"
    "calls w \<le> calls w'" "length (ex_fds (w_exec w')) = length (ex_fds (w_exec w))"
    "os_addrs (w_os w') = os_addrs (w_os w)"
  shows "working f N B i b c w' L cn (bt\<lparr>bt_write_buffer := wb\<rparr>) rp"
  using assms received_mono [OF assms(6), of f] unfolding working_def pair_state_def live_def
  by (auto intro: le_trans order_less_le_trans)

text \<open>Everything is sent, or \<open>POLLOUT\<close> is requested; \<open>P\<close> says whether \<open>POLLIN\<close> is.\<close>

definition sent :: "bool \<Rightarrow> connection \<Rightarrow> batch \<Rightarrow> pollfd \<Rightarrow> bool" where
  "sent P cn bt fd \<longleftrightarrow> cn_state cn = CS_CONNECTED \<and>
     (unsent (bt_write_buffer bt) \<noteq> [] \<longrightarrow> POLLOUT \<in> pf_events fd) \<and> (POLLIN \<in> pf_events fd \<longleftrightarrow> P)"

lemma unsent_empty: "buffer_ok b \<Longrightarrow> unsent b = [] \<longleftrightarrow> Buffer_remaining b = 0"
  using length_Buffer_data [of b] by (auto simp: unsent_def Buffer_remaining_ok buffer_ok_def)

lemma write_turn_ok:
  assumes K: "kernel_ok K f" and w: "working f N B i b c w L cn bt rp" and st: "cn_state cn = CS_CONNECTED"
    and ev: "POLLOUT \<notin> events_of i w"
  shows "\<exists>w' more. write_turn K c i w = Inr (w', more) \<and>
    (if more then \<exists>wb. served i b c B w L w' L \<and> working f N B i b c w' L cn (bt\<lparr>bt_write_buffer := wb\<rparr>) rp \<and>
         w_exec w' = w_exec w \<and> length (unsent wb) < length (unsent (bt_write_buffer bt))
     else settled f N B i b c w L w' (sent (POLLIN \<in> events_of i w)))"
proof -
  note sel = working_sel [OF w]
  let ?wb = "bt_write_buffer bt" and ?Q = "sent (POLLIN \<in> events_of i w)"
  let ?ans = "k_write K (calls w) (cn_sockfd cn)"
  let ?w = "\<lambda>n. case ?ans n of Inl e \<Rightarrow> None | Inr k \<Rightarrow> Some k"
  have bo: "buffer_ok ?wb" using w by (simp add: working_def pair_state_def)
  note run = write_turn_def [unfolded Let_def Batch_write_buffer_def]
  show ?thesis
  proof (cases "Buffer_remaining ?wb = 0")
    case True
    then have "write_turn K c i w = Inr (w, False)" unfolding run by (simp add: sel)
    moreover have "settled f N B i b c w L w ?Q"
      by (rule settled_working [OF served_refl w]) (use True st unsent_empty [OF bo] in \<open>simp add: sent_def events_of_def\<close>)
    ultimately show ?thesis by auto
  next
    case False
    then have pos: "0 < bf_limit ?wb - bf_position ?wb" by (simp add: Buffer_remaining_ok [OF bo])
    have kw: "0 < k \<and> k \<le> bf_limit ?wb - bf_position ?wb" if "?w (bf_limit ?wb - bf_position ?wb) = Some k" for k
      using K that pos by (auto simp: kernel_ok_def split: sum.splits)
    from Buffer_send_ok [OF bo, of ?w] kw obtain r out wb where
      s: "Buffer_send ?wb ?w = Inr (r, out, wb)" "r = ?w (length (unsent ?wb))" "buffer_ok wb"
      "unsent ?wb = out @ unsent wb" "length out = (case r of None \<Rightarrow> 0 | Some k \<Rightarrow> k)" by blast
    let ?w1 = "tick (put_batch b (bt\<lparr>bt_write_buffer := wb\<rparr>) w)"
    let ?w2 = "?w1\<lparr>w_os := (w_os ?w1)\<lparr>os_sent := (os_sent (w_os ?w1))
                    (cn_sockfd cn := os_sent (w_os ?w1) (cn_sockfd cn) @ out)\<rparr>\<rparr>"
    have same: "served i b c B w L w' L \<and> working f N B i b c w' L cn (bt\<lparr>bt_write_buffer := wb\<rparr>) rp \<and> w_exec w' = w_exec w"
      if "w' \<in> {?w2, set_errno e ?w2}" for w' e
      using that sel s(3,4) st by (auto simp: served_simps intro!: working_wbuf [OF w])
    have len: "length (unsent ?wb) = bf_limit ?wb - bf_position ?wb"
      using length_Buffer_data [OF bo] bo by (auto simp: unsent_def buffer_ok_def)
    show ?thesis
    proof (cases r)
      case (Some k)
      then have "0 < k" using kw s(2) unfolding len by simp
      then have "length (unsent wb) < length (unsent ?wb)" using s(4,5) Some by simp
      moreover have "write_turn K c i w = Inr (?w2, True)" unfolding run using False s(1) Some by (simp add: sel)
      ultimately show ?thesis using same [of ?w2 0] by (intro exI [of _ ?w2] exI [of _ True]) auto
    next
      case None
      obtain w3 where eq3: "w3 = (case ?ans (Buffer_remaining ?wb) of Inl e \<Rightarrow> set_errno e ?w2 | Inr _ \<Rightarrow> ?w2)" by simp
      have run3: "write_turn K c i w = (if errno w3 = EAGAIN
            then bindE (Executor_notify_event c {EVENT_WRITE} i w3) (\<lambda>w4. Inr (w4, False))
            else bindE (Connection_abort c (errno_text K ''write error, errno: ['' w3) w3) (\<lambda>w4. Inr (w4, False)))"
        unfolding run eq3 using False s(1) None by (simp add: sel)
      have "\<exists>e. w3 \<in> {?w2, set_errno e ?w2}" unfolding eq3 by (cases "?ans (Buffer_remaining ?wb)") auto
      then obtain e where "w3 \<in> {?w2, set_errno e ?w2}" ..
      from same [OF this] have w3: "served i b c B w L w3 L"
        "working f N B i b c w3 L cn (bt\<lparr>bt_write_buffer := wb\<rparr>) rp" "w_exec w3 = w_exec w" by blast+
      show ?thesis
      proof (cases "errno w3 = EAGAIN")
        case True
        from notify_ok [OF w3(2), of "{EVENT_WRITE}"] ev st w3(3) obtain w' where
          n: "Executor_notify_event c {EVENT_WRITE} i w3 = Inr w'" "served i b c B w3 L w' L"
          "working f N B i b c w' L cn (bt\<lparr>bt_write_buffer := wb\<rparr>) rp"
          "pf_events (ex_fds (w_exec w') ! i) = insert POLLOUT (events_of i w)"
          by (auto simp: flags_of_def events_of_def)
        from settled_working [OF served_trans [OF w3(1) n(2)] n(3), of ?Q] n(4) st
        have "settled f N B i b c w L w' ?Q" by (simp add: sent_def)
        with n(1) True show ?thesis unfolding run3 by (intro exI [of _ w'] exI [of _ False]) simp
      next
        case False
        from abort_settled [OF w3(1,2)] obtain w' where
          "Connection_abort c (errno_text K ''write error, errno: ['' w3) w3 = Inr w'" "settled f N B i b c w L w' ?Q"
          by blast
        with False show ?thesis unfolding run3 by (intro exI [of _ w'] exI [of _ False]) simp
      qed
    qed
  qed
qed

lemma write_loop_ok:
  assumes K: "kernel_ok K f" and w: "working f N B i b c w L cn bt rp" and st: "cn_state cn = CS_CONNECTED"
    and ev: "POLLOUT \<notin> events_of i w"
  shows "\<exists>w'. loopE (write_turn K c i) w = Inr w' \<and> settled f N B i b c w L w' (sent (POLLIN \<in> events_of i w))"
proof (rule loopE_rule [where I = "\<lambda>s. \<exists>wb. served i b c B w L s L \<and>
        working f N B i b c s L cn (bt\<lparr>bt_write_buffer := wb\<rparr>) rp \<and> events_of i s = events_of i w"
      and m = "\<lambda>s. length (unsent (bt_write_buffer (the (w_batches s b))))"])
  show "\<exists>wb. served i b c B w L w L \<and> working f N B i b c w L cn (bt\<lparr>bt_write_buffer := wb\<rparr>) rp \<and>
      events_of i w = events_of i w"
    using w by (intro exI [of _ "bt_write_buffer bt"]) simp
next
  fix s assume "\<exists>wb. served i b c B w L s L \<and>
        working f N B i b c s L cn (bt\<lparr>bt_write_buffer := wb\<rparr>) rp \<and> events_of i s = events_of i w"
  then obtain wb where s: "served i b c B w L s L" "working f N B i b c s L cn (bt\<lparr>bt_write_buffer := wb\<rparr>) rp"
    "events_of i s = events_of i w" by blast
  have "POLLOUT \<notin> events_of i s" using s(3) ev by simp
  from write_turn_ok [OF K s(2) st this] obtain w' more where
    t: "write_turn K c i s = Inr (w', more)"
    "if more then \<exists>wb'. served i b c B s L w' L \<and>
         working f N B i b c w' L cn (bt\<lparr>bt_write_buffer := wb, bt_write_buffer := wb'\<rparr>) rp \<and>
         w_exec w' = w_exec s \<and> length (unsent wb') < length (unsent (bt_write_buffer (bt\<lparr>bt_write_buffer := wb\<rparr>)))
     else settled f N B i b c s L w' (sent (POLLIN \<in> events_of i s))" by blast
  show "\<exists>s' more. write_turn K c i s = Inr (s', more) \<and>
      (if more then (\<exists>wb. served i b c B w L s' L \<and> working f N B i b c s' L cn (bt\<lparr>bt_write_buffer := wb\<rparr>) rp \<and>
           events_of i s' = events_of i w) \<and>
         length (unsent (bt_write_buffer (the (w_batches s' b)))) < length (unsent (bt_write_buffer (the (w_batches s b))))
       else settled f N B i b c w L s' (sent (POLLIN \<in> events_of i w)))"
  proof (cases more)
    case True
    with t(2) obtain wb' where n: "served i b c B s L w' L"
      "working f N B i b c w' L cn (bt\<lparr>bt_write_buffer := wb'\<rparr>) rp" "w_exec w' = w_exec s"
      "length (unsent wb') < length (unsent wb)" by auto
    have "events_of i w' = events_of i w" using n(3) s(3) by (simp add: events_of_def)
    with True t(1) n(2,4) served_trans [OF s(1) n(1)] working_sel(4) [OF s(2)] working_sel(4) [OF n(2)] show ?thesis
      by (intro exI [of _ w'] exI [of _ True]) auto
  next
    case False
    with t s(3) settled_frame [OF s(1)] show ?thesis by (intro exI [of _ w'] exI [of _ False]) simp
  qed
qed



end
