(* ===== verification/Connection_Run.thy ===== *)
theory Connection_Run
  imports Connection_Inv
begin

text \<open>
  The operations of a connection as a whole: sending, receiving, starting a batch and handling
  an event return without a fault, leave the other pairs alone, and leave their own pair
  aborted or waiting for an event it asked for.
\<close>


section \<open>Sending\<close>

text \<open>
  Where a pair rests after it was served: it is connecting and will be told when that is done, or it is
  connected and everything is sent or will be.
\<close>

definition on_its_way :: "bool \<Rightarrow> bool \<Rightarrow> connection \<Rightarrow> batch \<Rightarrow> pollfd \<Rightarrow> bool" where
  "on_its_way fresh P cn bt fd \<longleftrightarrow>
     fresh \<and> cn_state cn = CS_CONNECTING \<and> pf_events fd = {POLLOUT} \<or> sent P cn bt fd"

lemma write_data_ok:
  assumes K: "kernel_ok K f" and w: "working f N B i b c w L cn bt rp"
    and ev: "POLLOUT \<notin> events_of i w" "cn_state cn \<noteq> CS_CONNECTED \<Longrightarrow> events_of i w = {}"
  shows "\<exists>w'. Connection_write_data K c i w = Inr w' \<and>
    settled f N B i b c w L w' (on_its_way (cn_state cn = CS_CLOSED) (POLLIN \<in> events_of i w \<or> cn_state cn = CS_CONNECTING))"
proof -
  note sel = working_sel [OF w]
  let ?Q = "on_its_way (cn_state cn = CS_CLOSED) (POLLIN \<in> events_of i w \<or> cn_state cn = CS_CONNECTING)"
  have loop: "\<exists>w'. loopE (write_turn K c i) w1 = Inr w' \<and> settled f N B i b c w L w' ?Q"
    if "served i b c B w L w1 L" "working f N B i b c w1 L cn1 bt rp" "cn_state cn1 = CS_CONNECTED"
      "POLLOUT \<notin> events_of i w1"
      "POLLIN \<in> events_of i w1 \<longleftrightarrow> POLLIN \<in> events_of i w \<or> cn_state cn = CS_CONNECTING" for w1 cn1
  proof -
    from write_loop_ok [OF K that(2,3,4)] obtain w' where
      l: "loopE (write_turn K c i) w1 = Inr w'" "settled f N B i b c w1 L w' (sent (POLLIN \<in> events_of i w1))" by blast
    have "settled f N B i b c w1 L w' ?Q"
      by (rule settled_mono [OF l(2)]) (use that(5) in \<open>simp add: on_its_way_def\<close>)
    with l(1) settled_frame [OF that(1)] show ?thesis by blast
  qed
  note run = Connection_write_data_def [of K c i w, unfolded sel(1)]
  show ?thesis
  proof (cases "cn_state cn")
    case CS_CLOSED
    from open_connection_ok [OF K w CS_CLOSED ev(1)] obtain ret w1 where
      o1: "open_connection K c i w = Inr (w1, ret)"
      "if ret then settled f N B i b c w L w1 (\<lambda>cn' bt' fd. cn_state cn' = CS_CONNECTING \<and>
           pf_events fd = insert POLLOUT (events_of i w))
       else \<exists>cn'. served i b c B w L w1 L \<and> working f N B i b c w1 L cn' bt rp \<and> w_exec w1 = w_exec w \<and>
         cn_state cn' = CS_CONNECTED" by blast
    show ?thesis
    proof (cases ret)
      case True
      then have "settled f N B i b c w L w1 ?Q" using o1(2) ev(2) CS_CLOSED
        by (auto simp: on_its_way_def elim!: settled_mono)
      with True o1(1) CS_CLOSED sel show ?thesis unfolding run by simp
    next
      case False
      with o1(2) obtain cn1 where n: "served i b c B w L w1 L" "working f N B i b c w1 L cn1 bt rp"
        "w_exec w1 = w_exec w" "cn_state cn1 = CS_CONNECTED" by auto
      from loop [OF n(1,2,4)] n(3) ev CS_CLOSED obtain w' where
        "loopE (write_turn K c i) w1 = Inr w'" "settled f N B i b c w L w' ?Q" by (auto simp: events_of_def)
      with False o1(1) CS_CLOSED n(4) sel(6-8) show ?thesis
        unfolding run by (simp add: working_sel(1) [OF n(2)])
    qed
  next
    case CS_CONNECTING
    have "POLLIN \<notin> events_of i w" using ev(2) CS_CONNECTING by simp
    from check_connected_ok [OF w CS_CONNECTING this, where K = K and Q = ?Q] obtain ret w1 where
      o1: "check_connected K c i w = Inr (w1, ret)"
      "if ret then settled f N B i b c w L w1 ?Q
       else \<exists>cn'. served i b c B w L w1 L \<and> working f N B i b c w1 L cn' bt rp \<and>
         events_of i w1 = insert POLLIN (events_of i w) \<and> cn_state cn' = CS_CONNECTED" by blast
    show ?thesis
    proof (cases ret)
      case True
      with o1 CS_CONNECTING sel(6-8) show ?thesis unfolding run by (simp add: sel(1))
    next
      case False
      with o1(2) obtain cn1 where n: "served i b c B w L w1 L" "working f N B i b c w1 L cn1 bt rp"
        "events_of i w1 = insert POLLIN (events_of i w)" "cn_state cn1 = CS_CONNECTED" by auto
      from loop [OF n(1,2,4)] n(3) ev(1) CS_CONNECTING obtain w' where
        "loopE (write_turn K c i) w1 = Inr w'" "settled f N B i b c w L w' ?Q" by auto
      with False o1(1) CS_CONNECTING n(4) sel(6-8) show ?thesis
        unfolding run by (simp add: sel(1) working_sel(1) [OF n(2)])
    qed
  next
    case CS_CONNECTED
    from loop [OF served_refl w CS_CONNECTED ev(1)] CS_CONNECTED obtain w' where
      "loopE (write_turn K c i) w = Inr w'" "settled f N B i b c w L w' ?Q" by auto
    with CS_CONNECTED sel(6-8) show ?thesis unfolding run by (simp add: sel(1))
  next
    case CS_ABORTED
    with sel show ?thesis by simp
  qed
qed


section \<open>Parsing\<close>

text \<open>
  Another parser state, read buffer or reply heap keeps a working pair, if they fit together.
\<close>

lemma working_parsed:
  assumes w: "working f N B i b c w L cn bt rp"
    and w': "w_conns w' c = Some (cn\<lparr>cn_parser := Some rp'\<rparr>)" "w_batches w' b = Some bt'" "calls w \<le> calls w'"
      "length (ex_fds (w_exec w')) = length (ex_fds (w_exec w))" "os_addrs (w_os w') = os_addrs (w_os w)"
    and h: "reply_heap (w_heap w') B L'" "pending_ok (ps_multibulk_reply rp') (w_heap w') B L'"
      "replies_ok (ReadBuffer b) (ps_p rp') (w_heap w') L'"
    and p: "machine_inv (Buffer_data (bt_read_buffer bt')) rp'" "ps_p rp' \<le> bf_position (bt_read_buffer bt')"
    and rb: "writable (bt_read_buffer bt')" "8 \<le> bf_capacity (bt_read_buffer bt')"
      "bf_capacity (bt_read_buffer bt') \<le> 4294967296" "bf_position (bt_read_buffer bt') \<le> received f (calls w')"
    and bt': "bt_id bt' = bt_id bt" "bt_write_buffer bt' = bt_write_buffer bt" "bt_error bt' = bt_error bt"
      "int32 (bt_num_commands bt')" "int (length (L' (RQueue b))) + max 0 (bt_num_commands bt') = int (N b)"
  shows "working f N B i b c w' L' (cn\<lparr>cn_parser := Some rp'\<rparr>) bt' rp'"
  using w w' h p rb bt' replies_ok_mono [OF h(3) p(2)] unfolding working_def pair_state_def live_def
  by (auto intro: order_less_le_trans)

lemma working_bounds:
  assumes "kernel_ok K f" "working f N B i b c w L cn bt rp"
  shows "bf_position (bt_read_buffer bt) < 1073741824"
    "bf_position (bt_read_buffer bt) \<le> length (Buffer_data (bt_read_buffer bt))"
    "length (contents (bt_read_buffer bt)) = bf_position (bt_read_buffer bt)"
  using assms received_bound [OF assms(1), of "calls w"] length_Buffer_data length_contents
  by (auto simp: working_def pair_state_def writable_def buffer_ok_def)

text \<open>What the parser computes on the block of the read buffer is what it computes on its contents.\<close>

lemma machine_inv_counting: "machine_inv data rp \<Longrightarrow> counting data (bare rp)"
  by (simp add: machine_inv_def counting_def)

lemma pure_loop_contents:
  assumes "machine_inv (Buffer_data rb) rp" "writable rb"
  shows "pure_loop bref (contents rb) (length (contents rb)) (bare rp) pd =
    pure_loop bref (Buffer_data rb) (bf_position rb) (bare rp) pd"
proof -
  have len: "length (contents rb) = bf_position rb" "bf_position rb \<le> length (Buffer_data rb)"
    using assms(2) length_Buffer_data length_contents by (auto simp: writable_def buffer_ok_def)
  then have "agree (bf_position rb) (Buffer_data rb) (contents rb)" by (simp add: agree_def contents_def)
  from pure_loop_agree [OF machine_inv_counting [OF assms(1)] this] len show ?thesis by simp
qed

lemma parse_ok:
  assumes K: "kernel_ok K f" and w: "working f N B i b c w L cn bt rp"
  shows "\<exists>res rp' h' out L'. ReplyParser_execute rp (ReadBuffer b) (Buffer_data (bt_read_buffer bt))
        (Buffer_position (bt_read_buffer bt)) None (w_heap w) = Inr (res, rp', h', out) \<and>
    heap_frame b (ps_multibulk_reply rp) (ps_multibulk_reply rp') B (w_heap w) L h' L' \<and>
    L' (RQueue b) = L (RQueue b) \<and>
    working f N B i b c (put_conn c (cn\<lparr>cn_parser := Some rp'\<rparr>) (w\<lparr>w_heap := h'\<rparr>)) L' (cn\<lparr>cn_parser := Some rp'\<rparr>) bt rp' \<and>
    (res = RPR_MORE \<longrightarrow> ps_p rp' = bf_position (bt_read_buffer bt)) \<and>
    (res = RPR_REPLY \<longrightarrow> handed (ps_multibulk_reply rp') B h' L' out \<and> own_reply (ps_multibulk_reply rp) (w_heap w) out) \<and>
    queue_views b h' L' = queue_views b (w_heap w) L \<and>
    pure_loop (ReadBuffer b) (contents (bt_read_buffer bt)) (length (contents (bt_read_buffer bt))) (bare rp)
      (pending_view rp (w_heap w) L) = (res, bare rp', pending_view rp' h' L', handed_view res out h' L')"
proof -
  note st = w [unfolded working_def pair_state_def live_def]
  let ?rb = "bt_read_buffer bt" and ?h = "w_heap w"
  let ?data = "Buffer_data ?rb" and ?len = "bf_position ?rb"
  note bnd = working_bounds [OF K w]
  have inv: "parser_inv (ReadBuffer b) ?data B rp ?h L" using st by (simp add: parser_inv_def)
  have p: "ps_p rp \<le> ?len" using st by simp
  have len: "?len < 2147483648" using bnd(1) by simp
  from parser_loop_ok [OF inv p bnd(2) len, of None] obtain res rp' h' out L' where
    l: "parser_loop (ReadBuffer b) ?data ?len rp ?h None = Inr (res, rp', h', out)" and
    o1: "parser_inv (ReadBuffer b) ?data B rp' h' L'" "ps_p rp' \<le> ?len" "grows (ps_multibulk_reply rp) B ?h L h' L'"
      "own_pending (ps_multibulk_reply rp) ?h (ps_multibulk_reply rp')"
      "res = RPR_MORE \<longrightarrow> ps_p rp' = ?len"
      "res = RPR_REPLY \<longrightarrow> handed (ps_multibulk_reply rp') B h' L' out \<and> own_reply (ps_multibulk_reply rp) ?h out"
    unfolding outcome_ok_def by blast
  have "ReplyParser_execute rp (ReadBuffer b) ?data (Buffer_position ?rb) None ?h = Inr (res, rp', h', out)"
    using l p by (simp add: ReplyParser_execute_def Buffer_position_def)
  moreover have "heap_frame b (ps_multibulk_reply rp) (ps_multibulk_reply rp') B ?h L h' L'"
    using parser_heap_frame [OF l o1(3,4)] st by blast
  moreover have q: "L' (RQueue b) = L (RQueue b)"
    using o1(3) st by (cases "ps_multibulk_reply rp") (auto simp: grows_def)
  moreover have "working f N B i b c (put_conn c (cn\<lparr>cn_parser := Some rp'\<rparr>) (w\<lparr>w_heap := h'\<rparr>)) L'
      (cn\<lparr>cn_parser := Some rp'\<rparr>) bt rp'"
    by (intro working_parsed [OF w]) (use st o1(1,2) q in \<open>simp_all add: parser_inv_def\<close>)
  moreover have "queue_views b h' L' = queue_views b ?h L" using queue_views_grows [OF _ _ _ o1(3)] st by blast
  moreover have "pure_loop (ReadBuffer b) (contents ?rb) (length (contents ?rb)) (bare rp) (pending_view rp ?h L) =
      (res, bare rp', pending_view rp' h' L', handed_view res out h' L')"
    using parser_loop_pure [OF inv p bnd(2) len l] o1(1) pure_loop_contents [of ?rb rp] st
    by (simp add: parser_inv_def heap_inv_def)
  ultimately show ?thesis using o1(5,6) by blast
qed

section \<open>Receiving\<close>

lemma recv_ok_working:
  assumes K: "kernel_ok K f" and w: "working f N B i b c w L cn bt rp"
  shows "\<exists>n r rb h' bs. Buffer_recv (bt_read_buffer bt)
        (\<lambda>n. case k_read K (calls w) (cn_sockfd cn) n of Inl e \<Rightarrow> None | Inr bs \<Rightarrow> Some bs) (w_heap w) = Inr (r, rb, h') \<and>
    r = (case k_read K (calls w) (cn_sockfd cn) n of Inl e \<Rightarrow> None | Inr bs \<Rightarrow> Some (length bs)) \<and>
    (r = None \<longrightarrow> n = Buffer_remaining rb) \<and>
    bf_position rb = bf_position (bt_read_buffer bt) + (case r of None \<Rightarrow> 0 | Some k \<Rightarrow> k) \<and>
    contents rb = contents (bt_read_buffer bt) @ bs \<and> rh_replies h' = rh_replies (w_heap w) \<and>
    working f N B i b c (tick (put_batch b (bt\<lparr>bt_read_buffer := rb\<rparr>) (w\<lparr>w_heap := h'\<rparr>))) L cn
      (bt\<lparr>bt_read_buffer := rb\<rparr>) rp"
proof -
  note st = w [unfolded working_def pair_state_def live_def] and sel = working_sel [OF w]
  let ?rb = "bt_read_buffer bt" and ?h = "w_heap w" and ?ans = "k_read K (calls w) (cn_sockfd cn)"
  let ?rd = "\<lambda>n. case ?ans n of Inl e \<Rightarrow> None | Inr bs \<Rightarrow> Some bs"
  note bnd = working_bounds [OF K w]
  have ro: "recv_ok ?rb" "allocator_ok ?h" using st by (auto simp: recv_ok_def reply_heap_def)
  have rd: "length bs \<le> n \<and> length bs \<le> f (calls w)" if "?rd n = Some bs" for n bs
    using K that by (auto simp: kernel_ok_def split: sum.splits)
  have rd1: "\<forall>n bs. ?rd n = Some bs \<longrightarrow> length bs \<le> n" using rd by blast
  from Buffer_recv_ok [OF ro rd1] obtain n r rb h' where
    r: "Buffer_recv ?rb ?rd ?h = Inr (r, rb, h')" "r = map_option length (?rd n)" "writable rb" "8 \<le> bf_capacity rb"
    "bf_capacity rb = bf_capacity ?rb \<or> bf_capacity rb < 2 * (bf_position ?rb + bf_capacity ?rb * 256 div 2048)"
    "?rd n = None \<longrightarrow> n = Buffer_remaining rb"
    "contents rb = contents ?rb @ (case ?rd n of None \<Rightarrow> [] | Some bs \<Rightarrow> bs)"
    "allocator_ok h'" "module.more h' = module.more ?h" by (elim exE conjE) (rule that)
  have "length (contents rb) = bf_position rb" using r(3) by (simp add: writable_def length_contents)
  with r(2,7) bnd(3) have pos: "bf_position rb = bf_position ?rb + (case r of None \<Rightarrow> 0 | Some k \<Rightarrow> k)"
    by (auto split: option.splits)
  have cap: "bf_capacity rb \<le> 4294967296" using r(5) bnd(1) st by auto
  have rcv: "bf_position rb \<le> received f (Suc (calls w))"
    using pos r(2) rd [of n] st by (auto split: option.splits)
  have agr: "agree (bf_position ?rb) (Buffer_data ?rb) (Buffer_data rb)"
  proof -
    have "take (bf_position ?rb) (contents rb) = contents ?rb" using r(7) bnd(3) by simp
    then have "take (bf_position ?rb) (Buffer_data rb) = take (bf_position ?rb) (Buffer_data ?rb)"
      using pos by (simp add: contents_def min_def split: if_splits option.splits)
    moreover have "bf_position rb \<le> length (Buffer_data rb)"
      using r(3) length_Buffer_data by (auto simp: writable_def buffer_ok_def)
    ultimately show ?thesis using bnd(2) pos unfolding agree_def by auto
  qed
  have rh: "reply_heap h' B L" using reply_heap_more [OF _ r(9,8)] st by blast
  note same = more_rheap [OF r(9)]
  have heads: "heads h' B = heads ?h B" by (simp add: heads_def same)
  have "pending_ok (ps_multibulk_reply rp) h' B L" using st by (simp add: pending_ok_def orphan_def heads same)
  moreover have "replies_ok (ReadBuffer b) (ps_p rp) h' L" using st by (simp add: replies_ok_def reply_ok_def same)
  moreover have "machine_inv (Buffer_data rb) rp" using machine_inv_agree [OF _ agr] st by blast
  moreover have "cn\<lparr>cn_parser := Some rp\<rparr> = cn" using sel(5) by (cases cn) simp
  ultimately have "working f N B i b c (tick (put_batch b (bt\<lparr>bt_read_buffer := rb\<rparr>) (w\<lparr>w_heap := h'\<rparr>))) L
      (cn\<lparr>cn_parser := Some rp\<rparr>) (bt\<lparr>bt_read_buffer := rb\<rparr>) rp"
    by (intro working_parsed [OF w]) (use st rh r(3,4) cap rcv pos in simp_all)
  then have "working f N B i b c (tick (put_batch b (bt\<lparr>bt_read_buffer := rb\<rparr>) (w\<lparr>w_heap := h'\<rparr>))) L
      cn (bt\<lparr>bt_read_buffer := rb\<rparr>) rp" using \<open>cn\<lparr>cn_parser := Some rp\<rparr> = cn\<close> by simp
  moreover have "r = (case ?ans n of Inl e \<Rightarrow> None | Inr bs \<Rightarrow> Some (length bs))" "r = None \<longrightarrow> n = Buffer_remaining rb"
    using r(2,6) by (auto split: sum.splits)
  ultimately show ?thesis using r(1,7) pos same(2)
    by (intro exI [of _ n] exI [of _ r] exI [of _ rb] exI [of _ h'] exI conjI)
qed


text \<open>Where reading stops: no reply is missing, or \<open>POLLIN\<close> is requested.\<close>

definition read_rest :: "poll_flag set \<Rightarrow> buffer \<Rightarrow> connection \<Rightarrow> batch \<Rightarrow> pollfd \<Rightarrow> bool" where
  "read_rest ev wb cn bt fd \<longleftrightarrow> cn_state cn = CS_CONNECTED \<and> bt_write_buffer bt = wb \<and>
     (pf_events fd = ev \<and> bt_num_commands bt \<le> 0 \<or> pf_events fd = insert POLLIN ev)"

lemma recv_more_ok:
  assumes K: "kernel_ok K f" and w: "working f N B i b c w L cn bt rp" and st: "cn_state cn = CS_CONNECTED"
    and ev: "POLLIN \<notin> events_of i w"
  shows "\<exists>w' more. recv_more K c b i w = Inr (w', more) \<and>
    (if more then \<exists>rb. served i b c B w L w' L \<and> working f N B i b c w' L cn (bt\<lparr>bt_read_buffer := rb\<rparr>) rp \<and>
         w_exec w' = w_exec w \<and> bf_position (bt_read_buffer bt) < bf_position rb
     else settled f N B i b c w L w' (read_rest (events_of i w) (bt_write_buffer bt)))"
proof -
  note sel = working_sel [OF w]
  let ?Q = "read_rest (events_of i w) (bt_write_buffer bt)" and ?ans = "k_read K (calls w) (cn_sockfd cn)"
  let ?rd = "\<lambda>n. case ?ans n of Inl e \<Rightarrow> None | Inr bs \<Rightarrow> Some bs"
  from recv_ok_working [OF K w] obtain n r rb h' bs where
    r: "Buffer_recv (bt_read_buffer bt) ?rd (w_heap w) = Inr (r, rb, h')"
    "r = (case ?ans n of Inl e \<Rightarrow> None | Inr bs \<Rightarrow> Some (length bs))" "r = None \<longrightarrow> n = Buffer_remaining rb"
    "bf_position rb = bf_position (bt_read_buffer bt) + (case r of None \<Rightarrow> 0 | Some k \<Rightarrow> k)"
    "contents rb = contents (bt_read_buffer bt) @ bs" "rh_replies h' = rh_replies (w_heap w)"
    "working f N B i b c (tick (put_batch b (bt\<lparr>bt_read_buffer := rb\<rparr>) (w\<lparr>w_heap := h'\<rparr>))) L cn
      (bt\<lparr>bt_read_buffer := rb\<rparr>) rp" by (elim exE conjE) (rule that)
  let ?bt = "bt\<lparr>bt_read_buffer := rb\<rparr>"
  let ?w1 = "tick (put_batch b ?bt (w\<lparr>w_heap := h'\<rparr>))"
  have views: "queue_views b h' L = queue_views b (w_heap w) L" "pending_view rp h' L = pending_view rp (w_heap w) L"
    using r(6) by (auto simp: queue_views_def pending_view_def reply_view_def intro!: option.map_cong)
  have "length (contents (bt_read_buffer bt) @ bs) < 2147483648" using working_bounds [OF K r(7)] r(5) by simp
  then have len: "length (contents (bt_read_buffer bt)) + length bs < 2147483648" by simp
  have "session_of c b ?w1 L = (session_of c b w L)\<lparr>ss_got := contents (bt_read_buffer bt) @ bs\<rparr>"
    using sel r(5) views by (simp add: session_of_def Let_def)
  with len have "session_step\<^sup>*\<^sup>* (session_of c b w L) (session_of c b ?w1 L)"
    using sel st by (simp add: session_of_def Let_def)
  moreover have "frame i b c B w L ?w1 L" using sel r(6) by (simp add: served_simps heap_frame_same)
  ultimately have f1: "served i b c B w L ?w1 L" by (simp add: served_def)
  have abort: "\<exists>w''. Connection_abort c msg w2 = Inr w'' \<and> settled f N B i b c w L w'' ?Q"
    if "w2 \<in> {?w1, set_errno e ?w1}" for w2 e msg
  proof -
    have "served i b c B ?w1 L w2 L" using that sel by (auto simp: served_simps)
    moreover have "working f N B i b c w2 L cn ?bt rp"
      using that sel r(7) by (auto intro!: working_same [OF r(7)])
    ultimately show ?thesis using abort_settled served_trans [OF f1] by blast
  qed
  note run = recv_more_def [of K c b i w, unfolded sel(1,2) bindE_Inr Let_def Batch_read_buffer_def r(1) prod.case]
  show ?thesis
  proof (cases r)
    case None
    with r(3) have n: "n = Buffer_remaining rb" by simp
    have "\<exists>e. ?ans n = Inl e" using r(2) None by (cases "?ans n") simp_all
    then obtain e where e: "?ans (Buffer_remaining rb) = Inl e" unfolding n ..
    let ?w2 = "set_errno e ?w1"
    have run2: "recv_more K c b i w = (if errno ?w2 = EAGAIN
            then bindE (Executor_notify_event c {EVENT_READ} i ?w2) (\<lambda>w3. Inr (w3, False))
            else bindE (Connection_abort c (errno_text K ''read error, errno: ['' ?w2) ?w2) (\<lambda>w3. Inr (w3, False)))"
      unfolding run None option.case e sum.case by (rule refl)
    have "served i b c B ?w1 L ?w2 L" by (simp add: served_simps)
    note f2 = served_trans [OF f1 this]
    have w2: "working f N B i b c ?w2 L cn ?bt rp" by (rule working_same [OF r(7)]) (simp_all add: sel)
    show ?thesis
    proof (cases "errno ?w2 = EAGAIN")
      case True
      from notify_ok [OF w2, of "{EVENT_READ}"] ev st obtain w' where
        m: "Executor_notify_event c {EVENT_READ} i ?w2 = Inr w'" "served i b c B ?w2 L w' L"
        "working f N B i b c w' L cn ?bt rp" "pf_events (ex_fds (w_exec w') ! i) = insert POLLIN (events_of i w)"
        by (auto simp: flags_of_def events_of_def)
      from settled_working [OF served_trans [OF f2 m(2)] m(3), of ?Q] m(4) st
      have "settled f N B i b c w L w' ?Q" by (simp add: read_rest_def)
      with m(1) True show ?thesis unfolding run2 by (intro exI [of _ w'] exI [of _ False]) simp
    next
      case False
      from abort [of ?w2 e] obtain w' where
        "Connection_abort c (errno_text K ''read error, errno: ['' ?w2) ?w2 = Inr w'" "settled f N B i b c w L w' ?Q"
        by blast
      with False show ?thesis unfolding run2 by (intro exI [of _ w'] exI [of _ False]) simp
    qed
  next
    case (Some k)
    show ?thesis
    proof (cases "k = 0")
      case True
      from abort [of ?w1 0] obtain w' where
        "Connection_abort c ''read eof'' ?w1 = Inr w'" "settled f N B i b c w L w' ?Q" by blast
      with True Some show ?thesis unfolding run by (intro exI [of _ w'] exI [of _ False]) simp
    next
      case False
      with Some r(4,7) f1 show ?thesis unfolding run by (intro exI [of _ ?w1] exI [of _ True]) auto
    qed
  qed
qed


text \<open>Every turn of the read loop takes bytes from the kernel or completes a reply.\<close>

definition outstanding :: "batch \<Rightarrow> nat" where
  "outstanding bt = nat (bt_num_commands bt) + (1073741824 - bf_position (bt_read_buffer bt))"

lemma add_reply_working:
  assumes w: "working f N B i b c w L cn bt rp" and n: "0 < bt_num_commands bt"
    and r: "handed (ps_multibulk_reply rp) B (w_heap w) L (Some r)"
  shows "\<exists>h'. Batch_add_reply bt r (w_heap w) = Inr (bt\<lparr>bt_num_commands := bt_num_commands bt - 1\<rparr>, h') \<and>
    (\<exists>lk. h' = (w_heap w)\<lparr>rh_links := lk\<rparr>) \<and>
    working f N B i b c (put_batch b (bt\<lparr>bt_num_commands := bt_num_commands bt - 1\<rparr>) (w\<lparr>w_heap := h'\<rparr>))
      (L(RQueue b := L (RQueue b) @ [RLink r])) cn (bt\<lparr>bt_num_commands := bt_num_commands bt - 1\<rparr>) rp"
proof -
  note st = w [unfolded working_def pair_state_def live_def] and sel = working_sel [OF w]
  let ?L = "L(RQueue b := L (RQueue b) @ [RLink r])" and ?bt = "bt\<lparr>bt_num_commands := bt_num_commands bt - 1\<rparr>"
  have orp: "orphan (w_heap w) B L r" and ne: "ps_multibulk_reply rp \<noteq> Some r" using r by (auto simp: handed_def)
  have id: "bt_id bt \<in> B" "reply_heap (w_heap w) B L" "int32 (bt_num_commands bt)" using st by simp_all
  from Batch_add_reply_ok [OF id(1,2) orp n id(3)] st obtain lk where
    a: "Batch_add_reply bt r (w_heap w) = Inr (?bt, (w_heap w)\<lparr>rh_links := lk\<rparr>)"
    "reply_heap ((w_heap w)\<lparr>rh_links := lk\<rparr>) B ?L" by auto
  let ?h = "(w_heap w)\<lparr>rh_links := lk\<rparr>"
  have hd: "heads ?h B = heads (w_heap w) B" by (simp add: heads_def)
  have "pending_ok (ps_multibulk_reply rp) ?h B ?L"
    using st ne unfolding pending_ok_def orphan_def hd by auto
  moreover have "replies_ok (ReadBuffer b) (ps_p rp) ?h ?L" using st by (simp add: replies_ok_def reply_ok_def)
  moreover have "int32 (bt_num_commands bt - 1)" using n id(3) by (auto simp: int32_def)
  moreover have "cn\<lparr>cn_parser := Some rp\<rparr> = cn" using sel(5) by (cases cn) simp
  ultimately have "working f N B i b c (put_batch b ?bt (w\<lparr>w_heap := ?h\<rparr>)) ?L (cn\<lparr>cn_parser := Some rp\<rparr>) ?bt rp"
    by (intro working_parsed [OF w]) (use st a(2) n in simp_all)
  with a(1) \<open>cn\<lparr>cn_parser := Some rp\<rparr> = cn\<close> show ?thesis by auto
qed

lemma read_turn_ok:
  assumes K: "kernel_ok K f" and w: "working f N B i b c w L cn bt rp" and st: "cn_state cn = CS_CONNECTED"
    and ev: "POLLIN \<notin> events_of i w"
  shows "\<exists>w' more. read_turn K c i w = Inr (w', more) \<and>
    (if more then \<exists>L' cn' bt' rp'. served i b c B w L w' L' \<and> working f N B i b c w' L' cn' bt' rp' \<and>
         cn_state cn' = CS_CONNECTED \<and> w_exec w' = w_exec w \<and> bt_write_buffer bt' = bt_write_buffer bt \<and>
         outstanding bt' < outstanding bt
     else settled f N B i b c w L w' (read_rest (events_of i w) (bt_write_buffer bt)))"
proof -
  note sel = working_sel [OF w]
  let ?Q = "read_rest (events_of i w) (bt_write_buffer bt)" and ?mr = ps_multibulk_reply
  note run = read_turn_def [of K c i w, unfolded sel(1,2,6) derefE_simps bindE_Inr Let_def Batch_read_buffer_def]
  show ?thesis
  proof (cases "Batch_has_command bt")
    case False
    have "settled f N B i b c w L w ?Q"
      by (rule settled_working [OF served_refl w])
        (use False st in \<open>simp add: read_rest_def events_of_def Batch_has_command_def\<close>)
    with False show ?thesis unfolding run by (intro exI [of _ w] exI [of _ False]) simp
  next
    case True
    then have num: "0 < bt_num_commands bt" by (simp add: Batch_has_command_def)
    from parse_ok [OF K w] obtain res rp' h' out L' where
      p: "ReplyParser_execute rp (ReadBuffer b) (Buffer_data (bt_read_buffer bt))
        (Buffer_position (bt_read_buffer bt)) None (w_heap w) = Inr (res, rp', h', out)"
      "heap_frame b (?mr rp) (?mr rp') B (w_heap w) L h' L'" "L' (RQueue b) = L (RQueue b)"
      "working f N B i b c (put_conn c (cn\<lparr>cn_parser := Some rp'\<rparr>) (w\<lparr>w_heap := h'\<rparr>)) L' (cn\<lparr>cn_parser := Some rp'\<rparr>) bt rp'"
      "res = RPR_MORE \<longrightarrow> ps_p rp' = bf_position (bt_read_buffer bt)"
      "res = RPR_REPLY \<longrightarrow> handed (?mr rp') B h' L' out \<and> own_reply (?mr rp) (w_heap w) out"
      "queue_views b h' L' = queue_views b (w_heap w) L"
      "pure_loop (ReadBuffer b) (contents (bt_read_buffer bt)) (length (contents (bt_read_buffer bt))) (bare rp)
         (pending_view rp (w_heap w) L) = (res, bare rp', pending_view rp' h' L', handed_view res out h' L')"
      by (elim exE conjE) (rule that)
    let ?cn = "cn\<lparr>cn_parser := Some rp'\<rparr>"
    let ?w1 = "put_conn c ?cn (w\<lparr>w_heap := h'\<rparr>)"
    have pos: "ps_p (bare rp) \<le> length (contents (bt_read_buffer bt))"
      using w working_bounds(3) [OF K w] by (simp add: working_def live_def)
    have f1: "served i b c B w L ?w1 L'" if "res \<noteq> RPR_REPLY"
      using p(2,3,7,8) sel st session_parsed [OF pos] that by (simp add: served_simps handed_view_def)
    have ev1: "events_of i ?w1 = events_of i w" by (simp add: events_of_def)
    have run1: "read_turn K c i w = (case res of
           RPR_ERROR \<Rightarrow> bindE (Connection_abort c ''result parse error'' ?w1) (\<lambda>w2. Inr (w2, False))
         | RPR_MORE \<Rightarrow> recv_more K c b i ?w1
         | RPR_REPLY \<Rightarrow> bindE (derefE out) (\<lambda>r. bindE (Batch_add_reply bt r (w_heap ?w1)) (\<lambda>(bt', h2).
               Inr (put_batch b bt' (?w1\<lparr>w_heap := h2\<rparr>), True))))"
      unfolding run using True sel(5) p(1) by simp
    show ?thesis
    proof (cases res)
      case RPR_ERROR
      with f1 have f1: "served i b c B w L ?w1 L'" by simp
      from abort_settled [OF f1 p(4)] obtain w' where
        "Connection_abort c ''result parse error'' ?w1 = Inr w'" "settled f N B i b c w L w' ?Q" by blast
      with RPR_ERROR show ?thesis unfolding run1 by (intro exI [of _ w'] exI [of _ False]) simp
    next
      case RPR_MORE
      with f1 have f1: "served i b c B w L ?w1 L'" by simp
      have "cn_state ?cn = CS_CONNECTED" "POLLIN \<notin> events_of i ?w1" using st ev ev1 by simp_all
      from recv_more_ok [OF K p(4) this] obtain w' more where
        r: "recv_more K c b i ?w1 = Inr (w', more)"
        "if more then \<exists>rb. served i b c B ?w1 L' w' L' \<and> working f N B i b c w' L' ?cn (bt\<lparr>bt_read_buffer := rb\<rparr>) rp' \<and>
           w_exec w' = w_exec ?w1 \<and> bf_position (bt_read_buffer bt) < bf_position rb
         else settled f N B i b c ?w1 L' w' (read_rest (events_of i ?w1) (bt_write_buffer bt))" by blast
      show ?thesis
      proof (cases more)
        case True
        with r(2) obtain rb where m: "served i b c B ?w1 L' w' L'"
          "working f N B i b c w' L' ?cn (bt\<lparr>bt_read_buffer := rb\<rparr>) rp'" "w_exec w' = w_exec w"
          "bf_position (bt_read_buffer bt) < bf_position rb" by auto
        have "outstanding (bt\<lparr>bt_read_buffer := rb\<rparr>) < outstanding bt"
          using m(4) working_bounds(1) [OF K m(2)] by (simp add: outstanding_def)
        moreover note served_trans [OF f1 m(1)] m(2,3)
        ultimately have "\<exists>L' cn' bt' rp'. served i b c B w L w' L' \<and> working f N B i b c w' L' cn' bt' rp' \<and>
            cn_state cn' = CS_CONNECTED \<and> w_exec w' = w_exec w \<and> bt_write_buffer bt' = bt_write_buffer bt \<and>
            outstanding bt' < outstanding bt"
          using st by (intro exI [of _ L'] exI [of _ ?cn] exI [of _ "bt\<lparr>bt_read_buffer := rb\<rparr>"] exI [of _ rp']) simp
        with r(1) True RPR_MORE show ?thesis unfolding run1 by (intro exI [of _ w'] exI [of _ True]) simp
      next
        case False
        with r(2) have "settled f N B i b c ?w1 L' w' ?Q" unfolding ev1 by simp
        with r(1) False RPR_MORE settled_frame [OF f1] show ?thesis
          unfolding run1 by (intro exI [of _ w'] exI [of _ False]) simp
      qed
    next
      case RPR_REPLY
      with p(6) obtain r where r: "out = Some r" "handed (?mr rp') B (w_heap ?w1) L' (Some r)"
        "own_reply (?mr rp) (w_heap w) (Some r)" by (auto simp: handed_def)
      let ?bt = "bt\<lparr>bt_num_commands := bt_num_commands bt - 1\<rparr>" and ?L = "L'(RQueue b := L' (RQueue b) @ [RLink r])"
      from add_reply_working [OF p(4) num r(2)] obtain lk where
        a: "Batch_add_reply bt r (w_heap ?w1) = Inr (?bt, (w_heap ?w1)\<lparr>rh_links := lk\<rparr>)"
        "working f N B i b c (put_batch b ?bt (?w1\<lparr>w_heap := (w_heap ?w1)\<lparr>rh_links := lk\<rparr>\<rparr>)) ?L ?cn ?bt rp'" by blast
      let ?w2 = "put_batch b ?bt (?w1\<lparr>w_heap := (w_heap ?w1)\<lparr>rh_links := lk\<rparr>\<rparr>)"
      have orp: "orphan h' B L' r" using r(2) by (auto simp: handed_def)
      let ?h2 = "h'\<lparr>rh_links := lk\<rparr>"
      have "queue_views b ?h2 ?L = queue_views b (w_heap w) L @ [reply_view h' L' r]"
        using p(7) by (simp add: queue_views_def reply_view_def)
      moreover have "pending_view rp' ?h2 ?L = pending_view rp' h' L'"
        by (cases "?mr rp'") (simp_all add: pending_view_def reply_view_def)
      ultimately have f2: "served i b c B w L ?w2 ?L" using queue_heap_frame [OF p(2) r(3)] p(3,8) sel st num r(1) RPR_REPLY
          session_replied [OF pos num]
        by (simp add: served_simps handed_view_def)
      have "outstanding ?bt < outstanding bt" using num by (simp add: outstanding_def)
      with f2 a(2) st have "\<exists>L' cn' bt' rp'. served i b c B w L ?w2 L' \<and> working f N B i b c ?w2 L' cn' bt' rp' \<and>
          cn_state cn' = CS_CONNECTED \<and> w_exec ?w2 = w_exec w \<and> bt_write_buffer bt' = bt_write_buffer bt \<and>
          outstanding bt' < outstanding bt"
        by (intro exI [of _ ?L] exI [of _ ?cn] exI [of _ ?bt] exI [of _ rp']) simp
      moreover have "read_turn K c i w = Inr (?w2, True)" unfolding run1 RPR_REPLY r(1) using a(1) by simp
      ultimately show ?thesis by (intro exI [of _ ?w2] exI [of _ True]) simp
    qed
  qed
qed


lemma read_loop_ok:
  assumes K: "kernel_ok K f" and w: "working f N B i b c w L cn bt rp" and st: "cn_state cn = CS_CONNECTED"
    and ev: "POLLIN \<notin> events_of i w"
  shows "\<exists>w'. loopE (read_turn K c i) w = Inr w' \<and>
    settled f N B i b c w L w' (read_rest (events_of i w) (bt_write_buffer bt))"
proof (rule loopE_rule [where I = "\<lambda>s. \<exists>L' cn' bt' rp'. served i b c B w L s L' \<and>
        working f N B i b c s L' cn' bt' rp' \<and> cn_state cn' = CS_CONNECTED \<and> w_exec s = w_exec w \<and>
        bt_write_buffer bt' = bt_write_buffer bt"
      and m = "\<lambda>s. outstanding (the (w_batches s b))"])
  show "\<exists>L' cn' bt' rp'. served i b c B w L w L' \<and> working f N B i b c w L' cn' bt' rp' \<and>
      cn_state cn' = CS_CONNECTED \<and> w_exec w = w_exec w \<and> bt_write_buffer bt' = bt_write_buffer bt"
    using w st served_refl by blast
next
  fix s assume "\<exists>L' cn' bt' rp'. served i b c B w L s L' \<and> working f N B i b c s L' cn' bt' rp' \<and>
      cn_state cn' = CS_CONNECTED \<and> w_exec s = w_exec w \<and> bt_write_buffer bt' = bt_write_buffer bt"
  then obtain L1 cn1 bt1 rp1 where s: "served i b c B w L s L1" "working f N B i b c s L1 cn1 bt1 rp1"
    "cn_state cn1 = CS_CONNECTED" "w_exec s = w_exec w" "bt_write_buffer bt1 = bt_write_buffer bt" by blast
  have es: "events_of i s = events_of i w" using s(4) by (simp add: events_of_def)
  then have "POLLIN \<notin> events_of i s" using ev by simp
  from read_turn_ok [OF K s(2,3) this] obtain w' more where
    t: "read_turn K c i s = Inr (w', more)"
    "if more then \<exists>L' cn' bt' rp'. served i b c B s L1 w' L' \<and> working f N B i b c w' L' cn' bt' rp' \<and>
         cn_state cn' = CS_CONNECTED \<and> w_exec w' = w_exec s \<and> bt_write_buffer bt' = bt_write_buffer bt1 \<and>
         outstanding bt' < outstanding bt1
     else settled f N B i b c s L1 w' (read_rest (events_of i s) (bt_write_buffer bt1))" by blast
  show "\<exists>s' more. read_turn K c i s = Inr (s', more) \<and>
      (if more then (\<exists>L' cn' bt' rp'. served i b c B w L s' L' \<and> working f N B i b c s' L' cn' bt' rp' \<and>
           cn_state cn' = CS_CONNECTED \<and> w_exec s' = w_exec w \<and> bt_write_buffer bt' = bt_write_buffer bt) \<and>
         outstanding (the (w_batches s' b)) < outstanding (the (w_batches s b))
       else settled f N B i b c w L s' (read_rest (events_of i w) (bt_write_buffer bt)))"
  proof (cases more)
    case True
    with t(2) obtain L2 cn2 bt2 rp2 where n: "served i b c B s L1 w' L2" "working f N B i b c w' L2 cn2 bt2 rp2"
      "cn_state cn2 = CS_CONNECTED" "w_exec w' = w_exec s" "bt_write_buffer bt2 = bt_write_buffer bt1"
      "outstanding bt2 < outstanding bt1" by auto
    have "outstanding (the (w_batches w' b)) < outstanding (the (w_batches s b))"
      using n(6) working_sel(4) [OF s(2)] working_sel(4) [OF n(2)] by simp
    moreover have "\<exists>L' cn' bt' rp'. served i b c B w L w' L' \<and> working f N B i b c w' L' cn' bt' rp' \<and>
           cn_state cn' = CS_CONNECTED \<and> w_exec w' = w_exec w \<and> bt_write_buffer bt' = bt_write_buffer bt"
      using served_trans [OF s(1) n(1)] n(2,3,4,5) s(4,5) by auto
    ultimately show ?thesis using t(1) True by (intro exI [of _ w'] exI [of _ True]) simp
  next
    case False
    with t settled_frame [OF s(1)] show ?thesis unfolding es s(5)
      by (intro exI [of _ w'] exI [of _ False]) simp
  qed
qed

lemma read_data_ok:
  assumes K: "kernel_ok K f" and w: "working f N B i b c w L cn bt rp" and st: "cn_state cn = CS_CONNECTED"
    and ev: "POLLIN \<notin> events_of i w"
  shows "\<exists>w'. Connection_read_data K c i w = Inr w' \<and>
    settled f N B i b c w L w' (read_rest (events_of i w) (bt_write_buffer bt))"
  using read_loop_ok [OF assms] working_sel(6,7) [OF w] st
  by (simp add: Connection_read_data_def working_sel(1) [OF w])

section \<open>Handling an event, starting\<close>

text \<open>
  How a pair with outstanding commands rests between two events: it waits for the connection, or it
  is connected, waits to receive and, if something is unsent, to send.
\<close>

definition rests :: "connection \<Rightarrow> batch \<Rightarrow> pollfd \<Rightarrow> bool" where
  "rests cn bt fd \<longleftrightarrow> (0 < bt_num_commands bt \<longrightarrow>
     cn_state cn = CS_CONNECTING \<and> pf_events fd = {POLLOUT} \<or>
     cn_state cn = CS_CONNECTED \<and> (unsent (bt_write_buffer bt) \<noteq> [] \<longrightarrow> POLLOUT \<in> pf_events fd) \<and>
       POLLIN \<in> pf_events fd)"

lemma read_rest_rests:
  "read_rest ev wb cn bt fd \<Longrightarrow> (unsent wb \<noteq> [] \<longrightarrow> POLLOUT \<in> ev) \<Longrightarrow> rests cn bt fd"
  unfolding read_rest_def rests_def by fastforce

lemma settled_cases:
  assumes "settled f N B i b c w L w1 Q"
  obtains L1 cn1 bt1 rp1 where "served i b c B w L w1 L1" "working f N B i b c w1 L1 cn1 bt1 rp1"
      "Q cn1 bt1 (ex_fds (w_exec w1) ! i)"
  | L1 cn1 bt1 rp1 where "served i b c B w L w1 L1" "pair_state f N B i b c w1 L1 cn1 bt1 rp1" "dead cn1 bt1"
  using assms unfolding settled_def working_def by blast

lemma handle_event_ok:
  assumes K: "kernel_ok K f" and w: "working f N B i b c w L cn bt rp"
    and event: "event \<subseteq> {EVENT_READ, EVENT_WRITE}"
      "cn_state cn = CS_CONNECTED \<or> cn_state cn = CS_CONNECTING \<and> event = {EVENT_WRITE} \<and> events_of i w = {}"
      "EVENT_READ \<in> event \<Longrightarrow> POLLIN \<notin> events_of i w" "EVENT_WRITE \<in> event \<Longrightarrow> POLLOUT \<notin> events_of i w"
      "EVENT_READ \<notin> event \<Longrightarrow> cn_state cn = CS_CONNECTED \<Longrightarrow> POLLIN \<in> events_of i w"
      "EVENT_WRITE \<notin> event \<Longrightarrow> unsent (bt_write_buffer bt) \<noteq> [] \<Longrightarrow> POLLOUT \<in> events_of i w"
  shows "\<exists>w'. Connection_handle_event K c event i w = Inr w' \<and> settled f N B i b c w L w' rests"
proof -
  note sel = working_sel [OF w]
  have run: "Connection_handle_event K c event i w =
      bindE (if EVENT_WRITE \<in> event then Connection_write_data K c i w else Inr w) (\<lambda>w1.
        if EVENT_READ \<in> event then Connection_read_data K c i w1 else Inr w1)"
    unfolding Connection_handle_event_def sel(1) using sel(8) event(1) by auto
  show ?thesis
  proof (cases "EVENT_WRITE \<in> event")
    case False
    then have st: "cn_state cn = CS_CONNECTED" using event(2) by auto
    show ?thesis
    proof (cases "EVENT_READ \<in> event")
      case True
      from read_data_ok [OF K w st event(3) [OF True]] obtain w' where
        "Connection_read_data K c i w = Inr w'"
        "settled f N B i b c w L w' (read_rest (events_of i w) (bt_write_buffer bt))" by blast
      moreover have "settled f N B i b c w L w' rests"
        by (rule settled_mono [OF calculation(2)]) (use event(6) [OF False] read_rest_rests in blast)
      ultimately show ?thesis unfolding run using False True by simp
    next
      case noread: False
      have "settled f N B i b c w L w rests"
        by (rule settled_working [OF served_refl w]) (use st event(5,6) False noread in \<open>simp add: rests_def events_of_def\<close>)
      then show ?thesis unfolding run using False noread by simp
    qed
  next
    case True
    note out = event(4) [OF True]
    let ?P = "POLLIN \<in> events_of i w \<or> cn_state cn = CS_CONNECTING"
    have idle: "cn_state cn \<noteq> CS_CONNECTED \<Longrightarrow> events_of i w = {}" using event(2) by auto
    have cl: "cn_state cn \<noteq> CS_CLOSED" using event(2) by auto
    from write_data_ok [OF K w out idle] cl obtain w1 where
      wr: "Connection_write_data K c i w = Inr w1" "settled f N B i b c w L w1 (sent ?P)"
      unfolding on_its_way_def by auto
    show ?thesis
    proof (cases "EVENT_READ \<in> event")
      case noread: False
      have "settled f N B i b c w L w1 rests"
        by (rule settled_mono [OF wr(2)])
          (use event(2,5) noread in \<open>auto simp: sent_def rests_def\<close>)
      with wr(1) noread True show ?thesis unfolding run by simp
    next
      case read: True
      then have st: "cn_state cn = CS_CONNECTED" using event(2) by auto
      from wr(2) show ?thesis
      proof (cases rule: settled_cases)
        case (1 L1 cn1 bt1 rp1)
        then have s: "cn_state cn1 = CS_CONNECTED" "POLLIN \<notin> events_of i w1"
          "unsent (bt_write_buffer bt1) \<noteq> [] \<longrightarrow> POLLOUT \<in> events_of i w1"
          using event(3) [OF read] st by (auto simp: sent_def events_of_def)
        from read_data_ok [OF K 1(2) s(1,2)] obtain w2 where
          r: "Connection_read_data K c i w1 = Inr w2"
          "settled f N B i b c w1 L1 w2 (read_rest (events_of i w1) (bt_write_buffer bt1))" by blast
        have "settled f N B i b c w1 L1 w2 rests"
          by (rule settled_mono [OF r(2)]) (rule read_rest_rests, assumption, rule s(3))
        with r(1) wr(1) True read settled_frame [OF 1(1)] show ?thesis unfolding run by simp
      next
        case (2 L1 cn1 bt1 rp1)
        have gc: "get_conn c w1 = Inr cn1" and ab: "cn_state cn1 = CS_ABORTED"
          using 2(2,3) by (simp_all add: pair_state_def dead_def)
        have "Connection_read_data K c i w1 = Inr w1" unfolding Connection_read_data_def gc using ab by simp
        moreover note settled_frame [OF 2(1) settled_dead [OF 2(2,3), where Q = rests]]
        ultimately show ?thesis unfolding run using wr(1) True read by simp
      qed
    qed
  qed
qed


text \<open>A pair that was added to the executor and not started yet.\<close>

definition ready :: "connection \<Rightarrow> batch \<Rightarrow> pollfd \<Rightarrow> bool" where
  "ready cn bt fd \<longleftrightarrow> cn_state cn \<noteq> CS_CONNECTING \<and>
     (cn_state cn = CS_CONNECTED \<longrightarrow> 0 < cn_sockfd cn \<and> cn_addrinfo cn \<noteq> None) \<and>
     bt_error bt = None \<and> bf_position (bt_read_buffer bt) = 0 \<and> pf_events fd = {}"

definition started_conn :: "nat \<Rightarrow> connection \<Rightarrow> rparser \<Rightarrow> connection" where
  "started_conn b cn rp = cn\<lparr>cn_batch := Some b, cn_executor := True,
     cn_state := (if cn_state cn = CS_ABORTED then CS_CLOSED else cn_state cn),
     cn_parser := Some (ReplyParser_reset rp)\<rparr>"

definition started_batch :: "batch \<Rightarrow> batch" where
  "started_batch bt = bt\<lparr>bt_write_buffer := Buffer_flip (bt_write_buffer bt)\<rparr>"

lemma start_working:
  assumes st: "pair_state f N B i b c w L cn bt rp" and rd: "ready cn bt (ex_fds (w_exec w) ! i)"
  shows "working f N B i b c (put_batch b (started_batch bt) (put_conn c (started_conn b cn rp) w)) L
    (started_conn b cn rp) (started_batch bt) (ReplyParser_reset rp)"
proof -
  have "buffer_ok (Buffer_flip (bt_write_buffer bt))" using st Buffer_flip_ok by (auto simp: pair_state_def)
  moreover have "machine_inv d (ReplyParser_reset rp)" "ps_p (ReplyParser_reset rp) = 0"
    "ps_multibulk_reply (ReplyParser_reset rp) = None" for d
    by (simp_all add: machine_inv_def ReplyParser_reset_def)
  ultimately show ?thesis using st rd
    by (auto simp: working_def pair_state_def live_def ready_def started_conn_def started_batch_def pending_ok_def)
qed

lemma execute_start_ok:
  assumes K: "kernel_ok K f" and st: "pair_state f N B i b c w L cn bt rp" and rd: "ready cn bt (ex_fds (w_exec w) ! i)"
  shows "\<exists>w'. Connection_execute_start K c b i w = Inr w' \<and>
    settled f N B i b c (put_batch b (started_batch bt) (put_conn c (started_conn b cn rp) w)) L w' rests"
proof -
  let ?cn = "started_conn b cn rp" and ?bt = "started_batch bt"
  let ?w1 = "put_batch b ?bt (put_conn c ?cn w)"
  have w1: "working f N B i b c ?w1 L ?cn ?bt (ReplyParser_reset rp)" by (rule start_working [OF st rd])
  have gc: "get_conn c w = Inr cn" "get_batch b w = Inr bt" using st by (simp_all add: pair_state_def)
  have p: "cn_parser cn = Some rp" using st by (simp add: pair_state_def)
  have run: "Connection_execute_start K c b i w = bindE (Connection_write_data K c i ?w1) (\<lambda>w2.
        bindE (get_conn c w2) (\<lambda>cn3.
          if cn_state cn3 = CS_CONNECTED then Executor_notify_event c {EVENT_READ} i w2 else Inr w2))"
    unfolding Connection_execute_start_def gc using p
    by (auto simp: Let_def started_conn_def started_batch_def Batch_write_buffer_def gc)
  have ev: "events_of i ?w1 = {}" using rd by (simp add: ready_def events_of_def)
  have nc: "cn_state ?cn \<noteq> CS_CONNECTING" using rd by (simp add: ready_def started_conn_def)
  have "POLLOUT \<notin> events_of i ?w1" using ev by simp
  from write_data_ok [OF K w1 this ev] nc ev obtain w2 where
    wr: "Connection_write_data K c i ?w1 = Inr w2" "settled f N B i b c ?w1 L w2 (on_its_way (cn_state ?cn = CS_CLOSED) False)"
    by auto
  from wr(2) show ?thesis
  proof (cases rule: settled_cases)
    case (1 L1 cn1 bt1 rp1)
    note sel = working_sel [OF 1(2)]
    show ?thesis
    proof (cases "cn_state cn1 = CS_CONNECTED")
      case True
      with 1(3) have s: "sent False cn1 bt1 (ex_fds (w_exec w2) ! i)" by (simp add: on_its_way_def)
      then have "flags_of {EVENT_READ} \<inter> pf_events (ex_fds (w_exec w2) ! i) = {}" by (simp add: sent_def flags_of_def)
      from notify_ok [OF 1(2) _ this] True obtain w3 where
        n: "Executor_notify_event c {EVENT_READ} i w2 = Inr w3" "served i b c B w2 L1 w3 L1"
        "working f N B i b c w3 L1 cn1 bt1 rp1"
        "pf_events (ex_fds (w_exec w3) ! i) = insert POLLIN (pf_events (ex_fds (w_exec w2) ! i))"
        by (auto simp: flags_of_def)
      from settled_working [OF served_trans [OF 1(1) n(2)] n(3), of rests] n(4) s
      have "settled f N B i b c ?w1 L w3 rests" by (simp add: rests_def sent_def)
      with n(1) True wr(1) show ?thesis unfolding run by (simp add: sel(1))
    next
      case False
      then have "rests cn1 bt1 (ex_fds (w_exec w2) ! i)" using 1(3) by (simp add: on_its_way_def rests_def sent_def)
      with settled_working [OF 1(1,2)] have "settled f N B i b c ?w1 L w2 rests" .
      with False wr(1) show ?thesis unfolding run by (simp add: sel(1))
    qed
  next
    case (2 L1 cn1 bt1 rp1)
    have gc2: "get_conn c w2 = Inr cn1" and ab: "cn_state cn1 = CS_ABORTED"
      using 2(2,3) by (simp_all add: pair_state_def dead_def)
    note settled_frame [OF 2(1) settled_dead [OF 2(2,3), where Q = rests]]
    with wr(1) ab show ?thesis unfolding run by (simp add: gc2)
  qed
qed



end
