(* ===== verification/Executor_Safe.thy ===== *)
theory Executor_Safe
  imports Connection_Run
begin

text \<open>
  The executor of \<open>libredis/connection.c\<close> as a whole: the invariant over all pairs, the time limit,
  and the proof that \<open>Executor_execute\<close> returns with every command answered.
\<close>


section \<open>The time limit\<close>

text \<open>
  The clock: its reading in milliseconds, exactly.  It never goes back, and after enough system
  calls the time limit \<open>t\<close> of an execution that started with call \<open>n0\<close> is over.
\<close>

definition clock_ms :: "kernel \<Rightarrow> nat \<Rightarrow> rat" where
  "clock_ms K n = of_nat (fst (k_clock K n)) * 1000 + of_nat (snd (k_clock K n)) / 1000000"

definition clock_ok :: "kernel \<Rightarrow> bool" where
  "clock_ok K \<longleftrightarrow>
     (\<forall>n. fst (k_clock K n) < 1099511627776 \<and> snd (k_clock K n) < 1000000000) \<and>
     (\<forall>m n. m \<le> n \<longrightarrow> clock_ms K m \<le> clock_ms K n)"

definition time_passes :: "kernel \<Rightarrow> nat \<Rightarrow> int \<Rightarrow> bool" where
  "time_passes K n0 t \<longleftrightarrow> (\<exists>M. \<forall>n \<ge> M. clock_ms K n0 + of_int (max 0 t) + 200 \<le> clock_ms K n)"

text \<open>A long enough time limit has to fit an \<open>int\<close> of milliseconds after rounding to \<open>float\<close>.\<close>

definition timeout_ok :: "int \<Rightarrow> bool" where
  "timeout_ok t \<longleftrightarrow> - 2000000000 \<le> t \<and> t \<le> 2000000000"

lemma sfl_error: "\<bar>sfl p x - x\<bar> \<le> \<bar>x\<bar> / 2 ^ p"
  using fl_error [of x p] fl_error [of "- x" p] by (cases "x < 0") (simp_all add: sfl_def abs_minus_commute)

lemma sfl_error_bound:
  assumes "\<bar>x\<bar> \<le> e * 2 ^ p"
  shows "\<bar>sfl p x - x\<bar> \<le> e"
proof -
  have "\<bar>x\<bar> / 2 ^ p \<le> e" using assms by (simp add: divide_le_eq)
  with sfl_error [of p x] show ?thesis by linarith
qed

lemma sfl_negative: "x < 0 \<Longrightarrow> sfl 53 x < 0"
  using fl_lower [of "- x" 53] by (auto simp: sfl_def)

lemma sfl_nonneg: "0 \<le> x \<Longrightarrow> 0 \<le> sfl p x"
  by (simp add: sfl_def)

lemma TIMESPEC_TO_MS_near:
  assumes "clock_ok K"
  shows "\<bar>TIMESPEC_TO_MS (k_clock K n) - clock_ms K n\<bar> \<le> 1" "0 \<le> clock_ms K n" "clock_ms K n \<le> 1099511627776 * 1000 + 1000"
proof -
  let ?s = "of_nat (fst (k_clock K n)) * 1000 :: rat" and ?m = "of_nat (snd (k_clock K n)) / 1000000 :: rat"
  have "fst (k_clock K n) < 1099511627776" "snd (k_clock K n) < 1000000000" using assms by (simp_all add: clock_ok_def)
  then have "(of_nat (fst (k_clock K n)) :: rat) < of_nat 1099511627776"
    "(of_nat (snd (k_clock K n)) :: rat) < of_nat 1000000000" by (simp_all only: of_nat_less_iff)
  then have s: "0 \<le> ?s" "?s \<le> 1099511627776 * 1000" and m: "0 \<le> ?m" "?m \<le> 1000" by simp_all
  have 1: "\<bar>dbl ?s - ?s\<bar> \<le> 1 / 4" using fl_error [OF s(1), of 53] s(2) by simp
  have 2: "\<bar>dbl ?m - ?m\<bar> \<le> 1 / 4" using fl_error [OF m(1), of 53] m(2) by simp
  let ?x = "dbl ?s + dbl ?m"
  have "0 \<le> ?x" by simp
  moreover have "?x \<le> 1099511627776 * 2000" 
    using 1 2 s m unfolding abs_le_iff by linarith
  ultimately have "\<bar>dbl ?x - ?x\<bar> \<le> 1 / 2" using fl_error [of ?x 53] by simp
  with 1 2 show "\<bar>TIMESPEC_TO_MS (k_clock K n) - clock_ms K n\<bar> \<le> 1"
    unfolding TIMESPEC_TO_MS_def clock_ms_def abs_le_iff by linarith
  show "0 \<le> clock_ms K n" "clock_ms K n \<le> 1099511627776 * 1000 + 1000" using s m by (simp_all add: clock_ms_def)
qed

definition deadline :: "kernel \<Rightarrow> nat \<Rightarrow> int \<Rightarrow> rat" where
  "deadline K n0 t = sfl 53 (TIMESPEC_TO_MS (k_clock K n0) + sfl 24 (of_int t))"

lemma deadline_near:
  assumes K: "clock_ok K" and t: "timeout_ok t"
  shows "\<bar>deadline K n0 t - (clock_ms K n0 + of_int t)\<bar> \<le> 122"
proof -
  note c = TIMESPEC_TO_MS_near [OF K, of n0]
  have "(of_int t :: rat) \<le> of_int 2000000000" "of_int (- 2000000000) \<le> (of_int t :: rat)"
    using t unfolding timeout_ok_def by (simp_all only: of_int_le_iff)
  then have tt: "\<bar>of_int t :: rat\<bar> \<le> 2000000000" by (simp add: abs_le_iff)
  then have 1: "\<bar>sfl 24 (of_int t) - of_int t :: rat\<bar> \<le> 120" by (intro sfl_error_bound) simp
  let ?x = "TIMESPEC_TO_MS (k_clock K n0) + sfl 24 (of_int t)"
  have "\<bar>?x\<bar> \<le> 1 * 2 ^ 53" using c 1 tt by (simp add: abs_le_iff)
  then have "\<bar>sfl 53 ?x - ?x\<bar> \<le> 1" by (rule sfl_error_bound)
  with c(1) 1 show ?thesis unfolding deadline_def by (simp add: abs_le_iff)
qed

text \<open>The conversion of the time left to \<open>int\<close> is in range, and in the end no time is left.\<close>

lemma current_timeout_ok:
  assumes K: "clock_ok K" and t: "timeout_ok t" and w: "ex_end_tm_ms (w_exec w) = deadline K n0 t" "n0 \<le> calls w"
  shows "\<exists>r. Executor_current_timeout K w = Inr (r, tick w) \<and>
    (clock_ms K n0 + of_int (max 0 t) + 200 \<le> clock_ms K (calls w) \<longrightarrow> r = None)"
proof -
  let ?x = "deadline K n0 t - TIMESPEC_TO_MS (k_clock K (calls w))"
  note c = TIMESPEC_TO_MS_near [OF K, of "calls w"] and d = deadline_near [OF K t, of n0]
  have mono: "clock_ms K n0 \<le> clock_ms K (calls w)" using K w(2) by (simp add: clock_ok_def)
  have "(of_int t :: rat) \<le> of_int 2000000000" using t unfolding timeout_ok_def by (simp only: of_int_le_iff)
  then have x: "?x \<le> 2000000124" using c(1) d mono by (simp add: abs_le_iff)
  show ?thesis
  proof (cases "?x < 0")
    case True
    then show ?thesis using sfl_negative [OF True] by (simp add: Executor_current_timeout_def Let_def w(1))
  next
    case False
    then have pos: "0 \<le> sfl 53 ?x" by (intro sfl_nonneg) simp
    have "\<bar>?x\<bar> \<le> 1 * 2 ^ 53" using x False by simp
    then have "\<bar>sfl 53 ?x - ?x\<bar> \<le> 1" by (rule sfl_error_bound)
    then have "sfl 53 ?x < 2147483648" using x by (simp add: abs_le_iff)
    then have "\<lfloor>sfl 53 ?x\<rfloor> < 2147483648" by (simp add: floor_less_iff)
    moreover have "\<not> clock_ms K n0 + of_int (max 0 t) + 200 \<le> clock_ms K (calls w)"
    proof
      assume "clock_ms K n0 + of_int (max 0 t) + 200 \<le> clock_ms K (calls w)"
      moreover have "(of_int t :: rat) \<le> of_int (max 0 t)" by (simp only: of_int_le_iff)
      ultimately show False using False c(1) d by (simp add: abs_le_iff)
    qed
    ultimately show ?thesis using pos by (simp add: Executor_current_timeout_def Let_def w(1))
  qed
qed


section \<open>All pairs\<close>

definition pair_at :: "nat \<Rightarrow> world \<Rightarrow> nat \<times> nat" where
  "pair_at j w = ex_pairs (w_exec w) ! j"

definition fd_at :: "nat \<Rightarrow> world \<Rightarrow> pollfd" where
  "fd_at j w = ex_fds (w_exec w) ! j"

text \<open>The multibulk a connection still builds; an aborted one builds none.\<close>

definition held :: "nat \<Rightarrow> world \<Rightarrow> nat option" where
  "held c w = Option.bind (w_conns w c) (\<lambda>cn. if cn_state cn = CS_ABORTED then None
     else Option.bind (cn_parser cn) ps_multibulk_reply)"

text \<open>
  One pair: it is not started, or it works on its batch and is where \<open>Q\<close> says, or it is aborted.
\<close>

definition pair_ok ::
    "(nat \<Rightarrow> nat) \<Rightarrow> (nat \<Rightarrow> nat) \<Rightarrow> nat set \<Rightarrow> world \<Rightarrow> (rnode \<Rightarrow> rnode list) \<Rightarrow> bool \<Rightarrow>
     (connection \<Rightarrow> batch \<Rightarrow> pollfd \<Rightarrow> bool) \<Rightarrow> nat \<Rightarrow> bool" where
  "pair_ok f N B w L idle Q j \<longleftrightarrow> (case pair_at j w of (b, c) \<Rightarrow> \<exists>cn bt rp.
     pair_state f N B j b c w L cn bt rp \<and>
     (if idle then ready cn bt (fd_at j w)
      else live B b w L cn bt rp \<and> Q cn bt (fd_at j w) \<or> dead cn bt))"

text \<open>
  The executor's table: no batch and no connection is in two pairs, no two connections share an
  address list or a multibulk under construction, \<open>numevents\<close> is the number of flags requested, and
  \<open>poll\<close> has reported no flag that was not requested (\<open>R\<close>: entries whose report was not looked at).
\<close>

definition table_ok :: "world \<Rightarrow> nat set \<Rightarrow> bool" where
  "table_ok w R \<longleftrightarrow> (let n = ex_numpairs (w_exec w) in
     n \<le> length (ex_fds (w_exec w)) \<and> n \<le> length (ex_pairs (w_exec w)) \<and>
     (\<forall>j<n. \<forall>k<n. j \<noteq> k \<longrightarrow> fst (pair_at j w) \<noteq> fst (pair_at k w) \<and> snd (pair_at j w) \<noteq> snd (pair_at k w)) \<and>
     (\<forall>j<n. \<forall>k<n. \<forall>a. j \<noteq> k \<longrightarrow> addr_of (snd (pair_at j w)) w = Some a \<longrightarrow> addr_of (snd (pair_at k w)) w \<noteq> Some a) \<and>
     ex_numevents (w_exec w) = (\<Sum>j<n. bits (fd_at j w)) \<and>
     (\<forall>j<n. pf_revents (fd_at j w) \<inter> {POLLIN, POLLOUT} \<subseteq> (if j \<in> R then pf_events (fd_at j w) else {})))"

text \<open>
  Two sessions look the same if they differ at most in what was sent over the socket (descriptors may be
  used again) and, once aborted, in the parser's unfinished multibulk.  \<open>ran\<close>: a session that looks like the
  second one is reached.
\<close>

definition seen :: "session \<Rightarrow> session" where
  "seen s = s\<lparr>ss_sent := [], ss_pending := (if ss_state s = CS_ABORTED then None else ss_pending s)\<rparr>"

definition ran :: "session \<Rightarrow> session \<Rightarrow> bool" where
  "ran s0 s \<longleftrightarrow> (\<exists>s1. session_step\<^sup>*\<^sup>* s0 s1 \<and> seen s1 = seen s)"

lemma ran_refl: "seen s0 = seen s \<Longrightarrow> ran s0 s"
  unfolding ran_def by blast

lemma ran_same: "ran s0 s \<Longrightarrow> seen s = seen s' \<Longrightarrow> ran s0 s'"
  unfolding ran_def by metis

lemma seen_step:
  assumes "session_step s s'" "seen s1 = seen s"
  shows "\<exists>s1'. session_step s1 s1' \<and> seen s1' = seen s'"
  using assms
proof (cases rule: session_step.cases)
  case connecting
  with assms(2) show ?thesis using session_step.connecting [of s1]
    by (intro exI [of _ "s1\<lparr>ss_state := CS_CONNECTING\<rparr>"]) (cases s; cases s1; auto simp: seen_def)
next
  case connected
  with assms(2) show ?thesis using session_step.connected [of s1]
    by (intro exI [of _ "s1\<lparr>ss_state := CS_CONNECTED\<rparr>"]) (cases s; cases s1; auto simp: seen_def)
next
  case established
  with assms(2) show ?thesis using session_step.established [of s1]
    by (intro exI [of _ "s1\<lparr>ss_state := CS_CONNECTED\<rparr>"]) (cases s; cases s1; auto simp: seen_def)
next
  case (wrote out rest)
  with assms(2) show ?thesis using session_step.wrote [of s1 out rest]
    by (intro exI [of _ "s1\<lparr>ss_sent := ss_sent s1 @ out, ss_unsent := rest\<rparr>"]) (cases s; cases s1; auto simp: seen_def)
next
  case (received bs)
  with assms(2) show ?thesis using session_step.received [of s1 bs]
    by (intro exI [of _ "s1\<lparr>ss_got := ss_got s1 @ bs\<rparr>"]) (cases s; cases s1; auto simp: seen_def)
next
  case (parsed res rp pd)
  with assms(2) show ?thesis using session_step.parsed [of s1 res rp pd]
    by (intro exI [of _ "s1\<lparr>ss_parser := rp, ss_pending := pd\<rparr>"]) (cases s; cases s1; auto simp: seen_def)
next
  case (replied rp pd v)
  with assms(2) show ?thesis using session_step.replied [of s1 rp pd v]
    by (intro exI [of _ "s1\<lparr>ss_due := ss_due s1 - 1, ss_log := ss_log s1 @ [v], ss_parser := rp, ss_pending := pd\<rparr>"])
      (cases s; cases s1; auto simp: seen_def)
next
  case (aborted t)
  with assms(2) show ?thesis using session_step.aborted [of s1 t]
    by (intro exI [of _ "s1\<lparr>ss_state := CS_ABORTED, ss_due := min 0 (ss_due s1),
      ss_log := ss_log s1 @ replicate (nat (ss_due s1)) (error_reply (ss_batch s1) (length t + 1), []), ss_sent := [],
      ss_error := Some (t @ [CHR 0x00])\<rparr>"])
      (cases s; cases s1; auto simp: seen_def)
qed

lemma ran_steps:
  assumes "ran s0 s" "session_step\<^sup>*\<^sup>* s s'"
  shows "ran s0 s'"
  using assms(2,1)
proof induction
  case (step s1 s2)
  then obtain t where "session_step\<^sup>*\<^sup>* s0 t" "seen t = seen s1" unfolding ran_def by blast
  with seen_step [OF step.hyps(2)] show ?case unfolding ran_def by (meson rtranclp.rtrancl_into_rtrancl)
qed

text \<open>The session a pair starts with, and the sessions of all pairs since the world was \<open>w0\<close>.\<close>

definition start_session :: "nat \<Rightarrow> nat \<Rightarrow> world \<Rightarrow> (rnode \<Rightarrow> rnode list) \<Rightarrow> session" where
  "start_session c b w L = (let cn = the (w_conns w c); bt = the (w_batches w b) in
     \<lparr>ss_batch = b, ss_state = (if cn_state cn = CS_ABORTED then CS_CLOSED else cn_state cn),
      ss_due = bt_num_commands bt, ss_log = queue_views b (w_heap w) L, ss_parser = fresh_parser, ss_pending = None,
      ss_sent = [], ss_unsent = contents (bt_write_buffer bt), ss_got = contents (bt_read_buffer bt),
      ss_error = None, ss_iter = (bt_sp bt, bt_current bt)\<rparr>)"

definition session_ok ::
    "world \<times> (rnode \<Rightarrow> rnode list) \<Rightarrow> world \<Rightarrow> (rnode \<Rightarrow> rnode list) \<Rightarrow> bool \<Rightarrow> nat \<Rightarrow> bool" where
  "session_ok W0 w L idle j \<longleftrightarrow> (case pair_at j w of (b, c) \<Rightarrow>
     let s0 = start_session c b (fst W0) (snd W0) in
     if idle then start_session c b w L = s0 else ran s0 (session_of c b w L))"

text \<open>What is in no pair is left alone.\<close>

definition bystanders :: "world \<Rightarrow> world \<Rightarrow> bool" where
  "bystanders w0 w \<longleftrightarrow> (let n = ex_numpairs (w_exec w) in
     calls w0 \<le> calls w \<and>
     (\<forall>b. (\<forall>j<n. fst (pair_at j w) \<noteq> b) \<longrightarrow> w_batches w b = w_batches w0 b) \<and>
     (\<forall>c. (\<forall>j<n. snd (pair_at j w) \<noteq> c) \<longrightarrow> w_conns w c = w_conns w0 c) \<and>
     (\<forall>j<n. addr_of (snd (pair_at j w)) w = addr_of (snd (pair_at j w)) w0 \<or>
        (\<forall>a. addr_of (snd (pair_at j w)) w = Some a \<longrightarrow> calls w0 \<le> a)) \<and>
     (\<forall>a \<in> os_addrs (w_os w0). a < calls w0 \<longrightarrow> (\<forall>j<n. addr_of (snd (pair_at j w)) w0 \<noteq> Some a) \<longrightarrow>
        a \<in> os_addrs (w_os w)))"

text \<open>The queues of batches in no pair are as they were.\<close>

definition queues_kept :: "nat set \<Rightarrow> world \<times> (rnode \<Rightarrow> rnode list) \<Rightarrow> world \<Rightarrow> (rnode \<Rightarrow> rnode list) \<Rightarrow> bool" where
  "queues_kept B W0 w L \<longleftrightarrow> (\<forall>b \<in> B. (\<forall>j<ex_numpairs (w_exec w). fst (pair_at j w) \<noteq> b) \<longrightarrow>
     queue_views b (w_heap w) L = queue_views b (w_heap (fst W0)) (snd W0))"

definition all_pairs ::
    "(nat \<Rightarrow> nat) \<Rightarrow> (nat \<Rightarrow> nat) \<Rightarrow> world \<times> (rnode \<Rightarrow> rnode list) \<Rightarrow> nat set \<Rightarrow> world \<Rightarrow> (rnode \<Rightarrow> rnode list) \<Rightarrow> nat set \<Rightarrow> nat set \<Rightarrow>
     (nat \<Rightarrow> connection \<Rightarrow> batch \<Rightarrow> pollfd \<Rightarrow> bool) \<Rightarrow> bool" where
  "all_pairs f N W0 B w L R I Q \<longleftrightarrow> table_ok w R \<and>
     (\<forall>j<ex_numpairs (w_exec w). pair_ok f N B w L (j \<in> I) (Q j) j) \<and>
     (\<forall>j<ex_numpairs (w_exec w). \<forall>k<ex_numpairs (w_exec w). \<forall>m. j \<noteq> k \<longrightarrow> j \<notin> I \<longrightarrow> k \<notin> I \<longrightarrow>
        held (snd (pair_at j w)) w = Some m \<longrightarrow> held (snd (pair_at k w)) w \<noteq> Some m) \<and>
     (\<forall>j<ex_numpairs (w_exec w). session_ok W0 w L (j \<in> I) j) \<and> bystanders (fst W0) w \<and> queues_kept B W0 w L"

text \<open>What a step on entry \<open>i\<close> leaves of the table.\<close>

definition same_table :: "nat \<Rightarrow> world \<Rightarrow> world \<Rightarrow> bool" where
  "same_table i w w' \<longleftrightarrow>
     ex_numpairs (w_exec w') = ex_numpairs (w_exec w) \<and> ex_pairs (w_exec w') = ex_pairs (w_exec w) \<and>
     ex_end_tm_ms (w_exec w') = ex_end_tm_ms (w_exec w) \<and>
     length (ex_fds (w_exec w')) = length (ex_fds (w_exec w)) \<and> (\<forall>k. k \<noteq> i \<longrightarrow> fd_at k w' = fd_at k w) \<and>
     ex_numevents (w_exec w') - bits (fd_at i w') = ex_numevents (w_exec w) - bits (fd_at i w)"

lemma same_table_frame: "frame i b c B w L w' L' \<Longrightarrow> same_table i w w' \<and> pf_revents (fd_at i w') = pf_revents (fd_at i w)"
  by (simp add: frame_def exec_frame_def same_table_def fd_at_def)

lemma sum_bits:
  assumes "same_table i w w'" "i < n" "ex_numevents (w_exec w) = (\<Sum>j<n. bits (fd_at j w))"
  shows "ex_numevents (w_exec w') = (\<Sum>j<n. bits (fd_at j w'))"
proof -
  have "(\<Sum>j<n. bits (fd_at j v)) = bits (fd_at i v) + (\<Sum>j\<in>{..<n} - {i}. bits (fd_at j v))" for v
    using assms(2) by (intro sum.remove) auto
  moreover have "(\<Sum>j\<in>{..<n} - {i}. bits (fd_at j w')) = (\<Sum>j\<in>{..<n} - {i}. bits (fd_at j w))"
    using assms(1) by (intro sum.cong) (auto simp: same_table_def)
  ultimately show ?thesis using assms(1,3) by (simp add: same_table_def)
qed

lemma table_ok_step:
  assumes t: "table_ok w R" and s: "same_table i w w'" and i: "i < ex_numpairs (w_exec w)"
    and addr: "\<And>c. c \<noteq> snd (pair_at i w) \<Longrightarrow> addr_of c w' = addr_of c w"
      "\<And>a j. addr_of (snd (pair_at i w)) w' = Some a \<Longrightarrow> j < ex_numpairs (w_exec w) \<Longrightarrow> j \<noteq> i \<Longrightarrow>
         addr_of (snd (pair_at j w)) w \<noteq> Some a"
    and rev: "pf_revents (fd_at i w') \<inter> {POLLIN, POLLOUT} \<subseteq> (if i \<in> R' then pf_events (fd_at i w') else {})"
      "\<And>j. j \<noteq> i \<Longrightarrow> j \<in> R' \<longleftrightarrow> j \<in> R"
  shows "table_ok w' R'"
proof -
  let ?n = "ex_numpairs (w_exec w)"
  have p: "pair_at j w' = pair_at j w" for j using s by (simp add: same_table_def pair_at_def)
  have n: "ex_numpairs (w_exec w') = ?n" using s by (simp add: same_table_def)
  have ne: "fst (pair_at j w) \<noteq> fst (pair_at k w) \<and> snd (pair_at j w) \<noteq> snd (pair_at k w)"
    if "j < ?n" "k < ?n" "j \<noteq> k" for j k using t that unfolding table_ok_def Let_def by blast
  have old: "addr_of (snd (pair_at k w)) w \<noteq> Some a"
    if "j < ?n" "k < ?n" "j \<noteq> k" "addr_of (snd (pair_at j w)) w = Some a" for j k a
    using t that unfolding table_ok_def Let_def by blast
  have "addr_of (snd (pair_at k w)) w' \<noteq> Some a"
    if jk: "j < ?n" "k < ?n" "j \<noteq> k" "addr_of (snd (pair_at j w)) w' = Some a" for j k a
  proof (cases "j = i")
    case True
    then have "addr_of (snd (pair_at k w)) w' = addr_of (snd (pair_at k w)) w"
      using addr(1) ne jk i by metis
    with addr(2) [of a k] True jk show ?thesis by simp
  next
    case ji: False
    then have aj: "addr_of (snd (pair_at j w)) w = Some a" using addr(1) ne jk i by metis
    show ?thesis
    proof (cases "k = i")
      case True
      with addr(2) [of a j] aj jk ji show ?thesis by blast
    next
      case False
      then have "addr_of (snd (pair_at k w)) w' = addr_of (snd (pair_at k w)) w"
        using addr(1) ne jk i by metis
      with old [OF jk(1-3) aj] show ?thesis by simp
    qed
  qed
  moreover have "ex_numevents (w_exec w') = (\<Sum>j<?n. bits (fd_at j w'))"
    using sum_bits [OF s i] t by (simp add: table_ok_def Let_def)
  moreover have "pf_revents (fd_at j w') \<inter> {POLLIN, POLLOUT} \<subseteq> (if j \<in> R' then pf_events (fd_at j w') else {})"
    if "j < ?n" for j
  proof (cases "j = i")
    case True
    show ?thesis unfolding True by (rule rev(1))
  next
    case False
    then have "fd_at j w' = fd_at j w" using s by (simp add: same_table_def)
    moreover have "pf_revents (fd_at j w) \<inter> {POLLIN, POLLOUT} \<subseteq> (if j \<in> R then pf_events (fd_at j w) else {})"
      using t that unfolding table_ok_def Let_def by blast
    ultimately show ?thesis using rev(2) [OF False] by (simp only: if_True if_False split: if_split)
  qed
  ultimately show ?thesis using t s ne unfolding table_ok_def Let_def n p by (simp add: same_table_def)
qed

lemma all_pairs_sel:
  assumes "all_pairs f N W0 B w L R I Q"
  shows "table_ok w R" "j < ex_numpairs (w_exec w) \<Longrightarrow> pair_ok f N B w L (j \<in> I) (Q j) j"
    "j < ex_numpairs (w_exec w) \<Longrightarrow> k < ex_numpairs (w_exec w) \<Longrightarrow> j \<noteq> k \<Longrightarrow> j \<notin> I \<Longrightarrow> k \<notin> I \<Longrightarrow>
     held (snd (pair_at j w)) w = Some m \<Longrightarrow> held (snd (pair_at k w)) w \<noteq> Some m"
    "j < ex_numpairs (w_exec w) \<Longrightarrow> session_ok W0 w L (j \<in> I) j" "bystanders (fst W0) w" "queues_kept B W0 w L"
  using assms unfolding all_pairs_def by blast+

lemma table_distinct:
  assumes "table_ok w R" "j < ex_numpairs (w_exec w)" "k < ex_numpairs (w_exec w)" "j \<noteq> k"
  shows "fst (pair_at j w) \<noteq> fst (pair_at k w)" "snd (pair_at j w) \<noteq> snd (pair_at k w)"
    "addr_of (snd (pair_at j w)) w = Some a \<Longrightarrow> addr_of (snd (pair_at k w)) w \<noteq> Some a"
  using assms unfolding table_ok_def Let_def by blast+

lemma pair_okD:
  assumes "pair_ok f N B w L idle Q j" "pair_at j w = (b, c)"
  obtains cn bt rp where "pair_state f N B j b c w L cn bt rp"
    "if idle then ready cn bt (fd_at j w) else live B b w L cn bt rp \<and> Q cn bt (fd_at j w) \<or> dead cn bt"
  using assms unfolding pair_ok_def by auto

lemma table_ok_frame:
  assumes a: "all_pairs f N W0 B w L R I Q" and i: "i < ex_numpairs (w_exec w)" "pair_at i w = (b, c)"
    and f: "frame i b c B w L w' L'" and R: "i \<notin> R"
  shows "table_ok w' R"
proof -
  note tab = all_pairs_sel(1) [OF a] and stab = same_table_frame [OF f]
  show ?thesis
  proof (rule table_ok_step [OF tab conjunct1 [OF stab] i(1)])
    show "addr_of c' w' = addr_of c' w" if "c' \<noteq> snd (pair_at i w)" for c'
      using f that i(2) by (simp add: addr_of_def frame_def)
    fix x j assume x: "addr_of (snd (pair_at i w)) w' = Some x" and j: "j < ex_numpairs (w_exec w)" "j \<noteq> i"
    obtain b1 c1 where bc: "pair_at j w = (b1, c1)" by fastforce
    have lt: "addr_of c1 w = Some y \<Longrightarrow> y < calls w" for y
      by (rule pair_okD [OF all_pairs_sel(2) [OF a j(1)] bc]) (auto simp: addr_of_def pair_state_def)
    have "addr_of c w' = addr_of c w \<or> (\<forall>a. addr_of c w' = Some a \<longrightarrow> calls w \<le> a)"
      using f by (simp add: frame_def)
    then show "addr_of (snd (pair_at j w)) w \<noteq> Some x"
      using table_distinct(3) [OF tab i(1) j(1), of x] x j(2) lt [of x] bc i(2) by auto
  next
    have "pf_revents (fd_at i w) \<inter> {POLLIN, POLLOUT} \<subseteq> {}"
      using tab i(1) R unfolding table_ok_def Let_def by (metis (full_types))
    then show "pf_revents (fd_at i w') \<inter> {POLLIN, POLLOUT} \<subseteq> (if i \<in> R then pf_events (fd_at i w') else {})"
      using stab R by simp
  qed simp
qed

text \<open>A step on one pair does not show in the sessions of the others.\<close>

lemma pending_view_other:
  assumes f: "heap_frame b mr mr' B h L h' L'" and rh: "reply_heap h B L"
    and p: "pending_ok (ps_multibulk_reply rp) h B L" and m: "\<And>m. ps_multibulk_reply rp = Some m \<Longrightarrow> mr \<noteq> Some m"
  shows "pending_view rp h' L' = pending_view rp h L"
proof (cases "ps_multibulk_reply rp")
  case (Some m)
  with p obtain rep where r: "rh_replies h m = Some rep" by (auto simp: pending_ok_def orphan_def)
  note le = heap_frameD(1) [OF f]
  have "RChildren m \<in> heads h B" "Some (RChildren m) \<noteq> map_option RChildren mr"
    using r m [OF Some] by (cases mr; auto simp: heads_def)+
  then have "L' (RChildren m) = L (RChildren m)" using heap_frameD(2) [OF f] by blast
  moreover have "rh_replies h' (link_id x) = rh_replies h (link_id x)" if "x \<in> set (L (RChildren m))" for x
    using links_of_live [OF rh r that] le by (auto simp: map_le_def link_id_def dom_def)
  moreover have "rh_replies h' m = rh_replies h m" using le r by (auto simp: map_le_def dom_def)
  ultimately show ?thesis using Some by (simp add: pending_view_def reply_view_def)
qed (simp add: pending_view_def)

lemma other_session:
  assumes f: "frame i b c B w L w' L'" and st: "pair_state f N B j b' c' w L cn rb rp" and ne: "b' \<noteq> b" "c' \<noteq> c"
  shows "start_session c' b' w' L' = start_session c' b' w L"
    "(cn_state cn \<noteq> CS_ABORTED \<Longrightarrow> pending_view rp (w_heap w') L' = pending_view rp (w_heap w) L) \<Longrightarrow>
      seen (session_of c' b' w' L') = seen (session_of c' b' w L)"
proof -
  have "queue_views b' (w_heap w') L' = queue_views b' (w_heap w) L"
    by (rule queue_views_other) (use f st ne in \<open>auto simp: frame_def pair_state_def\<close>)
  moreover have "w_conns w' c' = Some cn" "w_conns w c' = Some cn" "w_batches w' b' = w_batches w b'" "cn_parser cn = Some rp"
    using f st ne by (simp_all add: frame_def pair_state_def)
  ultimately show "start_session c' b' w' L' = start_session c' b' w L"
    "(cn_state cn \<noteq> CS_ABORTED \<Longrightarrow> pending_view rp (w_heap w') L' = pending_view rp (w_heap w) L) \<Longrightarrow>
      seen (session_of c' b' w' L') = seen (session_of c' b' w L)"
    by (simp_all add: start_session_def session_of_def seen_def Let_def)
qed

lemma bystanders_step:
  assumes s: "bystanders w0 w" and f: "frame i b c B w L w' L'" and i: "i < ex_numpairs (w_exec w)" "pair_at i w = (b, c)"
    and ne: "\<And>j. j < ex_numpairs (w_exec w) \<Longrightarrow> j \<noteq> i \<Longrightarrow> snd (pair_at j w) \<noteq> c"
  shows "bystanders w0 w'"
proof -
  let ?n = "ex_numpairs (w_exec w)"
  have p: "pair_at j w' = pair_at j w" "ex_numpairs (w_exec w') = ?n" for j
    using same_table_frame [OF f] by (simp_all add: same_table_def pair_at_def)
  have calls: "calls w0 \<le> calls w" "calls w \<le> calls w'" using s f by (auto simp: bystanders_def Let_def frame_def)
  have bc: "w_conns w' x = w_conns w x" if "x \<noteq> c" for x using f that by (simp add: frame_def)
  have ad: "addr_of c w' = addr_of c w \<or> (\<forall>a. addr_of c w' = Some a \<longrightarrow> calls w0 \<le> a)"
    using f calls unfolding frame_def by (meson le_trans)
  have old: "addr_of (snd (pair_at j w)) w = addr_of (snd (pair_at j w)) w0 \<or>
      (\<forall>a. addr_of (snd (pair_at j w)) w = Some a \<longrightarrow> calls w0 \<le> a)" if "j < ?n" for j
    using s that by (simp add: bystanders_def Let_def)
  have new: "addr_of (snd (pair_at j w)) w' = addr_of (snd (pair_at j w)) w0 \<or>
      (\<forall>a. addr_of (snd (pair_at j w)) w' = Some a \<longrightarrow> calls w0 \<le> a)" if j: "j < ?n" for j
  proof (cases "j = i")
    case True
    with old [OF j] ad i(2) show ?thesis by auto
  next
    case False
    with old [OF j] bc [OF ne [OF j False]] show ?thesis by (simp add: addr_of_def)
  qed
  have "a \<in> os_addrs (w_os w')"
    if a: "a \<in> os_addrs (w_os w0)" "a < calls w0" "\<forall>j<?n. addr_of (snd (pair_at j w)) w0 \<noteq> Some a" for a
  proof -
    have "a \<in> os_addrs (w_os w)" using s a by (simp add: bystanders_def Let_def)
    moreover have "addr_of c w \<noteq> Some a" using old [OF i(1)] a i by fastforce
    ultimately show ?thesis using f a(2) calls(1) unfolding frame_def by (meson order_less_le_trans)
  qed
  moreover have "w_batches w' x = w_batches w0 x" if "\<forall>j<?n. fst (pair_at j w) \<noteq> x" for x
  proof -
    have "x \<noteq> b" using that i by fastforce
    with s f that show ?thesis unfolding bystanders_def Let_def frame_def by simp
  qed
  moreover have "w_conns w' x = w_conns w0 x" if "\<forall>j<?n. snd (pair_at j w) \<noteq> x" for x
  proof -
    have "x \<noteq> c" using that i by fastforce
    with s f that show ?thesis unfolding bystanders_def Let_def frame_def by simp
  qed
  moreover have "calls w0 \<le> calls w'" using calls by simp
  ultimately show ?thesis using new unfolding bystanders_def Let_def p by blast
qed

lemma queues_kept_step:
  assumes q: "queues_kept B W0 w L" and f: "frame i b c B w L w' L'" and i: "i < ex_numpairs (w_exec w)" "pair_at i w = (b, c)"
    and rh: "reply_heap (w_heap w) B L"
  shows "queues_kept B W0 w' L'"
proof -
  have p: "pair_at j w' = pair_at j w" "ex_numpairs (w_exec w') = ex_numpairs (w_exec w)" for j
    using same_table_frame [OF f] by (simp_all add: same_table_def pair_at_def)
  have "queue_views x (w_heap w') L' = queue_views x (w_heap w) L"
    if x: "x \<in> B" "\<forall>j<ex_numpairs (w_exec w). fst (pair_at j w) \<noteq> x" for x
  proof (rule queue_views_other [OF _ rh x(1)])
    show "heap_frame b (pending_of c w) (pending_of c w') B (w_heap w) L (w_heap w') L'" using f by (simp add: frame_def)
    show "x \<noteq> b" using x(2) i by fastforce
  qed
  with q show ?thesis unfolding queues_kept_def p by simp
qed

text \<open>One step on entry \<open>i\<close>: it is where \<open>Q'\<close> says or aborted, the others work on and hold what they held.\<close>

lemma all_pairs_step:
  assumes a: "all_pairs f N W0 B w L R I Q" and i: "i < ex_numpairs (w_exec w)" "pair_at i w = (b, c)"
    and f: "frame i b c B w L w' L'" and R: "i \<notin> R"
    and st: "pair_state f N B i b c w' L' cn bt rp"
    and res: "live B b w' L' cn bt rp \<and> Q' cn bt (fd_at i w') \<or> dead cn bt"
    and others: "\<And>j cn1 bt1 rp1. j < ex_numpairs (w_exec w) \<Longrightarrow> j \<noteq> i \<Longrightarrow> j \<notin> I \<Longrightarrow>
      w_conns w (snd (pair_at j w)) = Some cn1 \<Longrightarrow> cn_parser cn1 = Some rp1 \<Longrightarrow>
      live B (fst (pair_at j w)) w L cn1 bt1 rp1 \<Longrightarrow> live B (fst (pair_at j w)) w' L' cn1 bt1 rp1 \<and>
      pending_view rp1 (w_heap w') L' = pending_view rp1 (w_heap w) L"
    and held: "\<And>j m. j < ex_numpairs (w_exec w) \<Longrightarrow> j \<noteq> i \<Longrightarrow> j \<notin> I \<Longrightarrow> held c w' = Some m \<Longrightarrow>
      held (snd (pair_at j w)) w \<noteq> Some m"
    and ran: "ran (start_session c b (fst W0) (snd W0)) (session_of c b w' L')"
  shows "all_pairs f N W0 B w' L' R (I - {i}) (Q(i := Q'))"
proof -
  let ?n = "ex_numpairs (w_exec w)"
  note tab = all_pairs_sel(1) [OF a] and stab = same_table_frame [OF f]
  have p: "pair_at j w' = pair_at j w" for j using stab by (simp add: same_table_def pair_at_def)
  have n: "ex_numpairs (w_exec w') = ?n" using stab by (simp add: same_table_def)
  have ne: "fst (pair_at j w) \<noteq> b" "snd (pair_at j w) \<noteq> c" if "j < ?n" "j \<noteq> i" for j
    using table_distinct(1,2) [OF tab that(1) i(1) that(2)] i(2) by simp_all
  have "pair_ok f N B w' L' (j \<in> I - {i}) ((Q(i := Q')) j) j" if j: "j < ?n" for j
  proof (cases "j = i")
    case True
    with st res i show ?thesis unfolding pair_ok_def p by auto
  next
    case False
    obtain b1 c1 where bc: "pair_at j w = (b1, c1)" by fastforce
    obtain cn1 bt1 rp1 where st1: "pair_state f N B j b1 c1 w L cn1 bt1 rp1" and
      q1: "if j \<in> I then ready cn1 bt1 (fd_at j w)
       else live B b1 w L cn1 bt1 rp1 \<and> Q j cn1 bt1 (fd_at j w) \<or> dead cn1 bt1"
      by (rule pair_okD [OF all_pairs_sel(2) [OF a j] bc])
    have ad: "addr_of c w \<noteq> Some x" if "cn_addrinfo cn1 = Some x" for x
      using table_distinct(3) [OF tab j i(1) False, of x] st1 that bc i(2) by (simp add: addr_of_def pair_state_def)
    have st2: "pair_state f N B j b1 c1 w' L' cn1 bt1 rp1"
      using other_pair [OF f st st1 False _ _ ad] ne [OF j False] bc by simp
    have "live B b1 w' L' cn1 bt1 rp1" if "live B b1 w L cn1 bt1 rp1" "j \<notin> I"
      using others [OF j False that(2)] that(1) st1 bc by (auto simp: pair_state_def)
    moreover have "fd_at j w' = fd_at j w" using stab False by (simp add: same_table_def)
    ultimately show ?thesis using st2 q1 False unfolding pair_ok_def p bc prod.case fun_upd_other [OF False]
      by (intro exI [of _ cn1] exI [of _ bt1] exI [of _ rp1]) auto
  qed
  moreover have "held (snd (pair_at k w)) w' \<noteq> Some m"
    if jk: "j < ?n" "k < ?n" "j \<noteq> k" "j \<notin> I - {i}" "k \<notin> I - {i}" "held (snd (pair_at j w)) w' = Some m" for j k m
  proof -
    have hs: "held (snd (pair_at x w)) w' = held (snd (pair_at x w)) w" if "x < ?n" "x \<noteq> i" for x
      using f ne(2) [OF that] by (simp add: held_def frame_def)
    show ?thesis
    proof (cases "j = i \<or> k = i")
      case True
      then show ?thesis using held jk hs i(2) by (metis snd_conv Diff_iff singletonD)
    next
      case False
      then show ?thesis using all_pairs_sel(3) [OF a jk(1-3)] hs jk by simp
    qed
  qed
  moreover have "table_ok w' R" by (rule table_ok_frame [OF a i f R])
  moreover have "session_ok W0 w' L' (j \<in> I - {i}) j" if j: "j < ?n" for j
  proof (cases "j = i")
    case True
    with ran i(2) show ?thesis by (simp add: session_ok_def p)
  next
    case False
    obtain b1 c1 where bc: "pair_at j w = (b1, c1)" by fastforce
    obtain cn1 bt1 rp1 where st1: "pair_state f N B j b1 c1 w L cn1 bt1 rp1" and
      q1: "if j \<in> I then ready cn1 bt1 (fd_at j w)
       else live B b1 w L cn1 bt1 rp1 \<and> Q j cn1 bt1 (fd_at j w) \<or> dead cn1 bt1"
      by (rule pair_okD [OF all_pairs_sel(2) [OF a j] bc])
    have ne1: "b1 \<noteq> b" "c1 \<noteq> c" using ne [OF j False] bc by simp_all
    note old = all_pairs_sel(4) [OF a j] and same = other_session [OF f st1 ne1]
    show ?thesis
    proof (cases "j \<in> I")
      case True
      with old same(1) False show ?thesis by (simp add: session_ok_def p bc)
    next
      case nI: False
      have "pending_view rp1 (w_heap w') L' = pending_view rp1 (w_heap w) L" if "cn_state cn1 \<noteq> CS_ABORTED"
        using others [OF j False nI] q1 nI st1 bc that by (auto simp: pair_state_def dead_def)
      from same(2) [OF this] have "seen (session_of c1 b1 w L) = seen (session_of c1 b1 w' L')" by simp
      with old nI show ?thesis using ran_same by (auto simp: session_ok_def p bc Let_def)
    qed
  qed
  moreover have "bystanders (fst W0) w'" by (rule bystanders_step [OF all_pairs_sel(5) [OF a] f i ne(2)])
  moreover have "queues_kept B W0 w' L'"
  proof (rule queues_kept_step [OF all_pairs_sel(6) [OF a] f i])
    show "reply_heap (w_heap w) B L"
      by (rule pair_okD [OF all_pairs_sel(2) [OF a i(1)] i(2)]) (simp add: pair_state_def)
  qed
  ultimately show ?thesis unfolding all_pairs_def n p by blast
qed

text \<open>A working pair was served.\<close>

lemma all_pairs_settled:
  assumes a: "all_pairs f N W0 B w L R I Q" and i: "i < ex_numpairs (w_exec w)" "i \<notin> I" "pair_at i w = (b, c)"
    and w: "working f N B i b c w L cn bt rp"
    and s: "settled f N B i b c w L w' Q'" and R: "i \<notin> R"
  shows "\<exists>L'. all_pairs f N W0 B w' L' R I (Q(i := Q'))"
proof -
  let ?n = "ex_numpairs (w_exec w)"
  from s obtain L' cn' bt' rp' where f: "frame i b c B w L w' L'"
    and ss: "session_step\<^sup>*\<^sup>* (session_of c b w L) (session_of c b w' L')"
    and st': "pair_state f N B i b c w' L' cn' bt' rp'"
    and res: "live B b w' L' cn' bt' rp' \<and> Q' cn' bt' (fd_at i w') \<or> dead cn' bt'"
    unfolding settled_def served_def fd_at_def by blast
  have heldc: "held c w = pending_of c w"
    using w by (simp add: held_def pending_of_def working_def pair_state_def live_def)
  have "all_pairs f N W0 B w' L' R (I - {i}) (Q(i := Q'))"
  proof (rule all_pairs_step [where Q' = Q', OF a i(1,3) f R st' res])
    fix j cn1 bt1 rp1 assume j: "j < ?n" "j \<noteq> i" "j \<notin> I" and cn1: "w_conns w (snd (pair_at j w)) = Some cn1"
      "cn_parser cn1 = Some rp1" and lv: "live B (fst (pair_at j w)) w L cn1 bt1 rp1"
    have pend: "pending_of c w \<noteq> Some m" if "ps_multibulk_reply rp1 = Some m" for m
    proof -
      have "held (snd (pair_at j w)) w = Some m" using cn1 lv that by (simp add: held_def live_def)
      with all_pairs_sel(3) [OF a j(1) i(1) j(2,3) i(2), of m] i(3) heldc show ?thesis by simp
    qed
    have hf: "heap_frame b (pending_of c w) (pending_of c w') B (w_heap w) L (w_heap w') L'" using f by (simp add: frame_def)
    have "reply_heap (w_heap w) B L" using w by (simp add: working_def pair_state_def)
    then have "pending_view rp1 (w_heap w') L' = pending_view rp1 (w_heap w) L"
      using pending_view_other [OF hf] lv pend by (simp add: live_def)
    moreover have "live B (fst (pair_at j w)) w' L' cn1 bt1 rp1"
    proof (rule other_live [OF f st' lv _ pend])
      show "fst (pair_at j w) \<noteq> b" using table_distinct(1) [OF all_pairs_sel(1) [OF a] j(1) i(1) j(2)] i(3) by simp
    qed
    ultimately show "live B (fst (pair_at j w)) w' L' cn1 bt1 rp1 \<and>
      pending_view rp1 (w_heap w') L' = pending_view rp1 (w_heap w) L" by blast
  next
    fix j m assume j: "j < ?n" "j \<noteq> i" "j \<notin> I" and hc: "held c w' = Some m"
    show "held (snd (pair_at j w)) w \<noteq> Some m"
    proof
      assume h: "held (snd (pair_at j w)) w = Some m"
      obtain b1 c1 where bc: "pair_at j w = (b1, c1)" by fastforce
      have "m \<in> dom (rh_replies (w_heap w))"
        by (rule pair_okD [OF all_pairs_sel(2) [OF a j(1)] bc])
          (use h j(3) bc in \<open>auto simp: held_def pair_state_def live_def dead_def pending_ok_def orphan_def split: if_splits\<close>)
      moreover have "own_pending (held c w) (w_heap w) (pending_of c w')"
        using f heldc by (simp add: frame_def heap_frame_def)
      moreover have "pending_of c w' = Some m"
        using hc st' by (auto simp: held_def pending_of_def pair_state_def split: if_splits)
      ultimately have "held c w = Some m" by (auto simp: own_pending_def)
      with all_pairs_sel(3) [OF a j(1) i(1) j(2,3) i(2) h] i(3) show False by simp
    qed
  next
    have "ran (start_session c b (fst W0) (snd W0)) (session_of c b w L)"
      using all_pairs_sel(4) [OF a i(1)] i(2,3) by (simp add: session_ok_def)
    then show "ran (start_session c b (fst W0) (snd W0)) (session_of c b w' L')" by (rule ran_steps [OF _ ss])
  qed
  moreover have "I - {i} = I" using i(2) by blast
  ultimately show ?thesis by metis
qed

end
