(* ===== verification/Executor_Run.thy ===== *)
theory Executor_Run
  imports Executor_Safe
begin

text \<open>
  \<open>Executor_execute\<close> of \<open>libredis/connection.c\<close>: starting all pairs, one turn of the loop, and the
  loop until nothing is awaited or the time is up.
\<close>


text \<open>A loop over the entries, one after the other.\<close>

lemma foldE_upt:
  assumes "P 0 s" and step: "\<And>i s. i < n \<Longrightarrow> P i s \<Longrightarrow> \<exists>s'. f i s = Inr s' \<and> P (Suc i) s'"
  shows "\<exists>s'. foldE f [0..<n] s = Inr s' \<and> P n s'"
proof -
  have "\<exists>s'. foldE f [0..<k] s = Inr s' \<and> P k s'" if "k \<le> n" for k
    using that
  proof (induction k)
    case (Suc k)
    then obtain s' where s': "foldE f [0..<k] s = Inr s'" "P k s'" by auto
    with step [of k s'] Suc.prems show ?case by (auto simp: foldE_append)
  qed (use assms(1) in simp)
  then show ?thesis by blast
qed

definition kept :: "world \<Rightarrow> world \<Rightarrow> bool" where
  "kept w w' \<longleftrightarrow> ex_numpairs (w_exec w') = ex_numpairs (w_exec w) \<and> ex_pairs (w_exec w') = ex_pairs (w_exec w) \<and>
     ex_end_tm_ms (w_exec w') = ex_end_tm_ms (w_exec w) \<and> calls w \<le> calls w'"

lemma kept_trans: "kept w w1 \<Longrightarrow> kept w1 w2 \<Longrightarrow> kept w w2"
  by (simp add: kept_def)

lemma kept_refl [simp]: "kept w w"
  by (simp add: kept_def)

lemma kept_settled: "settled f N B i b c w L w' Q \<Longrightarrow> kept w w'"
  by (auto simp: settled_def served_def frame_def exec_frame_def kept_def)

lemma all_pairs_mono:
  assumes "all_pairs f N W0 B w L R I Q"
    and "\<And>j b c cn bt. j < ex_numpairs (w_exec w) \<Longrightarrow> pair_at j w = (b, c) \<Longrightarrow> w_batches w b = Some bt \<Longrightarrow>
      Q j cn bt (fd_at j w) \<Longrightarrow> Q' j cn bt (fd_at j w)"
  shows "all_pairs f N W0 B w L R I Q'"
proof -
  have "pair_ok f N B w L (j \<in> I) (Q' j) j" if j: "j < ex_numpairs (w_exec w)" for j
  proof -
    obtain b c where bc: "pair_at j w = (b, c)" by fastforce
    show ?thesis
    proof (rule pair_okD [OF all_pairs_sel(2) [OF assms(1) j] bc])
      fix cn bt rp assume st: "pair_state f N B j b c w L cn bt rp"
        and q: "if j \<in> I then ready cn bt (fd_at j w)
          else live B b w L cn bt rp \<and> Q j cn bt (fd_at j w) \<or> dead cn bt"
      have "w_batches w b = Some bt" using st by (simp add: pair_state_def)
      from assms(2) [OF j bc this, of cn] st q show ?thesis unfolding pair_ok_def bc prod.case
        by (intro exI [of _ cn] exI [of _ bt] exI [of _ rp]) auto
    qed
  qed
  with assms(1) show ?thesis unfolding all_pairs_def by blast
qed

section \<open>Starting\<close>

lemma start_pair_ok:
  assumes K: "kernel_ok K f" and a: "all_pairs f N W0 B w L {} {i..<n} (\<lambda>_. rests)"
    and n: "ex_numpairs (w_exec w) = n" and i: "i < n"
  shows "\<exists>w' L'. start_pair K i w = Inr w' \<and> all_pairs f N W0 B w' L' {} {Suc i..<n} (\<lambda>_. rests) \<and> kept w w'"
proof -
  obtain b c where bc: "pair_at i w = (b, c)" by fastforce
  have in_i: "i < ex_numpairs (w_exec w)" "i \<in> {i..<n}" using n i by simp_all
  obtain cn bt rp where st: "pair_state f N B i b c w L cn bt rp" and rd: "ready cn bt (ex_fds (w_exec w) ! i)"
    by (rule pair_okD [OF all_pairs_sel(2) [OF a in_i(1)] bc]) (use in_i(2) in \<open>auto simp: fd_at_def\<close>)
  let ?w1 = "put_batch b (started_batch bt) (put_conn c (started_conn b cn rp) w)"
  let ?cn = "started_conn b cn rp" and ?bt = "started_batch bt"
  have w1: "working f N B i b c ?w1 L ?cn ?bt (ReplyParser_reset rp)" by (rule start_working [OF st rd])
  have f1: "frame i b c B w L ?w1 L"
    using st by (simp add: frame_def addr_of_def pending_of_def started_conn_def pair_state_def ReplyParser_reset_def
        heap_frame_refl)
  have seen: "seen (start_session c b w L) = seen (session_of c b ?w1 L)"
    using st rd Buffer_flip_ok by (simp add: start_session_def session_of_def seen_def Let_def pair_state_def ready_def started_conn_def
        started_batch_def ReplyParser_reset_def fresh_parser_def pending_view_def)
  have "start_session c b w L = start_session c b (fst W0) (snd W0)"
    using all_pairs_sel(4) [OF a in_i(1)] in_i(2) bc by (simp add: session_ok_def)
  then have sess: "ran (start_session c b (fst W0) (snd W0)) (session_of c b ?w1 L)" using ran_refl [OF seen] by simp
  have "all_pairs f N W0 B ?w1 L {} ({i..<n} - {i}) ((\<lambda>_. rests)(i := \<lambda>_ _ _. True))"
    by (rule all_pairs_step [OF a in_i(1) bc f1 _ conjunct1 [OF w1 [unfolded working_def]] _ _ _ sess])
      (use w1 in \<open>auto simp: working_def live_def held_def started_conn_def ReplyParser_reset_def\<close>)
  moreover have "{i..<n} - {i} = {Suc i..<n}" by auto
  ultimately have a1: "all_pairs f N W0 B ?w1 L {} {Suc i..<n} ((\<lambda>_. rests)(i := \<lambda>_ _ _. True))" by simp
  from execute_start_ok [OF K st rd] obtain w' where
    s: "Connection_execute_start K c b i w = Inr w'" "settled f N B i b c ?w1 L w' rests" by blast
  from all_pairs_settled [OF a1 _ _ _ w1 s(2)] in_i bc obtain L' where
    "all_pairs f N W0 B w' L' {} {Suc i..<n} (((\<lambda>_. rests)(i := \<lambda>_ _ _. True))(i := rests))"
    by (auto simp: pair_at_def)
  moreover have "((\<lambda>_. rests)(i := \<lambda>_ _ _. True))(i := rests) = (\<lambda>_. rests)" by auto
  moreover have "i < length (ex_pairs (w_exec w))"
    using all_pairs_sel(1) [OF a] in_i by (auto simp: table_ok_def Let_def)
  then have "start_pair K i w = Inr w'" using s(1) bc by (simp add: start_pair_def pair_at_def)
  moreover have "kept ?w1 w'" by (rule kept_settled [OF s(2)])
  then have "kept w w'" by (simp add: kept_def)
  ultimately show ?thesis by auto
qed


section \<open>One entry of the poll array\<close>

text \<open>What \<open>dispatch\<close> does to the entry: the reported flags are no longer requested.\<close>

definition taken :: "pollfd \<Rightarrow> poll_flag set" where
  "taken fd = pf_revents fd \<inter> {POLLIN, POLLOUT}"

definition take_events :: "pollfd \<Rightarrow> pollfd" where
  "take_events fd = fd\<lparr>pf_events := pf_events fd - taken fd, pf_revents := pf_revents fd - {POLLIN, POLLOUT}\<rparr>"

definition taken_world :: "nat \<Rightarrow> world \<Rightarrow> world" where
  "taken_world i w = w\<lparr>w_exec := (w_exec w)\<lparr>ex_fds := (ex_fds (w_exec w))[i := take_events (fd_at i w)],
     ex_numevents := ex_numevents (w_exec w) - (of_bool (POLLIN \<in> taken (fd_at i w)) + of_bool (POLLOUT \<in> taken (fd_at i w)))\<rparr>\<rparr>"

definition event_of :: "int \<Rightarrow> pollfd \<Rightarrow> event set" where
  "event_of pr fd = (if pr = 0 then {EVENT_TIMEOUT} else if pr < 0 then {EVENT_ERROR}
     else (if POLLIN \<in> taken fd then {EVENT_READ} else {}) \<union> (if POLLOUT \<in> taken fd then {EVENT_WRITE} else {}))"

lemma dispatch_eq:
  assumes "i < length (ex_pairs (w_exec w))" "i < length (ex_fds (w_exec w))" "pair_at i w = (b, c)"
    "w_batches w b = Some bt"
  shows "dispatch K pr i w = (if event_of pr (fd_at i w) \<noteq> {} \<and> 0 < bt_num_commands bt
     then Connection_handle_event K c (event_of pr (fd_at i w)) i (taken_world i w) else Inr (taken_world i w))"
proof -
  let ?fd = "fd_at i w" and ?rd = "POLLIN \<in> pf_revents (fd_at i w)" and ?wr = "POLLOUT \<in> pf_revents (fd_at i w)"
  let ?fd1 = "if ?rd then ?fd\<lparr>pf_events := pf_events ?fd - {POLLIN}, pf_revents := pf_revents ?fd - {POLLIN}\<rparr> else ?fd"
  let ?fd2 = "if ?wr then ?fd1\<lparr>pf_events := pf_events ?fd1 - {POLLOUT}, pf_revents := pf_revents ?fd1 - {POLLOUT}\<rparr> else ?fd1"
  have "?fd2 = take_events ?fd"
    by (cases ?fd) (auto simp: take_events_def taken_def)
  moreover have "POLLOUT \<in> pf_revents ?fd1 \<longleftrightarrow> ?wr" by simp
  ultimately show ?thesis
    using assms by (simp add: dispatch_def Let_def pair_at_def fd_at_def [symmetric] taken_world_def taken_def event_of_def
        Batch_has_command_def get_batch_def cong: if_cong)
qed

lemma taken_requested:
  assumes "table_ok w R" "i < ex_numpairs (w_exec w)"
  shows "taken (fd_at i w) \<subseteq> pf_events (fd_at i w)"
proof -
  have "taken (fd_at i w) \<subseteq> (if i \<in> R then pf_events (fd_at i w) else {})"
    using assms unfolding table_ok_def Let_def taken_def by blast
  then show ?thesis by (cases "i \<in> R") auto
qed

lemma take_all_pairs:
  assumes a: "all_pairs f N W0 B w L R {} Q" and i: "i < ex_numpairs (w_exec w)"
  shows "all_pairs f N W0 B (taken_world i w) L (R - {i}) {} (Q(i := \<lambda>cn bt fd. Q i cn bt (fd_at i w)))"
proof -
  let ?w = "taken_world i w" and ?n = "ex_numpairs (w_exec w)"
  note tab = all_pairs_sel(1) [OF a]
  have len: "i < length (ex_fds (w_exec w))" using tab i by (auto simp: table_ok_def Let_def)
  have sub: "taken (fd_at i w) \<subseteq> pf_events (fd_at i w)" by (rule taken_requested [OF tab i])
  have fd: "fd_at i ?w = take_events (fd_at i w)" "j \<noteq> i \<Longrightarrow> fd_at j ?w = fd_at j w" for j
    using len by (simp_all add: fd_at_def taken_world_def)
  have ex: "ex_numpairs (w_exec ?w) = ?n" "pair_at j ?w = pair_at j w" "w_conns ?w = w_conns w"
    "w_batches ?w = w_batches w" "w_heap ?w = w_heap w" "w_os ?w = w_os w" "calls ?w = calls w"
    "length (ex_fds (w_exec ?w)) = length (ex_fds (w_exec w))" for j
    by (simp_all add: taken_world_def pair_at_def)
  have "bits (take_events (fd_at i w)) =
      bits (fd_at i w) - (of_bool (POLLIN \<in> taken (fd_at i w)) + of_bool (POLLOUT \<in> taken (fd_at i w)))"
    using sub by (auto simp: bits_def take_events_def)
  then have st: "same_table i w ?w" using fd by (simp add: same_table_def ex pair_at_def) (simp add: taken_world_def)
  have "table_ok ?w (R - {i})"
    by (rule table_ok_step [OF tab st i])
      (use table_distinct(3) [OF tab i] in \<open>auto simp: addr_of_def ex fd take_events_def\<close>)
  moreover have "pair_ok f N B ?w L False ((Q(i := \<lambda>cn bt fd. Q i cn bt (fd_at i w))) j) j" if "j < ?n" for j
  proof -
    have ps: "pair_state f N B k b c ?w L cn bt rp = pair_state f N B k b c w L cn bt rp"
      "live B b ?w L cn bt rp = live B b w L cn bt rp" for k b c cn bt rp
      by (simp_all add: pair_state_def live_def ex)
    show ?thesis
    proof (cases "j = i")
      case True
      with all_pairs_sel(2) [OF a that] show ?thesis unfolding pair_ok_def ps ex True by simp
    next
      case False
      with all_pairs_sel(2) [OF a that] show ?thesis unfolding pair_ok_def ps ex fd(2) [OF False] by simp
    qed
  qed
  moreover have hd: "held c ?w = held c w" for c by (simp add: held_def ex)
  moreover have "session_ok W0 ?w L False j" if "j < ?n" for j
    using all_pairs_sel(4) [OF a that] by (simp add: session_ok_def session_of_def ex cong: if_cong)
  moreover have "bystanders (fst W0) ?w"
    using all_pairs_sel(5) [OF a] unfolding bystanders_def Let_def addr_of_def ex by simp
  moreover have "queues_kept B W0 ?w L" using all_pairs_sel(6) [OF a] unfolding queues_kept_def ex by simp
  ultimately show ?thesis using all_pairs_sel(3) [OF a] unfolding all_pairs_def ex hd empty_iff by blast
qed

text \<open>Where a pair is after its entry was looked at.\<close>

definition answered :: "connection \<Rightarrow> batch \<Rightarrow> pollfd \<Rightarrow> bool" where
  "answered cn bt fd \<longleftrightarrow> bt_num_commands bt \<le> 0"

definition after :: "int \<Rightarrow> connection \<Rightarrow> batch \<Rightarrow> pollfd \<Rightarrow> bool" where
  "after pr = (if 0 < pr then rests else answered)"

lemma abort_event_ok:
  assumes w: "working f N B i b c w L cn bt rp" and e: "event = {EVENT_TIMEOUT} \<or> event = {EVENT_ERROR}"
  shows "\<exists>w'. Connection_handle_event K c event i w = Inr w' \<and> settled f N B i b c w L w' Q"
proof -
  note sel = working_sel [OF w]
  have "Connection_handle_event K c event i w = Connection_abort c (if EVENT_ERROR \<in> event then ''event error''
      else if cn_state cn = CS_CONNECTING then ''connect timeout'' else ''read/write timeout'') w"
    unfolding Connection_handle_event_def sel(1) using sel(8) e by auto
  with abort_ok [OF w] show ?thesis by metis
qed

lemma served_ok:
  assumes K: "kernel_ok K f" and w: "working f N B i b c (taken_world i w) L cn bt rp"
    and q: "rests cn bt (fd_at i w)" and n: "0 < bt_num_commands bt" and i: "i < length (ex_fds (w_exec w))"
    and sub: "taken (fd_at i w) \<subseteq> pf_events (fd_at i w)" and e: "event_of pr (fd_at i w) \<noteq> {}"
  shows "\<exists>w'. Connection_handle_event K c (event_of pr (fd_at i w)) i (taken_world i w) = Inr w' \<and>
    settled f N B i b c (taken_world i w) L w' (after pr)"
proof (cases "0 < pr")
  case False
  then have "event_of pr (fd_at i w) = {EVENT_TIMEOUT} \<or> event_of pr (fd_at i w) = {EVENT_ERROR}"
    by (auto simp: event_of_def)
  from abort_event_ok [OF w this] show ?thesis .
next
  case True
  let ?fd = "fd_at i w" and ?ev = "event_of pr (fd_at i w)"
  have ev: "events_of i (taken_world i w) = pf_events ?fd - taken ?fd"
    using i by (simp add: events_of_def taken_world_def take_events_def)
  have r: "EVENT_READ \<in> ?ev \<longleftrightarrow> POLLIN \<in> taken ?fd" "EVENT_WRITE \<in> ?ev \<longleftrightarrow> POLLOUT \<in> taken ?fd"
    "?ev \<subseteq> {EVENT_READ, EVENT_WRITE}" using True by (auto simp: event_of_def)
  have two: "taken ?fd \<subseteq> {POLLIN, POLLOUT}" by (auto simp: taken_def)
  have pos: "cn_state cn = CS_CONNECTING \<and> pf_events ?fd = {POLLOUT} \<or>
      cn_state cn = CS_CONNECTED \<and> (unsent (bt_write_buffer bt) \<noteq> [] \<longrightarrow> POLLOUT \<in> pf_events ?fd) \<and> POLLIN \<in> pf_events ?fd"
    using q n by (simp add: rests_def)
  have conn: "cn_state cn = CS_CONNECTED \<or> cn_state cn = CS_CONNECTING \<and> ?ev = {EVENT_WRITE} \<and>
      events_of i (taken_world i w) = {}"
  proof (cases "cn_state cn = CS_CONNECTED")
    case False
    with pos have s: "cn_state cn = CS_CONNECTING" "pf_events ?fd = {POLLOUT}" by auto
    have "taken ?fd \<noteq> {}" using e True two by (auto simp: event_of_def split: if_splits)
    with sub s(2) have "taken ?fd = {POLLOUT}" by auto
    with s show ?thesis unfolding ev using True by (simp add: event_of_def)
  qed simp
  have "\<exists>w'. Connection_handle_event K c ?ev i (taken_world i w) = Inr w' \<and>
      settled f N B i b c (taken_world i w) L w' rests"
  proof (rule handle_event_ok [OF K w r(3) conn])
    show "POLLIN \<in> events_of i (taken_world i w)" if "EVENT_READ \<notin> ?ev" "cn_state cn = CS_CONNECTED"
      using pos that r unfolding ev by auto
    show "POLLOUT \<in> events_of i (taken_world i w)" if "EVENT_WRITE \<notin> ?ev" "unsent (bt_write_buffer bt) \<noteq> []"
      using pos that r unfolding ev by auto
  qed (use r in \<open>simp_all add: ev\<close>)
  then show ?thesis using True by (simp add: after_def)
qed

lemma dispatch_ok:
  assumes K: "kernel_ok K f" and a: "all_pairs f N W0 B w L {i..<n} {} (\<lambda>j. if j < i then after pr else rests)"
    and n: "ex_numpairs (w_exec w) = n" and i: "i < n"
  shows "\<exists>w' L'. dispatch K pr i w = Inr w' \<and>
    all_pairs f N W0 B w' L' {Suc i..<n} {} (\<lambda>j. if j < Suc i then after pr else rests) \<and> kept w w'"
proof -
  let ?w1 = "taken_world i w" and ?fd = "fd_at i w"
  obtain b c where bc: "pair_at i w = (b, c)" by fastforce
  have in_i: "i < ex_numpairs (w_exec w)" using n i by simp
  note tab = all_pairs_sel(1) [OF a]
  have len: "i < length (ex_pairs (w_exec w))" "i < length (ex_fds (w_exec w))"
    using tab in_i by (auto simp: table_ok_def Let_def)
  have R: "{i..<n} - {i} = {Suc i..<n}" by auto
  let ?Q = "(\<lambda>j. if j < i then after pr else rests)(i := \<lambda>cn bt fd. rests cn bt ?fd)"
  have upd: "?Q(i := after pr) = (\<lambda>j. if j < Suc i then after pr else rests)" by (auto simp: fun_eq_iff less_Suc_eq)
  from take_all_pairs [OF a in_i] R have a1: "all_pairs f N W0 B ?w1 L {Suc i..<n} {} ?Q" by simp
  note sub = taken_requested [OF tab in_i]
  have n1: "i < ex_numpairs (w_exec ?w1)" "pair_at i ?w1 = (b, c)" "kept w ?w1"
    using in_i bc by (simp_all add: taken_world_def pair_at_def kept_def)
  obtain cn bt rp where st: "pair_state f N B i b c ?w1 L cn bt rp" and
    q: "live B b ?w1 L cn bt rp \<and> rests cn bt ?fd \<or> dead cn bt"
    by (rule pair_okD [OF all_pairs_sel(2) [OF a1 n1(1)] n1(2)]) auto
  have bt: "w_batches w b = Some bt" using st by (simp add: pair_state_def taken_world_def)
  show ?thesis
  proof (cases "event_of pr ?fd \<noteq> {} \<and> 0 < bt_num_commands bt")
    case True
    then have w1: "working f N B i b c ?w1 L cn bt rp" and r: "rests cn bt ?fd"
      using q st by (auto simp: working_def dead_def)
    from served_ok [OF K w1 r _ len(2) sub] True obtain w' where
      s: "Connection_handle_event K c (event_of pr ?fd) i ?w1 = Inr w'" "settled f N B i b c ?w1 L w' (after pr)" by blast
    from all_pairs_settled [OF a1 n1(1) _ n1(2) w1 s(2)] upd obtain L' where
      "all_pairs f N W0 B w' L' {Suc i..<n} {} (\<lambda>j. if j < Suc i then after pr else rests)" by auto
    with s(1) True kept_trans [OF n1(3) kept_settled [OF s(2)]] show ?thesis
      unfolding dispatch_eq [OF len bc bt] by auto
  next
    case False
    have "all_pairs f N W0 B ?w1 L {Suc i..<n} {} (?Q(i := after pr))"
    proof (rule all_pairs_mono [OF a1])
      fix j b1 c1 cn1 bt1 assume j: "pair_at j ?w1 = (b1, c1)" "w_batches ?w1 b1 = Some bt1" "?Q j cn1 bt1 (fd_at j ?w1)"
      show "(?Q(i := after pr)) j cn1 bt1 (fd_at j ?w1)"
      proof (cases "j = i")
        case True
        then have "bt1 = bt" "rests cn1 bt ?fd" using j n1(2) bt by (auto simp: taken_world_def)
        moreover have "pf_events (fd_at i ?w1) = pf_events ?fd" if "0 < pr" "0 < bt_num_commands bt"
          using that False len by (auto simp: event_of_def taken_world_def fd_at_def take_events_def taken_def split: if_splits)
        moreover have "bt_num_commands bt \<le> 0" if "\<not> 0 < pr" using that False by (auto simp: event_of_def split: if_splits)
        ultimately show ?thesis using True by (auto simp: after_def answered_def rests_def)
      next
        case False
        then show ?thesis using j(3) by simp
      qed
    qed
    with False n1(3) upd show ?thesis unfolding dispatch_eq [OF len bc bt] by auto
  qed
qed

end
