(* ===== verification/Executor.thy ===== *)
theory Executor
  imports Executor_Run
begin

text \<open>
  The loop of \<open>Executor_execute\<close> (\<open>libredis/connection.c\<close>), and the properties of
  connections and the executor.
\<close>


section \<open>Polling\<close>

text \<open>System calls and the kernel's reports change nothing a pair depends on.\<close>

lemma all_pairs_poll:
  assumes a: "all_pairs f N W0 B w L R {} Q"
    and same: "w_conns w' = w_conns w" "w_batches w' = w_batches w" "w_heap w' = w_heap w"
      "os_addrs (w_os w') = os_addrs (w_os w)" "calls w \<le> calls w'" "ex_numpairs (w_exec w') = ex_numpairs (w_exec w)"
      "ex_pairs (w_exec w') = ex_pairs (w_exec w)" "ex_numevents (w_exec w') = ex_numevents (w_exec w)"
      "length (ex_fds (w_exec w')) = length (ex_fds (w_exec w))"
    and fds: "\<And>j. j < ex_numpairs (w_exec w) \<Longrightarrow> pf_events (fd_at j w') = pf_events (fd_at j w)"
      "\<And>j. j < ex_numpairs (w_exec w) \<Longrightarrow> taken (fd_at j w') \<subseteq> (if j \<in> R' then pf_events (fd_at j w') else {})"
    and Q: "\<And>j cn bt. j < ex_numpairs (w_exec w) \<Longrightarrow> Q j cn bt (fd_at j w) \<Longrightarrow> Q j cn bt (fd_at j w')"
  shows "all_pairs f N W0 B w' L R' {} Q"
proof -
  have p: "pair_at j w' = pair_at j w" "addr_of c w' = addr_of c w" "held c w' = held c w" for j c
    by (simp_all add: pair_at_def addr_of_def held_def same)
  have "pair_ok f N B w' L False (Q j) j" if j: "j < ex_numpairs (w_exec w)" for j
  proof -
    obtain b c where bc: "pair_at j w = (b, c)" by fastforce
    show ?thesis
    proof (rule pair_okD [OF all_pairs_sel(2) [OF a j] bc])
      fix cn bt rp assume "pair_state f N B j b c w L cn bt rp"
        and q: "if j \<in> {} then ready cn bt (fd_at j w) else live B b w L cn bt rp \<and> Q j cn bt (fd_at j w) \<or> dead cn bt"
      then have "pair_state f N B j b c w' L cn bt rp"
        using received_mono [OF same(5), of f] same(5) by (auto simp: pair_state_def same intro: order_less_le_trans)
      moreover have "live B b w' L cn bt rp = live B b w L cn bt rp" by (simp add: live_def same)
      ultimately show ?thesis using q Q [OF j, of cn bt] unfolding pair_ok_def p bc prod.case by auto
    qed
  qed
  moreover have "table_ok w' R'"
  proof -
    have "(\<Sum>j<ex_numpairs (w_exec w). bits (fd_at j w')) = (\<Sum>j<ex_numpairs (w_exec w). bits (fd_at j w))"
      using fds(1) by (intro sum.cong) (simp_all add: bits_def)
    moreover have "\<forall>j<ex_numpairs (w_exec w). taken (fd_at j w') \<subseteq> (if j \<in> R' then pf_events (fd_at j w') else {})"
      using fds(2) by blast
    ultimately show ?thesis using all_pairs_sel(1) [OF a] unfolding table_ok_def Let_def p same taken_def by simp
  qed
  moreover have "session_ok W0 w' L False j" if "j < ex_numpairs (w_exec w)" for j
  proof -
    obtain b c where bc: "pair_at j w = (b, c)" by fastforce
    have "seen (session_of c b w L) = seen (session_of c b w' L)" by (simp add: session_of_def seen_def same Let_def)
    with all_pairs_sel(4) [OF a that] show ?thesis using ran_same by (auto simp: session_ok_def p bc Let_def)
  qed
  moreover have "bystanders (fst W0) w'"
    using all_pairs_sel(5) [OF a] same(5) unfolding bystanders_def Let_def p same by simp
  moreover have "queues_kept B W0 w' L" using all_pairs_sel(6) [OF a] unfolding queues_kept_def p same .
  ultimately show ?thesis using all_pairs_sel(3) [OF a] unfolding all_pairs_def p same empty_iff by blast
qed

lemma taken_none:
  assumes "table_ok w {}" "j < ex_numpairs (w_exec w)"
  shows "taken (fd_at j w) = {}"
  using assms unfolding table_ok_def Let_def taken_def by auto

lemma all_pairs_tick:
  assumes a: "all_pairs f N W0 B w L {} {} Q"
  shows "all_pairs f N W0 B (tick w) L {} {} Q"
  by (rule all_pairs_poll [OF a]) (use taken_none [OF all_pairs_sel(1) [OF a]] in \<open>simp_all add: fd_at_def\<close>)

lemma poll_reports:
  fixes w n K t defines "fds \<equiv> take (ex_numpairs (w_exec w)) (ex_fds (w_exec w))"
  assumes K: "kernel_ok K f" and a: "all_pairs f N W0 B w L {} {} (\<lambda>_. rests)" and n: "ex_numpairs (w_exec w) = n"
    and p: "k_poll K (calls w) (map (\<lambda>fd. (pf_fd fd, pf_events fd)) fds) t = Inr revs"
  shows "all_pairs f N W0 B ((tick w)\<lparr>w_exec := (w_exec w)\<lparr>ex_fds := map2 (\<lambda>fd r. fd\<lparr>pf_revents := r\<rparr>) fds revs @
    drop n (ex_fds (w_exec w))\<rparr>\<rparr>) L {0..<n} {} (\<lambda>_. rests)" (is "all_pairs _ _ _ _ ?w _ _ _ _")
proof -
  have len: "n \<le> length (ex_fds (w_exec w))" using all_pairs_sel(1) [OF a] n by (simp add: table_ok_def Let_def)
  then have lf: "length fds = n" by (simp add: fds_def n)
  have r: "length revs = n" "j < n \<Longrightarrow> revs ! j \<inter> {POLLIN, POLLOUT} \<subseteq> pf_events (fds ! j)" for j
  proof -
    have "length revs = length (map (\<lambda>fd. (pf_fd fd, pf_events fd)) fds)" and
      q: "\<forall>i < length (map (\<lambda>fd. (pf_fd fd, pf_events fd)) fds).
        revs ! i \<inter> {POLLIN, POLLOUT} \<subseteq> snd (map (\<lambda>fd. (pf_fd fd, pf_events fd)) fds ! i)"
      using K p unfolding kernel_ok_def by blast+
    then show "length revs = n" by (simp add: lf)
    show "revs ! j \<inter> {POLLIN, POLLOUT} \<subseteq> pf_events (fds ! j)" if "j < n"
      using q [rule_format, of j] that by (simp add: lf)
  qed
  have fd: "fd_at j ?w = (fd_at j w)\<lparr>pf_revents := revs ! j\<rparr>" if "j < n" for j
    using that len lf r(1) by (simp add: fd_at_def nth_append fds_def n)
  have ev: "pf_events (fds ! j) = pf_events (fd_at j w)" if "j < n" for j
    using that by (simp add: fds_def n fd_at_def)
  show ?thesis
    by (rule all_pairs_poll [OF a])
      (use len lf r(1) r(2) fd ev in \<open>simp_all add: n taken_def rests_def\<close>)
qed

lemma do_poll_ok:
  assumes K: "kernel_ok K f" and a: "all_pairs f N W0 B w L {} {} (\<lambda>_. rests)" and n: "ex_numpairs (w_exec w) = n"
  shows "\<exists>pr w'. do_poll K t w = (pr, w') \<and> - 1 \<le> pr \<and>
    all_pairs f N W0 B w' L {0..<n} {} (\<lambda>_. rests) \<and> kept w w'"
proof -
  let ?fds = "take n (ex_fds (w_exec w))"
  show ?thesis
  proof (cases "k_poll K (calls w) (map (\<lambda>fd. (pf_fd fd, pf_events fd)) ?fds) t")
    case (Inl e)
    have "all_pairs f N W0 B (set_errno e (tick w)) L {0..<n} {} (\<lambda>_. rests)"
      by (rule all_pairs_poll [OF a]) (use taken_none [OF all_pairs_sel(1) [OF a]] in \<open>simp_all add: fd_at_def\<close>)
    with Inl n show ?thesis by (simp add: do_poll_def Let_def kept_def)
  next
    case (Inr revs)
    with poll_reports [OF K a n, of t revs] n show ?thesis by (simp add: do_poll_def Let_def kept_def)
  qed
qed


section \<open>The loop\<close>

lemma all_pairs_upto:
  assumes "all_pairs f N W0 B w L R {} (\<lambda>j. if j < n then Q else Q')" "ex_numpairs (w_exec w) = n"
  shows "all_pairs f N W0 B w L R {} (\<lambda>_. Q)"
  by (rule all_pairs_mono [OF assms(1)]) (use assms(2) in simp)

lemma dispatch_all_ok:
  assumes K: "kernel_ok K f" and a: "all_pairs f N W0 B w L {0..<n} {} (\<lambda>_. rests)" and n: "ex_numpairs (w_exec w) = n"
  shows "\<exists>w' L'. foldE (dispatch K pr) [0..<n] w = Inr w' \<and> all_pairs f N W0 B w' L' {} {} (\<lambda>_. after pr) \<and> kept w w'"
proof -
  let ?P = "\<lambda>i s. (\<exists>L'. all_pairs f N W0 B s L' {i..<n} {} (\<lambda>j. if j < i then after pr else rests)) \<and> kept w s"
  have "\<exists>w'. foldE (dispatch K pr) [0..<n] w = Inr w' \<and> ?P n w'"
  proof (rule foldE_upt [where P = ?P])
    show "?P 0 w" using a by auto
    show "\<exists>s'. dispatch K pr i s = Inr s' \<and> ?P (Suc i) s'" if "i < n" "?P i s" for i s
    proof -
      from that(2) obtain L' where s: "all_pairs f N W0 B s L' {i..<n} {} (\<lambda>j. if j < i then after pr else rests)" "kept w s" by blast
      have "ex_numpairs (w_exec s) = n" using s(2) n by (simp add: kept_def)
      from dispatch_ok [OF K s(1) this that(1)] kept_trans [OF s(2)] show ?thesis by blast
    qed
  qed
  then obtain w' L' where w': "foldE (dispatch K pr) [0..<n] w = Inr w'" "kept w w'"
    "all_pairs f N W0 B w' L' {n..<n} {} (\<lambda>j. if j < n then after pr else rests)" by blast
  have "all_pairs f N W0 B w' L' {} {} (\<lambda>_. after pr)"
    by (rule all_pairs_upto) (use w' n in \<open>simp_all add: kept_def\<close>)
  with w' show ?thesis by blast
qed

text \<open>One turn: the events of one \<open>poll\<close>, or a forced timeout.\<close>

lemma executor_turn_ok:
  assumes K: "kernel_ok K f" "clock_ok K" "timeout_ok t"
    and M: "\<And>k. M \<le> k \<Longrightarrow> clock_ms K n0 + of_int (max 0 t) + 200 \<le> clock_ms K k"
    and a: "all_pairs f N W0 B w L {} {} (\<lambda>_. after pr)"
    and d: "ex_end_tm_ms (w_exec w) = deadline K n0 t" "n0 \<le> calls w"
  shows "\<exists>w' pr' more. executor_turn K (w, pr) = Inr ((w', pr'), more) \<and>
    (if more then 0 < pr \<and> (\<exists>L'. all_pairs f N W0 B w' L' {} {} (\<lambda>_. after pr')) \<and> kept w w' \<and>
       - 1 \<le> pr' \<and> (pr' \<le> 0 \<or> calls w < M \<and> calls w < calls w')
     else w' = w \<and> pr' = pr \<and> (pr \<le> 0 \<or> ex_numevents (w_exec w) \<le> 0))"
proof (cases "ex_numevents (w_exec w) > 0 \<and> pr > 0")
  case False
  then have "executor_turn K (w, pr) = Inr ((w, pr), False)" by (simp add: executor_turn_def)
  with False show ?thesis by (intro exI [of _ w] exI [of _ pr] exI [of _ False]) auto
next
  case True
  from current_timeout_ok [OF K(2,3) d] obtain r where
    r: "Executor_current_timeout K w = Inr (r, tick w)"
    "clock_ms K n0 + of_int (max 0 t) + 200 \<le> clock_ms K (calls w) \<longrightarrow> r = None" by blast
  let ?n = "ex_numpairs (w_exec w)"
  have a1: "all_pairs f N W0 B (tick w) L {} {} (\<lambda>_. rests)" using all_pairs_tick [OF a] True by (simp add: after_def)
  have k1: "kept w (tick w)" by (simp add: kept_def)
  obtain pr' w2 where p: "(case r of None \<Rightarrow> (0, tick w) | Some t \<Rightarrow> do_poll K t (tick w)) = (pr', w2)" by fastforce
  have w2: "all_pairs f N W0 B w2 L {0..<?n} {} (\<lambda>_. rests)" "kept (tick w) w2" "- 1 \<le> pr'"
  proof -
    have n: "ex_numpairs (w_exec (tick w)) = ?n" by simp
    have "all_pairs f N W0 B (tick w) L {0..<?n} {} (\<lambda>_. rests)"
      by (rule all_pairs_poll [OF a1]) (use taken_none [OF all_pairs_sel(1) [OF a1]] in \<open>simp_all add: fd_at_def\<close>)
    moreover obtain x w' where "do_poll K (the r) (tick w) = (x, w')" "- 1 \<le> x" "all_pairs f N W0 B w' L {0..<?n} {} (\<lambda>_. rests)"
      "kept (tick w) w'" using do_poll_ok [OF K(1) a1 n] by blast
    ultimately show "all_pairs f N W0 B w2 L {0..<?n} {} (\<lambda>_. rests)" "kept (tick w) w2" "- 1 \<le> pr'"
      using p by (cases r; simp)+
  qed
  have n2: "ex_numpairs (w_exec w2) = ?n" using w2(2) by (simp add: kept_def)
  from dispatch_all_ok [OF K(1) w2(1) n2] obtain w3 L' where
    w3: "foldE (dispatch K pr') [0..<?n] w2 = Inr w3" "all_pairs f N W0 B w3 L' {} {} (\<lambda>_. after pr')" "kept w2 w3" by blast
  have "executor_turn K (w, pr) = Inr ((w3, pr'), True)"
    using True r(1) p w3(1) n2 by (simp add: executor_turn_def)
  moreover have "kept w w3" using kept_trans [OF kept_trans [OF k1 w2(2)] w3(3)] .
  moreover have "calls w < calls w3" using kept_trans [OF w2(2) w3(3)] by (simp add: kept_def)
  moreover have "pr' \<le> 0 \<or> calls w < M"
  proof (cases "calls w < M")
    case False
    then have "r = None" using M [of "calls w"] r(2) by simp
    with p show ?thesis by simp
  qed simp
  ultimately show ?thesis using True w3(2) w2(3) by (intro exI [of _ w3] exI [of _ pr'] exI [of _ True]) auto
qed

text \<open>No flag is requested any more, or every pair was told to give up.\<close>

lemma all_answered:
  assumes a: "all_pairs f N W0 B w L {} {} (\<lambda>_. after pr)" and e: "pr \<le> 0 \<or> ex_numevents (w_exec w) \<le> 0"
  shows "all_pairs f N W0 B w L {} {} (\<lambda>_. answered)"
proof (cases "pr \<le> 0")
  case True
  with a show ?thesis by (simp add: after_def)
next
  case False
  let ?n = "ex_numpairs (w_exec w)"
  have "(\<Sum>j<?n. bits (fd_at j w)) \<le> 0"
    using e False all_pairs_sel(1) [OF a] by (simp add: table_ok_def Let_def)
  moreover have "0 \<le> bits fd" for fd by (simp add: bits_def)
  ultimately have "(\<Sum>j<?n. bits (fd_at j w)) = 0" by (meson antisym sum_nonneg)
  then have z: "bits (fd_at j w) = 0" if "j < ?n" for j
    using that by (subst (asm) sum_nonneg_eq_0_iff) (auto simp: bits_def)
  show ?thesis
  proof (rule all_pairs_mono [OF a])
    fix j cn bt assume "j < ?n" "after pr cn bt (fd_at j w)"
    moreover from this have "POLLIN \<notin> pf_events (fd_at j w)" "POLLOUT \<notin> pf_events (fd_at j w)"
      using z [of j] unfolding bits_def by (simp_all add: of_bool_def split: if_splits)
    ultimately show "answered cn bt (fd_at j w)" using False by (auto simp: after_def answered_def rests_def)
  qed
qed

lemma executor_loop_ok:
  assumes K: "kernel_ok K f" "clock_ok K" "timeout_ok t" and tp: "time_passes K n0 t"
    and a: "all_pairs f N W0 B w L {} {} (\<lambda>_. rests)"
    and d: "ex_end_tm_ms (w_exec w) = deadline K n0 t" "n0 \<le> calls w"
  shows "\<exists>w' pr. loopE (executor_turn K) (w, 1) = Inr (w', pr) \<and> - 1 \<le> pr \<and>
    (\<exists>L'. all_pairs f N W0 B w' L' {} {} (\<lambda>_. answered)) \<and> kept w w'"
proof -
  from tp obtain M where M: "\<And>k. M \<le> k \<Longrightarrow> clock_ms K n0 + of_int (max 0 t) + 200 \<le> clock_ms K k"
    by (auto simp: time_passes_def)
  let ?I = "\<lambda>s. (\<exists>L'. all_pairs f N W0 B (fst s) L' {} {} (\<lambda>_. after (snd s))) \<and> kept w (fst s) \<and> - 1 \<le> snd s"
  let ?Q = "\<lambda>s. (\<exists>L'. all_pairs f N W0 B (fst s) L' {} {} (\<lambda>_. answered)) \<and> kept w (fst s) \<and> - 1 \<le> snd s"
  let ?m = "\<lambda>s. if snd s \<le> 0 then 0 else Suc (M - calls (fst s))"
  have "\<exists>s'. loopE (executor_turn K) (w, 1) = Inr s' \<and> ?Q s'"
  proof (rule loopE_rule [where I = ?I and m = ?m])
    show "?I (w, 1)" using a by (auto simp: after_def)
    fix s :: "world \<times> int" assume I: "?I s"
    obtain w1 pr where s: "s = (w1, pr)" by fastforce
    from I obtain L1 where a1: "all_pairs f N W0 B w1 L1 {} {} (\<lambda>_. after pr)" and k1: "kept w w1" "- 1 \<le> pr" by (auto simp: s)
    have d1: "ex_end_tm_ms (w_exec w1) = deadline K n0 t" "n0 \<le> calls w1" using d k1(1) by (auto simp: kept_def)
    from executor_turn_ok [OF K M a1 d1] obtain w' pr' more where
      t: "executor_turn K (w1, pr) = Inr ((w', pr'), more)"
      "if more then 0 < pr \<and> (\<exists>L'. all_pairs f N W0 B w' L' {} {} (\<lambda>_. after pr')) \<and> kept w1 w' \<and>
         - 1 \<le> pr' \<and> (pr' \<le> 0 \<or> calls w1 < M \<and> calls w1 < calls w')
       else w' = w1 \<and> pr' = pr \<and> (pr \<le> 0 \<or> ex_numevents (w_exec w1) \<le> 0)" by blast
    show "\<exists>s' more. executor_turn K s = Inr (s', more) \<and> (if more then ?I s' \<and> ?m s' < ?m s else ?Q s')"
    proof (cases more)
      case True
      with t kept_trans [OF k1(1)] show ?thesis by (intro exI [of _ "(w', pr')"] exI [of _ True]) (auto simp: s)
    next
      case False
      with t all_answered [OF a1] k1 show ?thesis by (intro exI [of _ "(w', pr')"] exI [of _ False]) (auto simp: s)
    qed
  qed
  then show ?thesis by auto
qed


section \<open>A whole execution\<close>

text \<open>The number of replies batch \<open>b\<close> has and is still owed.\<close>

definition replies_due :: "world \<Rightarrow> (rnode \<Rightarrow> rnode list) \<Rightarrow> nat \<Rightarrow> nat" where
  "replies_due w L b = length (L (RQueue b)) + (case w_batches w b of None \<Rightarrow> 0 | Some bt \<Rightarrow> nat (bt_num_commands bt))"

text \<open>
  An executor as \<open>Executor_new\<close> and \<open>Executor_add\<close> leave it: all its pairs are ready.  \<open>numevents\<close>
  is reset by \<open>Executor_execute\<close>.
\<close>

definition executor_ready :: "(nat \<Rightarrow> nat) \<Rightarrow> nat set \<Rightarrow> world \<Rightarrow> (rnode \<Rightarrow> rnode list) \<Rightarrow> bool" where
  "executor_ready f B w L \<longleftrightarrow>
     all_pairs f (replies_due w L) (w, L) B (w\<lparr>w_exec := (w_exec w)\<lparr>ex_numevents := 0\<rparr>\<rparr>) L {}
       {0..<ex_numpairs (w_exec w)} (\<lambda>_. rests)"

lemma start_all_ok:
  assumes K: "kernel_ok K f" and a: "all_pairs f N W0 B w L {} {0..<n} (\<lambda>_. rests)" and n: "ex_numpairs (w_exec w) = n"
  shows "\<exists>w' L'. foldE (start_pair K) [0..<n] w = Inr w' \<and> all_pairs f N W0 B w' L' {} {} (\<lambda>_. rests) \<and> kept w w'"
proof -
  let ?P = "\<lambda>i s. (\<exists>L'. all_pairs f N W0 B s L' {} {i..<n} (\<lambda>_. rests)) \<and> kept w s"
  have "\<exists>w'. foldE (start_pair K) [0..<n] w = Inr w' \<and> ?P n w'"
  proof (rule foldE_upt [where P = ?P])
    show "?P 0 w" using a by auto
    show "\<exists>s'. start_pair K i s = Inr s' \<and> ?P (Suc i) s'" if "i < n" "?P i s" for i s
    proof -
      from that(2) obtain L' where s: "all_pairs f N W0 B s L' {} {i..<n} (\<lambda>_. rests)" "kept w s" by blast
      have "ex_numpairs (w_exec s) = n" using s(2) n by (simp add: kept_def)
      from start_pair_ok [OF K s(1) this that(1)] kept_trans [OF s(2)] show ?thesis by blast
    qed
  qed
  then show ?thesis by auto
qed

lemma started_pairs:
  assumes a: "all_pairs f N W0 B (w\<lparr>w_exec := (w_exec w)\<lparr>ex_numevents := 0\<rparr>\<rparr>) L {} I Q"
    and w': "w_conns w' = w_conns w" "w_batches w' = w_batches w" "w_heap w' = w_heap w" "w_os w' = (w_os w)\<lparr>os_calls := Suc (calls w)\<rparr>"
      "w_exec w' = (w_exec w)\<lparr>ex_end_tm_ms := e, ex_numevents := 0\<rparr>"
  shows "all_pairs f N W0 B w' L {} I Q"
proof -
  let ?w = "w\<lparr>w_exec := (w_exec w)\<lparr>ex_numevents := 0\<rparr>\<rparr>"
  have p: "pair_at j w' = pair_at j ?w" "fd_at j w' = fd_at j ?w" "addr_of c w' = addr_of c ?w" "held c w' = held c ?w" for j c
    by (simp_all add: pair_at_def fd_at_def addr_of_def held_def w')
  have c: "calls w' = Suc (calls w)" "calls ?w = calls w" by (simp_all add: calls_def w')
  have "pair_state f N B j b c w' L cn bt rp" if "pair_state f N B j b c ?w L cn bt rp" for j b c cn bt rp
    using that received_mono [of "calls w" "Suc (calls w)" f]
    by (auto simp: pair_state_def w' c simp del: received_Suc)
  moreover have "live B b w' L cn bt rp = live B b ?w L cn bt rp" for b cn bt rp by (simp add: live_def w')
  ultimately have "pair_ok f N B w' L x (Q j) j" if "pair_ok f N B ?w L x (Q j) j" for j x
    using that unfolding pair_ok_def p by (fastforce split: prod.splits)
  moreover have "table_ok w' {}" using all_pairs_sel(1) [OF a] unfolding table_ok_def Let_def p by (simp add: w')
  moreover have "session_ok W0 w' L x j" if s: "session_ok W0 ?w L x j" for x j
  proof -
    obtain b c where bc: "pair_at j ?w = (b, c)" by fastforce
    have "start_session c b w' L = start_session c b ?w L" by (simp add: start_session_def w')
    moreover have "seen (session_of c b ?w L) = seen (session_of c b w' L)" by (simp add: session_of_def seen_def w' Let_def)
    ultimately show ?thesis using s ran_same by (auto simp: session_ok_def p bc Let_def split: if_splits)
  qed
  moreover have "bystanders (fst W0) w'"
    using all_pairs_sel(5) [OF a] unfolding bystanders_def Let_def p c by (simp add: w' c)
  moreover have "queues_kept B W0 w' L" using all_pairs_sel(6) [OF a] unfolding queues_kept_def p by (simp add: w')
  moreover have "ex_numpairs (w_exec w') = ex_numpairs (w_exec ?w)" by (simp add: w')
  ultimately show ?thesis using a unfolding all_pairs_def p by simp
qed

lemma Executor_execute_ok:
  assumes K: "kernel_ok K f" "clock_ok K" "timeout_ok t" and tp: "time_passes K (calls w) t"
    and r: "executor_ready f B w L"
  shows "\<exists>x w' L' w4. Executor_execute K t w = Inr (x, w') \<and> x \<in> {-1, 0, 1} \<and>
    all_pairs f (replies_due w L) (w, L) B w4 L' {} {} (\<lambda>_. answered) \<and> kept (w\<lparr>w_exec := (w_exec w)\<lparr>ex_end_tm_ms := deadline K (calls w) t\<rparr>\<rparr>) w4 \<and>
    (\<exists>e. w' = w4\<lparr>w_heap := (w_heap w4)\<lparr>last_error := e\<rparr>\<rparr>)"
proof -
  let ?n = "ex_numpairs (w_exec w)" and ?N = "replies_due w L" and ?W0 = "(w, L)"
  let ?w2 = "(tick w)\<lparr>w_exec := (w_exec (tick w))\<lparr>ex_end_tm_ms := deadline K (calls w) t, ex_numevents := 0\<rparr>\<rparr>"
  have a2: "all_pairs f ?N ?W0 B ?w2 L {} {0..<?n} (\<lambda>_. rests)"
    by (rule started_pairs [OF r [unfolded executor_ready_def]]) (simp_all add: tick_def calls_def)
  have n2: "ex_numpairs (w_exec ?w2) = ?n" by simp
  from start_all_ok [OF K(1) a2 n2] obtain w3 L3 where
    s: "foldE (start_pair K) [0..<?n] ?w2 = Inr w3" "all_pairs f ?N ?W0 B w3 L3 {} {} (\<lambda>_. rests)" "kept ?w2 w3" by blast
  have d: "ex_end_tm_ms (w_exec w3) = deadline K (calls w) t" "calls w \<le> calls w3" using s(3) by (simp_all add: kept_def)
  from executor_loop_ok [OF K tp s(2) d] obtain w4 pr L' where
    l: "loopE (executor_turn K) (w3, 1) = Inr (w4, pr)" "- 1 \<le> pr" "all_pairs f ?N ?W0 B w4 L' {} {} (\<lambda>_. answered)" "kept w3 w4"
    by blast
  let ?h = "if pr < 0 then Module_set_error (errno_text K ''Execute select error, errno: ['' w4) (w_heap w4)
    else if pr = 0 then Module_set_error ''Execute timeout'' (w_heap w4) else w_heap w4"
  have "Executor_execute K t w = Inr (min pr 1, w4\<lparr>w_heap := ?h\<rparr>)"
    unfolding Executor_execute_def Let_def deadline_def [symmetric] using s(1) l(1) by simp
  moreover have "\<exists>e. w4\<lparr>w_heap := ?h\<rparr> = w4\<lparr>w_heap := (w_heap w4)\<lparr>last_error := e\<rparr>\<rparr>"
  proof -
    have same: "\<exists>e. w_heap w4 = (w_heap w4)\<lparr>last_error := e\<rparr>"
      by (intro exI [of _ "last_error (w_heap w4)"]) simp
    have "\<exists>e. ?h = (w_heap w4)\<lparr>last_error := e\<rparr>"
      unfolding Module_set_error_def using same by (cases "pr < 0"; cases "pr = 0"; simp) blast+
    then obtain e where "?h = (w_heap w4)\<lparr>last_error := e\<rparr>" ..
    from arg_cong [OF this, of "\<lambda>h. w4\<lparr>w_heap := h\<rparr>"] show ?thesis ..
  qed
  moreover have "min pr 1 \<in> {-1, 0, 1}" using l(2) by auto
  moreover have "kept (w\<lparr>w_exec := (w_exec w)\<lparr>ex_end_tm_ms := deadline K (calls w) t\<rparr>\<rparr>) w4"
    using s(3) l(4) by (simp add: kept_def)
  ultimately show ?thesis using l(3) by blast
qed


section \<open>Properties of the executor\<close>

text \<open>What \<open>Executor_add\<close> is given: a batch that was not executed, and a connection that is not in use.\<close>

definition addable :: "(nat \<Rightarrow> nat) \<Rightarrow> nat set \<Rightarrow> world \<Rightarrow> (rnode \<Rightarrow> rnode list) \<Rightarrow> nat \<Rightarrow> nat \<Rightarrow> bool" where
  "addable f B w L c b \<longleftrightarrow>
     (\<exists>cn bt rp. pair_state f (replies_due w L) B (ex_numpairs (w_exec w)) b c w L cn bt rp \<and>
        cn_state cn \<noteq> CS_CONNECTING \<and> (cn_state cn = CS_CONNECTED \<longrightarrow> 0 < cn_sockfd cn \<and> cn_addrinfo cn \<noteq> None) \<and>
        bt_error bt = None \<and> bf_position (bt_read_buffer bt) = 0) \<and>
     (\<forall>j < ex_numpairs (w_exec w). fst (pair_at j w) \<noteq> b \<and> snd (pair_at j w) \<noteq> c \<and>
        (\<forall>a. addr_of c w = Some a \<longrightarrow> addr_of (snd (pair_at j w)) w \<noteq> Some a))"

text \<open>The tables of the executor have \<open>MAX_PAIRS\<close> entries.\<close>

definition tables_full_size :: "world \<Rightarrow> bool" where
  "tables_full_size w \<longleftrightarrow> length (ex_pairs (w_exec w)) = MAX_PAIRS \<and> length (ex_fds (w_exec w)) = MAX_PAIRS"

lemma Executor_add_ok:
  assumes r: "executor_ready f B w L" and s: "tables_full_size w" and n: "ex_numpairs (w_exec w) < MAX_PAIRS"
    and ad: "addable f B w L c b"
  shows "\<exists>w'. Executor_add c b w = Inr (0, w') \<and> executor_ready f B w' L \<and> tables_full_size w' \<and>
    ex_numpairs (w_exec w') = Suc (ex_numpairs (w_exec w)) \<and> pair_at (ex_numpairs (w_exec w)) w' = (b, c)"
proof -
  let ?n = "ex_numpairs (w_exec w)" and ?N = "replies_due w L" and ?W0 = "(w, L)" and ?fd = "\<lparr>pf_fd = 0, pf_events = {}, pf_revents = {}\<rparr>"
  let ?w0 = "w\<lparr>w_exec := (w_exec w)\<lparr>ex_numevents := 0\<rparr>\<rparr>"
  let ?w' = "w\<lparr>w_exec := (w_exec w)\<lparr>ex_pairs := (ex_pairs (w_exec w))[?n := (b, c)],
      ex_fds := (ex_fds (w_exec w))[?n := ?fd], ex_numpairs := Suc ?n\<rparr>\<rparr>"
  obtain v where v: "v = ?w'\<lparr>w_exec := (w_exec ?w')\<lparr>ex_numevents := 0\<rparr>\<rparr>" by simp
  have a: "all_pairs f ?N ?W0 B ?w0 L {} {0..<?n} (\<lambda>_. rests)" using r by (simp add: executor_ready_def)
  have len: "?n < length (ex_pairs (w_exec w))" "?n < length (ex_fds (w_exec w))" using s n by (simp_all add: tables_full_size_def)
  have new: "pair_at ?n v = (b, c)" "fd_at ?n v = ?fd" using len by (simp_all add: pair_at_def fd_at_def v)
  have vs: "ex_numpairs (w_exec v) = Suc ?n" "ex_numevents (w_exec v) = 0" "length (ex_pairs (w_exec v)) = length (ex_pairs (w_exec w))"
    "length (ex_fds (w_exec v)) = length (ex_fds (w_exec w))" by (simp_all add: v)
  have p: "pair_at j v = pair_at j w" "fd_at j v = fd_at j w" if "j \<noteq> ?n" for j
    using that by (simp_all add: pair_at_def fd_at_def v)
  have p0: "pair_at j ?w0 = pair_at j w" "fd_at j ?w0 = fd_at j w" for j by (simp_all add: pair_at_def fd_at_def)
  have ac: "addr_of x v = addr_of x w" "addr_of x ?w0 = addr_of x w" for x by (simp_all add: addr_of_def v)
  have old: "fst (pair_at j w) \<noteq> b \<and> snd (pair_at j w) \<noteq> c \<and>
        (\<forall>a. addr_of c w = Some a \<longrightarrow> addr_of (snd (pair_at j w)) w \<noteq> Some a)" if "j < ?n" for j
    using ad that by (simp add: addable_def)
  have st: "pair_state f ?N B k b1 c1 v L cn bt rp = pair_state f ?N B k b1 c1 ?w0 L cn bt rp" for k b1 c1 cn bt rp
    by (simp add: pair_state_def v)
  have "pair_ok f ?N B v L True rests j" if j: "j < Suc ?n" for j
  proof (cases "j = ?n")
    case True
    from ad obtain cn bt rp where q: "pair_state f ?N B ?n b c w L cn bt rp" "cn_state cn \<noteq> CS_CONNECTING"
      "cn_state cn = CS_CONNECTED \<longrightarrow> 0 < cn_sockfd cn \<and> cn_addrinfo cn \<noteq> None" "bt_error bt = None"
      "bf_position (bt_read_buffer bt) = 0" unfolding addable_def by blast
    then have "pair_state f ?N B ?n b c v L cn bt rp" "ready cn bt ?fd" by (simp_all add: pair_state_def ready_def v)
    with True show ?thesis unfolding pair_ok_def new True by auto
  next
    case False
    with j have "j < ?n" by simp
    with all_pairs_sel(2) [OF a, of j] show ?thesis unfolding pair_ok_def p [OF False] p0 st by simp
  qed
  moreover have "table_ok v {}"
  proof -
    have z: "(\<Sum>j<Suc ?n. bits (fd_at j v)) = 0"
    proof -
      have "(\<Sum>j<?n. bits (fd_at j v)) = (\<Sum>j<?n. bits (fd_at j ?w0))" by (intro sum.cong) (simp_all add: p p0)
      also have "\<dots> = 0" using all_pairs_sel(1) [OF a] by (simp add: table_ok_def Let_def)
      finally show ?thesis using new(2) by (simp add: bits_def)
    qed
    have t: "pf_revents (fd_at j w) \<inter> {POLLIN, POLLOUT} \<subseteq> {}" if "j < ?n" for j
      using all_pairs_sel(1) [OF a] that unfolding table_ok_def Let_def p0 by auto
    have "\<forall>j<Suc ?n. pf_revents (fd_at j v) \<inter> {POLLIN, POLLOUT} \<subseteq> {}"
      using t by (auto simp: less_Suc_eq new p)
    moreover have "\<forall>j<Suc ?n. \<forall>k<Suc ?n. j \<noteq> k \<longrightarrow>
        fst (pair_at j v) \<noteq> fst (pair_at k v) \<and> snd (pair_at j v) \<noteq> snd (pair_at k v) \<and>
        (\<forall>a. addr_of (snd (pair_at j v)) w = Some a \<longrightarrow> addr_of (snd (pair_at k v)) w \<noteq> Some a)"
    proof (intro allI impI)
      fix j k assume jk: "j < Suc ?n" "k < Suc ?n" "j \<noteq> k"
      consider "j = ?n" "k < ?n" | "k = ?n" "j < ?n" | "j < ?n" "k < ?n" using jk by linarith
      then show "fst (pair_at j v) \<noteq> fst (pair_at k v) \<and> snd (pair_at j v) \<noteq> snd (pair_at k v) \<and>
          (\<forall>a. addr_of (snd (pair_at j v)) w = Some a \<longrightarrow> addr_of (snd (pair_at k v)) w \<noteq> Some a)"
      proof cases
        case 1
        with old [of k] new p show ?thesis by auto
      next
        case 2
        with old [of j] new p show ?thesis by auto
      next
        case 3
        with table_distinct [OF all_pairs_sel(1) [OF a], of j k] jk(3) p show ?thesis by (simp add: p0 ac)
      qed
    qed
    ultimately show ?thesis using len z unfolding table_ok_def Let_def ac vs by simp
  qed
  moreover have "session_ok (?w', L) v L True j" for j by (simp add: session_ok_def start_session_def v split: prod.splits)
  moreover have "bystanders ?w' v" by (simp add: bystanders_def addr_of_def calls_def v)
  moreover have "queues_kept B (?w', L) v L" by (simp add: queues_kept_def v)
  ultimately have "all_pairs f ?N (?w', L) B v L {} {0..<Suc ?n} (\<lambda>_. rests)" unfolding all_pairs_def vs by simp
  moreover have "replies_due ?w' L = ?N" by (simp add: replies_due_def fun_eq_iff)
  ultimately have "executor_ready f B ?w' L" by (simp add: executor_ready_def v)
  moreover have "Executor_add c b w = Inr (0, ?w')" using n len by (simp add: Executor_add_def Let_def)
  moreover have "pair_at ?n ?w' = (b, c)" using len by (simp add: pair_at_def)
  ultimately show ?thesis using s by (intro exI [of _ ?w']) (simp add: tables_full_size_def)
qed

end
