(* ===== verification/Connection_Props.thy ===== *)
theory Connection_Props
  imports Connection_Run
begin

text \<open>
  The properties of connections (\<open>libredis/connection.c\<close>): the session a connection runs, what it
  sends and receives, its address, and what it owns.
\<close>


section \<open>A small world\<close>

text \<open>
  The instances used by the witnesses.  A kernel whose calls succeed at once; the server sends \<open>+OK\<close>
  in answer to call number 9 and the clock advances a second with every call.
\<close>

definition demo_kernel :: kernel where
  "demo_kernel = \<lparr>k_resolve = (\<lambda>n a s. True), k_socket = (\<lambda>n. Inr 3), k_fcntl = (\<lambda>n fd. Inr 0),
     k_connect = (\<lambda>n fd. Inr ()), k_sockopt = (\<lambda>n fd. Inr 0), k_write = (\<lambda>n fd m. Inr m),
     k_read = (\<lambda>n fd m. if n = 9 then Inr (take m (''+OK'' @ crlf)) else Inl EAGAIN),
     k_poll = (\<lambda>n fds t. Inr (map (\<lambda>(fd, ev). ev \<inter> {POLLIN}) fds)),
     k_clock = (\<lambda>n. (min n 1000000, 0)), k_strerror = (\<lambda>e. ''no'')\<rparr>"

definition demo_traffic :: "nat \<Rightarrow> nat" where
  "demo_traffic n = (if n = 9 then 5 else 0)"

definition fresh_conn :: connection where
  "fresh_conn = \<lparr>cn_addr = ''localhost'', cn_serv = ''6379'', cn_addrinfo = None, cn_sockfd = 0,
     cn_state = CS_CLOSED, cn_batch = None, cn_executor = False, cn_parser = Some fresh_parser\<rparr>"

definition demo_world :: "batch \<Rightarrow> rheap \<Rightarrow> world" where
  "demo_world bt h = \<lparr>w_heap = h, w_conns = [0 \<mapsto> fresh_conn], w_batches = [0 \<mapsto> bt],
     w_exec = \<lparr>ex_numpairs = 0, ex_numevents = 0, ex_fds = replicate MAX_PAIRS \<lparr>pf_fd = 0, pf_events = {}, pf_revents = {}\<rparr>,
       ex_pairs = replicate MAX_PAIRS (0, 0), ex_end_tm_ms = 0\<rparr>,
     w_os = \<lparr>os_calls = 0, os_errno = 0, os_open = {}, os_addrs = {}, os_sent = (\<lambda>_. [])\<rparr>\<rparr>"

lemma demo_kernel_ok: "kernel_ok demo_kernel demo_traffic"
proof -
  have "sum demo_traffic {..<n} \<le> 5" for n
    by (induction n) (simp_all add: demo_traffic_def sum.neutral split: if_splits)
  then have "sum demo_traffic {..<n} < 1073741824" for n by (meson le_less_trans less_numeral_extra(4) numeral_less_iff semiring_norm)
  then show ?thesis
    by (auto simp: kernel_ok_def demo_kernel_def demo_traffic_def crlf_def)
qed

abbreviation demo_lists :: "rnode \<Rightarrow> rnode list" where
  "demo_lists \<equiv> (\<lambda>_. [])(RQueue 0 := [])"

lemma demo_pair:
  "\<exists>bt h. pair_state demo_traffic (\<lambda>_. 2) {0} 0 0 0 (demo_world bt h) demo_lists fresh_conn bt fresh_parser \<and>
    ready fresh_conn bt (ex_fds (w_exec (demo_world bt h)) ! 0) \<and> bt_num_commands bt = 2 \<and> command_text bt = ''x'' \<and>
    contents (bt_read_buffer bt) = []"
proof -
  from demo_batch obtain bt h where b: "bt_id bt = 0" "batch_ok bt h {0} demo_lists" "bt_error bt = None"
    "contents (bt_read_buffer bt) = []" "bf_capacity (bt_read_buffer bt) = 12288" "rh_replies h = (\<lambda>_. None)"
    "bt_num_commands bt = 2" "command_text bt = ''x''" by blast
  have "bf_position (bt_read_buffer bt) = 0"
    using b(2,4) length_contents [of "bt_read_buffer bt"] by (simp add: batch_ok_def writable_def)
  with b show ?thesis
    by (intro exI [of _ bt] exI [of _ h])
      (auto simp: pair_state_def demo_world_def fresh_conn_def MAX_PAIRS_def batch_ok_def writable_def replies_ok_def ready_def)
qed

text \<open>The same pair, connected and waiting for its replies.\<close>

definition open_conn :: connection where
  "open_conn = fresh_conn\<lparr>cn_addrinfo := Some 0, cn_sockfd := 3, cn_state := CS_CONNECTED, cn_batch := Some 0, cn_executor := True\<rparr>"

definition open_world :: "batch \<Rightarrow> rheap \<Rightarrow> world" where
  "open_world bt h = put_conn 0 open_conn ((demo_world bt h)\<lparr>w_os := \<lparr>os_calls = 1, os_errno = 0, os_open = {3},
     os_addrs = {0}, os_sent = (\<lambda>_. [])\<rparr>\<rparr>)"

lemma demo_working:
  "\<exists>bt h. working demo_traffic (\<lambda>_. 2) {0} 0 0 0 (open_world bt h) demo_lists open_conn bt fresh_parser \<and>
    events_of 0 (open_world bt h) = {} \<and> bt_num_commands bt = 2 \<and> unsent (bt_write_buffer bt) = ''x'' \<and>
    contents (bt_read_buffer bt) = [] \<and> bt_error bt = None"
proof -
  from demo_pair obtain bt h where
    p: "pair_state demo_traffic (\<lambda>_. 2) {0} 0 0 0 (demo_world bt h) demo_lists fresh_conn bt fresh_parser"
    "ready fresh_conn bt (ex_fds (w_exec (demo_world bt h)) ! 0)" "bt_num_commands bt = 2" "command_text bt = ''x''"
    "contents (bt_read_buffer bt) = []" by blast
  let ?bt = "started_batch bt"
  have f: "buffer_ok (Buffer_flip (bt_write_buffer bt))" "unsent (Buffer_flip (bt_write_buffer bt)) = ''x''"
    using p(1,4) Buffer_flip_ok by (auto simp: pair_state_def command_text_def)
  have "machine_inv d fresh_parser" for d by (simp add: machine_inv_def fresh_parser_def)
  then have "working demo_traffic (\<lambda>_. 2) {0} 0 0 0 (open_world ?bt h) demo_lists open_conn ?bt fresh_parser"
    using p f(1)
    by (auto simp: working_def pair_state_def live_def ready_def started_batch_def open_world_def open_conn_def demo_world_def
        fresh_conn_def fresh_parser_def put_conn_def calls_def received_def pending_ok_def)
  moreover have "events_of 0 (open_world ?bt h) = {}"
    by (simp add: events_of_def open_world_def demo_world_def MAX_PAIRS_def put_conn_def)
  ultimately show ?thesis using f p by (intro exI [of _ ?bt] exI [of _ h]) (simp add: started_batch_def ready_def)
qed


section \<open>The session of a connection\<close>

text \<open>What a run of the session keeps.\<close>

inductive_cases session_stepE: "session_step s s'"

fun stage :: "conn_state \<Rightarrow> nat" where
  "stage CS_CLOSED = 0"
| "stage CS_CONNECTING = 1"
| "stage CS_CONNECTED = 2"
| "stage CS_ABORTED = 3"

lemma stage_le: "stage st \<le> 3" "stage st = 3 \<longleftrightarrow> st = CS_ABORTED"
  by (cases st; simp)+

definition session_kept :: "session \<Rightarrow> session \<Rightarrow> bool" where
  "session_kept s s' \<longleftrightarrow>
     int (length (ss_log s')) + max 0 (ss_due s') = int (length (ss_log s)) + max 0 (ss_due s) \<and> ss_due s' \<le> ss_due s \<and>
     (\<exists>vs. ss_log s' = ss_log s @ vs) \<and> (\<exists>bs. ss_got s' = ss_got s @ bs) \<and> (ss_state s = CS_ABORTED \<longrightarrow> s' = s) \<and>
     stage (ss_state s) \<le> stage (ss_state s') \<and>
     (ss_state s' \<noteq> CS_ABORTED \<longrightarrow> ss_sent s' @ ss_unsent s' = ss_sent s @ ss_unsent s)"

lemma session_step_kept: "session_step s s' \<Longrightarrow> session_kept s s'"
proof (induction rule: session_step.induct)
  case (connecting s)
  then show ?case by (cases s) (simp add: session_kept_def)
next
  case (connected s)
  then show ?case by (cases s) (simp add: session_kept_def)
next
  case (established s)
  then show ?case by (cases s) (simp add: session_kept_def)
next
  case (wrote s out rest)
  then show ?case by (cases s) (simp add: session_kept_def)
next
  case (received s bs)
  then show ?case by (cases s) (simp add: session_kept_def)
next
  case (parsed s res rp pd)
  then show ?case by (cases s) (simp add: session_kept_def)
next
  case (replied s rp pd v)
  then show ?case by (cases s) (simp add: session_kept_def)
next
  case (aborted s t)
  then show ?case by (cases s) (simp add: session_kept_def stage_le)
qed

lemma session_kept_trans:
  assumes 1: "session_kept s s1" and 2: "session_kept s1 s2"
  shows "session_kept s s2"
proof -
  have st: "stage (ss_state s) \<le> stage (ss_state s1)" "stage (ss_state s1) \<le> stage (ss_state s2)"
    using 1 2 by (simp_all add: session_kept_def)
  have "\<exists>bs. ss_got s2 = ss_got s @ bs" using 1 2 unfolding session_kept_def by (metis append.assoc)
  moreover have "\<exists>vs. ss_log s2 = ss_log s @ vs" using 1 2 unfolding session_kept_def by (metis append.assoc)
  moreover have "ss_sent s2 @ ss_unsent s2 = ss_sent s @ ss_unsent s" if "ss_state s2 \<noteq> CS_ABORTED"
  proof -
    have "ss_state s1 \<noteq> CS_ABORTED" using that 2 unfolding session_kept_def by metis
    then show ?thesis using that 1 2 by (simp add: session_kept_def)
  qed
  moreover have "s2 = s" if "ss_state s = CS_ABORTED"
  proof -
    have "s1 = s" using 1 that by (simp add: session_kept_def)
    with 2 that show ?thesis by (simp add: session_kept_def)
  qed
  ultimately show ?thesis using 1 2 st by (simp add: session_kept_def)
qed

lemma session_keeps: "session_step\<^sup>*\<^sup>* s s' \<Longrightarrow> session_kept s s'"
proof (induction rule: rtranclp_induct)
  case base
  show ?case by (cases s) (simp add: session_kept_def)
qed (use session_step_kept session_kept_trans in blast)

text \<open>
  The event the executor passes: an error or a timeout, or what \<open>poll\<close> reported, whose flags are not
  requested any more while those it did not report still are.
\<close>

definition expected_event :: "event set \<Rightarrow> connection \<Rightarrow> batch \<Rightarrow> poll_flag set \<Rightarrow> bool" where
  "expected_event event cn bt ev \<longleftrightarrow> EVENT_ERROR \<in> event \<or> EVENT_TIMEOUT \<in> event \<or>
     (cn_state cn = CS_CONNECTED \<or> cn_state cn = CS_CONNECTING \<and> event = {EVENT_WRITE} \<and> ev = {}) \<and>
     flags_of event \<inter> ev = {} \<and>
     (cn_state cn = CS_CONNECTED \<longrightarrow> EVENT_READ \<in> event \<or> POLLIN \<in> ev) \<and>
     (unsent (bt_write_buffer bt) \<noteq> [] \<longrightarrow> EVENT_WRITE \<in> event \<or> POLLOUT \<in> ev)"

lemma flags_of_disjoint:
  "flags_of event \<inter> ev = {} \<longleftrightarrow> (EVENT_READ \<in> event \<longrightarrow> POLLIN \<notin> ev) \<and> (EVENT_WRITE \<in> event \<longrightarrow> POLLOUT \<notin> ev)"
  by (auto simp: flags_of_def)

lemma expected_eventD:
  assumes "expected_event event cn bt ev" "\<not> (EVENT_ERROR \<in> event \<or> EVENT_TIMEOUT \<in> event)"
  shows "cn_state cn = CS_CONNECTED \<or> cn_state cn = CS_CONNECTING \<and> event = {EVENT_WRITE} \<and> ev = {}"
    "EVENT_READ \<in> event \<Longrightarrow> POLLIN \<notin> ev" "EVENT_WRITE \<in> event \<Longrightarrow> POLLOUT \<notin> ev"
    "EVENT_READ \<notin> event \<Longrightarrow> cn_state cn = CS_CONNECTED \<Longrightarrow> POLLIN \<in> ev"
    "EVENT_WRITE \<notin> event \<Longrightarrow> unsent (bt_write_buffer bt) \<noteq> [] \<Longrightarrow> POLLOUT \<in> ev"
  using assms unfolding expected_event_def flags_of_disjoint by blast+

lemma expected_event_ok:
  assumes K: "kernel_ok K f" and w: "working f N B i b c w L cn bt rp" and e: "expected_event event cn bt (events_of i w)"
  shows "\<exists>w'. Connection_handle_event K c event i w = Inr w' \<and> settled f N B i b c w L w' rests"
proof (cases "EVENT_ERROR \<in> event \<or> EVENT_TIMEOUT \<in> event")
  case True
  note sel = working_sel [OF w]
  have "Connection_handle_event K c event i w = Connection_abort c (if EVENT_ERROR \<in> event then ''event error''
      else if cn_state cn = CS_CONNECTING then ''connect timeout'' else ''read/write timeout'') w"
    unfolding Connection_handle_event_def sel(1) using sel(8) True by auto
  with abort_ok [OF w] show ?thesis by metis
next
  case False
  have sub: "event \<subseteq> {EVENT_READ, EVENT_WRITE}"
  proof
    fix e assume "e \<in> event"
    with False show "e \<in> {EVENT_READ, EVENT_WRITE}" by (cases e) auto
  qed
  show ?thesis by (rule handle_event_ok [OF K w sub expected_eventD [OF e False]])
qed

text \<open>
  C3: \<open>Connection_handle_event\<close> is a run of the session: served an event of the executor, a pair moves only along \<open>session_step\<close>
  (connect, write a piece of what is unsent, receive, complete a reply for a command, or abort with an
  error reply for each outstanding command).  It never faults, the reply heap stays well formed, the other
  connections and batches are untouched, and a pair with outstanding commands has asked for the
  events that will wake it.
\<close>

theorem Connection_handle_event_refines:
  assumes "kernel_ok K f" "working f N B i b c w L cn bt rp" "expected_event event cn bt (events_of i w)"
  shows "\<exists>w' L'. Connection_handle_event K c event i w = Inr w' \<and> reply_heap (w_heap w') B L' \<and>
    session_step\<^sup>*\<^sup>* (session_of c b w L) (session_of c b w' L') \<and>
    (\<forall>c'. c' \<noteq> c \<longrightarrow> w_conns w' c' = w_conns w c') \<and> (\<forall>b'. b' \<noteq> b \<longrightarrow> w_batches w' b' = w_batches w b') \<and>
    (0 < ss_due (session_of c b w' L') \<longrightarrow>
       ss_state (session_of c b w' L') = CS_CONNECTING \<and> events_of i w' = {POLLOUT} \<or>
       ss_state (session_of c b w' L') = CS_CONNECTED \<and> POLLIN \<in> events_of i w' \<and>
         (ss_unsent (session_of c b w' L') \<noteq> [] \<longrightarrow> POLLOUT \<in> events_of i w'))"
proof -
  from expected_event_ok [OF assms] obtain w' where
    r: "Connection_handle_event K c event i w = Inr w'" "settled f N B i b c w L w' rests" by blast
  from r(2) obtain L' cn' bt' rp' where s: "served i b c B w L w' L'" "pair_state f N B i b c w' L' cn' bt' rp'"
    "live B b w' L' cn' bt' rp' \<and> rests cn' bt' (ex_fds (w_exec w') ! i) \<or> dead cn' bt'" unfolding settled_def by blast
  have ss: "ss_state (session_of c b w' L') = cn_state cn'" "ss_due (session_of c b w' L') = bt_num_commands bt'"
    "ss_unsent (session_of c b w' L') = unsent (bt_write_buffer bt')" "reply_heap (w_heap w') B L'"
    using s(2) by (simp_all add: session_of_def pair_state_def)
  have "0 < bt_num_commands bt' \<longrightarrow> cn_state cn' = CS_CONNECTING \<and> events_of i w' = {POLLOUT} \<or>
      cn_state cn' = CS_CONNECTED \<and> POLLIN \<in> events_of i w' \<and> (unsent (bt_write_buffer bt') \<noteq> [] \<longrightarrow> POLLOUT \<in> events_of i w')"
    using s(3) by (auto simp: rests_def dead_def events_of_def)
  with r(1) s(1) ss show ?thesis unfolding served_def frame_def
    by (intro exI [of _ w'] exI [of _ L']) simp
qed

theorem Connection_handle_event_refines_witness:
  "\<exists>w w' L'. Connection_handle_event demo_kernel 0 {EVENT_READ, EVENT_WRITE} 0 w = Inr w' \<and>
    ss_state (session_of 0 0 w demo_lists) = CS_CONNECTED \<and> ss_due (session_of 0 0 w demo_lists) = 2 \<and>
    ss_unsent (session_of 0 0 w demo_lists) = ''x'' \<and>
    session_step\<^sup>*\<^sup>* (session_of 0 0 w demo_lists) (session_of 0 0 w' L')"
proof -
  from demo_working obtain bt h where
    d: "working demo_traffic (\<lambda>_. 2) {0} 0 0 0 (open_world bt h) demo_lists open_conn bt fresh_parser"
    "events_of 0 (open_world bt h) = {}" "bt_num_commands bt = 2" "unsent (bt_write_buffer bt) = ''x''"
    "contents (bt_read_buffer bt) = []" by blast
  have e: "expected_event {EVENT_READ, EVENT_WRITE} open_conn bt (events_of 0 (open_world bt h))"
    by (simp add: expected_event_def d(2) open_conn_def)
  have "ss_state (session_of 0 0 (open_world bt h) demo_lists) = CS_CONNECTED"
    "ss_due (session_of 0 0 (open_world bt h) demo_lists) = 2" "ss_unsent (session_of 0 0 (open_world bt h) demo_lists) = ''x''"
    using d(3-5) by (simp_all add: session_of_def open_world_def demo_world_def open_conn_def put_conn_def)
  with Connection_handle_event_refines [OF demo_kernel_ok d(1) e] show ?thesis by blast
qed

text \<open>
  What a session has put into the queue since it began with \<open>old\<close> there: the replies its parser understood
  from the bytes received so far, followed by error replies if the connection was aborted, which show the
  error text of the batch.
\<close>

definition error_replies :: "nat \<Rightarrow> string option \<Rightarrow> view list \<Rightarrow> bool" where
  "error_replies b err es \<longleftrightarrow> (\<exists>t k. err = Some (t @ [CHR 0x00]) \<and> es = replicate k (error_reply b (length t + 1), []))"

definition heard :: "view list \<Rightarrow> session \<Rightarrow> bool" where
  "heard old s \<longleftrightarrow> length (ss_got s) < 2147483648 \<and>
     (\<exists>vs es rp pd. ss_log s = old @ vs @ es \<and> understood (ReadBuffer (ss_batch s)) (ss_got s) vs rp pd \<and>
        (if ss_state s = CS_ABORTED then error_replies (ss_batch s) (ss_error s) es
         else ss_error s = None \<and> es = [] \<and> rp = ss_parser s \<and> pd = ss_pending s))"

lemma heard_working:
  "ss_state s \<noteq> CS_ABORTED \<Longrightarrow> heard old s \<longleftrightarrow> length (ss_got s) < 2147483648 \<and> ss_error s = None \<and>
     (\<exists>vs. ss_log s = old @ vs \<and> understood (ReadBuffer (ss_batch s)) (ss_got s) vs (ss_parser s) (ss_pending s))"
  unfolding heard_def by fastforce

lemma heard_step:
  assumes "session_step s s'" "heard old s"
  shows "heard old s'"
  using assms
proof (cases rule: session_step.cases)
  case (received bs)
  from received(2) assms(2) obtain vs where
    v: "ss_log s = old @ vs" "understood (ReadBuffer (ss_batch s)) (ss_got s) vs (ss_parser s) (ss_pending s)"
      "ss_error s = None" by (auto simp: heard_working)
  have "agree (length (ss_got s)) (ss_got s) (ss_got s @ bs)" by (simp add: agree_def)
  from understood_agree [OF v(2) this received(3)] v(1,3) received show ?thesis by (auto simp: heard_working)
next
  case (parsed res rp pd)
  from parsed(2) assms(2) obtain vs where
    v: "ss_log s = old @ vs" "understood (ReadBuffer (ss_batch s)) (ss_got s) vs (ss_parser s) (ss_pending s)"
      "length (ss_got s) < 2147483648" "ss_error s = None"
    by (auto simp: heard_working)
  from understood.more [OF v(2) parsed(3) order_refl parsed(4) v(3)] v parsed show ?thesis
    by (auto simp: heard_working)
next
  case (replied rp pd v)
  from replied(2) assms(2) obtain vs where
    v: "ss_log s = old @ vs" "understood (ReadBuffer (ss_batch s)) (ss_got s) vs (ss_parser s) (ss_pending s)"
      "length (ss_got s) < 2147483648" "ss_error s = None"
    by (auto simp: heard_working)
  from understood.more [OF v(2) replied(3) order_refl replied(5) v(3)] v replied show ?thesis
    by (auto simp: heard_working)
next
  case (aborted t)
  from aborted(2) assms(2) obtain vs where
    v: "ss_log s = old @ vs" "understood (ReadBuffer (ss_batch s)) (ss_got s) vs (ss_parser s) (ss_pending s)"
      "length (ss_got s) < 2147483648"
    by (auto simp: heard_working)
  with aborted(1) show ?thesis unfolding heard_def error_replies_def
    by (intro conjI exI [of _ vs] exI [of _ "replicate (nat (ss_due s)) (error_reply (ss_batch s) (length t + 1), [])"]) auto
qed (auto simp: heard_working)

text \<open>Sending leaves what was received alone.\<close>

definition reads :: "world \<Rightarrow> nat \<Rightarrow> buffer option" where
  "reads w b = map_option bt_read_buffer (w_batches w b)"

lemma reads_simps [simp]:
  "reads (put_conn c cn w) = reads w" "reads (tick w) = reads w" "reads (set_errno e w) = reads w"
  "reads (w\<lparr>w_heap := h\<rparr>) = reads w" "reads (w\<lparr>w_exec := x\<rparr>) = reads w" "reads (w\<lparr>w_os := os\<rparr>) = reads w"
  by (simp_all add: reads_def fun_eq_iff put_conn_def)

lemma reads_put_batch:
  "w_batches w b = Some bt \<Longrightarrow> bt_read_buffer bt' = bt_read_buffer bt \<Longrightarrow> reads (put_batch b bt' w) = reads w"
  by (simp add: reads_def fun_eq_iff put_batch_def)

lemma get_batch_Inr: "get_batch b w = Inr bt \<longleftrightarrow> w_batches w b = Some bt"
  by (simp add: get_batch_def split: option.splits)

lemma abort_replies_reads: "abort_replies bt len h = Inr (bt', h') \<Longrightarrow> bt_read_buffer bt' = bt_read_buffer bt"
proof (induction bt len h rule: abort_replies.induct)
  case (1 bt len h)
  then show ?case
    by (subst (asm) abort_replies.simps)
      (fastforce simp: bindE_eq_Inr Batch_add_reply_def split: if_splits)
qed

lemma Connection_close_reads: "Connection_close c w = Inr w' \<Longrightarrow> reads w' = reads w"
  by (auto simp: Connection_close_def bindE_eq_Inr Let_def split: if_splits option.splits)

lemma Connection_abort_reads: "Connection_abort c t w = Inr w' \<Longrightarrow> reads w' = reads w"
  by (fastforce simp: Connection_abort_def Batch_abort_def bindE_eq_Inr Let_def get_batch_Inr reads_put_batch
      dest!: Connection_close_reads abort_replies_reads split: if_splits)

lemma notify_reads: "Executor_notify_event c ev i w = Inr w' \<Longrightarrow> reads w' = reads w"
  by (auto simp: Executor_notify_event_def bindE_eq_Inr Let_def split: if_splits prod.splits)

text \<open>What holds of the result of an operation, when it returns one.\<close>

definition post :: "('a \<Rightarrow> bool) \<Rightarrow> 'a res \<Rightarrow> bool" where
  "post P r \<longleftrightarrow> (\<forall>x. r = Inr x \<longrightarrow> P x)"

lemma post_simps [simp]: "post P (Inr x) \<longleftrightarrow> P x" "post P (Inl e)"
  by (simp_all add: post_def)

lemma post_bind [intro]: "(\<And>x. m = Inr x \<Longrightarrow> post P (f x)) \<Longrightarrow> post P (bindE m f)"
  by (cases m) simp_all

lemmas reads_calls = Connection_abort_reads notify_reads

lemma open_connection_reads: "post (\<lambda>(w', ret). reads w' = reads w) (open_connection K c i w)"
proof -
  have "post (\<lambda>(r, w'). reads w' = reads w) (Connection_create_socket K c w)"
    unfolding Connection_create_socket_def
    by (intro post_bind) (auto simp: Let_def intro!: post_bind dest!: reads_calls split: sum.split)
  then have "reads w1 = reads w" if "Connection_create_socket K c w = Inr (r, w1)" for r w1
    using that by (simp add: post_def)
  then show ?thesis unfolding open_connection_def
    by (intro post_bind) (auto simp: Let_def intro!: post_bind dest!: reads_calls split: sum.split)
qed

lemma check_connected_reads: "post (\<lambda>(w', ret). reads w' = reads w) (check_connected K c i w)"
  unfolding check_connected_def
  by (intro post_bind) (auto simp: Let_def intro!: post_bind dest!: reads_calls split: sum.split)

lemma write_turn_reads: "post (\<lambda>(w', m). reads w' = reads w) (write_turn K c i w)"
proof -
  have put: "reads (put_batch b (bt\<lparr>bt_write_buffer := wb\<rparr>) w) = reads w" if "w_batches w b = Some bt" for b bt wb
    by (rule reads_put_batch [OF that]) simp
  show ?thesis unfolding write_turn_def
    by (intro post_bind)
      (auto simp: Let_def get_batch_Inr put intro!: post_bind dest!: reads_calls split: sum.split option.split)
qed

lemma loopE_keeps:
  assumes turn: "\<And>s. post (\<lambda>(s', m). g s' = g s) (turn s)"
  shows "post (\<lambda>s'. g s' = g s) (loopE turn s)"
proof -
  have step: "g s' = g s" if "turn s = Inr (s', m)" for s s' m using turn [of s] that by simp
  have run: "turn = turn \<longrightarrow> (\<forall>s'. r = Inr s' \<longrightarrow> g s' = g s)" if "loop_opt turn s = Some r" for r
    using _ that
  proof (rule loop_opt.raw_induct [where P = "\<lambda>t s r. t = turn \<longrightarrow> (\<forall>s'. r = Inr s' \<longrightarrow> g s' = g s)"])
    fix lp t s r
    assume IH: "\<And>t s r. lp t s = Some r \<Longrightarrow> t = turn \<longrightarrow> (\<forall>s'. r = Inr s' \<longrightarrow> g s' = g s)"
      and r: "(case t s of Inl e \<Rightarrow> Some (Inl e) | Inr (s', m) \<Rightarrow> if m then lp t s' else Some (Inr s')) = Some r"
    show "t = turn \<longrightarrow> (\<forall>s'. r = Inr s' \<longrightarrow> g s' = g s)"
    proof (intro impI allI)
      fix s' assume t: "t = turn" and s': "r = Inr s'"
      obtain s1 m where t1: "turn s = Inr (s1, m)" using r t s' by (cases "turn s") auto
      note g = step [OF t1]
      show "g s' = g s"
      proof (cases m)
        case True
        then have "lp turn s1 = Some (Inr s')" using r t s' t1 by simp
        with IH g show ?thesis by metis
      next
        case False
        with r t s' t1 g show ?thesis by simp
      qed
    qed
  qed
  show ?thesis unfolding post_def loopE_def
  proof (intro allI impI)
    fix s' assume s': "(case loop_opt turn s of None \<Rightarrow> Inl Diverges | Some r \<Rightarrow> r) = Inr s'"
    then obtain r where r: "loop_opt turn s = Some r" by (cases "loop_opt turn s") simp_all
    with s' have "r = Inr s'" by simp
    with run [OF r] show "g s' = g s" by blast
  qed
qed

lemma start_reads:
  assumes "Connection_execute_start K c b i w = Inr w'"
  shows "reads w' = reads w"
proof -
  have loop: "loopE (write_turn K c i) w1 = Inr w2 \<Longrightarrow> reads w2 = reads w1" for w1 w2
  proof -
    have "post (\<lambda>w2. reads w2 = reads w1) (loopE (write_turn K c i) w1)" by (rule loopE_keeps) (rule write_turn_reads)
    then show "loopE (write_turn K c i) w1 = Inr w2 \<Longrightarrow> reads w2 = reads w1" by (simp add: post_def)
  qed
  have parts: "open_connection K c i w1 = Inr (w2, ret) \<Longrightarrow> reads w2 = reads w1"
    "check_connected K c i w1 = Inr (w2, ret) \<Longrightarrow> reads w2 = reads w1" for w1 w2 ret
    using open_connection_reads [where w = w1 and K = K and c = c and i = i]
      check_connected_reads [where w = w1 and K = K and c = c and i = i] by (simp_all add: post_def)
  have wr: "Connection_write_data K c i w1 = Inr w2 \<Longrightarrow> reads w2 = reads w1" for w1 w2
    by (auto simp: Connection_write_data_def bindE_eq_Inr dest!: loop parts split: if_splits)
  have put: "reads (put_batch b (bt\<lparr>bt_write_buffer := wb\<rparr>) w) = reads w" if "w_batches w b = Some bt" for bt wb w
    by (rule reads_put_batch [OF that]) simp
  show ?thesis using assms
    by (auto simp: Connection_execute_start_def bindE_eq_Inr Let_def get_batch_Inr put
        dest!: wr notify_reads split: if_splits)
qed

lemma understood_empty: "understood bref [] vs rp pd \<Longrightarrow> vs = [] \<and> rp = fresh_parser \<and> pd = None"
proof (induction rule: understood.induct)
  case (more vs rp pd len res rp' pd' out)
  then show ?case by (auto simp: pure_loop.simps fresh_parser_def)
qed simp

lemma reset_fresh: "bare (ReplyParser_reset rp) = fresh_parser" "pending_view (ReplyParser_reset rp) h L = None"
  by (simp_all add: ReplyParser_reset_def fresh_parser_def pending_view_def)

lemma start_heard:
  assumes "bf_position (bt_read_buffer bt) = 0" "bt_error bt = None"
  shows "heard (queue_views b (w_heap w) L) (session_of c b (put_batch b (started_batch bt) (put_conn c (started_conn b cn rp) w)) L)"
  using assms understood.nothing
  by (auto simp: heard_def session_of_def Let_def started_batch_def started_conn_def contents_def reset_fresh)

text \<open>
  C8: \<open>Connection_execute_start\<close> sends the commands of the batch and nothing else.  Unless the connection was
  aborted, the bytes that went over its socket followed by those still in the write buffer are what
  was sent before, if the connection was open, followed by the text of the commands, no reply has been added, and a batch with
  outstanding commands has asked to be woken, for sending too as long as something is
  unsent.  If it was aborted, what was added to the queue of the batch is an error reply for each of its commands, with the text
  of the abort, and no command is outstanding.
\<close>

theorem Connection_execute_start_sends:
  assumes "kernel_ok K f" "pair_state f N B i b c w L cn bt rp" "ready cn bt (ex_fds (w_exec w) ! i)"
  shows "\<exists>w' L' s. Connection_execute_start K c b i w = Inr w' \<and> reply_heap (w_heap w') B L' \<and>
    s = session_of c b w' L' \<and>
    int (length (ss_log s)) + max 0 (ss_due s) = int (length (L (RQueue b))) + max 0 (bt_num_commands bt) \<and>
    (ss_state s = CS_ABORTED \<and> ss_due s \<le> 0 \<and>
       (\<exists>t. ss_error s = Some (t @ [CHR 0x00]) \<and>
          ss_log s = queue_views b (w_heap w) L @ replicate (nat (bt_num_commands bt)) (error_reply b (length t + 1), [])) \<or>
     ss_state s \<noteq> CS_ABORTED \<and> ss_error s = None \<and> ss_log s = queue_views b (w_heap w) L \<and>
     ss_sent s @ ss_unsent s =
       (if cn_state cn = CS_CONNECTED then os_sent (w_os w) (cn_sockfd cn) else []) @ command_text bt \<and>
     (0 < ss_due s \<longrightarrow> ss_state s = CS_CONNECTING \<and> events_of i w' = {POLLOUT} \<or>
        ss_state s = CS_CONNECTED \<and> POLLIN \<in> events_of i w' \<and> (ss_unsent s \<noteq> [] \<longrightarrow> POLLOUT \<in> events_of i w')))"
proof -
  let ?w1 = "put_batch b (started_batch bt) (put_conn c (started_conn b cn rp) w)" and ?old = "queue_views b (w_heap w) L"
  from execute_start_ok [OF assms] obtain w' where
    r: "Connection_execute_start K c b i w = Inr w'" "settled f N B i b c ?w1 L w' rests" by blast
  from r(2) obtain L' cn' bt' rp' where s: "served i b c B ?w1 L w' L'" "pair_state f N B i b c w' L' cn' bt' rp'"
    "live B b w' L' cn' bt' rp' \<and> rests cn' bt' (ex_fds (w_exec w') ! i) \<or> dead cn' bt'" unfolding settled_def by blast
  define s' where "s' = session_of c b w' L'"
  have ss: "ss_state s' = cn_state cn'" "ss_due s' = bt_num_commands bt'" "ss_batch s' = b"
    "ss_unsent s' = unsent (bt_write_buffer bt')" "reply_heap (w_heap w') B L'" "ss_got s' = contents (bt_read_buffer bt')"
    using s(2) by (simp_all add: s'_def session_of_def pair_state_def)
  have run: "session_step\<^sup>*\<^sup>* (session_of c b ?w1 L) s'" using s(1) by (simp add: served_def s'_def)
  then have "session_kept (session_of c b ?w1 L) s'" by (rule session_keeps)
  moreover have "unsent (bt_write_buffer (started_batch bt)) = command_text bt"
    using Buffer_flip_ok assms(2) by (auto simp: started_batch_def command_text_def pair_state_def)
  ultimately have k: "int (length (ss_log s')) + max 0 (ss_due s') = int (length (L (RQueue b))) + max 0 (bt_num_commands bt)"
    "ss_state s' \<noteq> CS_ABORTED \<Longrightarrow> ss_sent s' @ ss_unsent s' =
       (if cn_state cn = CS_CONNECTED then os_sent (w_os w) (cn_sockfd cn) else []) @ command_text bt"
    using assms(3) by (auto simp: session_kept_def session_of_def queue_views_def Let_def started_conn_def started_batch_def ready_def)
  have p0: "bf_position (bt_read_buffer bt) = 0" "bt_error bt = None" using assms(3) by (simp_all add: ready_def)
  from run have h: "heard ?old s'" by induction (blast intro: heard_step start_heard [OF p0])+
  have "reads w' b = reads w b" using start_reads [OF r(1)] by simp
  then have "ss_got s' = []" using s(2) assms(2) p0(1) unfolding ss by (simp add: reads_def pair_state_def contents_def)
  with h have log: "if ss_state s' = CS_ABORTED
      then \<exists>t n. ss_error s' = Some (t @ [CHR 0x00]) \<and> ss_log s' = ?old @ replicate n (error_reply b (length t + 1), [])
      else ss_error s' = None \<and> ss_log s' = ?old"
    unfolding heard_def error_replies_def ss(3) by (fastforce dest!: understood_empty split: if_splits)
  have e: "ss_state s' = CS_ABORTED \<and> ss_due s' \<le> 0 \<or> ss_state s' \<noteq> CS_ABORTED \<and>
      (0 < ss_due s' \<longrightarrow> ss_state s' = CS_CONNECTING \<and> events_of i w' = {POLLOUT} \<or>
        ss_state s' = CS_CONNECTED \<and> POLLIN \<in> events_of i w' \<and> (ss_unsent s' \<noteq> [] \<longrightarrow> POLLOUT \<in> events_of i w'))"
    using s(3) unfolding ss by (auto simp: rests_def dead_def live_def events_of_def)
  have "\<exists>t. ss_error s' = Some (t @ [CHR 0x00]) \<and>
      ss_log s' = ?old @ replicate (nat (bt_num_commands bt)) (error_reply b (length t + 1), [])"
    if a: "ss_state s' = CS_ABORTED" "ss_due s' \<le> 0"
  proof -
    from log a(1) obtain t n where t: "ss_error s' = Some (t @ [CHR 0x00])"
      "ss_log s' = ?old @ replicate n (error_reply b (length t + 1), [])" by auto
    then have "int n = max 0 (bt_num_commands bt)" using k(1) a(2) by (simp add: queue_views_def)
    then have "n = nat (bt_num_commands bt)" by simp
    with t show ?thesis by blast
  qed
  with r(1) ss(5) k e log show ?thesis
    by (intro exI [of _ w'] exI [of _ L'] exI [of _ s'] conjI s'_def) (auto split: if_splits)
qed

theorem Connection_execute_start_sends_witness:
  "\<exists>w w' L' s. Connection_execute_start demo_kernel 0 0 0 w = Inr w' \<and> s = session_of 0 0 w' L' \<and>
    (ss_state s = CS_ABORTED \<and> length (ss_log s) = 2 \<or> ss_sent s @ ss_unsent s = ''x'' \<and> ss_log s = []) \<and>
    int (length (ss_log s)) + max 0 (ss_due s) = 2"
proof -
  from demo_pair obtain bt h where
    d: "pair_state demo_traffic (\<lambda>_. 2) {0} 0 0 0 (demo_world bt h) demo_lists fresh_conn bt fresh_parser"
    "ready fresh_conn bt (ex_fds (w_exec (demo_world bt h)) ! 0)" "bt_num_commands bt = 2" "command_text bt = ''x''" by blast
  have n: "cn_state fresh_conn \<noteq> CS_CONNECTED" by (simp add: fresh_conn_def)
  have q: "queue_views 0 (w_heap (demo_world bt h)) demo_lists = []" by (simp add: queue_views_def)
  from Connection_execute_start_sends [OF demo_kernel_ok d(1,2)] obtain w' L' s where
    r: "Connection_execute_start demo_kernel 0 0 0 (demo_world bt h) = Inr w'" "s = session_of 0 0 w' L'"
    "int (length (ss_log s)) + max 0 (ss_due s) = int (length (demo_lists (RQueue 0))) + max 0 (bt_num_commands bt)"
    "ss_state s = CS_ABORTED \<and> ss_due s \<le> 0 \<or> ss_log s = queue_views 0 (w_heap (demo_world bt h)) demo_lists \<and> ss_sent s @ ss_unsent s =
       (if cn_state fresh_conn = CS_CONNECTED then os_sent (w_os (demo_world bt h)) (cn_sockfd fresh_conn) else []) @ command_text bt"
    by blast
  then show ?thesis using d(3,4) n q
    by (intro exI [of _ "demo_world bt h"] exI [of _ w'] exI [of _ L'] exI [of _ s]) auto
qed


section \<open>Aborting\<close>

text \<open>
  C20: \<open>Connection_abort\<close> gives everything back.  The batch gets the message, with the address, in
  its error buffer and an error reply for each outstanding command; the socket is closed, the
  address list freed, the connection forgets its batch and executor and is aborted.  The poll
  entry is not touched: the executor still asks for the events of the closed descriptor.
\<close>

theorem Connection_abort_releases:
  assumes "working f N B i b c w L cn bt rp"
  shows "\<exists>e rs w' L'. Connection_abort c t w = Inr w' \<and> reply_heap (w_heap w') B L' \<and>
    w_conns w' = (w_conns w)(c \<mapsto> cn\<lparr>cn_state := CS_ABORTED, cn_batch := None, cn_executor := False,
      cn_addrinfo := None, cn_sockfd := (if 0 < cn_sockfd cn then 0 else cn_sockfd cn)\<rparr>) \<and>
    w_batches w' = (w_batches w)(b \<mapsto> bt\<lparr>bt_error := Some e, bt_num_commands := min 0 (bt_num_commands bt)\<rparr>) \<and>
    contents e = abort_text t cn @ [CHR 0x00] \<and>
    length rs = nat (bt_num_commands bt) \<and> L' (RQueue b) = L (RQueue b) @ map RLink rs \<and>
    (\<forall>r \<in> set rs. rh_replies (w_heap w') r = Some \<lparr>rep_type = RT_ERROR, rep_buffer = Some (ErrorBuffer b),
       rep_offset = 0, rep_len = length (abort_text t cn) + 1\<rparr>) \<and>
    os_open (w_os w') = os_open (w_os w) - {fd. fd = cn_sockfd cn \<and> 0 < fd} \<and>
    os_addrs (w_os w') = os_addrs (w_os w) - set_option (cn_addrinfo cn) \<and> w_exec w' = w_exec w"
proof -
  from abort_exact [OF assms, of t] obtain e rs h' L' where
    a: "Connection_abort c t w = Inr (aborted_world b c cn bt e h' w)" "contents e = abort_text t cn @ [CHR 0x00]"
    "reply_heap h' B L'" "length rs = nat (bt_num_commands bt)" "L' (RQueue b) = L (RQueue b) @ map RLink rs"
    "\<forall>r \<in> set rs. rh_replies (w_heap w) r = None \<and> rh_replies h' r = Some (error_reply b (length (abort_text t cn) + 1))"
    by blast
  let ?w' = "aborted_world b c cn bt e h' w"
  have "w_conns ?w' = (w_conns w)(c \<mapsto> cn\<lparr>cn_state := CS_ABORTED, cn_batch := None, cn_executor := False,
      cn_addrinfo := None, cn_sockfd := (if 0 < cn_sockfd cn then 0 else cn_sockfd cn)\<rparr>)"
    by (cases cn) (simp add: aborted_world_def closed_def)
  moreover have "os_open (w_os ?w') = os_open (w_os w) - {fd. fd = cn_sockfd cn \<and> 0 < fd}"
    by (auto simp: aborted_world_def released_def)
  ultimately show ?thesis using a
    by (intro exI [of _ e] exI [of _ rs] exI [of _ ?w'] exI [of _ L'])
      (simp add: aborted_world_def released_def error_reply_def)
qed

theorem Connection_abort_releases_witness:
  "\<exists>w w' (L' :: rnode \<Rightarrow> rnode list). Connection_abort 0 ''read eof'' w = Inr w' \<and> 3 \<in> os_open (w_os w) \<and> 3 \<notin> os_open (w_os w') \<and>
    length (L' (RQueue 0)) = 2 \<and> map_option cn_state (w_conns w' 0) = Some CS_ABORTED"
proof -
  from demo_working obtain bt h where
    d: "working demo_traffic (\<lambda>_. 2) {0} 0 0 0 (open_world bt h) demo_lists open_conn bt fresh_parser"
    "bt_num_commands bt = 2" by blast
  from Connection_abort_releases [OF d(1), of "''read eof''"] obtain rs w' L' where
    "Connection_abort 0 ''read eof'' (open_world bt h) = Inr w'" "length rs = nat (bt_num_commands bt)"
    "L' (RQueue 0) = demo_lists (RQueue 0) @ map RLink rs"
    "os_open (w_os w') = os_open (w_os (open_world bt h)) - {fd. fd = cn_sockfd open_conn \<and> 0 < fd}"
    "w_conns w' = (w_conns (open_world bt h))(0 \<mapsto> open_conn\<lparr>cn_state := CS_ABORTED, cn_batch := None, cn_executor := False,
      cn_addrinfo := None, cn_sockfd := (if 0 < cn_sockfd open_conn then 0 else cn_sockfd open_conn)\<rparr>)" by blast
  moreover have "3 \<in> os_open (w_os (open_world bt h))" by (simp add: open_world_def)
  moreover have "cn_sockfd open_conn = 3" by (simp add: open_conn_def)
  ultimately show ?thesis using d(2) by (intro exI [of _ "open_world bt h"] exI [of _ w'] exI [of _ L']) simp
qed


section \<open>The address\<close>

lemma split_address_port:
  assumes "CHR '':'' \<notin> set host" "length host < 2147483647"
  shows "split_address a s (host @ CHR '':'' # serv) =
    (if length host < 255 then (host, take 19 serv, 20 < length serv) else (a, s, True))"
proof -
  have c: "strchr (host @ CHR '':'' # serv) (CHR '':'') = Some (CHR '':'' # serv)"
    using assms(1) by (induction host) auto
  have w: "wrap32 (int (length (host @ CHR '':'' # serv)) - int (length (CHR '':'' # serv)) + 1) = int (length host) + 1"
    using assms(2) by (simp add: wrap32_id)
  show ?thesis unfolding split_address_def c using assms(2)
    by (simp only: option.case w Let_def) (auto simp: snprintf_text_def ADDR_SIZE_def SERV_SIZE_def nat_add_distrib)
qed

lemma split_address_default:
  assumes "CHR '':'' \<notin> set host"
  shows "split_address a s host =
    (if length host \<le> 255 then (take 254 host, ''6379'', False) else (take 254 host, s, True))"
  using assms by (simp add: split_address_def strchr_None [THEN iffD2] snprintf_text_def ADDR_SIZE_def SERV_SIZE_def Let_def)

lemma ReplyParser_new_ok:
  assumes "allocator_ok m"
  shows "\<exists>m'. ReplyParser_new raw m = Inr (Some (ReplyParser_reset raw), m') \<and> allocator_ok m' \<and>
    charged m m' (int sizeof_ReplyParser) \<and> module.more m' = module.more m"
  using Alloc_alloc_ok [OF assms, of sizeof_ReplyParser] by (auto simp: ReplyParser_new_def)

lemma Connection_free_ok:
  assumes al: "allocator_ok (w_heap w)" and cn: "w_conns w c = Some cn" "cn_parser cn \<noteq> None"
    and ad: "\<forall>a. cn_addrinfo cn = Some a \<longrightarrow> a \<in> os_addrs (w_os w)"
  shows "\<exists>h'. Connection_free (Some c) w =
      Inr (w\<lparr>w_heap := h', w_conns := (w_conns w)(c := None), w_os := released cn (w_os w)\<rparr>) \<and>
    allocator_ok h' \<and> charged (w_heap w) h' (- int sizeof_ReplyParser - int sizeof_Connection) \<and>
    module.more h' = module.more (w_heap w)"
proof -
  have gc: "get_conn c w = Inr cn" using cn(1) by simp
  from Alloc_free_ok [OF al, of sizeof_ReplyParser] obtain h1 where
    h1: "Alloc_free sizeof_ReplyParser (w_heap w) = Inr h1" "allocator_ok h1"
    "charged (w_heap w) h1 (- int sizeof_ReplyParser)" "module.more h1 = module.more (w_heap w)" by blast
  from Alloc_free_ok [OF h1(2), of sizeof_Connection] obtain h2 where
    h2: "Alloc_free sizeof_Connection h1 = Inr h2" "allocator_ok h2" "charged h1 h2 (- int sizeof_Connection)"
    "module.more h2 = module.more h1" by blast
  have "Connection_close c (w\<lparr>w_heap := h1\<rparr>) = Inr (put_conn c (closed cn) (w\<lparr>w_heap := h1, w_os := released cn (w_os w)\<rparr>))"
    using Connection_close_ok [of c "w\<lparr>w_heap := h1\<rparr>" cn] cn(1) ad by simp
  then have "Connection_free (Some c) w = Inr ((put_conn c (closed cn) (w\<lparr>w_heap := h1, w_os := released cn (w_os w)\<rparr>))
      \<lparr>w_heap := h2, w_conns := (w_conns (put_conn c (closed cn) (w\<lparr>w_heap := h1, w_os := released cn (w_os w)\<rparr>)))(c := None)\<rparr>)"
    unfolding Connection_free_def option.case gc using cn(2) h1(1) h2(1) by (auto simp: ReplyParser_free_def)
  then have "Connection_free (Some c) w =
      Inr (w\<lparr>w_heap := h2, w_conns := (w_conns w)(c := None), w_os := released cn (w_os w)\<rparr>)"
    by (cases w) (simp add: put_conn_def)
  with h1(4) h2 charged_trans [OF h1(3) h2(3)] show ?thesis by auto
qed

text \<open>A new connection up to the copy of the address, which may be refused.\<close>

definition blank :: "rparser \<Rightarrow> connection \<Rightarrow> connection" where
  "blank praw raw = raw\<lparr>cn_state := CS_CLOSED, cn_batch := None, cn_executor := False, cn_parser := Some (ReplyParser_reset praw)\<rparr>"

lemma Connection_new_ok:
  assumes al: "allocator_ok (w_heap w)" and sp: "split_address (cn_addr raw) (cn_serv raw) in_addr = (addr, serv, bad)"
  shows "\<exists>h2. allocator_ok h2 \<and> charged (w_heap w) h2 (int sizeof_Connection + int sizeof_ReplyParser) \<and>
    module.more h2 = module.more (w_heap w) \<and>
    Connection_new c raw praw in_addr w =
      (if bad then bindE (Connection_free (Some c) (put_conn c ((blank praw raw)\<lparr>cn_addr := addr, cn_serv := serv\<rparr>)
         (w\<lparr>w_heap := Module_set_error ''Invalid address for Connection'' h2\<rparr>))) (\<lambda>w4. Inr (None, w4))
       else Inr (Some c, put_conn c ((blank praw raw)\<lparr>cn_addr := addr, cn_serv := serv, cn_addrinfo := None, cn_sockfd := 0\<rparr>)
         (w\<lparr>w_heap := h2\<rparr>)))"
proof -
  from Alloc_alloc_ok [OF al, of sizeof_Connection] obtain blk h1 where
    h1: "Alloc_alloc sizeof_Connection (w_heap w) = Inr (Some blk, h1)" "allocator_ok h1"
    "charged (w_heap w) h1 (int sizeof_Connection)" "module.more h1 = module.more (w_heap w)" by blast
  from ReplyParser_new_ok [OF h1(2), of praw] obtain h2 where
    h2: "ReplyParser_new praw h1 = Inr (Some (ReplyParser_reset praw), h2)" "allocator_ok h2"
    "charged h1 h2 (int sizeof_ReplyParser)" "module.more h2 = module.more h1" by blast
  let ?cn = "(blank praw raw)\<lparr>cn_addr := addr, cn_serv := serv\<rparr>"
  have cn: "raw\<lparr>cn_state := CS_CLOSED, cn_batch := None, cn_executor := False, cn_parser := Some (ReplyParser_reset praw)\<rparr>
      \<lparr>cn_addr := addr, cn_serv := serv\<rparr> = ?cn"
    by (simp add: blank_def)
  have hp: "(put_conn c cn1 (w\<lparr>w_heap := h\<rparr>))\<lparr>w_heap := h'\<rparr> = put_conn c cn1 (w\<lparr>w_heap := h'\<rparr>)" for cn1 h h'
    by (cases w) (simp add: put_conn_def)
  have "Connection_new c raw praw in_addr w =
      (if bad then bindE (Connection_free (Some c) (put_conn c ?cn
         (w\<lparr>w_heap := Module_set_error ''Invalid address for Connection'' h2\<rparr>))) (\<lambda>w4. Inr (None, w4))
       else Inr (Some c, put_conn c (?cn\<lparr>cn_addrinfo := None, cn_sockfd := 0\<rparr>) (w\<lparr>w_heap := h2\<rparr>)))"
    unfolding Connection_new_def Let_def using h1(1) h2(1) sp by (simp add: cn hp)
  with h1(4) h2 charged_trans [OF h1(3) h2(3)] show ?thesis by auto
qed

lemma Module_set_error_ok:
  "allocator_ok (Module_set_error e m) = allocator_ok m" "module.more (Module_set_error e m) = module.more m"
  "charged (Module_set_error e m) m' d = charged m m' d"
  by (simp_all add: Module_set_error_def allocator_ok_def charged_def)

text \<open>
  C21: \<open>Connection_new\<close> takes an address apart.  From \<open>host:port\<close>, or \<open>host\<close> with the default port
  6379, a closed connection is made whose address and service are exactly the two parts, without a
  socket or an address list; nothing else of the world changes but the heap, and \<open>Connection_free\<close> undoes it:
  the connection is gone and as many bytes are allocated as before.
\<close>

theorem Connection_new_takes_address:
  assumes "allocator_ok (w_heap w)" "CHR '':'' \<notin> set host" "length host < 255" "length serv < 20"
    "in_addr = host @ '':'' @ serv \<or> in_addr = host \<and> serv = ''6379''" "w_conns w c = None"
  shows "\<exists>cn w' w''. Connection_new c raw praw in_addr w = Inr (Some c, w') \<and>
    w_conns w' = (w_conns w)(c \<mapsto> cn) \<and> cn_addr cn = host \<and> cn_serv cn = serv \<and> cn_state cn = CS_CLOSED \<and>
    cn_sockfd cn = 0 \<and> cn_addrinfo cn = None \<and> cn_batch cn = None \<and> cn_parser cn = Some (ReplyParser_reset praw) \<and>
    w_batches w' = w_batches w \<and> w_exec w' = w_exec w \<and> w_os w' = w_os w \<and>
    Connection_free (Some c) w' = Inr w'' \<and> w_conns w'' = w_conns w \<and> w_os w'' = w_os w \<and>
    allocated (w_heap w'') = allocated (w_heap w)"
proof -
  have sp: "split_address (cn_addr raw) (cn_serv raw) in_addr = (host, serv, False)"
    using assms(2-5) by (auto simp: split_address_port split_address_default)
  let ?cn = "(blank praw raw)\<lparr>cn_addr := host, cn_serv := serv, cn_addrinfo := None, cn_sockfd := 0\<rparr>"
  from Connection_new_ok [OF assms(1) sp, of c praw] obtain h2 where
    n: "allocator_ok h2" "charged (w_heap w) h2 (int sizeof_Connection + int sizeof_ReplyParser)"
    "Connection_new c raw praw in_addr w = Inr (Some c, put_conn c ?cn (w\<lparr>w_heap := h2\<rparr>))" by auto
  let ?w' = "put_conn c ?cn (w\<lparr>w_heap := h2\<rparr>)"
  from Connection_free_ok [of ?w' c ?cn] n(1) obtain h3 where
    f: "Connection_free (Some c) ?w' = Inr (?w'\<lparr>w_heap := h3, w_conns := (w_conns ?w')(c := None), w_os := released ?cn (w_os ?w')\<rparr>)"
    "allocator_ok h3" "charged h2 h3 (- int sizeof_ReplyParser - int sizeof_Connection)"
    by (auto simp: blank_def)
  have "charged (w_heap w) h3 0" using charged_trans [OF n(2) f(3)] by simp
  then have a: "allocated h3 = allocated (w_heap w)"
    by (rule charged_zero_eq) (use assms(1) f(2) in \<open>simp_all add: allocator_ok_def\<close>)
  have "released ?cn (w_os w) = w_os w" by (cases "w_os w") (simp add: released_def)
  then have os: "w_os (?w'\<lparr>w_heap := h3, w_conns := (w_conns ?w')(c := None), w_os := released ?cn (w_os ?w')\<rparr>) = w_os w"
    by simp
  have conns: "w_conns (?w'\<lparr>w_heap := h3, w_conns := (w_conns ?w')(c := None), w_os := released ?cn (w_os ?w')\<rparr>) = w_conns w"
    using assms(6) by auto
  show ?thesis
  proof (rule exI [of _ ?cn], intro exI conjI)
    show "Connection_new c raw praw in_addr w = Inr (Some c, ?w')" by (rule n(3))
    show "Connection_free (Some c) ?w' = Inr (?w'\<lparr>w_heap := h3, w_conns := (w_conns ?w')(c := None), w_os := released ?cn (w_os ?w')\<rparr>)"
      by (rule f(1))
  qed (use a os conns in \<open>simp_all add: blank_def\<close>)
qed

lemma demo_alloc: "\<exists>w :: world. allocator_ok (w_heap w) \<and> w_conns w 0 = None \<and> 7 \<in> os_open (w_os w) \<and> os_addrs (w_os w) = {}"
proof -
  from demo_batch obtain bt h where "batch_ok bt h {0} demo_lists" by blast
  then show ?thesis
    by (intro exI [of _ "(demo_world bt h)\<lparr>w_conns := Map.empty, w_os := (w_os (demo_world bt h))\<lparr>os_open := {7}\<rparr>\<rparr>"])
      (simp add: batch_ok_def reply_heap_def demo_world_def)
qed

theorem Connection_new_takes_address_witness:
  "\<exists>w w' cn. Connection_new 0 fresh_conn fresh_parser ''localhost:6380'' w = Inr (Some 0, w') \<and>
    w_conns w' 0 = Some cn \<and> cn_addr cn = ''localhost'' \<and> cn_serv cn = ''6380''"
proof -
  from demo_alloc obtain w :: world where "allocator_ok (w_heap w)" "w_conns w 0 = None" by auto
  from Connection_new_takes_address [OF this(1) _ _ _ _ this(2), of "''localhost''" "''6380''" "''localhost:6380''" fresh_conn fresh_parser]
  obtain cn w' where "Connection_new 0 fresh_conn fresh_parser ''localhost:6380'' w = Inr (Some 0, w')"
    "w_conns w' = (w_conns w)(0 \<mapsto> cn)" "cn_addr cn = ''localhost''" "cn_serv cn = ''6380''" by auto
  then show ?thesis by (intro exI [of _ w] exI [of _ w'] exI [of _ cn]) simp
qed

text \<open>
  C34: addresses that are one byte too long are cut without an error.  The checks compare the
  length that was needed with the size of the field and not with one less, so that a service of 20 characters
  after a colon, and a host of 255 characters without one, lose their last character.
\<close>

theorem Connection_new_truncates:
  assumes "allocator_ok (w_heap w)" "CHR '':'' \<notin> set host"
    "length host < 255 \<and> length serv = 20 \<and> in_addr = host @ '':'' @ serv \<or> length host = 255 \<and> in_addr = host"
  shows "\<exists>cn w'. Connection_new c raw praw in_addr w = Inr (Some c, w') \<and> w_conns w' c = Some cn \<and>
    cn_addr cn @ '':'' @ cn_serv cn =
      (if length host = 255 then butlast host @ '':6379'' else host @ '':'' @ butlast serv)"
proof -
  have sp: "split_address (cn_addr raw) (cn_serv raw) in_addr =
      (if length host = 255 then (butlast host, ''6379'', False) else (host, butlast serv, False))"
    using assms(2,3) by (auto simp: split_address_port split_address_default butlast_conv_take)
  show ?thesis
  proof (cases "length host = 255")
    case True
    with Connection_new_ok [OF assms(1), of raw in_addr "butlast host" "''6379''" False c praw] sp obtain h2 where
      "Connection_new c raw praw in_addr w = Inr (Some c, put_conn c ((blank praw raw)\<lparr>cn_addr := butlast host,
         cn_serv := ''6379'', cn_addrinfo := None, cn_sockfd := 0\<rparr>) (w\<lparr>w_heap := h2\<rparr>))" by auto
    then show ?thesis using True by auto
  next
    case False
    with Connection_new_ok [OF assms(1), of raw in_addr host "butlast serv" False c praw] sp obtain h2 where
      "Connection_new c raw praw in_addr w = Inr (Some c, put_conn c ((blank praw raw)\<lparr>cn_addr := host,
         cn_serv := butlast serv, cn_addrinfo := None, cn_sockfd := 0\<rparr>) (w\<lparr>w_heap := h2\<rparr>))" by auto
    then show ?thesis using False by auto
  qed
qed

theorem Connection_new_truncates_witness:
  "\<exists>w w' cn. Connection_new 0 fresh_conn fresh_parser ''localhost:12345678901234567890'' w = Inr (Some 0, w') \<and>
    w_conns w' 0 = Some cn \<and> cn_addr cn @ '':'' @ cn_serv cn = ''localhost:1234567890123456789''"
proof -
  from demo_alloc obtain w :: world where "allocator_ok (w_heap w)" by auto
  from Connection_new_truncates [OF this, of "''localhost''" "''12345678901234567890''" "''localhost:12345678901234567890''" 0 fresh_conn fresh_parser]
  show ?thesis by auto
qed

text \<open>
  C35: an address that is refused frees memory that was never set.  \<open>Connection_free\<close> then runs before \<open>addrinfo\<close>
  and \<open>sockfd\<close> are initialised, so that what happens depends on what the fresh block holds in these
  fields.  If \<open>addrinfo\<close> holds anything but null or a live address list, the call is undefined behaviour; otherwise
  no connection is made, a live list it holds is freed, whoever owns it, and so is the descriptor in \<open>sockfd\<close> closed
  when it is positive.
\<close>

theorem Connection_new_invalid_frees_garbage:
  assumes "allocator_ok (w_heap w)" "split_address (cn_addr raw) (cn_serv raw) in_addr = (addr, serv, True)"
  shows "if \<exists>a. cn_addrinfo raw = Some a \<and> a \<notin> os_addrs (w_os w)
    then Connection_new c raw praw in_addr w = Inl Undefined
    else \<exists>w'. Connection_new c raw praw in_addr w = Inr (None, w') \<and> w_conns w' = (w_conns w)(c := None) \<and>
      os_addrs (w_os w') = os_addrs (w_os w) - set_option (cn_addrinfo raw) \<and>
      os_open (w_os w') = os_open (w_os w) - {fd. fd = cn_sockfd raw \<and> 0 < fd}"
proof -
  let ?cn = "(blank praw raw)\<lparr>cn_addr := addr, cn_serv := serv\<rparr>"
  from Connection_new_ok [OF assms, of c praw] obtain h2 where
    n: "allocator_ok h2" "Connection_new c raw praw in_addr w =
      bindE (Connection_free (Some c) (put_conn c ?cn (w\<lparr>w_heap := Module_set_error ''Invalid address for Connection'' h2\<rparr>)))
        (\<lambda>w4. Inr (None, w4))" by auto
  let ?w = "put_conn c ?cn (w\<lparr>w_heap := Module_set_error ''Invalid address for Connection'' h2\<rparr>)"
  have cn: "cn_parser ?cn \<noteq> None" "cn_addrinfo ?cn = cn_addrinfo raw" "cn_sockfd ?cn = cn_sockfd raw"
    by (simp_all add: blank_def)
  show ?thesis
  proof (cases "\<exists>a. cn_addrinfo raw = Some a \<and> a \<notin> os_addrs (w_os w)")
    case True
    then obtain a where a: "cn_addrinfo raw = Some a" "a \<notin> os_addrs (w_os w)" by blast
    from Alloc_free_ok n(1) obtain h3 where
      h3: "Alloc_free sizeof_ReplyParser (Module_set_error ''Invalid address for Connection'' h2) = Inr h3"
      by (metis Module_set_error_ok(1))
    have gc: "get_conn c ?w = Inr ?cn" "get_conn c (?w\<lparr>w_heap := h3\<rparr>) = Inr ?cn" by simp_all
    have "Connection_close c (?w\<lparr>w_heap := h3\<rparr>) = Inl Undefined"
      unfolding Connection_close_def gc using a cn by (simp add: Let_def)
    then have "Connection_free (Some c) ?w = Inl Undefined"
      unfolding Connection_free_def option.case gc using cn(1) h3 by (auto simp: ReplyParser_free_def)
    with n(2) have "Connection_new c raw praw in_addr w = Inl Undefined" by simp
    with True show ?thesis by (simp only: if_True)
  next
    case False
    from Connection_free_ok [of ?w c ?cn] n(1) cn False obtain h3 where
      "Connection_free (Some c) ?w = Inr (?w\<lparr>w_heap := h3, w_conns := (w_conns ?w)(c := None), w_os := released ?cn (w_os ?w)\<rparr>)"
      by (auto simp: Module_set_error_ok)
    with n(2) have "Connection_new c raw praw in_addr w =
        Inr (None, ?w\<lparr>w_heap := h3, w_conns := (w_conns ?w)(c := None), w_os := released ?cn (w_os ?w)\<rparr>)" by simp
    moreover have "os_open (released ?cn (w_os ?w)) = os_open (w_os w) - {fd. fd = cn_sockfd raw \<and> 0 < fd}"
      "os_addrs (released ?cn (w_os ?w)) = os_addrs (w_os w) - set_option (cn_addrinfo raw)"
      using cn(2,3) by (auto simp: released_def)
    ultimately show ?thesis unfolding if_not_P [OF False]
      by (intro exI [of _ "?w\<lparr>w_heap := h3, w_conns := (w_conns ?w)(c := None), w_os := released ?cn (w_os ?w)\<rparr>"]) (simp add: put_conn_def)
  qed
qed

text \<open>A host of 255 characters before a colon is refused; the block holds descriptor 7, or a list that does not exist.\<close>

theorem Connection_new_invalid_frees_garbage_witness:
  "\<exists>w w' raw raw2. Connection_new 0 raw fresh_parser (replicate 255 (CHR ''h'') @ '':1'') w = Inr (None, w') \<and>
    7 \<in> os_open (w_os w) \<and> 7 \<notin> os_open (w_os w') \<and>
    Connection_new 0 raw2 fresh_parser (replicate 255 (CHR ''h'') @ '':1'') w = Inl Undefined"
proof -
  from demo_alloc obtain w :: world where w: "allocator_ok (w_heap w)" "7 \<in> os_open (w_os w)" "os_addrs (w_os w) = {}" by auto
  let ?in = "replicate 255 (CHR ''h'') @ '':1''"
  have sp: "split_address (cn_addr raw) (cn_serv raw) ?in = (cn_addr raw, cn_serv raw, True)" for raw
    using split_address_port [of "replicate 255 (CHR ''h'')" "cn_addr raw" "cn_serv raw" "''1''"] by simp
  let ?raw = "fresh_conn\<lparr>cn_sockfd := 7\<rparr>" and ?raw2 = "fresh_conn\<lparr>cn_addrinfo := Some 3\<rparr>"
  have a: "\<not> (\<exists>a. cn_addrinfo ?raw = Some a \<and> a \<notin> os_addrs (w_os w))" "\<exists>a. cn_addrinfo ?raw2 = Some a \<and> a \<notin> os_addrs (w_os w)"
    using w(3) by (simp_all add: fresh_conn_def)
  from Connection_new_invalid_frees_garbage [OF w(1) sp [of ?raw], of 0 fresh_parser, unfolded if_not_P [OF a(1)]]
  obtain w' where "Connection_new 0 ?raw fresh_parser ?in w = Inr (None, w')"
    "os_open (w_os w') = os_open (w_os w) - {fd. fd = 7 \<and> 0 < fd}" by auto
  moreover from Connection_new_invalid_frees_garbage [OF w(1) sp [of ?raw2], of 0 fresh_parser, unfolded if_P [OF a(2)]]
  have "Connection_new 0 ?raw2 fresh_parser ?in w = Inl Undefined" .
  ultimately show ?thesis using w(2) by (intro exI [of _ w] exI [of _ w'] exI [of _ ?raw] exI [of _ ?raw2]) simp
qed

end
