(* ===== verification/Executor_Props.thy ===== *)
theory Executor_Props
  imports Executor Connection_Props
begin

text \<open>
  The properties of connections and the executor of \<open>libredis/connection.c\<close>, each with a concrete
  instance: one batch of two commands on a connection to a server that answers the first and then
  falls silent.
\<close>


section \<open>A small world\<close>

lemma demo_clock_ok: "clock_ok demo_kernel" "time_passes demo_kernel 0 1000" "timeout_ok 1000"
proof -
  have m: "clock_ms demo_kernel n = of_nat (min n 1000000) * 1000" for n
    by (simp add: clock_ms_def demo_kernel_def)
  have "clock_ms demo_kernel i \<le> clock_ms demo_kernel j" if "i \<le> j" for i j
    unfolding m by (intro mult_right_mono) (use that in auto)
  then show "clock_ok demo_kernel" by (auto simp: clock_ok_def demo_kernel_def)
  have "clock_ms demo_kernel 0 + of_int (max 0 1000) + 200 \<le> clock_ms demo_kernel n" if "2 \<le> n" for n
  proof -
    have "(2::rat) \<le> of_nat (min n 1000000)" using that by simp
    then show ?thesis unfolding m by simp
  qed
  then show "time_passes demo_kernel 0 1000" unfolding time_passes_def by blast
  show "timeout_ok 1000" by (simp add: timeout_ok_def)
qed

lemma demo_ready:
  assumes b: "bt_id bt = 0" "batch_ok bt h {0} L" "bt_error bt = None" "contents (bt_read_buffer bt) = []"
    "bf_capacity (bt_read_buffer bt) = 12288" "rh_replies h = (\<lambda>_. None)" "bt_num_commands bt = 2"
  shows "executor_ready demo_traffic {0} (demo_world bt h) L" "tables_full_size (demo_world bt h)"
    "addable demo_traffic {0} (demo_world bt h) L 0 0" "ex_numpairs (w_exec (demo_world bt h)) < MAX_PAIRS"
proof -
  have "bf_position (bt_read_buffer bt) = 0"
    using b(2,4) length_contents [of "bt_read_buffer bt"] by (simp add: batch_ok_def writable_def)
  then show "addable demo_traffic {0} (demo_world bt h) L 0 0"
    using b unfolding addable_def demo_world_def
    by (intro conjI exI [of _ fresh_conn] exI [of _ bt] exI [of _ fresh_parser])
      (auto simp: pair_state_def fresh_conn_def MAX_PAIRS_def batch_ok_def writable_def replies_due_def replies_ok_def)
  show "executor_ready demo_traffic {0} (demo_world bt h) L" "tables_full_size (demo_world bt h)"
    "ex_numpairs (w_exec (demo_world bt h)) < MAX_PAIRS"
    by (simp_all add: executor_ready_def all_pairs_def table_ok_def bystanders_def queues_kept_def demo_world_def tables_full_size_def MAX_PAIRS_def)
qed

lemma demo_added:
  "\<exists>bt w. executor_ready demo_traffic {0} w demo_lists \<and> time_passes demo_kernel (calls w) 1000 \<and>
    ex_numpairs (w_exec w) = 1 \<and> pair_at 0 w = (0, 0) \<and> w_batches w = [0 \<mapsto> bt] \<and> bt_num_commands bt = 2"
proof -
  from demo_batch obtain bt h where b: "bt_id bt = 0" "batch_ok bt h {0} demo_lists" "bt_error bt = None"
    "contents (bt_read_buffer bt) = []" "bf_capacity (bt_read_buffer bt) = 12288" "rh_replies h = (\<lambda>_. None)"
    "bt_num_commands bt = 2" by blast
  note d = demo_ready [OF b]
  from Executor_add_ok [OF d(1,2,4,3)] obtain w where
    w: "Executor_add 0 0 (demo_world bt h) = Inr (0, w)" "executor_ready demo_traffic {0} w demo_lists"
    "ex_numpairs (w_exec w) = 1" "pair_at 0 w = (0, 0)" by (auto simp: demo_world_def)
  from w(1) have ww: "w_batches w = [0 \<mapsto> bt]" "calls w = 0"
    by (auto simp: Executor_add_def demo_world_def Let_def MAX_PAIRS_def bindE_eq_Inr calls_def split: if_splits)
  with demo_clock_ok(2) w b(7) show ?thesis by (intro exI [of _ bt] exI [of _ w]) simp
qed


section \<open>Properties\<close>

lemma last_error_heap: "reply_heap (h\<lparr>last_error := e\<rparr>) B L = reply_heap h B L"
  by (simp add: reply_heap_def heads_def allocator_ok_def)

text \<open>
  C1: \<open>Executor_execute\<close> always returns, and answers every command.  Whatever the kernel answers,
  within its documented behaviour, and however long the servers take, there is no fault: no assert
  fails, no buffer is overrun, no loop runs forever.  Afterwards no batch of the executor has an
  outstanding command, and the reply queue of each has exactly one more entry per command: the reply of
  the server, or an error reply of an aborted connection.
\<close>

theorem Executor_execute_answers_all:
  assumes "kernel_ok K f" "clock_ok K" "timeout_ok t" "time_passes K (calls w) t" "executor_ready f B w L"
  shows "\<exists>x w' L'. Executor_execute K t w = Inr (x, w') \<and> x \<in> {-1, 0, 1} \<and>
    (\<forall>j < ex_numpairs (w_exec w). \<forall>b c. pair_at j w = (b, c) \<longrightarrow>
       reply_heap (w_heap w') B L' \<and>
       (\<exists>bt. w_batches w' b = Some bt \<and> \<not> Batch_has_command bt \<and> length (L' (RQueue b)) = replies_due w L b))"
proof -
  from Executor_execute_ok [OF assms] obtain x w' L' w4 e where
    e: "Executor_execute K t w = Inr (x, w')" "x \<in> {-1, 0, 1}"
    "all_pairs f (replies_due w L) (w, L) B w4 L' {} {} (\<lambda>_. answered)"
    "kept (w\<lparr>w_exec := (w_exec w)\<lparr>ex_end_tm_ms := deadline K (calls w) t\<rparr>\<rparr>) w4"
    "w' = w4\<lparr>w_heap := (w_heap w4)\<lparr>last_error := e\<rparr>\<rparr>" by blast
  have "reply_heap (w_heap w') B L' \<and>
      (\<exists>bt. w_batches w' b = Some bt \<and> \<not> Batch_has_command bt \<and> length (L' (RQueue b)) = replies_due w L b)"
    if j: "j < ex_numpairs (w_exec w)" "pair_at j w = (b, c)" for j b c
  proof -
    have j4: "j < ex_numpairs (w_exec w4)" "pair_at j w4 = (b, c)" using e(4) j by (simp_all add: kept_def pair_at_def)
    show ?thesis
      by (rule pair_okD [OF all_pairs_sel(2) [OF e(3) j4(1)] j4(2)])
        (auto simp: pair_state_def answered_def dead_def Batch_has_command_def e(5) last_error_heap)
  qed
  with e(1,2) show ?thesis by blast
qed

theorem Executor_execute_answers_all_witness:
  "\<exists>w x w' L'. Executor_execute demo_kernel 1000 w = Inr (x, w') \<and> pair_at 0 w = (0, 0) \<and>
    reply_heap (w_heap w') {0} L' \<and> (\<exists>bt. w_batches w' 0 = Some bt \<and> \<not> Batch_has_command bt \<and> length (L' (RQueue 0)) = 2)"
proof -
  from demo_added obtain bt w where w: "executor_ready demo_traffic {0} w demo_lists" "time_passes demo_kernel (calls w) 1000"
    "ex_numpairs (w_exec w) = 1" "pair_at 0 w = (0, 0)" "w_batches w = [0 \<mapsto> bt]" "bt_num_commands bt = 2" by blast
  have due: "replies_due w demo_lists 0 = 2" by (simp add: replies_due_def w(5,6))
  from Executor_execute_answers_all [OF demo_kernel_ok demo_clock_ok(1,3) w(2,1)] obtain x w' L' where
    x: "Executor_execute demo_kernel 1000 w = Inr (x, w')"
    "\<forall>j < ex_numpairs (w_exec w). \<forall>b c. pair_at j w = (b, c) \<longrightarrow> reply_heap (w_heap w') {0} L' \<and>
       (\<exists>bt. w_batches w' b = Some bt \<and> \<not> Batch_has_command bt \<and> length (L' (RQueue b)) = replies_due w demo_lists b)"
    by blast
  from x(2) w(3,4) have "reply_heap (w_heap w') {0} L'"
    "\<exists>bt. w_batches w' 0 = Some bt \<and> \<not> Batch_has_command bt \<and> length (L' (RQueue 0)) = replies_due w demo_lists 0" by auto
  with x(1) w(4) show ?thesis unfolding due by blast
qed



section \<open>What the batches receive\<close>

text \<open>
  A session does not touch the iterator, and only one that is connected or aborted has its commands answered.
\<close>

lemma session_due:
  assumes "session_step\<^sup>*\<^sup>* s s'"
  shows "ss_iter s' = ss_iter s \<and> (ss_due s' = ss_due s \<or> ss_state s' \<in> {CS_CONNECTED, CS_ABORTED})"
  using assms
proof (induction rule: rtranclp_induct)
  case (step s1 s2)
  from step.hyps(2) step.IH show ?case by (cases rule: session_step.cases) auto
qed simp

lemma heard_ran:
  assumes "ran s0 s" "heard old s0"
  shows "\<exists>vs es rp pd. ss_log s = old @ vs @ es \<and> understood (ReadBuffer (ss_batch s)) (ss_got s) vs rp pd \<and>
    (if ss_state s = CS_ABORTED then error_replies (ss_batch s) (ss_error s) es else ss_error s = None \<and> es = [])"
    "ss_iter s = ss_iter s0" "ss_due s = ss_due s0 \<or> ss_state s \<in> {CS_CONNECTED, CS_ABORTED}"
proof -
  from assms(1) obtain s1 where s1: "session_step\<^sup>*\<^sup>* s0 s1" "seen s1 = seen s" unfolding ran_def by blast
  from s1(1) assms(2) have h: "heard old s1" by induction (blast intro: heard_step)+
  have e: "ss_log s1 = ss_log s" "ss_batch s1 = ss_batch s" "ss_got s1 = ss_got s" "ss_state s1 = ss_state s"
    "ss_error s1 = ss_error s" "ss_iter s1 = ss_iter s" "ss_due s1 = ss_due s"
    using s1(2) by (cases s; cases s1; simp add: seen_def)+
  show "\<exists>vs es rp pd. ss_log s = old @ vs @ es \<and> understood (ReadBuffer (ss_batch s)) (ss_got s) vs rp pd \<and>
    (if ss_state s = CS_ABORTED then error_replies (ss_batch s) (ss_error s) es else ss_error s = None \<and> es = [])"
    using h unfolding heard_def e by metis
  show "ss_iter s = ss_iter s0" "ss_due s = ss_due s0 \<or> ss_state s \<in> {CS_CONNECTED, CS_ABORTED}"
    using session_due [OF s1(1)] unfolding e by auto
qed

lemma heard_start: "bf_position (bt_read_buffer (the (w_batches w b))) = 0 \<Longrightarrow> heard (queue_views b (w_heap w) L) (start_session c b w L)"
  using understood.nothing by (auto simp: heard_def start_session_def Let_def contents_def)

text \<open>
  What is added to the queue of batch \<open>b\<close>: \<open>vs\<close>, then \<open>es\<close>, an entry for each command of \<open>bt\<close>.  The latter are error
  replies of an aborted connection \<open>cn\<close>, whose data is the error text of \<open>bt'\<close>; the former are the first values of
  any list of values whose encoding begins with the bytes received, those of the read buffer of \<open>bt'\<close>.
\<close>

definition new_replies :: "nat \<Rightarrow> batch \<Rightarrow> batch \<Rightarrow> connection \<Rightarrow> view list \<Rightarrow> view list \<Rightarrow> bool" where
  "new_replies b bt bt' cn vs es \<longleftrightarrow>
     length vs + length es = nat (bt_num_commands bt) \<and>
     (if cn_state cn = CS_ABORTED then error_replies b (map_option contents (bt_error bt')) es
      else bt_error bt' = None \<and> es = []) \<and>
     (\<forall>ws rest. (\<forall>v \<in> set ws. sendable v) \<and> contents (bt_read_buffer bt') @ rest = encode_all ws \<and>
        length (encode_all ws) < 2147483648 \<longrightarrow>
        length vs \<le> length ws \<and> map (value_of (contents (bt_read_buffer bt'))) vs = map Some (take (length vs) ws))"

text \<open>No two connections of the executor own the same address list.\<close>

definition addresses_apart :: "world \<Rightarrow> bool" where
  "addresses_apart w \<longleftrightarrow> (\<forall>j<ex_numpairs (w_exec w). \<forall>k<ex_numpairs (w_exec w). \<forall>a. j \<noteq> k \<longrightarrow>
     addr_of (snd (pair_at j w)) w = Some a \<longrightarrow> addr_of (snd (pair_at k w)) w \<noteq> Some a)"

text \<open>What is known of each pair afterwards.\<close>

lemma Executor_execute_pairs:
  assumes "kernel_ok K f" "clock_ok K" "timeout_ok t" "time_passes K (calls w) t" "executor_ready f B w L"
  shows "\<exists>x w' L'. Executor_execute K t w = Inr (x, w') \<and> x \<in> {-1, 0, 1} \<and>
    bystanders w w' \<and> ex_numpairs (w_exec w') = ex_numpairs (w_exec w) \<and>
    queues_kept B (w, L) w' L' \<and> addresses_apart w' \<and>
    (\<forall>j < ex_numpairs (w_exec w). \<forall>b c. pair_at j w = (b, c) \<longrightarrow> pair_at j w' = (b, c) \<and>
       (\<exists>bt bt' cn rp vs es rp' pd'. w_batches w b = Some bt \<and> pair_state f (replies_due w L) B j b c w' L' cn bt' rp \<and>
          bt_num_commands bt' \<le> 0 \<and> (cn_state cn = CS_CONNECTED \<longrightarrow> 0 < cn_sockfd cn \<and> cn_addrinfo cn \<noteq> None) \<and>
          (0 < bt_num_commands bt \<longrightarrow> cn_state cn \<in> {CS_CONNECTED, CS_ABORTED}) \<and>
          bt_sp bt' = bt_sp bt \<and> bt_current bt' = bt_current bt \<and>
          understood (ReadBuffer b) (contents (bt_read_buffer bt')) vs rp' pd' \<and>
          queue_views b (w_heap w') L' = queue_views b (w_heap w) L @ vs @ es \<and> new_replies b bt bt' cn vs es))"
proof -
  from Executor_execute_ok [OF assms] obtain x w' L' w4 e where
    e: "Executor_execute K t w = Inr (x, w')" "x \<in> {-1, 0, 1}"
    "all_pairs f (replies_due w L) (w, L) B w4 L' {} {} (\<lambda>_. answered)"
    "kept (w\<lparr>w_exec := (w_exec w)\<lparr>ex_end_tm_ms := deadline K (calls w) t\<rparr>\<rparr>) w4"
    "w' = w4\<lparr>w_heap := (w_heap w4)\<lparr>last_error := e\<rparr>\<rparr>" by blast
  have same: "w_batches w' = w_batches w4" "w_conns w' = w_conns w4"
    "queue_views b (w_heap w') L' = queue_views b (w_heap w4) L'" "pair_at j w' = pair_at j w4" for b j
    by (simp_all add: e(5) queue_views_def reply_view_def pair_at_def)
  have ps: "pair_state f N B j b c w' L' cn bt rp \<longleftrightarrow> pair_state f N B j b c w4 L' cn bt rp" for N j b c cn bt rp
    by (simp add: pair_state_def e(5) last_error_heap replies_ok_def reply_ok_def calls_def)
  have "\<exists>bt bt' cn rp vs es rp' pd'. w_batches w b = Some bt \<and> pair_state f (replies_due w L) B j b c w' L' cn bt' rp \<and>
      bt_num_commands bt' \<le> 0 \<and> (cn_state cn = CS_CONNECTED \<longrightarrow> 0 < cn_sockfd cn \<and> cn_addrinfo cn \<noteq> None) \<and>
      (0 < bt_num_commands bt \<longrightarrow> cn_state cn \<in> {CS_CONNECTED, CS_ABORTED}) \<and>
      bt_sp bt' = bt_sp bt \<and> bt_current bt' = bt_current bt \<and>
      understood (ReadBuffer b) (contents (bt_read_buffer bt')) vs rp' pd' \<and>
      queue_views b (w_heap w') L' = queue_views b (w_heap w) L @ vs @ es \<and> new_replies b bt bt' cn vs es"
    if j: "j < ex_numpairs (w_exec w)" "pair_at j w = (b, c)" for j b c
  proof -
    have j4: "j < ex_numpairs (w_exec w4)" "pair_at j w4 = (b, c)" using e(4) j by (simp_all add: kept_def pair_at_def)
    let ?w0 = "w\<lparr>w_exec := (w_exec w)\<lparr>ex_numevents := 0\<rparr>\<rparr>"
    have j0: "j < ex_numpairs (w_exec ?w0)" "pair_at j ?w0 = (b, c)" using j by (simp_all add: pair_at_def)
    from pair_okD [OF all_pairs_sel(2) [OF assms(5) [unfolded executor_ready_def] j0(1)] j0(2)] j(1) obtain bt where
      bt: "w_batches w b = Some bt" "bf_position (bt_read_buffer bt) = 0" by (auto simp: pair_state_def ready_def)
    obtain cn bt' rp where q: "pair_state f (replies_due w L) B j b c w4 L' cn bt' rp" "bt_num_commands bt' \<le> 0"
      "cn_state cn = CS_CONNECTED \<longrightarrow> 0 < cn_sockfd cn \<and> cn_addrinfo cn \<noteq> None"
      by (rule pair_okD [OF all_pairs_sel(2) [OF e(3) j4(1)] j4(2)]) (auto simp: answered_def dead_def live_def)
    have w4: "w_batches w4 b = Some bt'" "w_conns w4 c = Some cn" "int (length (L' (RQueue b))) = int (replies_due w L b)"
      using q(1,2) by (simp_all add: pair_state_def)
    have "ran (start_session c b w L) (session_of c b w4 L')"
      using all_pairs_sel(4) [OF e(3) j4(1)] j4(2) by (simp add: session_ok_def Let_def)
    note r = heard_ran [OF this heard_start]
    have fields: "ss_log (session_of c b w4 L') = queue_views b (w_heap w4) L'" "ss_batch (session_of c b w4 L') = b"
      "ss_got (session_of c b w4 L') = contents (bt_read_buffer bt')" "ss_state (session_of c b w4 L') = cn_state cn"
      "ss_error (session_of c b w4 L') = map_option contents (bt_error bt')"
      using w4(1,2) by (simp_all add: session_of_def Let_def)
    have "bf_position (bt_read_buffer (the (w_batches w b))) = 0" using bt by simp
    from r(1) [OF this, unfolded fields map_option_is_None] obtain vs es rp' pd' where
      v: "queue_views b (w_heap w4) L' = queue_views b (w_heap w) L @ vs @ es"
        "understood (ReadBuffer b) (contents (bt_read_buffer bt')) vs rp' pd'"
        "if cn_state cn = CS_ABORTED then error_replies b (map_option contents (bt_error bt')) es
         else bt_error bt' = None \<and> es = []"
      by (elim exE conjE) (rule that)
    have "length vs + length es = nat (bt_num_commands bt)"
      using arg_cong [OF v(1), of length] w4(3) [unfolded of_nat_eq_iff] bt(1) by (simp add: queue_views_def replies_due_def)
    with v(3) understood_values [OF v(2)] have n: "new_replies b bt bt' cn vs es" unfolding new_replies_def by blast
    have "bt_sp bt' = bt_sp bt" "bt_current bt' = bt_current bt"
      "0 < bt_num_commands bt \<longrightarrow> cn_state cn \<in> {CS_CONNECTED, CS_ABORTED}"
      using r(2,3) bt q(2) w4(1,2) by (auto simp: session_of_def start_session_def Let_def)
    with v(1,2) bt(1) q n show ?thesis unfolding same ps
      by - (rule exI [of _ bt], rule exI [of _ bt'], rule exI [of _ cn], rule exI [of _ rp], rule exI [of _ vs],
        rule exI [of _ es], rule exI [of _ rp'], rule exI [of _ pd'], simp)
  qed
  moreover have "bystanders w w'"
    using all_pairs_sel(5) [OF e(3)] by (simp add: bystanders_def e(5) pair_at_def addr_of_def calls_def)
  moreover have "queues_kept B (w, L) w' L'"
    using all_pairs_sel(6) [OF e(3)] by (simp add: queues_kept_def e(5) pair_at_def queue_views_def reply_view_def)
  moreover have "addresses_apart w'"
    using table_distinct(3) [OF all_pairs_sel(1) [OF e(3)]] by (simp add: addresses_apart_def e(5) pair_at_def addr_of_def)
  moreover have "ex_numpairs (w_exec w') = ex_numpairs (w_exec w)" "\<And>j. pair_at j w' = pair_at j w"
    using e(4) by (simp_all add: kept_def e(5) pair_at_def)
  ultimately show ?thesis using e(1,2) by (intro exI [of _ x] exI [of _ w'] exI [of _ L']) simp
qed

text \<open>
  C2: \<open>Executor_execute\<close> delivers to each batch the replies of its server, in order.  What it adds to the
  reply queue of a batch is what the parser read from the bytes received for that batch, followed,
  only if the connection was aborted, by error replies with the error text of the batch, one entry for each
  command.  When the bytes received begin the encoding of a list of values, the entries before the error
  replies have exactly the first of these values, whatever the system calls cut the stream into.
\<close>

theorem Executor_execute_delivers:
  assumes "kernel_ok K f" "clock_ok K" "timeout_ok t" "time_passes K (calls w) t" "executor_ready f B w L"
  shows "\<exists>x w' L'. Executor_execute K t w = Inr (x, w') \<and>
    (\<forall>j < ex_numpairs (w_exec w). \<forall>b c. pair_at j w = (b, c) \<longrightarrow>
       (\<exists>bt bt' cn vs es. w_batches w b = Some bt \<and> w_batches w' b = Some bt' \<and> w_conns w' c = Some cn \<and>
          queue_views b (w_heap w') L' = queue_views b (w_heap w) L @ vs @ es \<and> new_replies b bt bt' cn vs es))"
proof -
  have pick: "\<exists>bt bt' cn vs es. w_batches w b = Some bt \<and> w_batches w' b = Some bt' \<and> w_conns w' c = Some cn \<and>
          queue_views b (w_heap w') L' = queue_views b (w_heap w) L @ vs @ es \<and> new_replies b bt bt' cn vs es"
    if "w_batches w b = Some bt" "pair_state f (replies_due w L) B j b c w' L' cn bt' rp"
      "queue_views b (w_heap w') L' = queue_views b (w_heap w) L @ vs @ es" "new_replies b bt bt' cn vs es"
    for w' L' j b c bt bt' cn rp vs es
  proof -
    have "w_batches w' b = Some bt'" "w_conns w' c = Some cn" using that(2) by (simp_all add: pair_state_def)
    with that(1,3,4) show ?thesis
      by - (rule exI [of _ bt], rule exI [of _ bt'], rule exI [of _ cn], rule exI [of _ vs], rule exI [of _ es], simp)
  qed
  from Executor_execute_pairs [OF assms] obtain x w' L' where
    r: "Executor_execute K t w = Inr (x, w')" "\<forall>j < ex_numpairs (w_exec w). \<forall>b c. pair_at j w = (b, c) \<longrightarrow>
       (\<exists>bt bt' cn rp vs es. w_batches w b = Some bt \<and> pair_state f (replies_due w L) B j b c w' L' cn bt' rp \<and>
          queue_views b (w_heap w') L' = queue_views b (w_heap w) L @ vs @ es \<and> new_replies b bt bt' cn vs es)"
    by fast
  show ?thesis
    by (rule exI [of _ x], rule exI [of _ w'], rule exI [of _ L'], use r pick in blast)
qed

theorem Executor_execute_delivers_witness:
  "\<exists>w x w' L' bt bt' cn vs es. Executor_execute demo_kernel 1000 w = Inr (x, w') \<and> pair_at 0 w = (0, 0) \<and>
    bt_num_commands bt = 2 \<and> w_batches w' 0 = Some bt' \<and>
    queue_views 0 (w_heap w') L' = vs @ es \<and> new_replies 0 bt bt' cn vs es"
proof -
  from demo_added obtain bt w where w: "executor_ready demo_traffic {0} w demo_lists" "time_passes demo_kernel (calls w) 1000"
    "ex_numpairs (w_exec w) = 1" "pair_at 0 w = (0, 0)" "w_batches w = [0 \<mapsto> bt]" "bt_num_commands bt = 2" by blast
  have q: "queue_views 0 (w_heap w) demo_lists = []" by (simp add: queue_views_def)
  from Executor_execute_delivers [OF demo_kernel_ok demo_clock_ok(1,3) w(2,1)] w(3,4,5) obtain x w' L' bt' cn vs es where
    "Executor_execute demo_kernel 1000 w = Inr (x, w')" "w_batches w' 0 = Some bt'"
    "queue_views 0 (w_heap w') L' = [] @ vs @ es" "new_replies 0 bt bt' cn vs es" unfolding q [symmetric] by auto
  with w(4,6) show ?thesis unfolding append_Nil by blast
qed

end
