(* ===== verification/Php_Run.thy ===== *)
theory Php_Run
  imports Php_Extension Executor_Props
begin

text \<open>
  What the PHP extension \<open>php/ext/libredis/libredis.c\<close> does with the library: \<open>Connection_execute_simple\<close>, one
  command on a connection (\<open>Connection::set\<close>, \<open>Connection::get\<close>), and the state these leave behind.
\<close>

section \<open>The state between two calls\<close>

text \<open>The replies of the heap, whatever batch they belong to.\<close>

definition shaped :: "rheap \<Rightarrow> (rnode \<Rightarrow> rnode list) \<Rightarrow> bool" where
  "shaped h L \<longleftrightarrow> (\<forall>r rep. rh_replies h r = Some rep \<longrightarrow>
     (rep_type rep \<in> {RT_OK, RT_ERROR, RT_BULK, RT_INTEGER} \<longrightarrow> rep_buffer rep \<noteq> None) \<and>
     (rep_type rep \<noteq> RT_MULTIBULK \<longrightarrow> L (RChildren r) = []) \<and>
     (\<forall>n \<in> set (L (RChildren r)). rep_type (the (rh_replies h (link_id n))) \<in> {RT_BULK, RT_BULK_NIL}))"

text \<open>No reply points into the read buffer of \<open>b\<close>: the address was not that of a batch with replies still alive.\<close>

definition unread :: "nat \<Rightarrow> rheap \<Rightarrow> bool" where
  "unread b h \<longleftrightarrow> (\<forall>r rep. rh_replies h r = Some rep \<longrightarrow> rep_buffer rep \<noteq> Some (ReadBuffer b))"

lemma replies_ok_shaped: "replies_ok bref p h L \<Longrightarrow> shaped h L"
  by (simp add: replies_ok_def reply_ok_def shaped_def)

lemma shaped_replies_ok: "shaped h L \<Longrightarrow> unread b h \<Longrightarrow> replies_ok (ReadBuffer b) p h L"
  by (auto simp: replies_ok_def reply_ok_def shaped_def unread_def)

lemma shaped_showable: "shaped h L \<Longrightarrow> reply_heap h B L \<Longrightarrow> showable h L"
  unfolding showable_def shaped_def reply_at_def by fastforce

lemma shaped_cong: "shaped h L \<Longrightarrow> rh_replies h' = rh_replies h \<Longrightarrow> (\<And>r. L' (RChildren r) = L (RChildren r)) \<Longrightarrow> shaped h' L'"
  by (simp add: shaped_def)

text \<open>
  The connections: none is in the middle of connecting, an open one has its socket and its address list, and
  no two share an address list.
\<close>

definition conn_idle :: "connection \<Rightarrow> world \<Rightarrow> bool" where
  "conn_idle cn w \<longleftrightarrow> cn_parser cn \<noteq> None \<and> cn_state cn \<noteq> CS_CONNECTING \<and>
     (cn_state cn = CS_CONNECTED \<longrightarrow> 0 < cn_sockfd cn \<and> cn_addrinfo cn \<noteq> None) \<and>
     (\<forall>a. cn_addrinfo cn = Some a \<longrightarrow> a < calls w \<and> a \<in> os_addrs (w_os w))"

definition conns_idle :: "world \<Rightarrow> bool" where
  "conns_idle w \<longleftrightarrow> (\<forall>c cn. w_conns w c = Some cn \<longrightarrow> conn_idle cn w) \<and>
     (\<forall>c c' a. c \<noteq> c' \<longrightarrow> addr_of c w = Some a \<longrightarrow> addr_of c' w \<noteq> Some a)"

definition world_ok :: "world \<Rightarrow> bool" where
  "world_ok w \<longleftrightarrow> (\<exists>L. reply_heap (w_heap w) (dom (w_batches w)) L \<and> shaped (w_heap w) L) \<and>
     (\<forall>b bt. w_batches w b = Some bt \<longrightarrow> bt_id bt = b) \<and> conns_idle w"


text \<open>The replies that the loop over the queue of a batch visits.\<close>

definition queue_at :: "nat \<Rightarrow> rheap \<Rightarrow> view list" where
  "queue_at b h = queue_views b h (\<lambda>a. case list_for_each (rh_links h) a of None \<Rightarrow> [] | Some ns \<Rightarrow> ns)"

lemma queue_at_views:
  assumes rh: "reply_heap h B L" and b: "b \<in> B"
  shows "queue_at b h = queue_views b h L"
proof -
  have walk: "list_for_each (rh_links h) a = Some (L a)" if "a \<in> heads h B" for a
    using rh that unfolding reply_heap_def by (intro list_for_each_dlist rings_dlist) auto
  have q: "RQueue b \<in> heads h B" using b by simp
  have "reply_view h (\<lambda>a. case list_for_each (rh_links h) a of None \<Rightarrow> [] | Some ns \<Rightarrow> ns) (link_id n) = reply_view h L (link_id n)"
    if n: "n \<in> set (L (RQueue b))" for n
  proof -
    from queue_node [OF rh q n] obtain r where "n = RLink r" "RChildren r \<in> heads h B" by auto
    then show ?thesis by (simp add: reply_view_def walk)
  qed
  then show ?thesis by (simp add: queue_at_def queue_views_def walk [OF q])
qed

lemma queue_at_other:
  assumes "reply_heap h B L" "reply_heap h' B' L'" "b \<in> B" "b \<in> B'" "queue_views b h' L' = queue_views b h L"
  shows "queue_at b h' = queue_at b h"
  using assms by (simp add: queue_at_views)

section \<open>Executing the pairs of an executor\<close>

lemma executor_ready_empty: "ex_numpairs (w_exec w) = 0 \<Longrightarrow> executor_ready f B w L"
  by (simp add: executor_ready_def all_pairs_def table_ok_def bystanders_def queues_kept_def calls_def addr_of_def)

text \<open>A batch that was written and not executed.\<close>

definition unexecuted :: "nat \<Rightarrow> batch \<Rightarrow> bool" where
  "unexecuted b bt \<longleftrightarrow> bt_id bt = b \<and> buffer_ok (bt_write_buffer bt) \<and> writable (bt_read_buffer bt) \<and>
     8 \<le> bf_capacity (bt_read_buffer bt) \<and> bf_capacity (bt_read_buffer bt) \<le> 4294967296 \<and>
     bf_position (bt_read_buffer bt) = 0 \<and> int32 (bt_num_commands bt) \<and> bt_error bt = None"

lemma addable_idle:
  assumes "reply_heap (w_heap w) B L" "shaped (w_heap w) L" "unread b (w_heap w)" "conns_idle w" "b \<in> B"
    and "w_conns w c = Some cn" "w_batches w b = Some bt" "unexecuted b bt"
    and "ex_numpairs (w_exec w) = 0" "tables_full_size w"
  shows "addable f B w L c b"
proof -
  have "conn_idle cn w" using assms(4,6) by (simp add: conns_idle_def)
  moreover from this obtain rp where "cn_parser cn = Some rp" by (auto simp: conn_idle_def)
  ultimately show ?thesis using assms shaped_replies_ok [OF assms(2,3)]
    unfolding addable_def
    by (intro conjI exI [of _ cn] exI [of _ bt] exI [of _ rp])
      (auto simp: pair_state_def conn_idle_def unexecuted_def replies_due_def tables_full_size_def MAX_PAIRS_def)
qed

lemma conns_idle_pairs:
  assumes idle: "conns_idle w" and bs: "bystanders w w'" and apart: "addresses_apart w'"
    and cn: "\<And>j. j < ex_numpairs (w_exec w') \<Longrightarrow> \<exists>cn. w_conns w' (snd (pair_at j w')) = Some cn \<and> conn_idle cn w'"
  shows "conns_idle w'"
proof -
  let ?in = "\<lambda>c. \<exists>j < ex_numpairs (w_exec w'). snd (pair_at j w') = c"
  have b: "calls w \<le> calls w'" "\<And>c. \<not> ?in c \<Longrightarrow> w_conns w' c = w_conns w c"
    "\<And>c. ?in c \<Longrightarrow> addr_of c w' = addr_of c w \<or> (\<forall>a. addr_of c w' = Some a \<longrightarrow> calls w \<le> a)"
    using bs unfolding bystanders_def Let_def by blast+
  have still: "a \<in> os_addrs (w_os w')" if "a \<in> os_addrs (w_os w)" "a < calls w" "\<And>c. ?in c \<Longrightarrow> addr_of c w \<noteq> Some a" for a
    using bs that unfolding bystanders_def Let_def by blast
  have addr: "addr_of c w' = addr_of c w" if "\<not> ?in c" for c using b(2) [OF that] by (simp add: addr_of_def)
  have old: "a < calls w \<and> a \<in> os_addrs (w_os w)" if "addr_of c w = Some a" for c a
  proof -
    from that obtain cn where "w_conns w c = Some cn" "cn_addrinfo cn = Some a" by (auto simp: addr_of_def bind_eq_Some_conv)
    with idle show ?thesis by (auto simp: conns_idle_def conn_idle_def)
  qed
  have dist: "addr_of c2 w \<noteq> Some a" if "c1 \<noteq> c2" "addr_of c1 w = Some a" for c1 c2 a
    using idle that by (auto simp: conns_idle_def)
  have "conn_idle cn w'" if c: "w_conns w' c = Some cn" for c cn
  proof (cases "?in c")
    case True
    with assms(4) c show ?thesis by fastforce
  next
    case False
    with b(2) c have c0: "w_conns w c = Some cn" by simp
    then have i: "conn_idle cn w" using idle by (simp add: conns_idle_def)
    have "a < calls w' \<and> a \<in> os_addrs (w_os w')" if a: "cn_addrinfo cn = Some a" for a
    proof -
      have ad: "addr_of c w = Some a" using a c0 by (simp add: addr_of_def)
      have "addr_of c1 w \<noteq> Some a" if "?in c1" for c1 using dist [OF _ ad, of c1] False that by blast
      with old [OF ad] still [of a] b(1) show ?thesis by simp
    qed
    with i show ?thesis by (simp add: conn_idle_def)
  qed
  moreover have mixed: "addr_of c1 w' \<noteq> Some a" if "?in c1" "\<not> ?in c2" "addr_of c2 w' = Some a" for c1 c2 a
  proof
    assume a1: "addr_of c1 w' = Some a"
    have o: "addr_of c2 w = Some a" using that(3) addr [OF that(2)] by simp
    have "\<not> calls w \<le> a" using old [OF o] by simp
    with b(3) [OF that(1)] a1 have "addr_of c1 w = Some a" by auto
    moreover have "c2 \<noteq> c1" using that(1,2) by blast
    ultimately show False using dist [OF _ o] by blast
  qed
  have "addr_of c2 w' \<noteq> Some a" if ne: "c1 \<noteq> c2" and a: "addr_of c1 w' = Some a" for c1 c2 a
  proof (cases "?in c1"; cases "?in c2")
    assume "?in c1" "?in c2"
    then obtain j k where jk: "j < ex_numpairs (w_exec w')" "k < ex_numpairs (w_exec w')" "snd (pair_at j w') = c1" "snd (pair_at k w') = c2"
      by blast
    with ne have "j \<noteq> k" by auto
    with apart jk a show ?thesis unfolding addresses_apart_def by blast
  next
    assume "?in c1" "\<not> ?in c2"
    with mixed a show ?thesis by blast
  next
    assume "\<not> ?in c1" "?in c2"
    with mixed a show ?thesis by blast
  next
    assume "\<not> ?in c1" "\<not> ?in c2"
    with addr a dist [OF ne] show ?thesis by simp
  qed
  ultimately show ?thesis unfolding conns_idle_def by blast
qed

text \<open>Pairs of different, idle connections and different batches that were written and not executed.\<close>

definition fresh_pairs :: "world \<Rightarrow> (rnode \<Rightarrow> rnode list) \<Rightarrow> bool" where
  "fresh_pairs w L \<longleftrightarrow> (let n = ex_numpairs (w_exec w) in
     n \<le> length (ex_fds (w_exec w)) \<and> n \<le> length (ex_pairs (w_exec w)) \<and>
     (\<forall>j<n. pf_events (fd_at j w) = {} \<and> pf_revents (fd_at j w) = {}) \<and>
     (\<forall>j<n. \<forall>k<n. j \<noteq> k \<longrightarrow> fst (pair_at j w) \<noteq> fst (pair_at k w) \<and> snd (pair_at j w) \<noteq> snd (pair_at k w)) \<and>
     (\<forall>j<n. w_conns w (snd (pair_at j w)) \<noteq> None \<and> unread (fst (pair_at j w)) (w_heap w) \<and> L (RQueue (fst (pair_at j w))) = [] \<and>
        (\<exists>bt. w_batches w (fst (pair_at j w)) = Some bt \<and> unexecuted (fst (pair_at j w)) bt \<and> 0 < bt_num_commands bt)))"

lemma executor_ready_fresh:
  assumes h: "reply_heap (w_heap w) (dom (w_batches w)) L" "shaped (w_heap w) L" "conns_idle w" and p: "fresh_pairs w L"
  shows "executor_ready f (dom (w_batches w)) w L"
proof -
  let ?n = "ex_numpairs (w_exec w)" and ?w = "w\<lparr>w_exec := (w_exec w)\<lparr>ex_numevents := 0\<rparr>\<rparr>" and ?B = "dom (w_batches w)"
  note p = p [unfolded fresh_pairs_def Let_def]
  have at: "pair_at j ?w = pair_at j w" "fd_at j ?w = fd_at j w" "addr_of c ?w = addr_of c w" for j c
    by (simp_all add: pair_at_def fd_at_def addr_of_def)
  have "pair_ok f (replies_due w L) ?B ?w L True rests j" if j: "j < ?n" for j
  proof -
    obtain b c where bc: "pair_at j w = (b, c)" by fastforce
    have pj: "w_conns w c \<noteq> None" "unread b (w_heap w)" "L (RQueue b) = []" "pf_events (fd_at j w) = {}" "j < length (ex_fds (w_exec w))"
      "\<exists>bt. w_batches w b = Some bt \<and> unexecuted b bt \<and> 0 < bt_num_commands bt"
      using p j bc by (metis fst_conv snd_conv order_less_le_trans)+
    from pj(1,6) obtain bt cn where q: "w_batches w b = Some bt" "unexecuted b bt" "0 < bt_num_commands bt" "w_conns w c = Some cn" by blast
    have i: "conn_idle cn w" using h(3) q(4) by (simp add: conns_idle_def)
    then obtain rp where rp: "cn_parser cn = Some rp" by (auto simp: conn_idle_def)
    have "pair_state f (replies_due w L) ?B j b c ?w L cn bt rp"
      using h(1) q pj(3,5) i rp shaped_replies_ok [OF h(2) pj(2)]
      by (auto simp: pair_state_def unexecuted_def conn_idle_def replies_due_def calls_def)
    moreover have "ready cn bt (fd_at j w)" using q pj(4) i by (auto simp: ready_def unexecuted_def conn_idle_def)
    ultimately show ?thesis unfolding pair_ok_def at bc by auto
  qed
  moreover have "table_ok ?w {}"
  proof -
    have "(\<Sum>j<?n. bits (fd_at j w)) = 0" using p by (intro sum.neutral) (simp add: bits_def)
    moreover have "\<forall>j<?n. \<forall>k<?n. \<forall>a. j \<noteq> k \<longrightarrow> addr_of (snd (pair_at j w)) w = Some a \<longrightarrow> addr_of (snd (pair_at k w)) w \<noteq> Some a"
      using h(3) p unfolding conns_idle_def by blast
    ultimately show ?thesis using p unfolding table_ok_def Let_def at by simp
  qed
  moreover have "session_ok (w, L) ?w L True j" for j
    by (simp add: session_ok_def start_session_def split: prod.splits)
  moreover have "bystanders w ?w" "queues_kept ?B (w, L) ?w L"
    by (simp_all add: bystanders_def queues_kept_def addr_of_def calls_def)
  ultimately show ?thesis unfolding executor_ready_def all_pairs_def by simp
qed

text \<open>What holds between two calls holds again when such an executor was executed.\<close>

lemma execute_no_pairs:
  assumes "ex_numpairs (w_exec w) = 0"
  shows "\<exists>ex. Executor_execute K t w = Inr (1, (tick w)\<lparr>w_exec := ex\<rparr>)"
  using assms unfolding Executor_execute_def Let_def
  by (subst loopE_unfold) (simp add: executor_turn_def, rule exI, rule refl)

lemma execute_pairs_world:
  assumes K: "kernel_ok K f" "clock_ok K" "timeout_ok t" "time_passes K (calls w) t" and W: "world_ok w"
    and h: "reply_heap (w_heap w) (dom (w_batches w)) L" "shaped (w_heap w) L" and p: "fresh_pairs w L"
  shows "\<exists>x w'. Executor_execute K t w = Inr (x, w') \<and> world_ok w' \<and>
    dom (w_batches w') = dom (w_batches w) \<and> dom (w_conns w') = dom (w_conns w)"
proof (cases "ex_numpairs (w_exec w) = 0")
  case True
  from execute_no_pairs [OF this, of K t] obtain ex where e: "Executor_execute K t w = Inr (1, (tick w)\<lparr>w_exec := ex\<rparr>)" by blast
  have "conns_idle ((tick w)\<lparr>w_exec := ex\<rparr>)" using W by (auto simp: world_ok_def conns_idle_def conn_idle_def addr_of_def calls_def tick_def less_Suc_eq)
  then have "world_ok ((tick w)\<lparr>w_exec := ex\<rparr>)" using W unfolding world_ok_def by simp
  with e show ?thesis by simp
next
  case False
  have idle: "conns_idle w" and ids: "\<forall>b bt. w_batches w b = Some bt \<longrightarrow> bt_id bt = b" using W by (simp_all add: world_ok_def)
  let ?B = "dom (w_batches w)" and ?n = "ex_numpairs (w_exec w)"
  from Executor_execute_pairs [OF K executor_ready_fresh [OF h idle p]] obtain x w' L' where
    r: "Executor_execute K t w = Inr (x, w')" "bystanders w w'" "ex_numpairs (w_exec w') = ?n" "addresses_apart w'"
    and q: "\<forall>j < ?n. \<forall>b c. pair_at j w = (b, c) \<longrightarrow> pair_at j w' = (b, c) \<and>
       (\<exists>bt bt' cn rp vs es rp' pd'. w_batches w b = Some bt \<and> pair_state f (replies_due w L) ?B j b c w' L' cn bt' rp \<and>
          bt_num_commands bt' \<le> 0 \<and> (cn_state cn = CS_CONNECTED \<longrightarrow> 0 < cn_sockfd cn \<and> cn_addrinfo cn \<noteq> None) \<and>
          (0 < bt_num_commands bt \<longrightarrow> cn_state cn \<in> {CS_CONNECTED, CS_ABORTED}) \<and>
          bt_sp bt' = bt_sp bt \<and> bt_current bt' = bt_current bt \<and>
          understood (ReadBuffer b) (contents (bt_read_buffer bt')) vs rp' pd' \<and>
          queue_views b (w_heap w') L' = queue_views b (w_heap w) L @ vs @ es \<and> new_replies b bt bt' cn vs es)"
    by blast
  have pair: "\<exists>bt bt' cn rp. pair_at j w' = pair_at j w \<and> w_batches w (fst (pair_at j w)) = Some bt \<and> 0 < bt_num_commands bt \<and>
      w_conns w (snd (pair_at j w)) \<noteq> None \<and>
      pair_state f (replies_due w L) ?B j (fst (pair_at j w)) (snd (pair_at j w)) w' L' cn bt' rp \<and> conn_idle cn w'"
    if j: "j < ?n" for j
  proof -
    obtain b c where bc: "pair_at j w = (b, c)" by fastforce
    from q j bc obtain bt bt' cn rp where d: "pair_at j w' = (b, c)" "w_batches w b = Some bt"
      "pair_state f (replies_due w L) ?B j b c w' L' cn bt' rp"
      "cn_state cn = CS_CONNECTED \<longrightarrow> 0 < cn_sockfd cn \<and> cn_addrinfo cn \<noteq> None"
      "0 < bt_num_commands bt \<longrightarrow> cn_state cn \<in> {CS_CONNECTED, CS_ABORTED}" by blast
    have f: "0 < bt_num_commands bt" "w_conns w c \<noteq> None" using p j bc d(2) unfolding fresh_pairs_def Let_def by fastforce+
    have "conn_idle cn w'" using d(3-5) f(1) by (auto simp: conn_idle_def pair_state_def)
    with d f bc show ?thesis by (intro exI [of _ bt] exI [of _ bt'] exI [of _ cn] exI [of _ rp]) simp
  qed
  have "conns_idle w'"
  proof (rule conns_idle_pairs [OF idle r(2,4)])
    fix j assume "j < ex_numpairs (w_exec w')"
    with pair [of j] r(3) show "\<exists>cn. w_conns w' (snd (pair_at j w')) = Some cn \<and> conn_idle cn w'" by (auto simp: pair_state_def)
  qed
  moreover have in_pair: "\<exists>bt'. w_batches w' (fst (pair_at j w)) = Some bt' \<and> bt_id bt' = fst (pair_at j w) \<and>
      w_batches w (fst (pair_at j w)) \<noteq> None \<and> w_conns w (snd (pair_at j w)) \<noteq> None \<and> w_conns w' (snd (pair_at j w)) \<noteq> None"
    if "j < ?n" for j using pair [OF that] by (auto simp: pair_state_def)
  have others: "w_batches w' b = w_batches w b" if "\<And>j. j < ?n \<Longrightarrow> fst (pair_at j w) \<noteq> b" for b
    using r(2,3) that pair unfolding bystanders_def Let_def by metis
  have others_c: "w_conns w' c = w_conns w c" if "\<And>j. j < ?n \<Longrightarrow> snd (pair_at j w) \<noteq> c" for c
    using r(2,3) that pair unfolding bystanders_def Let_def by metis
  have db: "w_batches w' b = None \<longleftrightarrow> w_batches w b = None" for b
    by (cases "\<exists>j < ?n. fst (pair_at j w) = b") (use in_pair others in fastforce)+
  have dc: "w_conns w' c = None \<longleftrightarrow> w_conns w c = None" for c
    by (cases "\<exists>j < ?n. snd (pair_at j w) = c") (use in_pair others_c in fastforce)+
  have dom: "dom (w_batches w') = ?B" "dom (w_conns w') = dom (w_conns w)" using db dc by (auto simp: dom_def)
  moreover have "bt_id bt = b" if "w_batches w' b = Some bt" for b bt
    by (cases "\<exists>j < ?n. fst (pair_at j w) = b") (use that in_pair others ids in fastforce)+
  moreover have "reply_heap (w_heap w') ?B L' \<and> shaped (w_heap w') L'"
    using pair [of 0] False replies_ok_shaped by (auto simp: pair_state_def)
  ultimately have "world_ok w'" unfolding world_ok_def by auto
  with r(1) dom show ?thesis by blast
qed

section \<open>\<open>Connection_execute_simple\<close>\<close>

lemma Executor_add_world:
  assumes "Executor_add c b w = Inr (0, w')"
  shows "w_batches w' = w_batches w" "w_conns w' = w_conns w" "w_heap w' = w_heap w" "w_os w' = w_os w"
  using assms by (auto simp: Executor_add_def Let_def bindE_eq_Inr split: if_splits)

text \<open>
  The executor lives for this call only.  The batch gets its replies, the connection is idle again, and all
  else is as it was.
\<close>

definition carried_out ::
    "kernel \<Rightarrow> nat \<Rightarrow> nat \<Rightarrow> int \<Rightarrow> world \<Rightarrow> batch \<Rightarrow> int \<Rightarrow> world \<Rightarrow> world \<Rightarrow> (rnode \<Rightarrow> rnode list) \<Rightarrow> batch \<Rightarrow> connection \<Rightarrow> bool" where
  "carried_out K c b t w bt x w1 w' L' bt' cn \<longleftrightarrow>
     x \<in> {-1, 0, 1} \<and>
     (\<exists>w0. Executor_execute K t w0 = Inr (x, w1) \<and> ex_numpairs (w_exec w0) = 1 \<and> pair_at 0 w0 = (b, c) \<and>
        w_batches w0 = w_batches w \<and> w_conns w0 = w_conns w \<and> w_os w0 = w_os w \<and>
        module.more (w_heap w0) = module.more (w_heap w)) \<and>
     (\<exists>h. w' = w1\<lparr>w_heap := h\<rparr> \<and> module.more h = module.more (w_heap w1)) \<and>
     reply_heap (w_heap w') (dom (w_batches w')) L' \<and> shaped (w_heap w') L' \<and> conns_idle w' \<and>
     replies_ok (ReadBuffer b) (bf_position (bt_read_buffer bt')) (w_heap w') L' \<and>
     w_batches w' = (w_batches w)(b \<mapsto> bt') \<and> w_conns w' = (w_conns w)(c \<mapsto> cn) \<and>
     (\<forall>b' \<in> dom (w_batches w) - {b}. queue_at b' (w_heap w') = queue_at b' (w_heap w)) \<and>
     bt_id bt' = b \<and> writable (bt_read_buffer bt') \<and> bt_sp bt' = bt_sp bt \<and> bt_current bt' = bt_current bt \<and>
     (\<exists>vs es rp pd. understood (ReadBuffer b) (contents (bt_read_buffer bt')) vs rp pd \<and>
        queue_views b (w_heap w') L' = vs @ es \<and> new_replies b bt bt' cn vs es)"

lemma execute_simple_ok:
  assumes K: "kernel_ok K f" "clock_ok K" "timeout_ok (wrap32 t)" "time_passes K (calls w) (wrap32 t)"
    and raw: "length (ex_pairs raw) = MAX_PAIRS" "length (ex_fds raw) = MAX_PAIRS"
    and w: "reply_heap (w_heap w) (dom (w_batches w)) L" "shaped (w_heap w) L" "conns_idle w" "unread b (w_heap w)"
    and c: "w_conns w c \<noteq> None" and b: "w_batches w b = Some bt" "unexecuted b bt" "0 < bt_num_commands bt" "L (RQueue b) = []"
  shows "\<exists>x w1 w' L' bt' cn. carried_out K c b (wrap32 t) w bt x w1 w' L' bt' cn \<and>
    (\<forall>Z (st :: 't php). ph_world st = w \<longrightarrow> Connection_execute_simple Z K raw (Some c) (Some b) t st =
       bindP (if x < 0 then zend_error Z (Module_last_error (w_heap w')) (st\<lparr>ph_world := w'\<rparr>) else Inr ())
         (\<lambda>_. Inr (x, st\<lparr>ph_world := w'\<rparr>)))"
proof -
  let ?B = "dom (w_batches w)" and ?ex = "raw\<lparr>ex_numpairs := 0, ex_numevents := 0\<rparr>"
  from Alloc_alloc_ok [OF reply_heap_alloc [OF w(1)], of sizeof_Executor] obtain blk h1 where
    a: "Alloc_alloc sizeof_Executor (w_heap w) = Inr (Some blk, h1)" "allocator_ok h1" "module.more h1 = module.more (w_heap w)" by blast
  have new: "Executor_new raw (w_heap w) = Inr (Some ?ex, h1)" using a(1) by (simp add: Executor_new_def)
  let ?w1 = "w\<lparr>w_heap := h1, w_exec := ?ex\<rparr>"
  note m1 = more_rheap [OF a(3)]
  have h1: "reply_heap (w_heap ?w1) ?B L" using reply_heap_more [OF w(1) a(3,2)] by simp
  have ad: "addable f ?B ?w1 L c b"
  proof -
    obtain cn where "w_conns w c = Some cn" using c by auto
    moreover have "conns_idle ?w1" using w(3) by (simp add: conns_idle_def conn_idle_def calls_def addr_of_def)
    ultimately show ?thesis using w(2,4) b m1 raw
      by (intro addable_idle [OF h1]) (auto simp: shaped_def unread_def tables_full_size_def)
  qed
  have tab: "tables_full_size ?w1" "ex_numpairs (w_exec ?w1) < MAX_PAIRS" using raw by (simp_all add: tables_full_size_def MAX_PAIRS_def)
  have "executor_ready f ?B ?w1 L" by (rule executor_ready_empty) simp
  from Executor_add_ok [OF this tab ad] obtain w0 where w0: "Executor_add c b ?w1 = Inr (0, w0)" "executor_ready f ?B w0 L"
    "ex_numpairs (w_exec w0) = 1" "pair_at 0 w0 = (b, c)"
    by auto
  note e0 = Executor_add_world [OF w0(1)]
  have same: "w_batches w0 = w_batches w" "w_conns w0 = w_conns w" "w_heap w0 = h1" "calls w0 = calls w" "w_os w0 = w_os w"
    using e0 by (simp_all add: calls_def)
  from Executor_execute_pairs [OF K(1-3) _ w0(2)] K(4) w0(3) same(4) obtain x w1 L' where
    r: "Executor_execute K (wrap32 t) w0 = Inr (x, w1)" "x \<in> {-1, 0, 1}" "bystanders w0 w1" "ex_numpairs (w_exec w1) = 1"
    "queues_kept ?B (w0, L) w1 L'" "addresses_apart w1"
    "\<forall>b c. pair_at 0 w0 = (b, c) \<longrightarrow> pair_at 0 w1 = (b, c) \<and>
       (\<exists>bt bt' cn rp vs es rp' pd'. w_batches w0 b = Some bt \<and> pair_state f (replies_due w0 L) ?B 0 b c w1 L' cn bt' rp \<and>
          bt_num_commands bt' \<le> 0 \<and> (cn_state cn = CS_CONNECTED \<longrightarrow> 0 < cn_sockfd cn \<and> cn_addrinfo cn \<noteq> None) \<and>
          (0 < bt_num_commands bt \<longrightarrow> cn_state cn \<in> {CS_CONNECTED, CS_ABORTED}) \<and>
          bt_sp bt' = bt_sp bt \<and> bt_current bt' = bt_current bt \<and>
          understood (ReadBuffer b) (contents (bt_read_buffer bt')) vs rp' pd' \<and>
          queue_views b (w_heap w1) L' = queue_views b (w_heap w0) L @ vs @ es \<and> new_replies b bt bt' cn vs es)"
    by auto
  note r0 = mp [OF spec [OF spec [OF r(7), of b], of c] w0(4)]
  have p1: "pair_at 0 w1 = (b, c)" using r0 by blast
  from conjunct2 [OF r0] obtain bt0 bt' cn rp vs es rp' pd' where
    q: "w_batches w0 b = Some bt0" "pair_state f (replies_due w0 L) ?B 0 b c w1 L' cn bt' rp"
      "cn_state cn = CS_CONNECTED \<longrightarrow> 0 < cn_sockfd cn \<and> cn_addrinfo cn \<noteq> None"
      "0 < bt_num_commands bt0 \<longrightarrow> cn_state cn \<in> {CS_CONNECTED, CS_ABORTED}"
      "bt_sp bt' = bt_sp bt0" "bt_current bt' = bt_current bt0"
      "understood (ReadBuffer b) (contents (bt_read_buffer bt')) vs rp' pd'"
      "queue_views b (w_heap w1) L' = queue_views b (w_heap w0) L @ vs @ es" "new_replies b bt0 bt' cn vs es"
    by (elim exE conjE) (rule that)
  have bt0: "bt0 = bt" using q(1) b(1) same(1) by simp
  have ps: "reply_heap (w_heap w1) ?B L'" "w_conns w1 c = Some cn" "w_batches w1 b = Some bt'" "bt_id bt' = b"
    "writable (bt_read_buffer bt')" "replies_ok (ReadBuffer b) (bf_position (bt_read_buffer bt')) (w_heap w1) L'"
    using q(2) by (simp_all add: pair_state_def)
  have idle1: "conn_idle cn w1" using q(2-4) b(3) unfolding bt0 by (auto simp: conn_idle_def pair_state_def)
  have idle0: "conns_idle w0" using w(3) same by (simp add: conns_idle_def conn_idle_def addr_of_def)
  have idle2: "conns_idle w1"
    by (rule conns_idle_pairs [OF idle0 r(3,6)]) (use r(4) p1 ps(2) idle1 in auto)
  have others: "\<And>c'. c' \<noteq> c \<Longrightarrow> w_conns w1 c' = w_conns w0 c'" "\<And>b'. b' \<noteq> b \<Longrightarrow> w_batches w1 b' = w_batches w0 b'"
    using r(3,4) p1 by (simp_all add: bystanders_def)
  have ctx: "w_batches w1 = (w_batches w)(b \<mapsto> bt')" "w_conns w1 = (w_conns w)(c \<mapsto> cn)"
    using others ps(2,3) same(1,2) by (auto simp: fun_eq_iff)
  from Alloc_free_ok [OF reply_heap_alloc [OF ps(1)], of sizeof_Executor] obtain h3 where
    h3: "Alloc_free sizeof_Executor (w_heap w1) = Inr h3" "allocator_ok h3" "module.more h3 = module.more (w_heap w1)" by blast
  note m3 = more_rheap [OF h3(3)]
  let ?w' = "w1\<lparr>w_heap := h3\<rparr>"
  have dom: "dom (w_batches ?w') = ?B" using ctx(1) b(1) by auto
  have "reply_heap h3 ?B L'" using reply_heap_more [OF ps(1) h3(3,2)] by simp
  moreover have rs: "replies_ok (ReadBuffer b) (bf_position (bt_read_buffer bt')) h3 L'"
    using ps(6) m3 by (simp add: replies_ok_def reply_ok_def)
  moreover have "shaped h3 L'" by (rule replies_ok_shaped [OF rs])
  moreover have "conns_idle ?w'" using idle2 by (simp add: conns_idle_def conn_idle_def calls_def addr_of_def)
  moreover have "queue_views b h3 L' = vs @ es"
  proof -
    have "queue_views b (w_heap w0) L = []" using b(4) by (simp add: queue_views_def)
    then show ?thesis using q(8) m3 by (simp add: queue_views_def reply_view_def)
  qed
  moreover have "\<forall>b' \<in> ?B - {b}. queue_at b' (w_heap ?w') = queue_at b' (w_heap w)"
  proof
    fix b' assume b': "b' \<in> ?B - {b}"
    have "queue_views b' (w_heap w1) L' = queue_views b' (w_heap w0) L"
      using r(4,5) p1 b' by (simp add: queues_kept_def)
    then have "queue_views b' h3 L' = queue_views b' (w_heap w) L"
      by (simp add: queue_views_def reply_view_def m3 same(3) m1)
    then show "queue_at b' (w_heap ?w') = queue_at b' (w_heap w)"
      using queue_at_other [OF w(1) reply_heap_more [OF ps(1) h3(3,2)]] b' by simp
  qed
  ultimately have "carried_out K c b (wrap32 t) w bt x w1 ?w' L' bt' cn"
    using r(1,2) w0(3,4) same a(3) h3(3) ps ctx q dom unfolding carried_out_def bt0
    by (intro conjI exI [of _ w0] exI [of _ h3] exI [of _ vs] exI [of _ es] exI [of _ rp'] exI [of _ pd']) simp_all
  moreover have "Connection_execute_simple Z K raw (Some c) (Some b) t st =
       bindP (if x < 0 then zend_error Z (Module_last_error h3) (st\<lparr>ph_world := ?w'\<rparr>) else Inr ())
         (\<lambda>_. Inr (x, st\<lparr>ph_world := ?w'\<rparr>))" if "ph_world st = w" for Z and st :: "'t php"
    using that new w0(1) r(1) h3(1) by (simp add: Connection_execute_simple_def Let_def Executor_free_def)
  ultimately show ?thesis
    by - (rule exI [of _ x], rule exI [of _ w1], rule exI [of _ ?w'], rule exI [of _ L'], rule exI [of _ bt'],
      rule exI [of _ cn], simp)
qed



section \<open>The data of a reply\<close>

text \<open>The replies a parser understands carry their data in the buffer it parses.\<close>

definition from_buffer :: "bufref \<Rightarrow> view option \<Rightarrow> bool" where
  "from_buffer bref pd \<longleftrightarrow> (\<forall>rep ks. pd = Some (rep, ks) \<longrightarrow>
     rep_type rep \<in> {RT_OK, RT_ERROR, RT_BULK, RT_INTEGER} \<longrightarrow> rep_buffer rep = Some bref)"

lemma from_buffer_None [simp]: "from_buffer bref None"
  by (simp add: from_buffer_def)

lemma move_from_buffer:
  "parser_move bref data len c rp = Done rp' rep \<Longrightarrow> from_buffer bref (Some (rep, ks))"
  "parser_move bref data len c rp = Bulk rp' rep \<Longrightarrow> from_buffer bref (Some (rep, ks))"
  "parser_move bref data len c rp = Open rp' rep \<Longrightarrow> from_buffer bref (Some (rep, ks))"
  by (auto simp: parser_move_def Let_def from_buffer_def a_reply_def split: if_splits)

lemma pure_do_from_buffer:
  assumes "from_buffer bref pd"
  shows "case pure_do (parser_move bref data len c rp) rp pd of
      PContinue rp' pd' \<Rightarrow> from_buffer bref pd'
    | PReturn res rp' pd' out \<Rightarrow> from_buffer bref pd' \<and> from_buffer bref out"
  using assms move_from_buffer [of bref data len c rp]
  by (cases "parser_move bref data len c rp") (auto simp: Let_def from_buffer_def)

lemma pure_loop_from_buffer:
  "from_buffer bref pd \<Longrightarrow> pure_loop bref data len rp pd = (res, rp', pd', out) \<Longrightarrow>
   from_buffer bref pd' \<and> from_buffer bref out"
proof (induction bref data len rp pd rule: pure_loop.induct)
  case (1 bref data len rp pd)
  note run = pure_loop.simps [of bref data len rp pd]
  note d = pure_do_from_buffer [OF "1.prems"(1), of data len "data ! ps_p rp" rp]
  show ?case
  proof (cases "ps_p rp < len")
    case True
    show ?thesis
    proof (cases "pure_do (parser_move bref data len (data ! ps_p rp) rp) rp pd")
      case (PContinue rp1 pd1)
      with "1.IH" [OF True PContinue] d "1.prems"(2) True run show ?thesis by simp
    next
      case (PReturn res1 rp1 pd1 out1)
      with d "1.prems"(2) True run show ?thesis by simp
    qed
  qed (use "1.prems" run in simp)
qed

lemma understood_from_buffer:
  "understood bref data vs rp pd \<Longrightarrow> from_buffer bref pd \<and> (\<forall>v \<in> set vs. from_buffer bref (Some v))"
proof (induction rule: understood.induct)
  case (more vs rp pd len res rp' pd' out)
  from pure_loop_from_buffer [OF _ more.hyps(4)] more.IH show ?case by (cases out) auto
qed simp

section \<open>One command on a connection\<close>

text \<open>What a script gets for a view in a batch with received bytes \<open>data\<close>, \<open>None\<close> being a fatal error.\<close>

definition get_answer :: "string \<Rightarrow> view \<Rightarrow> zval option" where
  "get_answer data v =
     (case rep_type (fst v) of
        RT_BULK \<Rightarrow> Some (ZString (slice data (fst v)))
      | RT_BULK_NIL \<Rightarrow> Some ZNull
      | RT_ERROR \<Rightarrow> Some (ZBool False)
      | _ \<Rightarrow> None)"

definition set_answer :: "string \<Rightarrow> view \<Rightarrow> zval option" where
  "set_answer data v =
     (case rep_type (fst v) of
        RT_OK \<Rightarrow> Some (ZBool True)
      | RT_ERROR \<Rightarrow> Some (ZBool False)
      | _ \<Rightarrow> None)"

text \<open>The error a script can ask for afterwards.\<close>

definition error_after :: "batch \<Rightarrow> view \<Rightarrow> string \<Rightarrow> string" where
  "error_after bt v old = (if rep_type (fst v) = RT_ERROR
     then (case bt_error bt of None \<Rightarrow> [] | Some e \<Rightarrow> take MAX_ERROR_SIZE (cstr (Buffer_data e))) else old)"

lemma reply_text_ok:
  assumes b: "w_batches (ph_world st) b = Some bt" "writable (bt_read_buffer bt)"
    and r: "replies_ok (ReadBuffer b) (bf_position (bt_read_buffer bt)) h L" "rh_replies h r = Some rep"
      "rep_buffer rep = Some (ReadBuffer b)"
  shows "reply_text (Some (ReadBuffer b, rep_offset rep)) (rep_len rep) st = Inr (slice (contents (bt_read_buffer bt)) rep)"
proof -
  have le: "rep_offset rep + rep_len rep \<le> bf_position (bt_read_buffer bt)"
    using r by (auto simp: replies_ok_def reply_ok_def)
  have ok: "buffer_ok (bt_read_buffer bt)" using b(2) by (simp add: writable_def)
  have "bf_position (bt_read_buffer bt) \<le> length (Buffer_data (bt_read_buffer bt))"
    using ok length_Buffer_data [OF ok] by (simp add: buffer_ok_def)
  moreover have "slice (contents (bt_read_buffer bt)) rep = take (rep_len rep) (drop (rep_offset rep) (Buffer_data (bt_read_buffer bt)))"
    using le by (simp add: slice_def contents_def drop_take min_def take_take)
  ultimately show ?thesis using b(1) le
    by (simp add: reply_text_def reply_block_def get_batch_def)
qed

lemma queue_view_single:
  assumes "queue_views b h L = [v]" "reply_heap h B L" "b \<in> B"
  shows "\<exists>r. L (RQueue b) = [RLink r] \<and> rh_replies h r = Some (fst v)"
proof -
  from assms(1) obtain n where n: "L (RQueue b) = [n]" "v = reply_view h L (link_id n)"
    by (auto simp: queue_views_def)
  have "RQueue b \<in> heads h B" using assms(3) by simp
  from queue_node [OF assms(2) this, of n] n show ?thesis by (auto simp: reply_view_def)
qed



lemma next_reply_single:
  assumes rh: "reply_heap h B L" and b: "bt_id bt \<in> B" and sh: "showable h L"
    and q: "L (RQueue (bt_id bt)) = [RLink r]" "rh_replies h r = Some rep"
    and it: "bt_sp bt = 0" "bt_current bt = [Some (RQueue (bt_id bt)), Some (RQueue (bt_id bt)), x2, x3]"
  shows "\<exists>c sp. Batch_next_reply True bt h = Inr (1, Some (snd (shown 1 rep)), bt\<lparr>bt_sp := sp, bt_current := c\<rparr>, h)"
proof -
  have "iter_at bt h L (concat (map (flat h L) (L (RQueue (bt_id bt)))))" by (rule serves_end [OF it])
  moreover have "concat (map (flat h L) (L (RQueue (bt_id bt)))) = shown 1 rep # tl (flat h L (RLink r))"
    using q by (simp add: flat_def reply_at_def)
  ultimately have "serves bt h L (shown 1 rep # tl (flat h L (RLink r))) (Batch_next_reply True bt h)"
    using next_reply_serves [OF rh b sh] by metis
  moreover have "fst (shown 1 rep) = 1" by (simp add: shown_def)
  ultimately show ?thesis unfolding serves_def Let_def list.case by metis
qed

lemma free_batch_ok:
  assumes st: "w_batches (ph_world st) b = Some bt" "bt_id bt = b"
    and h: "reply_heap (w_heap (ph_world st)) B L" "b \<in> B" "shaped (w_heap (ph_world st)) L"
  shows "\<exists>h' L'. free_batch (Some b) st = Inr (st\<lparr>ph_world := (ph_world st)\<lparr>w_heap := h', w_batches := (w_batches (ph_world st))(b := None)\<rparr>\<rparr>) \<and>
    reply_heap h' (B - {b}) L' \<and> shaped h' L' \<and> rh_replies h' \<subseteq>\<^sub>m rh_replies (w_heap (ph_world st)) \<and>
    (\<forall>b' \<in> B - {b}. queue_at b' h' = queue_at b' (w_heap (ph_world st)))"
proof -
  let ?h = "w_heap (ph_world st)"
  have qh: "RQueue b \<in> heads ?h B" using h(2) by simp
  have "set (L (RQueue b)) \<subseteq> RLink ` dom (rh_replies ?h)" using h(1) qh unfolding reply_heap_def by blast
  then have "map (\<lambda>n. RLink (link_id n)) (L (RQueue b)) = L (RQueue b)" by (intro map_idI) auto
  then have "L (RQueue b) = map RLink (map link_id (L (RQueue b)))" by (simp add: comp_def)
  then obtain rs where rs: "L (RQueue (bt_id bt)) = map RLink rs" using st(2) by metis
  from Batch_free_heap [OF h(1) _ rs] st(2) h(2) obtain h' where
    f: "Batch_free bt ?h = Inr h'" "reply_heap h' (B - {b}) (L(RQueue b := []))" "rh_replies h' = (rh_replies ?h) |` (- set rs)" by auto
  have kept: "link_id n \<notin> set rs" if r: "rh_replies ?h r = Some rep" and n: "n \<in> set (L (RChildren r))" for r rep n
  proof -
    have rc: "RChildren r \<in> heads ?h B" using r by auto
    from queue_node [OF h(1) rc n] obtain r' where "n = RLink r'" by blast
    with links.disjoint_law [OF reply_heap_rings [OF h(1)] qh rc] n rs st(2) show ?thesis by (auto simp: ring_nodes_def)
  qed
  have "shaped h' (L(RQueue b := []))"
    unfolding shaped_def
  proof (intro allI impI)
    fix r rep assume "rh_replies h' r = Some rep"
    then have r: "rh_replies ?h r = Some rep" "r \<notin> set rs" by (auto simp: f(3) restrict_map_def split: if_splits)
    have "the (rh_replies h' (link_id n)) = the (rh_replies ?h (link_id n))" if "n \<in> set (L (RChildren r))" for n
      using kept [OF r(1) that] by (simp add: f(3))
    with h(3) r(1) show "(rep_type rep \<in> {RT_OK, RT_ERROR, RT_BULK, RT_INTEGER} \<longrightarrow> rep_buffer rep \<noteq> None) \<and>
      (rep_type rep \<noteq> RT_MULTIBULK \<longrightarrow> (L(RQueue b := [])) (RChildren r) = []) \<and>
      (\<forall>n \<in> set ((L(RQueue b := [])) (RChildren r)). rep_type (the (rh_replies h' (link_id n))) \<in> {RT_BULK, RT_BULK_NIL})"
      unfolding shaped_def by simp
  qed
  moreover have "rh_replies h' \<subseteq>\<^sub>m rh_replies ?h" by (auto simp: f(3) map_le_def restrict_map_def)
  moreover have "queue_at b' h' = queue_at b' ?h" if b': "b' \<in> B - {b}" for b'
  proof (rule queue_at_other [OF h(1) f(2)])
    have q': "RQueue b' \<in> heads ?h B" using b' by simp
    have "reply_view h' (L(RQueue b := [])) (link_id n) = reply_view ?h L (link_id n)" if n: "n \<in> set (L (RQueue b'))" for n
    proof -
      from queue_node [OF h(1) q' n] obtain r rep where r: "n = RLink r" "rh_replies ?h r = Some rep" by blast
      have "r \<notin> set rs" using links.disjoint_law [OF reply_heap_rings [OF h(1)] qh q'] n r(1) rs st(2) b' by (auto simp: ring_nodes_def)
      moreover have "the (rh_replies h' (link_id x)) = the (rh_replies ?h (link_id x))" if "x \<in> set (L (RChildren r))" for x
        using kept [OF r(2) that] by (simp add: f(3))
      ultimately show ?thesis using r by (simp add: reply_view_def f(3))
    qed
    then show "queue_views b' h' (L(RQueue b := [])) = queue_views b' ?h L" using b' by (simp add: queue_views_def)
  qed (use b' in auto)
  ultimately show ?thesis using f(1,2) st(1) by (auto simp: free_batch_def at_pointer_def)
qed

text \<open>The text of an error that a batch has ends with a null.\<close>

definition error_ended :: "batch \<Rightarrow> bool" where
  "error_ended bt \<longleftrightarrow> (\<forall>e. bt_error bt = Some e \<longrightarrow> CHR 0x00 \<in> set (Buffer_data e))"

lemma new_replies_ended: "new_replies b bt bt' cn vs es \<Longrightarrow> error_ended bt'"
proof -
  assume n: "new_replies b bt bt' cn vs es"
  have "CHR 0x00 \<in> set (Buffer_data e)" if e: "bt_error bt' = Some e" for e
  proof -
    have "\<exists>t. contents e = t @ [CHR 0x00]"
      using n e by (auto simp: new_replies_def error_replies_def split: if_splits)
    then have "CHR 0x00 \<in> set (contents e)" by auto
    then show ?thesis unfolding contents_def by (rule in_set_takeD)
  qed
  then show ?thesis by (simp add: error_ended_def)
qed

text \<open>What both methods do with the first reply.\<close>

definition answers ::
    "'t zend \<Rightarrow> (handle \<Rightarrow> int \<Rightarrow> reply_out \<Rightarrow> 't php \<Rightarrow> (zval \<times> 't php, 't) outcome) \<Rightarrow> (string \<Rightarrow> view \<Rightarrow> zval option) \<Rightarrow> bool" where
  "answers Z result answer \<longleftrightarrow>
     (\<forall>st b bt h L r (v :: view). w_batches (ph_world st) b = Some bt \<longrightarrow> writable (bt_read_buffer bt) \<longrightarrow>
        replies_ok (ReadBuffer b) (bf_position (bt_read_buffer bt)) h L \<longrightarrow> rh_replies h r = Some (fst v) \<longrightarrow>
        error_ended bt \<longrightarrow> (rep_type (fst v) = RT_BULK \<longrightarrow> rep_buffer (fst v) = Some (ReadBuffer b)) \<longrightarrow>
        result (Some b) 1 (snd (shown 1 (fst v))) st =
          (case answer (contents (bt_read_buffer bt)) v of
             Some z \<Rightarrow> Inr (z, st\<lparr>g_module_error := error_after bt v (g_module_error st)\<rparr>)
           | None \<Rightarrow> unexpected Z ''Unexpected reply type'' st))"

lemma batch_error_ok:
  fixes v :: view and st :: "'t php"
  shows "w_batches (ph_world st) b = Some bt \<Longrightarrow> error_ended bt \<Longrightarrow> rep_type (fst v) = RT_ERROR \<Longrightarrow>
   set_last_error_from_batch_error (Some b) st = Inr (st\<lparr>g_module_error := error_after bt v old\<rparr>)"
  by (auto simp: set_last_error_from_batch_error_def at_pointer_def Batch_error_def error_ended_def read_cstr_def
      error_after_def split: option.splits)

lemma same_error:
  fixes v :: view and st :: "'t php"
  shows "rep_type (fst v) \<noteq> RT_ERROR \<Longrightarrow> st\<lparr>g_module_error := error_after bt v (g_module_error st)\<rparr> = st"
  by (simp add: error_after_def)

lemma get_answers: "answers Z (get_result Z) get_answer"
  unfolding answers_def
proof (intro allI impI)
  fix st :: "'a php" and b bt h L r and v :: view
  assume a: "w_batches (ph_world st) b = Some bt" "writable (bt_read_buffer bt)"
    "replies_ok (ReadBuffer b) (bf_position (bt_read_buffer bt)) h L" "rh_replies h r = Some (fst v)" "error_ended bt"
    "rep_type (fst v) = RT_BULK \<longrightarrow> rep_buffer (fst v) = Some (ReadBuffer b)"
  note err = batch_error_ok [OF a(1,5), where v = v and old = "g_module_error st"]
  show "get_result Z (Some b) 1 (snd (shown 1 (fst v))) st =
      (case get_answer (contents (bt_read_buffer bt)) v of
         Some z \<Rightarrow> Inr (z, st\<lparr>g_module_error := error_after bt v (g_module_error st)\<rparr>)
       | None \<Rightarrow> unexpected Z ''Unexpected reply type'' st)"
  proof (cases "rep_type (fst v) = RT_ERROR")
    case True
    with err show ?thesis by (simp add: get_result_def get_answer_def shown_def)
  next
    case False
    note same = same_error [OF False, where st = st and bt = bt]
    show ?thesis
      unfolding same using False reply_text_ok [OF a(1-4)] a(6)
      by (cases "rep_type (fst v)") (simp_all add: get_result_def get_answer_def shown_def)
  qed
qed

lemma set_answers: "answers Z (set_result Z) set_answer"
  unfolding answers_def
proof (intro allI impI)
  fix st :: "'a php" and b bt h L r and v :: view
  assume a: "w_batches (ph_world st) b = Some bt" "error_ended bt"
  note err = batch_error_ok [OF a, where v = v and old = "g_module_error st"]
  show "set_result Z (Some b) 1 (snd (shown 1 (fst v))) st =
      (case set_answer (contents (bt_read_buffer bt)) v of
         Some z \<Rightarrow> Inr (z, st\<lparr>g_module_error := error_after bt v (g_module_error st)\<rparr>)
       | None \<Rightarrow> unexpected Z ''Unexpected reply type'' st)"
  proof (cases "rep_type (fst v) = RT_ERROR")
    case True
    with err show ?thesis by (simp add: set_result_def set_answer_def shown_def)
  next
    case False
    note same = same_error [OF False, where st = st and bt = bt]
    show ?thesis
      unfolding same using False by (cases "rep_type (fst v)") (simp_all add: set_result_def set_answer_def shown_def)
  qed
qed



text \<open>
  What a method leaves behind that returned: the batch it made is gone, all other batches are as they were with the replies
  in their queues, and so are all connections but \<open>c\<close>, the objects and the tables; the last error is \<open>err\<close>.
\<close>

definition left_behind :: "nat \<Rightarrow> connection \<Rightarrow> string \<Rightarrow> 't php \<Rightarrow> 't php \<Rightarrow> bool" where
  "left_behind c cn err st st' \<longleftrightarrow> world_ok (ph_world st') \<and>
     w_batches (ph_world st') = w_batches (ph_world st) \<and> w_conns (ph_world st') = (w_conns (ph_world st))(c \<mapsto> cn) \<and>
     (\<forall>b \<in> dom (w_batches (ph_world st)). queue_at b (w_heap (ph_world st')) = queue_at b (w_heap (ph_world st))) \<and>
     st' = st\<lparr>ph_world := ph_world st', g_module_error := err\<rparr>"

text \<open>The world when the script was ended in between: batch \<open>b\<close> is still allocated.\<close>

definition stopped :: "nat \<Rightarrow> nat \<Rightarrow> connection \<Rightarrow> 't php \<Rightarrow> world \<Rightarrow> bool" where
  "stopped b c cn st w \<longleftrightarrow> world_ok w \<and> (\<exists>bt. w_batches w = (w_batches (ph_world st))(b \<mapsto> bt)) \<and>
     w_conns w = (w_conns (ph_world st))(c \<mapsto> cn) \<and>
     (\<forall>b \<in> dom (w_batches (ph_world st)). queue_at b (w_heap w) = queue_at b (w_heap (ph_world st)))"

text \<open>How a method with the answer \<open>ans\<close> ends: it returns it, or the script is ended and its batch leaks.\<close>

definition ends_with ::
    "nat \<Rightarrow> nat \<Rightarrow> connection \<Rightarrow> zval option \<Rightarrow> string \<Rightarrow> 't php \<Rightarrow> (zval \<times> 't php, 't) outcome \<Rightarrow> bool" where
  "ends_with b c cn ans err st out \<longleftrightarrow>
     (case ans of
        Some z \<Rightarrow> \<exists>st'. out = Inr (z, st') \<and> left_behind c cn err st st'
      | None \<Rightarrow> \<exists>w. out = Inl (Halt ''Unexpected reply type'' (st\<lparr>ph_world := w\<rparr>)) \<and> stopped b c cn st w)"

text \<open>
  A command \<open>cmd\<close> was executed for the script in a batch of its own, with result \<open>x\<close>; afterwards the batch is
  \<open>bt\<close>, the connection \<open>cn\<close>, the world \<open>w'\<close>, and the queue of the batch holds \<open>v\<close>, a reply from its read buffer
  unless the connection was aborted.
\<close>

definition exchanged ::
    "kernel \<Rightarrow> nat \<Rightarrow> nat \<Rightarrow> int \<Rightarrow> string \<Rightarrow> world \<Rightarrow> int \<Rightarrow> world \<Rightarrow> batch \<Rightarrow> connection \<Rightarrow> view \<Rightarrow> bool" where
  "exchanged K c b t cmd w x w' bt cn v \<longleftrightarrow>
     (\<exists>bt0 w0 w1 L vs es. command_text bt0 = cmd \<and> bt_num_commands bt0 = 1 \<and>
        w_batches w0 = (w_batches w)(b \<mapsto> bt0) \<and> w_conns w0 = w_conns w \<and> w_os w0 = w_os w \<and>
        rh_replies (w_heap w0) = rh_replies (w_heap w) \<and> carried_out K c b t w0 bt0 x w1 w' L bt cn \<and>
        queue_views b (w_heap w') L = [v] \<and> [v] = vs @ es \<and> new_replies b bt0 bt cn vs es)"

text \<open>
  How a method ends whose command was executed: a failed \<open>poll\<close> ends the script, a timeout is reported with \<open>false\<close>,
  and otherwise the answer is \<open>ans\<close>.
\<close>

definition call_ends ::
    "nat \<Rightarrow> nat \<Rightarrow> int \<Rightarrow> world \<Rightarrow> batch \<Rightarrow> connection \<Rightarrow> view \<Rightarrow> zval option \<Rightarrow> 't php \<Rightarrow> (zval \<times> 't php, 't) outcome \<Rightarrow> bool" where
  "call_ends b c x w' bt cn v ans st out \<longleftrightarrow>
     (if x < 0 then out = Inl (Halt (Module_last_error (w_heap w')) (st\<lparr>ph_world := w'\<rparr>)) \<and> stopped b c cn st w'
      else if x = 0
      then ends_with b c cn (Some (ZBool False)) (take MAX_ERROR_SIZE (Module_last_error (w_heap w'))) st out
      else ends_with b c cn ans (error_after bt v (g_module_error st)) st out)"

lemma one_command_ok:
  fixes st :: "'t php" and t :: "int option"
  defines "timeout \<equiv> (case t of None \<Rightarrow> DEFAULT_TIMEOUT_MS | Some x \<Rightarrow> x)"
  assumes K: "kernel_ok K f" "clock_ok K" "timeout_ok (wrap32 timeout)" "time_passes K (calls (ph_world st)) (wrap32 timeout)"
    and raw: "length (ex_pairs raw) = MAX_PAIRS" "length (ex_fds raw) = MAX_PAIRS"
    and w: "world_ok (ph_world st)" "w_batches (ph_world st) b = None" "unread b (w_heap (ph_world st))"
    and hd: "ph_objects st this = Some ob" "ob_handle ob = Some c" "w_conns (ph_world st) c \<noteq> None"
    and Z: "\<And>msg. zend_halts Z msg"
    and wr: "\<And>bt m. writable (bt_write_buffer bt) \<Longrightarrow> allocator_ok m \<Longrightarrow> command_text bt = [] \<Longrightarrow> appends bt m cmd 1 (write bt m)"
    and res: "answers Z result answer"
  shows "\<exists>x w' bt cn v. exchanged K c b (wrap32 timeout) cmd (ph_world st) x w' bt cn v \<and>
    call_ends b c x w' bt cn v (answer (contents (bt_read_buffer bt)) v) st (one_command Z K raw b write result this t st)"
proof -
  let ?w = "ph_world st" and ?B = "dom (w_batches (ph_world st))"
  from w(1) obtain L where L: "reply_heap (w_heap ?w) ?B L" "shaped (w_heap ?w) L" and idle: "conns_idle ?w"
    by (auto simp: world_ok_def)
  from Batch_new_ok [OF L(1), of b] w(2) obtain bt1 h1 where
    n: "Batch_new b (w_heap ?w) = Inr (bt1, h1)" "bt_id bt1 = b" "batch_ok bt1 h1 (insert b ?B) (L(RQueue b := []))"
      "bt_num_commands bt1 = 0" "command_text bt1 = []" "contents (bt_read_buffer bt1) = []" "bt_error bt1 = None"
      "bf_capacity (bt_read_buffer bt1) = 12288" "bt_sp bt1 = 0"
      "bt_current bt1 = [Some (RQueue b), Some (RQueue b), None, None]" "rh_replies h1 = rh_replies (w_heap ?w)"
    by (auto simp: domIff)
  have b1: "writable (bt_write_buffer bt1)" "writable (bt_read_buffer bt1)" "allocator_ok h1" "reply_heap h1 (insert b ?B) (L(RQueue b := []))"
    using n(3) by (simp_all add: batch_ok_def reply_heap_def)
  from wr [OF b1(1,3) n(5)] obtain wb h2 where
    a: "write bt1 h1 = Inr (bt1\<lparr>bt_write_buffer := wb, bt_num_commands := 1\<rparr>, h2)" "writable wb" "contents wb = cmd"
      "allocator_ok h2" "module.more h2 = module.more h1"
    unfolding appends_def n(4,5) by (auto simp: wrap32_id)
  let ?bt = "bt1\<lparr>bt_write_buffer := wb, bt_num_commands := 1\<rparr>"
  define w2 where "w2 = put_batch b ?bt (?w\<lparr>w_heap := h2\<rparr>)"
  have w2: "w_heap w2 = h2" "w_batches w2 = (w_batches ?w)(b \<mapsto> ?bt)" "w_conns w2 = w_conns ?w" "w_os w2 = w_os ?w"
    by (simp_all add: w2_def put_batch_def)
  have dom2: "dom (w_batches w2) = insert b ?B" by (simp add: w2(2))
  note m2 = more_rheap [OF a(5)]
  have h2: "reply_heap (w_heap w2) (dom (w_batches w2)) (L(RQueue b := []))"
    unfolding w2(1) dom2 by (rule reply_heap_more [OF b1(4) a(5,4)])
  have sh2: "shaped (w_heap w2) (L(RQueue b := []))"
    unfolding w2(1) by (rule shaped_cong [OF L(2)]) (simp_all add: m2 n(11))
  have "bf_position (bt_read_buffer bt1) = 0"
    using n(6) b1(2) length_contents [of "bt_read_buffer bt1"] by (simp add: writable_def)
  then have un: "unexecuted b ?bt" using n b1 a(2) by (simp add: unexecuted_def writable_def int32_def)
  have s1: "new_batch b st = Inr (st\<lparr>ph_world := put_batch b bt1 (?w\<lparr>w_heap := h1\<rparr>)\<rparr>)" by (simp add: new_batch_def n(1))
  have s2: "with_batch (Some b) write (st\<lparr>ph_world := put_batch b bt1 (?w\<lparr>w_heap := h1\<rparr>)\<rparr>) = Inr (st\<lparr>ph_world := w2\<rparr>)"
    by (simp add: with_batch_def at_pointer_def put_batch_def a(1) w2_def)
  have s3: "get_handle this (st\<lparr>ph_world := w2\<rparr>) = Inr (Some c)" using hd(1,2) by (simp add: get_handle_def)
  have p: "time_passes K (calls w2) (wrap32 timeout)" "conns_idle w2" "unread b (w_heap w2)" "w_conns w2 c \<noteq> None"
    "w_batches w2 b = Some ?bt" "0 < bt_num_commands ?bt" "(L(RQueue b := [])) (RQueue b) = []"
    using K(4) idle w(3) hd(3) by (simp_all add: w2 calls_def conns_idle_def conn_idle_def addr_of_def unread_def m2 n(11))
  from execute_simple_ok [OF K(1-3) p(1) raw h2 sh2 p(2-5) un p(6,7), where 't = 't] obtain x w1 w' L' bt' cn where
    e: "carried_out K c b (wrap32 timeout) w2 ?bt x w1 w' L' bt' cn"
      "\<forall>Z (st :: 't php). ph_world st = w2 \<longrightarrow> Connection_execute_simple Z K raw (Some c) (Some b) timeout st =
         bindP (if x < 0 then zend_error Z (Module_last_error (w_heap w')) (st\<lparr>ph_world := w'\<rparr>) else Inr ())
         (\<lambda>_. Inr (x, st\<lparr>ph_world := w'\<rparr>))"
    by (elim exE conjE) (rule that)
  have ex: "Connection_execute_simple Z K raw (Some c) (Some b) timeout (st\<lparr>ph_world := w2\<rparr>) =
      (if x < 0 then Inl (Halt (Module_last_error (w_heap w')) (st\<lparr>ph_world := w'\<rparr>)) else Inr (x, st\<lparr>ph_world := w'\<rparr>))"
    using e(2) [rule_format, of "st\<lparr>ph_world := w2\<rparr>" Z] Z by (simp add: zend_error_def)
  let ?out = "one_command Z K raw b write result this t st"
  have run: "?out = (if x < 0 then Inl (Halt (Module_last_error (w_heap w')) (st\<lparr>ph_world := w'\<rparr>))
      else bindP (if x \<noteq> 0
             then bindP (php_next_reply (Some b) (st\<lparr>ph_world := w'\<rparr>)) (\<lambda>(level, reply, st4). result (Some b) level reply st4)
             else Inr (ZBool False, set_last_error_from_global_error (st\<lparr>ph_world := w'\<rparr>))) (\<lambda>(v, st5).
      bindP (free_batch (Some b) st5) (\<lambda>st6. Inr (v, st6))))"
    by (simp add: one_command_def Let_def s1 s2 s3 timeout_def [symmetric] ex)
  note co = e(1) [unfolded carried_out_def]
  obtain vs es rp pd where v: "understood (ReadBuffer b) (contents (bt_read_buffer bt')) vs rp pd"
    "queue_views b (w_heap w') L' = vs @ es" "new_replies b ?bt bt' cn vs es" using co by blast
  have f: "reply_heap (w_heap w') (dom (w_batches w')) L'" "shaped (w_heap w') L'" "conns_idle w'"
    "replies_ok (ReadBuffer b) (bf_position (bt_read_buffer bt')) (w_heap w') L'" "bt_id bt' = b" "writable (bt_read_buffer bt')"
    using co by blast+
  have g: "w_batches w' = (w_batches ?w)(b \<mapsto> bt')" "w_conns w' = (w_conns ?w)(c \<mapsto> cn)"
    "bt_sp bt' = 0" "bt_current bt' = [Some (RQueue b), Some (RQueue b), None, None]"
    using co n(9,10) by (simp_all add: w2)
  have bB: "b \<in> dom (w_batches w')" "w_batches w' b = Some bt'" using g(1) by auto
  have "length (vs @ es) = Suc 0" using v(3) by (simp add: new_replies_def)
  then obtain u where u: "vs @ es = [u]" unfolding length_Suc_conv length_0_conv by blast
  have same2: "rh_replies (w_heap w2) = rh_replies (w_heap ?w)" using m2 n(11) by (simp add: w2(1))
  have xch: "exchanged K c b (wrap32 timeout) cmd ?w x w' bt' cn u"
    unfolding exchanged_def using e(1) a(3) w2 same2 v u
    by - (rule exI [of _ ?bt], rule exI [of _ w2], rule exI [of _ w1], rule exI [of _ L'], rule exI [of _ vs], rule exI [of _ es],
      simp add: command_text_def)
  have q2: "queue_at b' (w_heap w2) = queue_at b' (w_heap ?w)" if b': "b' \<in> ?B" for b'
  proof (rule queue_at_other [OF L(1) h2 b'])
    have "b' \<noteq> b" using b' w(2) by auto
    then show "queue_views b' (w_heap w2) (L(RQueue b := [])) = queue_views b' (w_heap ?w) L"
      by (simp add: queue_views_def reply_view_def same2)
  qed (use b' in \<open>simp add: w2(2)\<close>)
  have q': "queue_at b' (w_heap w') = queue_at b' (w_heap ?w)" if b': "b' \<in> ?B" for b'
  proof -
    have "b' \<in> dom (w_batches w2) - {b}" using b' w(2) unfolding dom2 by auto
    then have "queue_at b' (w_heap w') = queue_at b' (w_heap w2)" using co by blast
    with q2 [OF b'] show ?thesis by simp
  qed
  from queue_view_single [OF _ f(1) bB(1), of u] v(2) u obtain r where
    r: "L' (RQueue b) = [RLink r]" "rh_replies (w_heap w') r = Some (fst u)" by auto
  have freed: "\<exists>st'. bindP (free_batch (Some b) (st\<lparr>ph_world := w'\<lparr>w_batches := (w_batches w')(b \<mapsto> bt2)\<rparr>, g_module_error := err\<rparr>))
      (\<lambda>st6. Inr (z, st6)) = Inr (z, st') \<and> left_behind c cn err st st'" if id: "bt_id bt2 = b" for bt2 err and z :: zval
  proof -
    let ?W = "w'\<lparr>w_batches := (w_batches w')(b \<mapsto> bt2)\<rparr>"
    let ?st = "st\<lparr>ph_world := ?W, g_module_error := err\<rparr>"
    have p: "w_batches (ph_world ?st) b = Some bt2" "reply_heap (w_heap (ph_world ?st)) (dom (w_batches w')) L'"
      "shaped (w_heap (ph_world ?st)) L'" using f(1,2) by simp_all
    from free_batch_ok [OF p(1) id p(2) bB(1) p(3)] obtain h' L'' where
      h': "free_batch (Some b) ?st = Inr (?st\<lparr>ph_world := (ph_world ?st)\<lparr>w_heap := h', w_batches := (w_batches (ph_world ?st))(b := None)\<rparr>\<rparr>)"
        "reply_heap h' (dom (w_batches w') - {b}) L''" "shaped h' L''"
        "\<forall>b' \<in> dom (w_batches w') - {b}. queue_at b' h' = queue_at b' (w_heap (ph_world ?st))" by blast
    let ?w6 = "w'\<lparr>w_heap := h', w_batches := w_batches ?w\<rparr>"
    have ub: "(w_batches ?w)(b := None) = w_batches ?w" using w(2) by (simp add: fun_upd_idem)
    have db: "dom (w_batches w') - {b} = dom (w_batches ?w)" using w(2) g(1) by auto
    have e6: "free_batch (Some b) ?st = Inr (st\<lparr>ph_world := ?w6, g_module_error := err\<rparr>)"
      unfolding h'(1) by (simp add: g(1) ub)
    have "conns_idle ?w6" using f(3) by (simp add: conns_idle_def conn_idle_def calls_def addr_of_def)
    moreover have "\<exists>L. reply_heap (w_heap ?w6) (dom (w_batches ?w6)) L \<and> shaped (w_heap ?w6) L" using h'(2,3) unfolding db by auto
    ultimately have "world_ok ?w6" using w(1) by (simp add: world_ok_def)
    moreover have "queue_at b' h' = queue_at b' (w_heap ?w)" if "b' \<in> ?B" for b'
      using h'(4) q' [OF that] that unfolding db by simp
    ultimately have "left_behind c cn err st (st\<lparr>ph_world := ?w6, g_module_error := err\<rparr>)" by (simp add: left_behind_def g(2))
    with e6 show ?thesis by simp
  qed
  have stop: "stopped b c cn st (w'\<lparr>w_batches := (w_batches w')(b \<mapsto> bt2)\<rparr>)" if id: "bt_id bt2 = b" for bt2
  proof -
    let ?W = "w'\<lparr>w_batches := (w_batches w')(b \<mapsto> bt2)\<rparr>"
    have "dom (w_batches ?W) = dom (w_batches w')" using bB(1) by auto
    then have "\<exists>L. reply_heap (w_heap ?W) (dom (w_batches ?W)) L \<and> shaped (w_heap ?W) L" using f(1,2) by auto
    moreover have "conns_idle ?W" using f(3) by (simp add: conns_idle_def conn_idle_def calls_def addr_of_def)
    ultimately have "world_ok ?W" using w(1) id unfolding world_ok_def by (auto simp: g(1) split: if_splits)
    then show ?thesis using q' by (auto simp: stopped_def g)
  qed
  have same: "w'\<lparr>w_batches := (w_batches w')(b \<mapsto> bt')\<rparr> = w'" using bB(2) by (simp add: fun_upd_idem)
  have sh: "showable (w_heap w') L'" by (rule shaped_showable [OF f(2,1)])
  from next_reply_single [OF f(1) _ sh, of bt' r "fst u"] f(5) bB(1) r g(3,4) obtain cur sp where
    nr: "Batch_next_reply True bt' (w_heap w') = Inr (1, Some (snd (shown 1 (fst u))), bt'\<lparr>bt_sp := sp, bt_current := cur\<rparr>, w_heap w')"
    by auto
  let ?bt4 = "bt'\<lparr>bt_sp := sp, bt_current := cur\<rparr>"
  let ?w4 = "w'\<lparr>w_batches := (w_batches w')(b \<mapsto> ?bt4)\<rparr>"
  have pn: "php_next_reply (Some b) (st\<lparr>ph_world := w'\<rparr>) = Inr (1, snd (shown 1 (fst u)), st\<lparr>ph_world := ?w4\<rparr>)"
    using bB(2) nr by (simp add: php_next_reply_def at_pointer_def put_batch_def)
  have data: "rep_type (fst u) = RT_BULK \<longrightarrow> rep_buffer (fst u) = Some (ReadBuffer b)"
  proof
    assume ty: "rep_type (fst u) = RT_BULK"
    have "u \<notin> set es" using v(3) ty by (auto simp: new_replies_def error_replies_def error_reply_def split: if_splits)
    with u have "u \<in> set vs" by (metis Un_iff list.set_intros(1) set_append)
    with understood_from_buffer [OF v(1)] ty show "rep_buffer (fst u) = Some (ReadBuffer b)"
      by (cases u) (auto simp: from_buffer_def)
  qed
  have an: "result (Some b) 1 (snd (shown 1 (fst u))) (st\<lparr>ph_world := ?w4\<rparr>) =
      (case answer (contents (bt_read_buffer bt')) u of
         Some z \<Rightarrow> Inr (z, st\<lparr>ph_world := ?w4, g_module_error := error_after bt' u (g_module_error st)\<rparr>)
       | None \<Rightarrow> unexpected Z ''Unexpected reply type'' (st\<lparr>ph_world := ?w4\<rparr>))"
  proof -
    have "error_ended ?bt4" "error_after ?bt4 u = error_after bt' u" "bt_read_buffer ?bt4 = bt_read_buffer bt'"
      using new_replies_ended [OF v(3)] by (simp_all add: error_ended_def error_after_def fun_eq_iff)
    with res [unfolded answers_def, rule_format, of "st\<lparr>ph_world := ?w4\<rparr>" b ?bt4 "w_heap w'" L' r u] f(4,6) r(2) data
    show ?thesis by (simp cong: option.case_cong)
  qed
  have "call_ends b c x w' bt' cn u (answer (contents (bt_read_buffer bt')) u) st ?out"
  proof -
    consider "x < 0" | "x = 0" | "0 < x" by linarith
    then show ?thesis
    proof cases
      case 1
      with run stop [OF f(5)] same show ?thesis by (simp add: call_ends_def)
    next
      case 2
      let ?err = "take MAX_ERROR_SIZE (Module_last_error (w_heap w'))"
      from freed [OF f(5), of ?err "ZBool False"] same run 2 show ?thesis
        by (simp add: call_ends_def ends_with_def set_last_error_from_global_error_def)
    next
      case 3
      have out: "?out = bindP (result (Some b) 1 (snd (shown 1 (fst u))) (st\<lparr>ph_world := ?w4\<rparr>)) (\<lambda>(v, st5).
          bindP (free_batch (Some b) st5) (\<lambda>st6. Inr (v, st6)))"
        using run 3 by (simp add: pn)
      show ?thesis
      proof (cases "answer (contents (bt_read_buffer bt')) u")
        case None
        have "?out = Inl (Halt ''Unexpected reply type'' (st\<lparr>ph_world := ?w4\<rparr>))"
          unfolding out an None using Z by (simp add: unexpected_def zend_error_def)
        moreover have "stopped b c cn st ?w4" using stop [of ?bt4] f(5) by simp
        ultimately show ?thesis using 3 None unfolding call_ends_def ends_with_def by auto
      next
        case (Some z)
        have "bt_id ?bt4 = b" using f(5) by simp
        from freed [OF this, of "error_after bt' u (g_module_error st)" z] 3 show ?thesis
          unfolding call_ends_def ends_with_def Some out an by simp
      qed
    qed
  qed
  with xch show ?thesis
    by - (rule exI [of _ x], rule exI [of _ w'], rule exI [of _ bt'], rule exI [of _ cn], rule exI [of _ u], simp)
qed

text \<open>The answer in terms of what the server sent.\<close>

fun get_value :: "rvalue \<Rightarrow> zval option" where
  "get_value (VBulk (Some s)) = Some (ZString s)"
| "get_value (VBulk None) = Some ZNull"
| "get_value (VError s) = Some (ZBool False)"
| "get_value _ = None"

fun set_value :: "rvalue \<Rightarrow> zval option" where
  "set_value (VStatus s) = Some (ZBool True)"
| "set_value (VError s) = Some (ZBool False)"
| "set_value _ = None"

lemma answer_value:
  assumes "value_of data v = Some u"
  shows "get_answer data v = get_value u" "set_answer data v = set_value u"
  using assms by (cases v; cases "rep_type (fst v)"; force simp: get_answer_def set_answer_def)+

definition sent_values :: "batch \<Rightarrow> rvalue list \<Rightarrow> bool" where
  "sent_values bt ws \<longleftrightarrow> (\<forall>v \<in> set ws. sendable v) \<and> length (encode_all ws) < 2147483648 \<and>
     (\<exists>rest. contents (bt_read_buffer bt) @ rest = encode_all ws)"

lemma exchanged_value:
  assumes "exchanged K c b t cmd w x w' bt cn v" "cn_state cn \<noteq> CS_ABORTED" "sent_values bt ws"
  shows "ws \<noteq> [] \<and> value_of (contents (bt_read_buffer bt)) v = Some (hd ws)"
proof -
  from assms(1) obtain bt0 vs es where n: "[v] = vs @ es" "new_replies b bt0 bt cn vs es"
    unfolding exchanged_def by blast
  from assms(3) obtain rest where ws: "\<forall>v \<in> set ws. sendable v" "length (encode_all ws) < 2147483648"
    "contents (bt_read_buffer bt) @ rest = encode_all ws" unfolding sent_values_def by blast
  have "es = []" using n(2) assms(2) by (simp add: new_replies_def)
  then have vs: "vs = [v]" using n(1) by simp
  have "length vs \<le> length ws \<and> map (value_of (contents (bt_read_buffer bt))) vs = map Some (take (length vs) ws)"
    using n(2) ws unfolding new_replies_def by blast
  then show ?thesis unfolding vs by (cases ws) auto
qed

end
