(* ===== verification/Php_Process.thy ===== *)
theory Php_Process
  imports Php_Run
begin

text \<open>
  The life of a process that runs PHP scripts: the invariant that ties the hash tables of the extension
  \<open>php/ext/libredis/libredis.c\<close> and the objects of a script to the objects of the library, the methods that keep it,
  and the end of a request.
\<close>

section \<open>The tables of the engine\<close>

text \<open>Documented behaviour of the hash tables: each is a finite map, listed without duplicates.\<close>

definition zend_ok :: "'t zend \<Rightarrow> bool" where
  "zend_ok Z \<longleftrightarrow> (\<forall>msg. zend_halts Z msg) \<and> zh_find Z (zh_init Z) = (\<lambda>_. None) \<and>
     (\<forall>t k p. zh_find Z (zh_update Z t k p) = (zh_find Z t)(k \<mapsto> p)) \<and>
     (\<forall>t k. zh_find Z (zh_del Z t k) = (zh_find Z t)(k := None)) \<and>
     (\<forall>t. distinct (map fst (zh_items Z t)) \<and> map_of (zh_items Z t) = zh_find Z t)"

lemma zend_simps:
  assumes "zend_ok Z"
  shows "zend_halts Z msg" "zh_find Z (zh_init Z) = (\<lambda>_. None)" "zh_find Z (zh_update Z t k p) = (zh_find Z t)(k \<mapsto> p)"
    "zh_find Z (zh_del Z t k) = (zh_find Z t)(k := None)"
  using assms by (simp_all add: zend_ok_def)

text \<open>The table that has an entry for each object of a store, under its pointer.\<close>

definition entries :: "(nat \<Rightarrow> 'a option) \<Rightarrow> hkey \<Rightarrow> handle option" where
  "entries objs k = (case k of KText s \<Rightarrow> None | KPointer p \<Rightarrow> (case p of None \<Rightarrow> None | Some a \<Rightarrow> map_option (\<lambda>_. Some a) (objs a)))"

lemma entries_simps [simp]:
  "entries (\<lambda>_. None) = (\<lambda>_. None)"
  "entries (objs(a \<mapsto> x)) = (entries objs)(KPointer (Some a) \<mapsto> Some a)"
  "entries (objs(a := None)) = (entries objs)(KPointer (Some a) := None)"
  "entries objs (KPointer (Some a)) = map_option (\<lambda>_. Some a) (objs a)"
  by (auto simp: entries_def fun_eq_iff split: hkey.splits option.splits)

lemma entries_SomeD: "entries objs k = Some p \<Longrightarrow> \<exists>a x. k = KPointer (Some a) \<and> p = Some a \<and> objs a = Some x"
  by (auto simp: entries_def split: hkey.splits option.splits)

lemma entries_same: "objs a = Some x \<Longrightarrow> entries (objs(a \<mapsto> y)) = entries objs"
  by (auto simp: entries_def fun_eq_iff split: hkey.splits option.splits)

section \<open>The invariant of the process\<close>

text \<open>
  The tables have the batches in \<open>R\<close>, all hash rings and all executors; the connections that are
  kept for later requests exist.
\<close>

definition tables_ok :: "'t zend \<Rightarrow> nat set \<Rightarrow> 't php \<Rightarrow> bool" where
  "tables_ok Z R st \<longleftrightarrow>
     zh_find Z (g_batch st) = entries (w_batches (ph_world st) |` R) \<and>
     zh_find Z (g_ketama st) = entries (ph_ketamas st) \<and> zh_find Z (g_executor st) = entries (ph_executors st) \<and>
     (\<forall>k p. zh_find Z (g_connections st) k = Some p \<longrightarrow> (\<exists>c. p = Some c \<and> w_conns (ph_world st) c \<noteq> None))"

text \<open>
  An object of the script that has a handle refers to a live object of the library of its class, which only objects
  of connections share.
\<close>

definition refers :: "'t php \<Rightarrow> nat set \<Rightarrow> php_class \<Rightarrow> nat \<Rightarrow> bool" where
  "refers st R ce a = (case ce of
       KETAMA_CE \<Rightarrow> ph_ketamas st a \<noteq> None
     | EXECUTOR_CE \<Rightarrow> ph_executors st a \<noteq> None
     | CONNECTION_CE \<Rightarrow> w_conns (ph_world st) a \<noteq> None
     | BATCH_CE \<Rightarrow> a \<in> R
     | REDIS_CE \<Rightarrow> False)"

definition objects_ok :: "nat set \<Rightarrow> 't php \<Rightarrow> bool" where
  "objects_ok R st \<longleftrightarrow>
     (\<forall>ob x a. ph_objects st ob = Some x \<longrightarrow> ob_handle x = Some a \<longrightarrow> refers st R (ob_class x) a) \<and>
     (\<forall>ob x ob' x'. ph_objects st ob = Some x \<longrightarrow> ph_objects st ob' = Some x' \<longrightarrow> ob \<noteq> ob' \<longrightarrow>
        ob_class x = ob_class x' \<longrightarrow> ob_class x \<noteq> CONNECTION_CE \<longrightarrow> ob_handle x \<noteq> None \<longrightarrow> ob_handle x \<noteq> ob_handle x')"

text \<open>The batches in the table are those of the script; others leaked when a script was ended.\<close>

definition process_ok :: "'t zend \<Rightarrow> 't php \<Rightarrow> bool" where
  "process_ok Z st \<longleftrightarrow> world_ok (ph_world st) \<and>
     (\<exists>R \<subseteq> dom (w_batches (ph_world st)). tables_ok Z R st \<and> objects_ok R st)"

section \<open>The end of a request\<close>

lemma world_ok_heap:
  assumes "world_ok w" "module.more h = module.more (w_heap w)" "allocator_ok h"
  shows "world_ok (w\<lparr>w_heap := h\<rparr>)"
proof -
  from assms(1) obtain L where L: "reply_heap (w_heap w) (dom (w_batches w)) L" "shaped (w_heap w) L" by (auto simp: world_ok_def)
  have "reply_heap h (dom (w_batches w)) L" by (rule reply_heap_more [OF L(1) assms(2,3)])
  moreover have "shaped h L" by (rule shaped_cong [OF L(2)]) (simp_all add: more_rheap [OF assms(2)])
  moreover have "conns_idle (w\<lparr>w_heap := h\<rparr>) = conns_idle w" by (simp add: conns_idle_def conn_idle_def calls_def addr_of_def)
  ultimately show ?thesis using assms(1) by (auto simp: world_ok_def)
qed

lemma world_ok_alloc: "world_ok w \<Longrightarrow> allocator_ok (w_heap w)"
  by (auto simp: world_ok_def reply_heap_def)

lemma free_batch_world:
  assumes w: "world_ok (ph_world st)" and b: "w_batches (ph_world st) b = Some bt"
  shows "\<exists>w'. free_batch (Some b) st = Inr (st\<lparr>ph_world := w'\<rparr>) \<and> world_ok w' \<and>
    w_batches w' = (w_batches (ph_world st))(b := None) \<and> w_conns w' = w_conns (ph_world st)"
proof -
  let ?w = "ph_world st"
  from w obtain L where L: "reply_heap (w_heap ?w) (dom (w_batches ?w)) L" "shaped (w_heap ?w) L" by (auto simp: world_ok_def)
  have id: "bt_id bt = b" "b \<in> dom (w_batches ?w)" using w b by (auto simp: world_ok_def)
  from free_batch_ok [OF b id(1) L(1) id(2) L(2)] obtain h' L' where
    f: "free_batch (Some b) st = Inr (st\<lparr>ph_world := ?w\<lparr>w_heap := h', w_batches := (w_batches ?w)(b := None)\<rparr>\<rparr>)"
      "reply_heap h' (dom (w_batches ?w) - {b}) L'" "shaped h' L'" by blast
  let ?w' = "?w\<lparr>w_heap := h', w_batches := (w_batches ?w)(b := None)\<rparr>"
  have "conns_idle ?w' = conns_idle ?w" by (simp add: conns_idle_def conn_idle_def calls_def addr_of_def)
  moreover have "dom (w_batches ?w') = dom (w_batches ?w) - {b}" by auto
  ultimately have "world_ok ?w'" using w f(2,3) by (auto simp: world_ok_def)
  with f(1) show ?thesis by (intro exI [of _ ?w']) simp
qed

lemma Ketama_free_heap:
  assumes "allocator_ok (m :: 'a module_scheme)"
  shows "\<exists>m'. Ketama_free kt m = Inr m' \<and> allocator_ok m' \<and> module.more m' = module.more m"
proof -
  have free: "\<exists>m'. (if P then Alloc_free n m else Inr m) = Inr m' \<and> allocator_ok m' \<and> module.more m' = module.more m"
    if "allocator_ok m" for P n and m :: "'a module_scheme"
    using Alloc_free_ok [OF that, of n] that by auto
  from free [OF assms, of "kt_continuum kt \<noteq> None"] obtain m1 where
    m1: "(if kt_continuum kt \<noteq> None then Alloc_free (size_mul (size_mul (kt_numservers kt) sizeof_mcs) 160) m else Inr m) = Inr m1"
      "allocator_ok m1" "module.more m1 = module.more m" by blast
  from free [OF m1(2), of "kt_servers kt \<noteq> None"] obtain m2 where
    m2: "(if kt_servers kt \<noteq> None then Alloc_free (size_mul (kt_maxservers kt) sizeof_serverinfo) m1 else Inr m1) = Inr m2"
      "allocator_ok m2" "module.more m2 = module.more m1" by blast
  from Alloc_free_ok [OF m2(2), of sizeof_Ketama] obtain m3 where
    m3: "Alloc_free sizeof_Ketama m2 = Inr m3" "allocator_ok m3" "module.more m3 = module.more m2" by blast
  show ?thesis unfolding Ketama_free_def m1(1) bindE_Inr m2(1) using m3 m2(3) m1(3) by simp
qed

lemma free_ketama_world:
  assumes w: "world_ok (ph_world st)" and a: "ph_ketamas st a = Some kt"
  shows "\<exists>h'. free_ketama (Some a) st = Inr (st\<lparr>ph_world := (ph_world st)\<lparr>w_heap := h'\<rparr>, ph_ketamas := (ph_ketamas st)(a := None)\<rparr>) \<and>
    world_ok ((ph_world st)\<lparr>w_heap := h'\<rparr>)"
proof -
  from Ketama_free_heap [OF world_ok_alloc [OF w], of kt] obtain h' where
    h: "Ketama_free kt (w_heap (ph_world st)) = Inr h'" "allocator_ok h'" "module.more h' = module.more (w_heap (ph_world st))" by blast
  from world_ok_heap [OF w h(3,2)] show ?thesis
    using a h(1) by (intro exI [of _ h']) (simp add: free_ketama_def at_pointer_def put_heap_def)
qed

lemma free_executor_world:
  assumes w: "world_ok (ph_world st)" and a: "ph_executors st a = Some ex"
  shows "\<exists>h'. free_executor (Some a) st = Inr (st\<lparr>ph_world := (ph_world st)\<lparr>w_heap := h'\<rparr>, ph_executors := (ph_executors st)(a := None)\<rparr>) \<and>
    world_ok ((ph_world st)\<lparr>w_heap := h'\<rparr>)"
proof -
  from Alloc_free_ok [OF world_ok_alloc [OF w], of sizeof_Executor] obtain h' where
    h: "Alloc_free sizeof_Executor (w_heap (ph_world st)) = Inr h'" "allocator_ok h'" "module.more h' = module.more (w_heap (ph_world st))" by blast
  from world_ok_heap [OF w h(3,2)] show ?thesis
    using a h(1) by (intro exI [of _ h']) (simp add: free_executor_def at_pointer_def put_heap_def Executor_free_def)
qed

text \<open>A rule for the sweep over a table: \<open>J its st\<close> holds when the entries \<open>its\<close> are still to come.\<close>

lemma apply_free_rule:
  assumes step: "\<And>k p its st. J ((k, p) # its) st \<Longrightarrow>
      \<exists>st1. free p st = Inr st1 \<and> J its (upd (\<lambda>t. zh_del Z t k) st1)"
  shows "J its st \<Longrightarrow> \<exists>st'. apply_free upd free Z its st = Inr st' \<and> J [] st'"
proof (induction its arbitrary: st)
  case (Cons e its)
  obtain k p where e: "e = (k, p)" by fastforce
  from step [of k p its st] Cons.prems e obtain st1 where
    s: "free p st = Inr st1" "J its (upd (\<lambda>t. zh_del Z t k) st1)" by blast
  from Cons.IH [OF s(2)] s(1) e show ?case by simp
qed simp

lemma sweep_entry:
  assumes "distinct (map fst ((k, p) # its))" "map_of ((k, p) # its) = entries objs"
  shows "\<exists>a x. k = KPointer (Some a) \<and> p = Some a \<and> objs a = Some x"
    "distinct (map fst its)" "\<And>a. k = KPointer (Some a) \<Longrightarrow> map_of its = entries (objs(a := None))"
proof -
  have "entries objs k = Some p" using arg_cong [OF assms(2), of "\<lambda>m. m k"] by simp
  from entries_SomeD [OF this] show "\<exists>a x. k = KPointer (Some a) \<and> p = Some a \<and> objs a = Some x" .
  show "distinct (map fst its)" using assms(1) by simp
  show "map_of its = entries (objs(a := None))" if "k = KPointer (Some a)" for a
  proof -
    have "map_of its k = None" using assms(1) by (simp add: map_of_eq_None_iff)
    then have "(map_of ((k, p) # its))(k := None) = map_of its" by (simp add: fun_eq_iff)
    from this [unfolded assms(2)] show ?thesis using that by simp
  qed
qed


lemma entries_empty: "entries objs = (\<lambda>_. None) \<Longrightarrow> objs a = None"
proof -
  assume "entries objs = (\<lambda>_. None)"
  then have "entries objs (KPointer (Some a)) = None" by (rule fun_cong)
  then show ?thesis by simp
qed

lemma zend_items:
  assumes "zend_ok Z"
  shows "distinct (map fst (zh_items Z t))" "map_of (zh_items Z t) = zh_find Z t"
  using assms by (simp_all add: zend_ok_def)

lemma shutdown_Batch_ok:
  assumes Z: "zend_ok Z" and w: "world_ok (ph_world st)" and t: "zh_find Z (g_batch st) = entries (w_batches (ph_world st) |` R)"
  shows "\<exists>w' t'. shutdown_Batch Z st = Inr (st\<lparr>ph_world := w', g_batch := t'\<rparr>) \<and> world_ok w' \<and>
    w_batches w' = w_batches (ph_world st) |` (- R) \<and> w_conns w' = w_conns (ph_world st) \<and> zh_find Z t' = (\<lambda>_. None)"
proof -
  define J where "J = (\<lambda>its st'. \<exists>w' t' S. st' = st\<lparr>ph_world := w', g_batch := t'\<rparr> \<and> world_ok w' \<and>
    w_conns w' = w_conns (ph_world st) \<and> S \<subseteq> R \<and> w_batches w' = w_batches (ph_world st) |` (- (R - S)) \<and>
    distinct (map fst its) \<and> map_of its = entries (w_batches w' |` S) \<and> zh_find Z t' = entries (w_batches w' |` S))"
  have "\<exists>st'. apply_free g_batch_update free_batch Z (zh_items Z (g_batch st)) st = Inr st' \<and> J [] st'"
  proof (rule apply_free_rule)
    have "st = st\<lparr>ph_world := ph_world st, g_batch := g_batch st\<rparr>" by simp
    moreover have "w_batches (ph_world st) = w_batches (ph_world st) |` (- (R - R))" by (simp add: restrict_map_def)
    ultimately show "J (zh_items Z (g_batch st)) st"
      unfolding J_def using w t zend_items [OF Z, of "g_batch st"]
      by - (rule exI [of _ "ph_world st"], rule exI [of _ "g_batch st"], rule exI [of _ R], simp)
  next
    fix k p its st1 assume "J ((k, p) # its) st1"
    then obtain w' t' S where j: "st1 = st\<lparr>ph_world := w', g_batch := t'\<rparr>" "world_ok w'" "w_conns w' = w_conns (ph_world st)" "S \<subseteq> R"
      "w_batches w' = w_batches (ph_world st) |` (- (R - S))" "distinct (map fst ((k, p) # its))"
      "map_of ((k, p) # its) = entries (w_batches w' |` S)" "zh_find Z t' = entries (w_batches w' |` S)" unfolding J_def by blast
    note e = sweep_entry [OF j(6,7)]
    from e(1) obtain a x where a: "k = KPointer (Some a)" "p = Some a" "(w_batches w' |` S) a = Some x" by blast
    then have ax: "a \<in> S" "w_batches (ph_world st1) a = Some x" by (auto simp: j(1) restrict_map_def split: if_splits)
    from free_batch_world [OF _ ax(2)] j(1,2) obtain w2 where
      f: "free_batch (Some a) st1 = Inr (st1\<lparr>ph_world := w2\<rparr>)" "world_ok w2" "w_batches w2 = (w_batches w')(a := None)"
        "w_conns w2 = w_conns w'" by auto
    have m: "(w_batches w' |` S)(a := None) = w_batches w2 |` (S - {a})" unfolding f(3) by (auto simp: fun_eq_iff restrict_map_def)
    have mi: "map_of its = entries (w_batches w2 |` (S - {a}))" using e(3) [OF a(1)] unfolding m .
    have zt: "zh_find Z (zh_del Z t' k) = entries (w_batches w2 |` (S - {a}))"
      unfolding m [symmetric] entries_simps(3) zend_simps(4) [OF Z] j(8) a(1) by (rule refl)
    have S: "S - {a} \<subseteq> R" using j(4) by blast
    have r: "w_batches w2 = w_batches (ph_world st) |` (- (R - (S - {a})))" unfolding f(3) j(5) using ax(1) j(4)
      by (auto simp: fun_eq_iff restrict_map_def)
    have "J its (st\<lparr>ph_world := w2, g_batch := zh_del Z t' k\<rparr>)"
      unfolding J_def using f(2) trans [OF f(4) j(3)] S r mi zt e(2)
      by - (rule exI [of _ w2], rule exI [of _ "zh_del Z t' k"], rule exI [of _ "S - {a}"], rule conjI, rule refl, intro conjI)
    moreover have "g_batch_update (\<lambda>t. zh_del Z t k) (st1\<lparr>ph_world := w2\<rparr>) = st\<lparr>ph_world := w2, g_batch := zh_del Z t' k\<rparr>"
      by (cases st) (simp add: j(1))
    ultimately show "\<exists>st2. free_batch p st1 = Inr st2 \<and> J its (g_batch_update (\<lambda>t. zh_del Z t k) st2)"
      unfolding a(2) f(1) by auto
  qed
  then obtain w' t' S where s: "shutdown_Batch Z st = Inr (st\<lparr>ph_world := w', g_batch := t'\<rparr>)" "world_ok w'"
    "w_conns w' = w_conns (ph_world st)" "S \<subseteq> R" "w_batches w' = w_batches (ph_world st) |` (- (R - S))"
    "entries (w_batches w' |` S) = (\<lambda>_. None)" "zh_find Z t' = entries (w_batches w' |` S)"
    unfolding J_def shutdown_Batch_def by auto
  have gone: "(w_batches w' |` S) a = None" for a by (rule entries_empty [OF s(6)])
  have "w_batches w' a = (w_batches (ph_world st) |` (- R)) a" for a
    using gone [of a] s(4) by (cases "a \<in> S") (auto simp: s(5) restrict_map_def)
  then have "w_batches w' = w_batches (ph_world st) |` (- R)" by (rule ext)
  with s show ?thesis by auto
qed

lemma shutdown_Ketama_ok:
  assumes Z: "zend_ok Z" and w: "world_ok (ph_world st)" and t: "zh_find Z (g_ketama st) = entries (ph_ketamas st)"
  shows "\<exists>h t'. shutdown_Ketama Z st = Inr (st\<lparr>ph_world := (ph_world st)\<lparr>w_heap := h\<rparr>, ph_ketamas := (\<lambda>_. None), g_ketama := t'\<rparr>) \<and>
    world_ok ((ph_world st)\<lparr>w_heap := h\<rparr>) \<and> zh_find Z t' = (\<lambda>_. None)"
proof -
  define J where "J = (\<lambda>its st'. \<exists>h t' ks. st' = st\<lparr>ph_world := (ph_world st)\<lparr>w_heap := h\<rparr>, ph_ketamas := ks, g_ketama := t'\<rparr> \<and>
    world_ok ((ph_world st)\<lparr>w_heap := h\<rparr>) \<and> distinct (map fst its) \<and> map_of its = entries ks \<and> zh_find Z t' = entries ks)"
  have "\<exists>st'. apply_free g_ketama_update free_ketama Z (zh_items Z (g_ketama st)) st = Inr st' \<and> J [] st'"
  proof (rule apply_free_rule)
    show "J (zh_items Z (g_ketama st)) st"
      unfolding J_def using w t zend_items [OF Z, of "g_ketama st"]
      by - (rule exI [of _ "w_heap (ph_world st)"], rule exI [of _ "g_ketama st"], rule exI [of _ "ph_ketamas st"], simp)
  next
    fix k p its st1 assume "J ((k, p) # its) st1"
    then obtain h t' ks where j: "st1 = st\<lparr>ph_world := (ph_world st)\<lparr>w_heap := h\<rparr>, ph_ketamas := ks, g_ketama := t'\<rparr>"
      "world_ok ((ph_world st)\<lparr>w_heap := h\<rparr>)" "distinct (map fst ((k, p) # its))"
      "map_of ((k, p) # its) = entries ks" "zh_find Z t' = entries ks" unfolding J_def by blast
    note e = sweep_entry [OF j(3,4)]
    from e(1) obtain a x where a: "k = KPointer (Some a)" "p = Some a" "ks a = Some x" by blast
    from free_ketama_world [of st1 a x] j(1,2) a(3) obtain h2 where
      f: "free_ketama (Some a) st1 = Inr (st1\<lparr>ph_world := (ph_world st)\<lparr>w_heap := h2\<rparr>, ph_ketamas := ks(a := None)\<rparr>)"
        "world_ok ((ph_world st)\<lparr>w_heap := h2\<rparr>)" by auto
    have "J its (st\<lparr>ph_world := (ph_world st)\<lparr>w_heap := h2\<rparr>, ph_ketamas := ks(a := None), g_ketama := zh_del Z t' k\<rparr>)"
      unfolding J_def using f(2) j(5) e(2) e(3) [OF a(1)] zend_simps(4) [OF Z] a(1)
      by - (rule exI [of _ h2], rule exI [of _ "zh_del Z t' k"], rule exI [of _ "ks(a := None)"], simp)
    moreover have "g_ketama_update (\<lambda>t. zh_del Z t k) (st1\<lparr>ph_world := (ph_world st)\<lparr>w_heap := h2\<rparr>, ph_ketamas := ks(a := None)\<rparr>) =
        st\<lparr>ph_world := (ph_world st)\<lparr>w_heap := h2\<rparr>, ph_ketamas := ks(a := None), g_ketama := zh_del Z t' k\<rparr>"
      by (cases st) (simp add: j(1))
    ultimately show "\<exists>st2. free_ketama p st1 = Inr st2 \<and> J its (g_ketama_update (\<lambda>t. zh_del Z t k) st2)"
      unfolding a(2) f(1) by auto
  qed
  then obtain h t' ks where s: "shutdown_Ketama Z st = Inr (st\<lparr>ph_world := (ph_world st)\<lparr>w_heap := h\<rparr>, ph_ketamas := ks, g_ketama := t'\<rparr>)"
    "world_ok ((ph_world st)\<lparr>w_heap := h\<rparr>)" "entries ks = (\<lambda>_. None)" "zh_find Z t' = entries ks"
    unfolding J_def shutdown_Ketama_def by auto
  have "ks = (\<lambda>_. None)" using entries_empty [OF s(3)] by (rule ext)
  with s show ?thesis by auto
qed

lemma shutdown_Executor_ok:
  assumes Z: "zend_ok Z" and w: "world_ok (ph_world st)" and t: "zh_find Z (g_executor st) = entries (ph_executors st)"
  shows "\<exists>h t'. shutdown_Executor Z st = Inr (st\<lparr>ph_world := (ph_world st)\<lparr>w_heap := h\<rparr>, ph_executors := (\<lambda>_. None), g_executor := t'\<rparr>) \<and>
    world_ok ((ph_world st)\<lparr>w_heap := h\<rparr>) \<and> zh_find Z t' = (\<lambda>_. None)"
proof -
  define J where "J = (\<lambda>its st'. \<exists>h t' ks. st' = st\<lparr>ph_world := (ph_world st)\<lparr>w_heap := h\<rparr>, ph_executors := ks, g_executor := t'\<rparr> \<and>
    world_ok ((ph_world st)\<lparr>w_heap := h\<rparr>) \<and> distinct (map fst its) \<and> map_of its = entries ks \<and> zh_find Z t' = entries ks)"
  have "\<exists>st'. apply_free g_executor_update free_executor Z (zh_items Z (g_executor st)) st = Inr st' \<and> J [] st'"
  proof (rule apply_free_rule)
    show "J (zh_items Z (g_executor st)) st"
      unfolding J_def using w t zend_items [OF Z, of "g_executor st"]
      by - (rule exI [of _ "w_heap (ph_world st)"], rule exI [of _ "g_executor st"], rule exI [of _ "ph_executors st"], simp)
  next
    fix k p its st1 assume "J ((k, p) # its) st1"
    then obtain h t' ks where j: "st1 = st\<lparr>ph_world := (ph_world st)\<lparr>w_heap := h\<rparr>, ph_executors := ks, g_executor := t'\<rparr>"
      "world_ok ((ph_world st)\<lparr>w_heap := h\<rparr>)" "distinct (map fst ((k, p) # its))"
      "map_of ((k, p) # its) = entries ks" "zh_find Z t' = entries ks" unfolding J_def by blast
    note e = sweep_entry [OF j(3,4)]
    from e(1) obtain a x where a: "k = KPointer (Some a)" "p = Some a" "ks a = Some x" by blast
    from free_executor_world [of st1 a x] j(1,2) a(3) obtain h2 where
      f: "free_executor (Some a) st1 = Inr (st1\<lparr>ph_world := (ph_world st)\<lparr>w_heap := h2\<rparr>, ph_executors := ks(a := None)\<rparr>)"
        "world_ok ((ph_world st)\<lparr>w_heap := h2\<rparr>)" by auto
    have "J its (st\<lparr>ph_world := (ph_world st)\<lparr>w_heap := h2\<rparr>, ph_executors := ks(a := None), g_executor := zh_del Z t' k\<rparr>)"
      unfolding J_def using f(2) j(5) e(2) e(3) [OF a(1)] zend_simps(4) [OF Z] a(1)
      by - (rule exI [of _ h2], rule exI [of _ "zh_del Z t' k"], rule exI [of _ "ks(a := None)"], simp)
    moreover have "g_executor_update (\<lambda>t. zh_del Z t k) (st1\<lparr>ph_world := (ph_world st)\<lparr>w_heap := h2\<rparr>, ph_executors := ks(a := None)\<rparr>) =
        st\<lparr>ph_world := (ph_world st)\<lparr>w_heap := h2\<rparr>, ph_executors := ks(a := None), g_executor := zh_del Z t' k\<rparr>"
      by (cases st) (simp add: j(1))
    ultimately show "\<exists>st2. free_executor p st1 = Inr st2 \<and> J its (g_executor_update (\<lambda>t. zh_del Z t k) st2)"
      unfolding a(2) f(1) by auto
  qed
  then obtain h t' ks where s: "shutdown_Executor Z st = Inr (st\<lparr>ph_world := (ph_world st)\<lparr>w_heap := h\<rparr>, ph_executors := ks, g_executor := t'\<rparr>)"
    "world_ok ((ph_world st)\<lparr>w_heap := h\<rparr>)" "entries ks = (\<lambda>_. None)" "zh_find Z t' = entries ks"
    unfolding J_def shutdown_Executor_def by auto
  have "ks = (\<lambda>_. None)" using entries_empty [OF s(3)] by (rule ext)
  with s show ?thesis by auto
qed

lemma RSHUTDOWN_ok:
  assumes Z: "zend_ok Z" and w: "world_ok (ph_world st)" and t: "tables_ok Z R st"
  shows "\<exists>st'. PHP_RSHUTDOWN Z st = Inr st' \<and> world_ok (ph_world st') \<and>
    w_batches (ph_world st') = w_batches (ph_world st) |` (- R) \<and> w_conns (ph_world st') = w_conns (ph_world st) \<and>
    ph_ketamas st' = (\<lambda>_. None) \<and> ph_executors st' = (\<lambda>_. None) \<and> zh_find Z (g_batch st') = (\<lambda>_. None) \<and>
    zh_find Z (g_ketama st') = (\<lambda>_. None) \<and> zh_find Z (g_executor st') = (\<lambda>_. None) \<and>
    g_connections st' = g_connections st \<and> ph_objects st' = ph_objects st"
proof -
  from shutdown_Batch_ok [OF Z w] t obtain w1 t1 where
    1: "shutdown_Batch Z st = Inr (st\<lparr>ph_world := w1, g_batch := t1\<rparr>)" "world_ok w1" "w_batches w1 = w_batches (ph_world st) |` (- R)"
      "w_conns w1 = w_conns (ph_world st)" "zh_find Z t1 = (\<lambda>_. None)" unfolding tables_ok_def by blast
  let ?s1 = "st\<lparr>ph_world := w1, g_batch := t1\<rparr>"
  from shutdown_Ketama_ok [OF Z, of ?s1] 1(2) t obtain h2 t2 where
    2: "shutdown_Ketama Z ?s1 = Inr (?s1\<lparr>ph_world := w1\<lparr>w_heap := h2\<rparr>, ph_ketamas := (\<lambda>_. None), g_ketama := t2\<rparr>)"
      "world_ok (w1\<lparr>w_heap := h2\<rparr>)" "zh_find Z t2 = (\<lambda>_. None)" unfolding tables_ok_def by auto
  let ?s2 = "?s1\<lparr>ph_world := w1\<lparr>w_heap := h2\<rparr>, ph_ketamas := (\<lambda>_. None), g_ketama := t2\<rparr>"
  from shutdown_Executor_ok [OF Z, of ?s2] 2(2) t obtain h3 t3 where
    3: "shutdown_Executor Z ?s2 = Inr (?s2\<lparr>ph_world := w1\<lparr>w_heap := h3\<rparr>, ph_executors := (\<lambda>_. None), g_executor := t3\<rparr>)"
      "world_ok (w1\<lparr>w_heap := h3\<rparr>)" "zh_find Z t3 = (\<lambda>_. None)" unfolding tables_ok_def by auto
  show ?thesis unfolding PHP_RSHUTDOWN_def 1(1) bindP_simps 2(1) 3(1) using 1 2 3 by simp
qed


section \<open>What calls of the library do to the heap\<close>

text \<open>Only the module record, the head of the heap, may change, and the allocator stays in order.\<close>

definition grown :: "'a module_scheme \<Rightarrow> 'a module_scheme \<Rightarrow> bool" where
  "grown m m' \<longleftrightarrow> module.more m' = module.more m \<and> (allocator_ok m \<longrightarrow> allocator_ok m')"

lemma grown_refl [simp]: "grown m m"
  by (simp add: grown_def)

lemma grown_trans [trans]: "grown m m1 \<Longrightarrow> grown m1 m2 \<Longrightarrow> grown m m2"
  by (simp add: grown_def)

lemma world_ok_grown: "world_ok w \<Longrightarrow> grown (w_heap w) h \<Longrightarrow> world_ok (w\<lparr>w_heap := h\<rparr>)"
  by (rule world_ok_heap) (auto simp: grown_def world_ok_def reply_heap_def)

lemma alloc_grown:
  "Alloc_alloc n m = Inr (p, m') \<Longrightarrow> grown m m'" "Alloc_realloc blk n k m = Inr (p, m') \<Longrightarrow> grown m m'"
  "Alloc_free n m = Inr m' \<Longrightarrow> grown m m'"
  by (auto simp: grown_def Alloc_alloc_def Alloc_realloc_def Alloc_free_def allocator_ok_def bindE_eq_Inr)

lemma error_grown [simp]: "grown m (Module_set_error text m)"
  by (simp add: grown_def Module_set_error_ok)

lemma Buffer_write_grown: "Buffer_write bf s n m = Inr (bf', m') \<Longrightarrow> grown m m'"
  by (auto simp: Buffer_write_def Buffer_ensure_remaining_def bindE_eq_Inr split: if_splits option.splits dest: alloc_grown)

text \<open>A call on a batch that keeps its address and does nothing else to the heap.\<close>

definition quiet :: "batch \<Rightarrow> 'a module_scheme \<Rightarrow> (batch \<times> 'a module_scheme) res \<Rightarrow> bool" where
  "quiet bt m res \<longleftrightarrow> (\<forall>bt' m'. res = Inr (bt', m') \<longrightarrow> bt_id bt' = bt_id bt \<and> grown m m')"

lemma quiet_Inr [simp]: "quiet bt m (Inr (bt, m))"
  by (simp add: quiet_def)

lemma quiet_bind:
  assumes "quiet bt m r" "\<And>bt1 m1. quiet bt1 m1 (g bt1 m1)"
  shows "quiet bt m (bindE r (\<lambda>(bt1, m1). g bt1 m1))"
  using assms unfolding quiet_def bindE_eq_Inr by (fastforce intro: grown_trans)

lemma quiet_write: "quiet bt m (Batch_write bt s n k m)"
  by (auto simp: quiet_def Batch_write_def bindE_eq_Inr split: if_splits dest: Buffer_write_grown)

lemma quiet_decimal: "quiet bt m (Batch_write_decimal bt d m)"
  by (simp add: Batch_write_decimal_def Let_def quiet_write)

lemma quiet_cmd_arg: "quiet bt m (cmd_arg s (bt, m))"
  unfolding cmd_arg_def prod.case by (intro quiet_bind quiet_write quiet_decimal)

lemma quiet_cmd_args: "quiet bt m (foldE cmd_arg ss (bt, m))"
proof (induction ss arbitrary: bt m)
  case (Cons s ss)
  have "quiet bt m (bindE (cmd_arg s (bt, m)) (\<lambda>(bt1, m1). foldE cmd_arg ss (bt1, m1)))"
    by (rule quiet_bind [OF quiet_cmd_arg Cons.IH])
  then show ?case by (simp add: case_prod_unfold)
qed simp

lemma quiet_calls:
  "quiet bt m (Batch_write_set bt key kn val vn m)" "quiet bt m (Batch_write_get bt key kn m)" "quiet bt m (cmd_write vs bt m)"
  unfolding Batch_write_set_def Batch_write_get_def cmd_write_def
  by (intro quiet_bind quiet_write quiet_decimal quiet_cmd_args)+

text \<open>\<open>Batch_next_reply\<close> only moves the iterator.\<close>

definition moved :: "batch \<Rightarrow> rheap \<Rightarrow> (int \<times> reply_out option \<times> batch \<times> rheap) res \<Rightarrow> bool" where
  "moved bt h res \<longleftrightarrow> (\<forall>l out bt' h'. res = Inr (l, out, bt', h') \<longrightarrow> bt_id bt' = bt_id bt \<and> h' = h)"

lemma moved_bind: "(\<And>x. moved bt h (g x)) \<Longrightarrow> moved bt h (bindE r g)"
  by (cases r) (simp_all add: moved_def)

lemma moved_Inr: "bt_id bt' = bt_id bt \<Longrightarrow> moved bt h (Inr (l, out, bt', h))"
  by (simp add: moved_def)

lemma moved_deliver: "bt_id bt1 = bt_id bt \<Longrightarrow> moved bt h (deliver_current n bt1 h)"
  unfolding deliver_current_def Let_def by (auto intro!: moved_bind moved_Inr)

lemma moved_next_reply: "moved bt h (Batch_next_reply True bt h)"
  unfolding Batch_next_reply_def Let_def by (auto intro!: moved_bind moved_Inr moved_deliver)

lemma Ketama_add_server_grown: "Ketama_add_server kt addr port weight m = Inr (x, kt', m') \<Longrightarrow> grown m m'"
  by (auto simp: Ketama_add_server_def server_store_def Let_def bindE_eq_Inr split: if_splits dest: alloc_grown intro: grown_trans)

lemma Ketama_create_continuum_grown: "Ketama_create_continuum qsort stk kt m = Inr (kt', m') \<Longrightarrow> grown m m'"
  by (auto simp: Ketama_create_continuum_def bindE_eq_Inr split: if_splits dest: alloc_grown)

section \<open>What the methods do to the tables and objects\<close>

lemma entries_dom: "dom objs = dom objs' \<Longrightarrow> entries objs = entries objs'"
proof -
  assume d: "dom objs = dom objs'"
  have "map_option (\<lambda>_. Some a) (objs a) = map_option (\<lambda>_. Some a) (objs' a)" for a
  proof -
    have "objs a = None \<longleftrightarrow> objs' a = None" using d by (metis domIff)
    then show ?thesis by (cases "objs a"; cases "objs' a") simp_all
  qed
  then show ?thesis unfolding entries_def by (auto simp: fun_eq_iff split: hkey.splits option.splits)
qed

lemma dom_restrict: "R \<subseteq> dom f \<Longrightarrow> R \<subseteq> dom g \<Longrightarrow> dom (f |` R) = dom (g |` R)"
  by auto

lemma process_same:
  assumes P: "process_ok Z st" and W: "world_ok (ph_world st')"
    and d: "dom (w_batches (ph_world st)) \<subseteq> dom (w_batches (ph_world st'))" "dom (w_conns (ph_world st)) \<subseteq> dom (w_conns (ph_world st'))"
      "dom (ph_ketamas st) = dom (ph_ketamas st')" "dom (ph_executors st) = dom (ph_executors st')"
    and t: "g_connections st' = g_connections st" "g_batch st' = g_batch st" "g_ketama st' = g_ketama st" "g_executor st' = g_executor st"
    and o: "ph_objects st' = ph_objects st"
  shows "process_ok Z st'"
proof -
  from P obtain R where R: "R \<subseteq> dom (w_batches (ph_world st))" "tables_ok Z R st" "objects_ok R st" unfolding process_ok_def by blast
  have R': "R \<subseteq> dom (w_batches (ph_world st'))" using R(1) d(1) by blast
  have "entries (w_batches (ph_world st) |` R) = entries (w_batches (ph_world st') |` R)"
    by (rule entries_dom [OF dom_restrict [OF R(1) R']])
  moreover have "w_conns (ph_world st) c \<noteq> None \<Longrightarrow> w_conns (ph_world st') c \<noteq> None" for c using d(2) by blast
  ultimately have "tables_ok Z R st'" using R(2) entries_dom [OF d(3)] entries_dom [OF d(4)] unfolding tables_ok_def t by metis
  moreover have "refers st R ce a \<Longrightarrow> refers st' R ce a" for ce a using d by (cases ce) (auto simp: refers_def dom_def set_eq_iff)
  then have "objects_ok R st'" using R(3) unfolding objects_ok_def o by blast
  ultimately show ?thesis using W R' unfolding process_ok_def by blast
qed

text \<open>A new object, and one whose destructor ran.\<close>

lemma objects_new:
  assumes R: "objects_ok R st" and ob: "ph_objects st ob = None"
    and st': "ph_objects st' = (ph_objects st)(ob \<mapsto> \<lparr>ob_class = ce, ob_handle = p\<rparr>)"
    and old: "\<And>ce a. refers st R ce a \<Longrightarrow> refers st' R' ce a"
    and new: "\<And>a. p = Some a \<Longrightarrow> refers st' R' ce a \<and> (ce = CONNECTION_CE \<or> \<not> refers st R ce a)"
  shows "objects_ok R' st'"
proof -
  have r: "ph_objects st x = Some y \<Longrightarrow> ob_handle y = Some a \<Longrightarrow> refers st R (ob_class y) a" for x y a
    using R by (simp add: objects_ok_def)
  have d: "ph_objects st x = Some y \<Longrightarrow> ph_objects st x' = Some y' \<Longrightarrow> x \<noteq> x' \<Longrightarrow> ob_class y = ob_class y' \<Longrightarrow>
      ob_class y \<noteq> CONNECTION_CE \<Longrightarrow> ob_handle y \<noteq> None \<Longrightarrow> ob_handle y \<noteq> ob_handle y'" for x y x' y'
    using R unfolding objects_ok_def by blast
  have n: "ph_objects st x = Some y \<Longrightarrow> ob_class y = ce \<Longrightarrow> ce \<noteq> CONNECTION_CE \<Longrightarrow> ob_handle y \<noteq> None \<Longrightarrow> ob_handle y \<noteq> p" for x y
    using r new by (cases p) fastforce+
  have "refers st' R' (ob_class y) a" if "ph_objects st' x = Some y" "ob_handle y = Some a" for x y a
    using that r old new unfolding st' by (auto split: if_splits)
  moreover have "ob_handle y \<noteq> ob_handle y'" if "ph_objects st' x = Some y" "ph_objects st' x' = Some y'" "x \<noteq> x'"
      "ob_class y = ob_class y'" "ob_class y \<noteq> CONNECTION_CE" "ob_handle y \<noteq> None" for x y x' y'
  proof (cases "x = ob")
    case True
    then have y: "ob_class y = ce" "ob_handle y = p" "ph_objects st x' = Some y'" using that(1-3) by (auto simp: st')
    show ?thesis using n [OF y(3)] that(4-6) y(1,2) by metis
  next
    case False
    then have x: "ph_objects st x = Some y" using that(1) by (simp add: st')
    show ?thesis
    proof (cases "x' = ob")
      case True
      then have y': "ob_class y' = ce" "ob_handle y' = p" using that(2) by (auto simp: st')
      show ?thesis using n [OF x] that(4-6) y' by metis
    next
      case False
      then have "ph_objects st x' = Some y'" using that(2) by (simp add: st')
      with d [OF x] that(3-6) show ?thesis by blast
    qed
  qed
  ultimately show ?thesis unfolding objects_ok_def by blast
qed

lemma objects_destructed:
  assumes R: "objects_ok R st" and ob: "ph_objects st this = Some \<lparr>ob_class = ce, ob_handle = p\<rparr>"
    and st': "ph_objects st' = (ph_objects st)(this \<mapsto> \<lparr>ob_class = ce, ob_handle = None\<rparr>)"
    and old: "\<And>ce' a. refers st R ce' a \<Longrightarrow> ce' = ce \<and> ce \<noteq> CONNECTION_CE \<and> p = Some a \<or> refers st' R' ce' a"
  shows "objects_ok R' st'"
proof -
  have r: "ph_objects st x = Some y \<Longrightarrow> ob_handle y = Some a \<Longrightarrow> refers st R (ob_class y) a" for x y a
    using R by (simp add: objects_ok_def)
  have d: "ph_objects st x = Some y \<Longrightarrow> ph_objects st x' = Some y' \<Longrightarrow> x \<noteq> x' \<Longrightarrow> ob_class y = ob_class y' \<Longrightarrow>
      ob_class y \<noteq> CONNECTION_CE \<Longrightarrow> ob_handle y \<noteq> None \<Longrightarrow> ob_handle y \<noteq> ob_handle y'" for x y x' y'
    using R unfolding objects_ok_def by blast
  have "refers st' R' (ob_class y) a" if y: "ph_objects st' x = Some y" "ob_handle y = Some a" for x y a
  proof -
    have x: "x \<noteq> this" "ph_objects st x = Some y" using y by (auto simp: st' split: if_splits)
    show ?thesis using old [OF r [OF x(2) y(2)]] d [OF x(2) ob x(1)] y(2) by auto
  qed
  moreover have "ob_handle y \<noteq> ob_handle y'" if "ph_objects st' x = Some y" "ph_objects st' x' = Some y'" "x \<noteq> x'"
      "ob_class y = ob_class y'" "ob_class y \<noteq> CONNECTION_CE" "ob_handle y \<noteq> None" for x y x' y'
  proof -
    have "x \<noteq> this" using that(1,6) by (auto simp: st')
    moreover from this have "ph_objects st x = Some y" using that(1) by (simp add: st')
    moreover from that(6) have "ob_handle y \<noteq> ob_handle y' \<or> x' \<noteq> this" using that(2) by (auto simp: st')
    ultimately show ?thesis using d [of x y x' y'] that(2-6) by (auto simp: st')
  qed
  ultimately show ?thesis unfolding objects_ok_def by blast
qed

lemma with_batch_process:
  assumes P: "process_ok Z st" and f: "\<And>bt h. quiet bt h (f bt h)" and run: "with_batch p f st = Inr st'"
  shows "process_ok Z st'"
proof -
  from run obtain b bt bt' h' where r: "w_batches (ph_world st) b = Some bt" "f bt (w_heap (ph_world st)) = Inr (bt', h')"
    "st' = st\<lparr>ph_world := put_batch b bt' ((ph_world st)\<lparr>w_heap := h'\<rparr>)\<rparr>"
    by (auto simp: with_batch_def at_pointer_def bindP_eq_Inr lib_eq_Inr bindE_eq_Inr split: option.splits)
  let ?w = "ph_world st" and ?w1 = "(ph_world st)\<lparr>w_heap := h'\<rparr>"
  from f [of bt "w_heap ?w"] r(2) have g: "bt_id bt' = bt_id bt" "grown (w_heap ?w) h'" by (simp_all add: quiet_def)
  from P have W: "world_ok ?w" by (simp add: process_ok_def)
  have W1: "world_ok ?w1" by (rule world_ok_grown [OF W g(2)])
  have "bt_id bt = b" using W r(1) by (auto simp: world_ok_def)
  moreover have dm: "dom (w_batches (put_batch b bt' ?w1)) = dom (w_batches ?w1)" using r(1) by (auto simp: put_batch_def)
  moreover have "conns_idle (put_batch b bt' ?w1) = conns_idle ?w1" "w_heap (put_batch b bt' ?w1) = w_heap ?w1"
    by (simp_all add: put_batch_def conns_idle_def conn_idle_def calls_def addr_of_def)
  ultimately have "world_ok (put_batch b bt' ?w1)" using W1 g(1) unfolding world_ok_def by (auto simp: put_batch_def)
  then show ?thesis unfolding r(3) by (intro process_same [OF P]) (auto simp: put_batch_def)
qed

lemma with_ketama_process:
  assumes P: "process_ok Z st" and f: "\<And>kt h kt' h'. f kt h = Inr (kt', h') \<Longrightarrow> grown h h'" and run: "with_ketama p f st = Inr st'"
  shows "process_ok Z st'"
proof -
  from run obtain a kt kt' h' where r: "ph_ketamas st a = Some kt" "f kt (w_heap (ph_world st)) = Inr (kt', h')"
    "st' = put_heap h' st\<lparr>ph_ketamas := (ph_ketamas st)(a \<mapsto> kt')\<rparr>"
    by (auto simp: with_ketama_def at_pointer_def bindP_eq_Inr lib_eq_Inr bindE_eq_Inr split: option.splits)
  have "world_ok ((ph_world st)\<lparr>w_heap := h'\<rparr>)" using P f [OF r(2)] by (simp add: process_ok_def world_ok_grown)
  then show ?thesis unfolding r(3) using r(1) by (intro process_same [OF P]) (auto simp: put_heap_def)
qed

lemma process_world:
  assumes "process_ok Z st" "world_ok w" "dom (w_batches (ph_world st)) \<subseteq> dom (w_batches w)" "dom (w_conns (ph_world st)) \<subseteq> dom (w_conns w)"
  shows "process_ok Z (st\<lparr>ph_world := w, g_module_error := err\<rparr>)" "process_ok Z (st\<lparr>ph_world := w\<rparr>)"
  using assms(2-) by (intro process_same [OF assms(1)]; simp)+

section \<open>Destructors\<close>

lemma set_handle_object:
  "ph_objects st ob = Some \<lparr>ob_class = ce, ob_handle = q\<rparr> \<Longrightarrow>
   set_handle ob p st = Inr (st\<lparr>ph_objects := (ph_objects st)(ob \<mapsto> \<lparr>ob_class = ce, ob_handle = p\<rparr>)\<rparr>)"
  by (simp add: set_handle_def)

lemma get_handle_object: "ph_objects st ob = Some \<lparr>ob_class = ce, ob_handle = p\<rparr> \<Longrightarrow> get_handle ob st = Inr p"
  by (simp add: get_handle_def)

lemma process_refers:
  "objects_ok R st \<Longrightarrow> ph_objects st ob = Some \<lparr>ob_class = ce, ob_handle = Some a\<rparr> \<Longrightarrow> refers st R ce a"
  by (fastforce simp: objects_ok_def)

lemma Batch_destruct_ok:
  assumes Z: "zend_ok Z" and P: "process_ok Z st" and ob: "ph_objects st this = Some \<lparr>ob_class = BATCH_CE, ob_handle = Some a\<rparr>"
  shows "\<exists>st'. Batch_destruct Z this st = Inr (ZNull, st') \<and> process_ok Z st' \<and>
    w_batches (ph_world st') = (w_batches (ph_world st))(a := None)"
proof -
  from P obtain R where W: "world_ok (ph_world st)" and R: "R \<subseteq> dom (w_batches (ph_world st))" "tables_ok Z R st" "objects_ok R st"
    unfolding process_ok_def by blast
  from process_refers [OF R(3) ob] have a: "a \<in> R" by (simp add: refers_def)
  with R(1) obtain bt where bt: "w_batches (ph_world st) a = Some bt" by blast
  let ?st1 = "st\<lparr>g_batch := zh_del Z (g_batch st) (KPointer (Some a))\<rparr>"
  from free_batch_world [of ?st1 a bt] W bt obtain w' where
    f: "free_batch (Some a) ?st1 = Inr (?st1\<lparr>ph_world := w'\<rparr>)" "world_ok w'" "w_batches w' = (w_batches (ph_world st))(a := None)"
      "w_conns w' = w_conns (ph_world st)" by auto
  let ?st' = "?st1\<lparr>ph_world := w', ph_objects := (ph_objects st)(this \<mapsto> \<lparr>ob_class = BATCH_CE, ob_handle = None\<rparr>)\<rparr>"
  have run: "Batch_destruct Z this st = Inr (ZNull, ?st')"
    using f(1) ob by (simp add: Batch_destruct_def get_handle_object set_handle_object)
  have m: "w_batches w' |` (R - {a}) = (w_batches (ph_world st) |` R)(a := None)"
    unfolding f(3) by (auto simp: fun_eq_iff restrict_map_def)
  have "zh_find Z (zh_del Z (g_batch st) (KPointer (Some a))) = entries (w_batches w' |` (R - {a}))"
    unfolding m entries_simps(3) zend_simps(4) [OF Z] using R(2) by (simp add: tables_ok_def del: fun_upd_restrict_conv)
  then have "tables_ok Z (R - {a}) ?st'" using R(2) unfolding tables_ok_def by (simp add: f(4))
  moreover have "objects_ok (R - {a}) ?st'"
    by (rule objects_destructed [OF R(3) ob]) (auto simp: refers_def f(4) split: php_class.splits)
  moreover have "R - {a} \<subseteq> dom (w_batches (ph_world ?st'))" using R(1) f(3) by auto
  ultimately have "process_ok Z ?st'" using f(2) unfolding process_ok_def by auto
  with run f(3) show ?thesis by auto
qed

lemma Ketama_destruct_ok:
  assumes Z: "zend_ok Z" and P: "process_ok Z st" and ob: "ph_objects st this = Some \<lparr>ob_class = KETAMA_CE, ob_handle = Some a\<rparr>"
  shows "\<exists>st'. Ketama_destruct Z this st = Inr (ZNull, st') \<and> process_ok Z st' \<and> ph_ketamas st' = (ph_ketamas st)(a := None)"
proof -
  from P obtain R where W: "world_ok (ph_world st)" and R: "R \<subseteq> dom (w_batches (ph_world st))" "tables_ok Z R st" "objects_ok R st"
    unfolding process_ok_def by blast
  from process_refers [OF R(3) ob] obtain kt where kt: "ph_ketamas st a = Some kt" by (auto simp: refers_def)
  let ?st1 = "st\<lparr>g_ketama := zh_del Z (g_ketama st) (KPointer (Some a))\<rparr>"
  from free_ketama_world [of ?st1 a kt] W kt obtain h' where
    f: "free_ketama (Some a) ?st1 = Inr (?st1\<lparr>ph_world := (ph_world st)\<lparr>w_heap := h'\<rparr>, ph_ketamas := (ph_ketamas st)(a := None)\<rparr>)"
      "world_ok ((ph_world st)\<lparr>w_heap := h'\<rparr>)" by auto
  let ?st' = "?st1\<lparr>ph_world := (ph_world st)\<lparr>w_heap := h'\<rparr>, ph_ketamas := (ph_ketamas st)(a := None),
    ph_objects := (ph_objects st)(this \<mapsto> \<lparr>ob_class = KETAMA_CE, ob_handle = None\<rparr>)\<rparr>"
  have run: "Ketama_destruct Z this st = Inr (ZNull, ?st')"
    using f(1) ob by (simp add: Ketama_destruct_def get_handle_object set_handle_object)
  have "tables_ok Z R ?st'" using R(2) unfolding tables_ok_def by (simp add: zend_simps(4) [OF Z] del: fun_upd_apply)
  moreover have "objects_ok R ?st'"
    by (rule objects_destructed [OF R(3) ob]) (auto simp: refers_def split: php_class.splits)
  ultimately have "process_ok Z ?st'" using f(2) R(1) unfolding process_ok_def by auto
  with run show ?thesis by auto
qed

lemma Executor_destruct_ok:
  assumes Z: "zend_ok Z" and P: "process_ok Z st" and ob: "ph_objects st this = Some \<lparr>ob_class = EXECUTOR_CE, ob_handle = Some a\<rparr>"
  shows "\<exists>st'. Executor_destruct Z this st = Inr (ZNull, st') \<and> process_ok Z st' \<and> ph_executors st' = (ph_executors st)(a := None)"
proof -
  from P obtain R where W: "world_ok (ph_world st)" and R: "R \<subseteq> dom (w_batches (ph_world st))" "tables_ok Z R st" "objects_ok R st"
    unfolding process_ok_def by blast
  from process_refers [OF R(3) ob] obtain ex where ex: "ph_executors st a = Some ex" by (auto simp: refers_def)
  let ?st1 = "st\<lparr>g_executor := zh_del Z (g_executor st) (KPointer (Some a))\<rparr>"
  from free_executor_world [of ?st1 a ex] W ex obtain h' where
    f: "free_executor (Some a) ?st1 = Inr (?st1\<lparr>ph_world := (ph_world st)\<lparr>w_heap := h'\<rparr>, ph_executors := (ph_executors st)(a := None)\<rparr>)"
      "world_ok ((ph_world st)\<lparr>w_heap := h'\<rparr>)" by auto
  let ?st' = "?st1\<lparr>ph_world := (ph_world st)\<lparr>w_heap := h'\<rparr>, ph_executors := (ph_executors st)(a := None),
    ph_objects := (ph_objects st)(this \<mapsto> \<lparr>ob_class = EXECUTOR_CE, ob_handle = None\<rparr>)\<rparr>"
  have run: "Executor_destruct Z this st = Inr (ZNull, ?st')"
    using f(1) ob by (simp add: Executor_destruct_def get_handle_object set_handle_object)
  have "tables_ok Z R ?st'" using R(2) unfolding tables_ok_def by (simp add: zend_simps(4) [OF Z] del: fun_upd_apply)
  moreover have "objects_ok R ?st'"
    by (rule objects_destructed [OF R(3) ob]) (auto simp: refers_def split: php_class.splits)
  ultimately have "process_ok Z ?st'" using f(2) R(1) unfolding process_ok_def by auto
  with run show ?thesis by auto
qed

lemma Connection_destruct_ok:
  assumes P: "process_ok Z st" and ob: "ph_objects st this = Some \<lparr>ob_class = CONNECTION_CE, ob_handle = p\<rparr>"
  shows "\<exists>st'. Connection_destruct this st = Inr (ZNull, st') \<and> process_ok Z st' \<and> ph_world st' = ph_world st"
proof -
  from P obtain R where W: "world_ok (ph_world st)" and R: "R \<subseteq> dom (w_batches (ph_world st))" "tables_ok Z R st" "objects_ok R st"
    unfolding process_ok_def by blast
  let ?st' = "st\<lparr>ph_objects := (ph_objects st)(this \<mapsto> \<lparr>ob_class = CONNECTION_CE, ob_handle = None\<rparr>)\<rparr>"
  have "objects_ok R ?st'" by (rule objects_destructed [OF R(3) ob]) (auto simp: refers_def split: php_class.splits)
  moreover have "tables_ok Z R ?st'" using R(2) by (simp add: tables_ok_def)
  ultimately have "process_ok Z ?st'" using W R(1) unfolding process_ok_def by auto
  then show ?thesis using ob by (simp add: Connection_destruct_def set_handle_object)
qed

text \<open>A second run of a destructor: only executors tolerate it.\<close>

lemma destruct_twice:
  assumes "ph_objects st this = Some \<lparr>ob_class = ce, ob_handle = None\<rparr>"
  shows "Batch_destruct Z this st = Inl (stop.Fault NullDeref)" "Ketama_destruct Z this st = Inl (stop.Fault NullDeref)"
  using assms by (simp_all add: Batch_destruct_def Ketama_destruct_def get_handle_def free_batch_def free_ketama_def at_pointer_def)

end
