(* ===== verification/Php_Script.thy ===== *)
theory Php_Script
  imports Php_Process
begin

text \<open>
  The life of a process that runs PHP scripts with the extension \<open>php/ext/libredis/libredis.c\<close>: what the calls of a
  script lead to, the reachable states, and that the invariant of \<open>Php_Process\<close> holds in all of them.
\<close>

section \<open>The factory\<close>

text \<open>The state a method leads to, be it that it returns or that it ends the script.\<close>

definition leads :: "('a \<times> 't php, 't) outcome \<Rightarrow> 't php \<Rightarrow> bool" where
  "leads out st' \<longleftrightarrow> (case out of Inl e \<Rightarrow> (case e of stop.Fault x \<Rightarrow> False | Halt msg s \<Rightarrow> s = st') | Inr r \<Rightarrow> snd r = st')"

lemma leads_simps [simp]:
  "leads (Inr (v, s)) st' \<longleftrightarrow> s = st'" "leads (Inl (stop.Fault x)) st' \<longleftrightarrow> False" "leads (Inl (Halt msg s)) st' \<longleftrightarrow> s = st'"
  by (simp_all add: leads_def)

lemma leads_lib: "leads (bindP (lib r) g) st' \<longleftrightarrow> (\<exists>x. r = Inr x \<and> leads (g x) st')"
  by (cases r) simp_all

text \<open>For calls that never end the script.\<close>

lemma leads_plain:
  "(\<And>msg s. r \<noteq> Inl (Halt msg s)) \<Longrightarrow> leads (bindP r g) st' \<longleftrightarrow> (\<exists>x. r = Inr x \<and> leads (g x) st')"
  by (cases r rule: sum.exhaust; cases "projl r") auto

lemma plain:
  "get_handle ob st \<noteq> Inl (Halt msg s)" "set_handle ob p st \<noteq> Inl (Halt msg s)" "with_batch p f st \<noteq> Inl (Halt msg s)"
  "new_batch b st \<noteq> Inl (Halt msg s)" "with_ketama p g st \<noteq> Inl (Halt msg s)" "free_batch p st \<noteq> Inl (Halt msg s)"
  "with_executor p k st \<noteq> Inl (Halt msg s)"
  by (auto simp: get_handle_def set_handle_def with_batch_def new_batch_def with_ketama_def free_batch_def with_executor_def
      bindP_def lib_def split: option.splits sum.splits prod.splits)

lemma new_batch_world:
  assumes W: "world_ok (ph_world st)" and b: "w_batches (ph_world st) b = None"
  shows "\<exists>w' bt. new_batch b st = Inr (st\<lparr>ph_world := w'\<rparr>) \<and> world_ok w' \<and>
    w_batches w' = (w_batches (ph_world st))(b \<mapsto> bt) \<and> w_conns w' = w_conns (ph_world st)"
proof -
  let ?w = "ph_world st"
  from W obtain L where L: "reply_heap (w_heap ?w) (dom (w_batches ?w)) L" "shaped (w_heap ?w) L" by (auto simp: world_ok_def)
  from b have nb: "b \<notin> dom (w_batches ?w)" by auto
  from Batch_new_ok [OF L(1) nb] obtain bt h where
    n: "Batch_new b (w_heap ?w) = Inr (bt, h)" "bt_id bt = b" "batch_ok bt h (insert b (dom (w_batches ?w))) (L(RQueue b := []))"
      "rh_replies h = rh_replies (w_heap ?w)" by blast
  let ?w' = "put_batch b bt (?w\<lparr>w_heap := h\<rparr>)"
  have "reply_heap (w_heap ?w') (dom (w_batches ?w')) (L(RQueue b := []))" using n(3) by (simp add: batch_ok_def put_batch_def)
  moreover have "shaped (w_heap ?w') (L(RQueue b := []))" by (rule shaped_cong [OF L(2)]) (simp_all add: n(4) put_batch_def)
  moreover have "conns_idle ?w'" using W by (simp add: world_ok_def put_batch_def conns_idle_def conn_idle_def calls_def addr_of_def)
  ultimately have "world_ok ?w'" using W n(2) unfolding world_ok_def by (auto simp: put_batch_def)
  moreover have "new_batch b st = Inr (st\<lparr>ph_world := ?w'\<rparr>)" by (simp add: new_batch_def n(1))
  ultimately show ?thesis by (intro exI [of _ ?w'] exI [of _ bt]) (simp add: put_batch_def)
qed

lemma Libredis_process:
  assumes P: "process_ok Z st" and ob: "ph_objects st ob = None"
  shows "process_ok Z (snd (Libredis ob st))"
proof -
  from P obtain R where W: "world_ok (ph_world st)" and R: "R \<subseteq> dom (w_batches (ph_world st))" "tables_ok Z R st" "objects_ok R st"
    unfolding process_ok_def by blast
  let ?st' = "object_init_ex ob REDIS_CE st"
  have "objects_ok R ?st'" by (rule objects_new [OF R(3) ob]) (auto simp: object_init_ex_def refers_def split: php_class.splits)
  moreover have "tables_ok Z R ?st'" using R(2) by (simp add: tables_ok_def object_init_ex_def)
  ultimately show ?thesis using W R(1) unfolding process_ok_def Libredis_def by (auto simp: object_init_ex_def)
qed

lemma Redis_create_batch_process:
  assumes Z: "zend_ok Z" and P: "process_ok Z st" and new: "w_batches (ph_world st) b = None" "ph_objects st ob = None"
    and run: "leads (Redis_create_batch Z b ob args st) st'"
  shows "process_ok Z st'"
proof -
  from P obtain R where W: "world_ok (ph_world st)" and R: "R \<subseteq> dom (w_batches (ph_world st))" "tables_ok Z R st" "objects_ok R st"
    unfolding process_ok_def by blast
  from new_batch_world [OF W new(1)] obtain w' bt where
    n: "new_batch b st = Inr (st\<lparr>ph_world := w'\<rparr>)" "world_ok w'" "w_batches w' = (w_batches (ph_world st))(b \<mapsto> bt)"
      "w_conns w' = w_conns (ph_world st)" by blast
  let ?st3 = "st\<lparr>ph_world := w', ph_objects := (ph_objects st)(ob \<mapsto> \<lparr>ob_class = BATCH_CE, ob_handle = Some b\<rparr>),
    g_batch := zh_update Z (g_batch st) (KPointer (Some b)) (Some b)\<rparr>"
  have m: "w_batches w' |` insert b R = (w_batches (ph_world st) |` R)(b \<mapsto> bt)"
    unfolding n(3) by (auto simp: fun_eq_iff restrict_map_def)
  have "zh_find Z (zh_update Z (g_batch st) (KPointer (Some b)) (Some b)) = entries (w_batches w' |` insert b R)"
    unfolding m entries_simps(2) zend_simps(3) [OF Z] using R(2) by (simp add: tables_ok_def)
  then have "tables_ok Z (insert b R) ?st3" using R(2) unfolding tables_ok_def by (simp add: n(4))
  moreover have "b \<notin> R" using R(1) new(1) by auto
  then have "objects_ok (insert b R) ?st3"
    by (intro objects_new [OF R(3) new(2), where ce = BATCH_CE and p = "Some b"]) (auto simp: refers_def n(4) split: php_class.splits)
  ultimately have P3: "process_ok Z ?st3" using n(2,3) R(1) unfolding process_ok_def by (auto intro!: exI [of _ "insert b R"])
  have "?st3 = st' \<or> (\<exists>s k. with_batch (Some b) (\<lambda>bt h. Batch_write bt (Some s) (to_size (int (length s))) k h) ?st3 = Inr st')"
    using run unfolding Redis_create_batch_def n(1)
    by (auto simp: Let_def object_init_ex_def set_handle_def leads_plain [OF plain(3)] split: option.splits if_splits)
  then show ?thesis using P3 with_batch_process [OF P3 quiet_write] by auto
qed

lemma Redis_create_ketama_process:
  assumes Z: "zend_ok Z" and P: "process_ok Z st" and new: "ph_ketamas st a = None" "ph_objects st ob = None"
    and run: "leads (Redis_create_ketama Z a ob st) st'"
  shows "process_ok Z st'"
proof -
  from P obtain R where W: "world_ok (ph_world st)" and R: "R \<subseteq> dom (w_batches (ph_world st))" "tables_ok Z R st" "objects_ok R st"
    unfolding process_ok_def by blast
  from run obtain kt h where k: "Ketama_new (w_heap (ph_world st)) = Inr (kt, h)"
    "st' = st\<lparr>ph_world := (ph_world st)\<lparr>w_heap := h\<rparr>, ph_ketamas := (ph_ketamas st)(a \<mapsto> kt),
       ph_objects := (ph_objects st)(ob \<mapsto> \<lparr>ob_class = KETAMA_CE, ob_handle = Some a\<rparr>),
       g_ketama := zh_update Z (g_ketama st) (KPointer (Some a)) (Some a)\<rparr>"
    by (auto simp: Redis_create_ketama_def Let_def leads_lib object_init_ex_def set_handle_def put_heap_def)
  have "grown (w_heap (ph_world st)) h" using k(1) by (auto simp: Ketama_new_def bindE_eq_Inr dest: alloc_grown)
  then have w: "world_ok ((ph_world st)\<lparr>w_heap := h\<rparr>)" by (rule world_ok_grown [OF W])
  have "tables_ok Z R st'" using R(2) unfolding tables_ok_def by (simp add: k(2) zend_simps(3) [OF Z])
  moreover have "objects_ok R st'"
    by (rule objects_new [OF R(3) new(2), where ce = KETAMA_CE and p = "Some a"])
      (use new(1) in \<open>auto simp: k(2) refers_def split: php_class.splits\<close>)
  ultimately show ?thesis using w R(1) unfolding process_ok_def by (auto simp: k(2))
qed

lemma Redis_create_executor_process:
  assumes Z: "zend_ok Z" and P: "process_ok Z st" and new: "ph_executors st a = None" "ph_objects st ob = None"
    and run: "leads (Redis_create_executor Z raw a ob st) st'"
  shows "process_ok Z st'"
proof -
  from P obtain R where W: "world_ok (ph_world st)" and R: "R \<subseteq> dom (w_batches (ph_world st))" "tables_ok Z R st" "objects_ok R st"
    unfolding process_ok_def by blast
  from Alloc_alloc_ok [OF world_ok_alloc [OF W], of sizeof_Executor] obtain blk h where
    h: "Alloc_alloc sizeof_Executor (w_heap (ph_world st)) = Inr (Some blk, h)" by blast
  then obtain ex where x: "Executor_new raw (w_heap (ph_world st)) = Inr (Some ex, h)" by (simp add: Executor_new_def)
  from run x have k: "st' = st\<lparr>ph_world := (ph_world st)\<lparr>w_heap := h\<rparr>, ph_executors := (ph_executors st)(a \<mapsto> ex),
       ph_objects := (ph_objects st)(ob \<mapsto> \<lparr>ob_class = EXECUTOR_CE, ob_handle = Some a\<rparr>),
       g_executor := zh_update Z (g_executor st) (KPointer (Some a)) (Some a)\<rparr>"
    by (auto simp: Redis_create_executor_def Let_def leads_lib object_init_ex_def set_handle_def put_heap_def)
  have w: "world_ok ((ph_world st)\<lparr>w_heap := h\<rparr>)" using alloc_grown(1) [OF h] by (rule world_ok_grown [OF W])
  have "tables_ok Z R st'" using R(2) unfolding tables_ok_def by (simp add: k zend_simps(3) [OF Z])
  moreover have "objects_ok R st'"
    by (rule objects_new [OF R(3) new(2), where ce = EXECUTOR_CE and p = "Some a"])
      (use new(1) in \<open>auto simp: k refers_def split: php_class.splits\<close>)
  ultimately show ?thesis using w R(1) unfolding process_ok_def by (auto simp: k)
qed

text \<open>
  A block for a new connection that is safe to give up: if the address is refused, what the block holds in place of
  an address list and a socket is zero, so that nothing is freed or closed.  An address that is taken needs nothing
  of the block.
\<close>

definition clean_block :: "connection \<Rightarrow> string \<Rightarrow> bool" where
  "clean_block raw in_addr \<longleftrightarrow> (\<forall>addr serv. split_address (cn_addr raw) (cn_serv raw) in_addr = (addr, serv, True) \<longrightarrow>
     cn_addrinfo raw = None \<and> cn_sockfd raw = 0)"

lemma Connection_new_world:
  assumes W: "world_ok w" and c: "w_conns w c = None" and raw: "clean_block raw in_addr"
  shows "\<exists>p w'. Connection_new c raw praw in_addr w = Inr (p, w') \<and> world_ok w' \<and> w_batches w' = w_batches w \<and>
    (p = None \<and> w_conns w' = w_conns w \<or> p = Some c \<and> (\<exists>cn. w_conns w' = (w_conns w)(c \<mapsto> cn)))"
proof -
  obtain addr serv bad where sp: "split_address (cn_addr raw) (cn_serv raw) in_addr = (addr, serv, bad)" by (metis prod_cases3)
  from Connection_new_ok [OF world_ok_alloc [OF W] sp, of c praw] obtain h where
    n: "allocator_ok h" "module.more h = module.more (w_heap w)"
      "Connection_new c raw praw in_addr w =
        (if bad then bindE (Connection_free (Some c) (put_conn c ((blank praw raw)\<lparr>cn_addr := addr, cn_serv := serv\<rparr>)
           (w\<lparr>w_heap := Module_set_error ''Invalid address for Connection'' h\<rparr>))) (\<lambda>w4. Inr (None, w4))
         else Inr (Some c, put_conn c ((blank praw raw)\<lparr>cn_addr := addr, cn_serv := serv, cn_addrinfo := None, cn_sockfd := 0\<rparr>)
           (w\<lparr>w_heap := h\<rparr>)))" by blast
  have g: "grown (w_heap w) h" using n(1,2) by (simp add: grown_def)
  show ?thesis
  proof (cases bad)
    case True
    let ?cn = "(blank praw raw)\<lparr>cn_addr := addr, cn_serv := serv\<rparr>"
    let ?w1 = "put_conn c ?cn (w\<lparr>w_heap := Module_set_error ''Invalid address for Connection'' h\<rparr>)"
    have cn: "cn_parser ?cn \<noteq> None" "cn_addrinfo ?cn = None" "cn_sockfd ?cn = 0"
      using raw sp True by (simp_all add: blank_def clean_block_def)
    from Connection_free_ok [of ?w1 c ?cn] cn n(1) obtain h' where
      f: "Connection_free (Some c) ?w1 = Inr (?w1\<lparr>w_heap := h', w_conns := (w_conns ?w1)(c := None), w_os := released ?cn (w_os ?w1)\<rparr>)"
        "allocator_ok h'" "module.more h' = module.more h" by (auto simp: Module_set_error_ok)
    let ?w' = "?w1\<lparr>w_heap := h', w_conns := (w_conns ?w1)(c := None), w_os := released ?cn (w_os ?w1)\<rparr>"
    have "released ?cn (w_os w) = w_os w" using cn(2,3) by (cases "w_os w") (simp add: released_def)
    moreover have "(w_conns w)(c := None) = w_conns w" using c by (simp add: fun_upd_idem)
    ultimately have e: "?w' = w\<lparr>w_heap := h'\<rparr>" by (cases w) (simp add: put_conn_def)
    have "world_ok (w\<lparr>w_heap := h'\<rparr>)" using f(2,3) n(2) by (intro world_ok_heap [OF W]) simp_all
    with True n(3) f(1) e show ?thesis by simp
  next
    case False
    let ?cn = "(blank praw raw)\<lparr>cn_addr := addr, cn_serv := serv, cn_addrinfo := None, cn_sockfd := 0\<rparr>"
    let ?w' = "put_conn c ?cn (w\<lparr>w_heap := h\<rparr>)"
    have "conns_idle w" using W by (simp add: world_ok_def)
    then have "conns_idle ?w'" using c
      by (auto simp: conns_idle_def conn_idle_def put_conn_def calls_def addr_of_def blank_def)
    moreover have "world_ok (w\<lparr>w_heap := h\<rparr>)" by (rule world_ok_grown [OF W g])
    ultimately have "world_ok ?w'" unfolding world_ok_def by (simp add: put_conn_def)
    with False n(3) show ?thesis by (auto simp: put_conn_def)
  qed
qed

lemma Redis_get_connection_process:
  assumes Z: "zend_ok Z" and P: "process_ok Z st" and new: "w_conns (ph_world st) c = None" "ph_objects st ob = None"
    and raw: "\<And>s. args = Some s \<Longrightarrow> clean_block raw (cstr s)" and run: "leads (Redis_get_connection Z c raw praw ob args st) st'"
  shows "process_ok Z st'"
proof -
  from P obtain R where W: "world_ok (ph_world st)" and R: "R \<subseteq> dom (w_batches (ph_world st))" "tables_ok Z R st" "objects_ok R st"
    unfolding process_ok_def by blast
  have wrap: "process_ok Z (st1\<lparr>ph_objects := (ph_objects st)(ob \<mapsto> \<lparr>ob_class = CONNECTION_CE, ob_handle = p\<rparr>)\<rparr>)"
    if "world_ok (ph_world st1)" "tables_ok Z R st1" "p = Some a" "w_conns (ph_world st1) a \<noteq> None"
      "w_batches (ph_world st1) = w_batches (ph_world st)" "dom (w_conns (ph_world st)) \<subseteq> dom (w_conns (ph_world st1))"
      "ph_ketamas st1 = ph_ketamas st" "ph_executors st1 = ph_executors st" for st1 p a
  proof -
    let ?st' = "st1\<lparr>ph_objects := (ph_objects st)(ob \<mapsto> \<lparr>ob_class = CONNECTION_CE, ob_handle = p\<rparr>)\<rparr>"
    have "objects_ok R ?st'"
      by (rule objects_new [OF R(3) new(2), where ce = CONNECTION_CE and p = p])
        (use that(3-8) in \<open>auto simp: refers_def split: php_class.splits\<close>)
    moreover have "tables_ok Z R ?st'" using that(2) by (simp add: tables_ok_def)
    ultimately show ?thesis using that(1,5) R(1) unfolding process_ok_def by auto
  qed
  show ?thesis
  proof (cases args)
    case None
    with run P show ?thesis by (simp add: Redis_get_connection_def)
  next
    case (Some addr)
    show ?thesis
    proof (cases "zh_find Z (g_connections st) (KText addr)")
      case found: (Some p)
      then obtain a where a: "p = Some a" "w_conns (ph_world st) a \<noteq> None" using R(2) unfolding tables_ok_def by blast
      have "st' = st\<lparr>ph_objects := (ph_objects st)(ob \<mapsto> \<lparr>ob_class = CONNECTION_CE, ob_handle = p\<rparr>)\<rparr>"
        using run Some found by (simp add: Redis_get_connection_def object_init_ex_def set_handle_def)
      with wrap [OF W R(2) a] show ?thesis by simp
    next
      case None
      from Connection_new_world [OF W new(1) raw [OF Some], of praw] obtain p w' where
        n: "Connection_new c raw praw (cstr addr) (ph_world st) = Inr (p, w')" "world_ok w'" "w_batches w' = w_batches (ph_world st)"
          "p = None \<and> w_conns w' = w_conns (ph_world st) \<or> p = Some c \<and> (\<exists>cn. w_conns w' = (w_conns (ph_world st))(c \<mapsto> cn))" by blast
      from n(4) show ?thesis
      proof (elim disjE conjE exE)
        assume p: "p = None" "w_conns w' = w_conns (ph_world st)"
        have "st' = st\<lparr>ph_world := w'\<rparr>"
          using run Some None n(1) p(1) by (simp add: Redis_get_connection_def zend_error_def zend_simps(1) [OF Z])
        with process_world(2) [OF P n(2)] n(3) p(2) show ?thesis by simp
      next
        fix cn assume p: "p = Some c" "w_conns w' = (w_conns (ph_world st))(c \<mapsto> cn)"
        let ?st1 = "st\<lparr>ph_world := w', g_connections := zh_update Z (g_connections st) (KText addr) p\<rparr>"
        have e: "st' = ?st1\<lparr>ph_objects := (ph_objects st)(ob \<mapsto> \<lparr>ob_class = CONNECTION_CE, ob_handle = p\<rparr>)\<rparr>"
          using run Some None n(1) p(1) by (simp add: Redis_get_connection_def object_init_ex_def set_handle_def Let_def)
        have "\<exists>d. q = Some d \<and> w_conns w' d \<noteq> None"
          if "zh_find Z (zh_update Z (g_connections st) (KText addr) p) k = Some q" for k q
        proof (cases "k = KText addr")
          case True
          with that p(1) have "q = Some c" by (simp add: zend_simps(3) [OF Z])
          with p(2) show ?thesis by (intro exI [of _ c]) simp
        next
          case False
          with that have "zh_find Z (g_connections st) k = Some q" by (simp add: zend_simps(3) [OF Z])
          with R(2) obtain d where "q = Some d" "w_conns (ph_world st) d \<noteq> None" unfolding tables_ok_def by blast
          with p(2) show ?thesis by auto
        qed
        with R(2) have "tables_ok Z R ?st1" unfolding tables_ok_def by (simp add: n(3))
        from wrap [of ?st1 p c, OF _ this p(1)] show ?thesis using n(2,3) p(2) by (auto simp: e)
      qed
    qed
  qed
qed


section \<open>Calls that execute commands\<close>

definition timeout_of :: "int option \<Rightarrow> int" where
  "timeout_of t = (case t of None \<Rightarrow> DEFAULT_TIMEOUT_MS | Some x \<Rightarrow> x)"

text \<open>
  The system behaves, and the clock of the process passes the time limit of \<open>t\<close> milliseconds; a block for an
  executor has the size of its tables.
\<close>

definition timely :: "kernel \<Rightarrow> (nat \<Rightarrow> nat) \<Rightarrow> executor \<Rightarrow> int \<Rightarrow> 't php \<Rightarrow> bool" where
  "timely K f raw t st \<longleftrightarrow> kernel_ok K f \<and> clock_ok K \<and> timeout_ok (wrap32 t) \<and>
     time_passes K (calls (ph_world st)) (wrap32 t) \<and> length (ex_pairs raw) = MAX_PAIRS \<and> length (ex_fds raw) = MAX_PAIRS"

text \<open>Memory at \<open>b\<close> that is free: no batch lives there, and no reply that was left over points into it.\<close>

definition free_address :: "nat \<Rightarrow> 't php \<Rightarrow> bool" where
  "free_address b st \<longleftrightarrow> w_batches (ph_world st) b = None \<and> unread b (w_heap (ph_world st))"

text \<open>
  A method is called on the object \<open>this\<close> of the connection \<open>c\<close>, with the time limit \<open>t\<close> in milliseconds and memory
  for a batch at \<open>b\<close> and an executor \<open>raw\<close>; a fatal error ends the script.
\<close>

definition call_ready ::
    "'t zend \<Rightarrow> kernel \<Rightarrow> (nat \<Rightarrow> nat) \<Rightarrow> executor \<Rightarrow> nat \<Rightarrow> nat \<Rightarrow> nat \<Rightarrow> int \<Rightarrow> 't php \<Rightarrow> bool" where
  "call_ready Z K f raw b this c t st \<longleftrightarrow>
     timely K f raw t st \<and> (\<forall>msg. zend_halts Z msg) \<and> world_ok (ph_world st) \<and> free_address b st \<and>
     w_conns (ph_world st) c \<noteq> None \<and> (\<exists>ob. ph_objects st this = Some ob \<and> ob_handle ob = Some c)"

lemma one_command_answers:
  assumes "call_ready Z K f raw b this c (timeout_of t) st"
    and wr: "\<And>bt m. writable (bt_write_buffer bt) \<Longrightarrow> allocator_ok m \<Longrightarrow> command_text bt = [] \<Longrightarrow> appends bt m cmd 1 (write bt m)"
    and res: "answers Z result answer" and val: "\<And>data v u. value_of data v = Some u \<Longrightarrow> answer data v = value u"
  shows "\<exists>x w' bt cn v. exchanged K c b (wrap32 (timeout_of t)) cmd (ph_world st) x w' bt cn v \<and>
    (\<forall>ws. cn_state cn \<noteq> CS_ABORTED \<and> sent_values bt ws \<longrightarrow>
       ws \<noteq> [] \<and> answer (contents (bt_read_buffer bt)) v = value (hd ws)) \<and>
    call_ends b c x w' bt cn v (answer (contents (bt_read_buffer bt)) v) st (one_command Z K raw b write result this t st)"
proof -
  from assms(1) obtain ob where r: "kernel_ok K f" "clock_ok K" "timeout_ok (wrap32 (timeout_of t))"
    "time_passes K (calls (ph_world st)) (wrap32 (timeout_of t))" "length (ex_pairs raw) = MAX_PAIRS" "length (ex_fds raw) = MAX_PAIRS"
    "world_ok (ph_world st)" "w_batches (ph_world st) b = None" "unread b (w_heap (ph_world st))"
    "ph_objects st this = Some ob" "ob_handle ob = Some c" "w_conns (ph_world st) c \<noteq> None" "\<And>msg. zend_halts Z msg"
    unfolding call_ready_def timely_def free_address_def by blast
  from one_command_ok [OF r(1,2) r(3,4) [unfolded timeout_of_def] r(5-13) wr res] obtain x w' bt cn v where
    o: "exchanged K c b (wrap32 (timeout_of t)) cmd (ph_world st) x w' bt cn v"
      "call_ends b c x w' bt cn v (answer (contents (bt_read_buffer bt)) v) st (one_command Z K raw b write result this t st)"
    unfolding timeout_of_def by blast
  have "ws \<noteq> [] \<and> answer (contents (bt_read_buffer bt)) v = value (hd ws)"
    if "cn_state cn \<noteq> CS_ABORTED \<and> sent_values bt ws" for ws
    using exchanged_value [OF o(1)] that val by blast
  with o show ?thesis by blast
qed

lemma get_appends:
  assumes "length key < 2147483648" "writable (bt_write_buffer bt)" "allocator_ok m" "command_text bt = []"
  shows "appends bt (m :: rheap) (get_command key) 1 (Batch_write_get bt (Some key) (int (length key)) m)"
  using assms by (intro Batch_write_get_appends) (simp_all add: get_command_def)

lemma set_appends:
  assumes "length key < 2147483648" "length val < 2147483648" "writable (bt_write_buffer bt)" "allocator_ok m" "command_text bt = []"
  shows "appends bt (m :: rheap) (set_command key val) 1
    (Batch_write_set bt (Some key) (int (length key)) (Some val) (int (length val)) m)"
proof -
  have "length (dec_nat (length val)) \<le> 20" using length_dec_int [of "int (length val)"] assms(2) by simp
  with assms show ?thesis by (intro Batch_write_set_appends) (simp_all add: set_command_def)
qed

lemma call_ends_process:
  assumes P: "process_ok Z st" and e: "call_ends b c x w' bt cn v ans st out" and run: "leads out st'"
  shows "process_ok Z st'"
proof -
  have halt: "process_ok Z (st\<lparr>ph_world := w\<rparr>)" if "stopped b c cn st w" for w
    using that by (intro process_world(2) [OF P]) (auto simp: stopped_def)
  have ends: "process_ok Z st'" if "ends_with b c cn a err st out" for a err
  proof (cases a)
    case None
    with that run halt show ?thesis by (auto simp: ends_with_def)
  next
    case (Some z)
    with that run have l: "left_behind c cn err st st'" by (auto simp: ends_with_def)
    then have "process_ok Z (st\<lparr>ph_world := ph_world st', g_module_error := err\<rparr>)"
      by (intro process_world(1) [OF P]) (auto simp: left_behind_def)
    moreover have "st' = st\<lparr>ph_world := ph_world st', g_module_error := err\<rparr>" using l unfolding left_behind_def by blast
    ultimately show ?thesis by simp
  qed
  consider "x < 0" | "x = 0" | "0 < x" by linarith
  then show ?thesis
  proof cases
    case 1
    with e have "out = Inl (Halt (Module_last_error (w_heap w')) (st\<lparr>ph_world := w'\<rparr>))" "stopped b c cn st w'"
      by (simp_all add: call_ends_def)
    with halt run show ?thesis by auto
  next
    case 2
    with e ends show ?thesis by (simp add: call_ends_def)
  next
    case 3
    with e ends show ?thesis by (simp add: call_ends_def)
  qed
qed

lemma object_connection:
  assumes "process_ok Z st" "ph_objects st this = Some \<lparr>ob_class = CONNECTION_CE, ob_handle = Some c\<rparr>"
  shows "w_conns (ph_world st) c \<noteq> None"
proof -
  from assms(1) obtain R where "objects_ok R st" by (auto simp: process_ok_def)
  from process_refers [OF this assms(2)] show ?thesis by (simp add: refers_def)
qed

lemma one_command_process:
  assumes Z: "zend_ok Z" and P: "process_ok Z st" and t: "timely K f raw (timeout_of t) st" "free_address b st"
    and ob: "ph_objects st this = Some \<lparr>ob_class = CONNECTION_CE, ob_handle = Some c\<rparr>"
    and wr: "\<And>bt m. writable (bt_write_buffer bt) \<Longrightarrow> allocator_ok m \<Longrightarrow> command_text bt = [] \<Longrightarrow> appends bt m cmd 1 (write bt m)"
    and res: "answers Z result answer" and run: "leads (one_command Z K raw b write result this t st) st'"
  shows "process_ok Z st'"
proof -
  have r: "kernel_ok K f" "clock_ok K" "timeout_ok (wrap32 (timeout_of t))" "time_passes K (calls (ph_world st)) (wrap32 (timeout_of t))"
    "length (ex_pairs raw) = MAX_PAIRS" "length (ex_fds raw) = MAX_PAIRS" "world_ok (ph_world st)"
    "w_batches (ph_world st) b = None" "unread b (w_heap (ph_world st))" "ob_handle \<lparr>ob_class = CONNECTION_CE, ob_handle = Some c\<rparr> = Some c"
    using P t by (simp_all add: timely_def free_address_def process_ok_def)
  from one_command_ok [OF r(1,2) r(3,4) [unfolded timeout_of_def] r(5-9) ob r(10) object_connection [OF P ob] zend_simps(1) [OF Z] wr res]
  obtain x w' bt cn v where
    "call_ends b c x w' bt cn v (answer (contents (bt_read_buffer bt)) v) st (one_command Z K raw b write result this t st)"
    by blast
  from call_ends_process [OF P this run] show ?thesis .
qed

text \<open>A batch that was written, that awaits its execution, and whose queue is empty.\<close>

definition waiting :: "nat \<Rightarrow> 't php \<Rightarrow> bool" where
  "waiting b st \<longleftrightarrow> (\<exists>bt. w_batches (ph_world st) b = Some bt \<and> unexecuted b bt \<and> 0 < bt_num_commands bt) \<and>
     unread b (w_heap (ph_world st)) \<and> lh_next (rh_links (w_heap (ph_world st))) (RQueue b) = Some (RQueue b)"

lemma empty_queue:
  assumes "reply_heap h B L" "b \<in> B" "lh_next (rh_links h) (RQueue b) = Some (RQueue b)"
  shows "L (RQueue b) = []"
proof -
  have "dlist (rh_links h) (RQueue b) (L (RQueue b))"
    using assms(1,2) by (intro rings_dlist) (auto simp: reply_heap_def heads_def)
  then have "distinct (RQueue b # L (RQueue b))" "lh_next (rh_links h) (RQueue b) = Some (hd (L (RQueue b) @ [RQueue b]))"
    using lseg_first by (auto simp: dlist_def)
  with assms(3) show ?thesis by (cases "L (RQueue b)") auto
qed

lemma execute_simple_process:
  assumes Z: "zend_ok Z" and P: "process_ok Z st" and t: "timely K f raw t st" and b: "waiting b st" and c: "w_conns (ph_world st) c \<noteq> None"
    and run: "leads (bindP (Connection_execute_simple Z K raw (Some c) (Some b) t st) (\<lambda>(r, st1). Inr (g r, st1))) st'"
  shows "process_ok Z st'"
proof -
  let ?w = "ph_world st"
  from P have W: "world_ok ?w" by (simp add: process_ok_def)
  then obtain L where L: "reply_heap (w_heap ?w) (dom (w_batches ?w)) L" "shaped (w_heap ?w) L" and idle: "conns_idle ?w"
    by (auto simp: world_ok_def)
  from b obtain bt where bt: "w_batches ?w b = Some bt" "unexecuted b bt" "0 < bt_num_commands bt" "unread b (w_heap ?w)"
    "lh_next (rh_links (w_heap ?w)) (RQueue b) = Some (RQueue b)" by (auto simp: waiting_def)
  have q: "L (RQueue b) = []" using bt(1,5) by (intro empty_queue [OF L(1)]) auto
  have k: "kernel_ok K f" "clock_ok K" "timeout_ok (wrap32 t)" "time_passes K (calls ?w) (wrap32 t)"
    "length (ex_pairs raw) = MAX_PAIRS" "length (ex_fds raw) = MAX_PAIRS" using t by (simp_all add: timely_def)
  from execute_simple_ok [OF k L idle bt(4) c bt(1-3) q, where 't = 'a] obtain x w1 w' L' bt' cn where
    e: "carried_out K c b (wrap32 t) ?w bt x w1 w' L' bt' cn"
      "\<forall>Z (s :: 'a php). ph_world s = ?w \<longrightarrow> Connection_execute_simple Z K raw (Some c) (Some b) t s =
         bindP (if x < 0 then zend_error Z (Module_last_error (w_heap w')) (s\<lparr>ph_world := w'\<rparr>) else Inr ())
           (\<lambda>_. Inr (x, s\<lparr>ph_world := w'\<rparr>))"
    by (elim exE conjE) (rule that)
  have s: "Connection_execute_simple Z K raw (Some c) (Some b) t st =
      (if x < 0 then Inl (Halt (Module_last_error (w_heap w')) (st\<lparr>ph_world := w'\<rparr>)) else Inr (x, st\<lparr>ph_world := w'\<rparr>))"
    using e(2) zend_simps(1) [OF Z] by (simp add: zend_error_def)
  have st': "st' = st\<lparr>ph_world := w'\<rparr>" using run unfolding s by (simp split: if_splits)
  have co: "reply_heap (w_heap w') (dom (w_batches w')) L'" "shaped (w_heap w') L'" "conns_idle w'"
    "w_batches w' = (w_batches ?w)(b \<mapsto> bt')" "w_conns w' = (w_conns ?w)(c \<mapsto> cn)" "bt_id bt' = b"
    using e(1) unfolding carried_out_def by blast+
  have "\<forall>b' bt'. w_batches w' b' = Some bt' \<longrightarrow> bt_id bt' = b'" using W co(4,6) by (auto simp: world_ok_def)
  with co(1-3) have "world_ok w'" unfolding world_ok_def by blast
  then show ?thesis unfolding st' by (intro process_world(2) [OF P]) (auto simp: co(4,5))
qed

section \<open>The other methods\<close>

lemma next_reply_process:
  assumes P: "process_ok Z st" and run: "php_next_reply p st = Inr (level, r, st1)"
  shows "process_ok Z st1"
proof -
  let ?f = "\<lambda>bt h. bindE (Batch_next_reply True bt h) (\<lambda>(_, _, bt', h'). Inr (bt', h'))"
  have "quiet bt h (?f bt h)" for bt h
    using moved_next_reply [of bt h] by (cases "Batch_next_reply True bt h") (auto simp: quiet_def moved_def)
  moreover have "with_batch p ?f st = Inr st1"
    using run by (auto simp: php_next_reply_def with_batch_def bindP_eq_Inr lib_eq_Inr)
  ultimately show ?thesis by (rule with_batch_process [OF P])
qed

lemma world_ok_exec [simp]: "world_ok (w\<lparr>w_exec := ex\<rparr>) = world_ok w"
  by (simp add: world_ok_def conns_idle_def conn_idle_def calls_def addr_of_def)

lemma Executor_add_grown:
  assumes "Executor_add c b w = Inr (x, w')"
  shows "\<exists>h ex. w' = w\<lparr>w_heap := h, w_exec := ex\<rparr> \<and> grown (w_heap w) h"
proof (cases "ex_numpairs (w_exec w) \<ge> MAX_PAIRS")
  case True
  with assms show ?thesis by (intro exI [of _ "w_heap w'"] exI [of _ "w_exec w'"]) (auto simp: Executor_add_def Let_def)
next
  case False
  with assms show ?thesis
    by (intro exI [of _ "w_heap w'"] exI [of _ "w_exec w'"]) (auto simp: Executor_add_def Let_def bindE_eq_Inr)
qed

lemma Executor_add_process:
  assumes Z: "zend_ok Z" and P: "process_ok Z st" and run: "leads (Executor_add_method Z this args st) st'"
  shows "process_ok Z st'"
proof -
  have add: "process_ok Z st1" if w: "with_executor p (Executor_add c b) st = Inr (r, st1)" for p c b r st1
  proof -
    from w obtain a ex w' where r: "ph_executors st a = Some ex" "Executor_add c b ((ph_world st)\<lparr>w_exec := ex\<rparr>) = Inr (r, w')"
      "st1 = st\<lparr>ph_world := w', ph_executors := (ph_executors st)(a \<mapsto> w_exec w')\<rparr>"
      by (auto simp: with_executor_def at_pointer_def bindP_eq_Inr lib_eq_Inr bindE_eq_Inr split: option.splits)
    from Executor_add_grown [OF r(2)] obtain h ex' where w': "w' = (ph_world st)\<lparr>w_heap := h, w_exec := ex'\<rparr>" "grown (w_heap (ph_world st)) h"
      by auto
    have "world_ok w'" using P world_ok_grown [OF _ w'(2)] by (simp add: w'(1) process_ok_def)
    then show ?thesis unfolding r(3) using r(1) by (intro process_same [OF P]) (auto simp: w'(1))
  qed
  show ?thesis
  proof (cases args)
    case None
    with run P show ?thesis by (simp add: Executor_add_method_def)
  next
    case (Some q)
    obtain zc zb where q: "q = (zc, zb)" by fastforce
    from run obtain p c b r st1 where "with_executor p (Executor_add c b) st = Inr (r, st1)" "st' = st1"
      by (auto simp: Executor_add_method_def Some q leads_plain [OF plain(1)] leads_plain [OF plain(7)] leads_lib zend_error_def
          zend_simps(1) [OF Z] split: if_splits)
    with add show ?thesis by blast
  qed
qed

text \<open>
  An executor that was not executed since its pairs were added: the batches of its pairs are different and wait, and
  the connections are different and there.
\<close>

definition pairs_waiting :: "executor \<Rightarrow> 't php \<Rightarrow> bool" where
  "pairs_waiting ex st \<longleftrightarrow> ex_numpairs ex \<le> MAX_PAIRS \<and>
     (\<forall>j < ex_numpairs ex. pf_events (ex_fds ex ! j) = {} \<and> pf_revents (ex_fds ex ! j) = {} \<and>
        waiting (fst (ex_pairs ex ! j)) st \<and> w_conns (ph_world st) (snd (ex_pairs ex ! j)) \<noteq> None) \<and>
     (\<forall>j < ex_numpairs ex. \<forall>k < ex_numpairs ex. j \<noteq> k \<longrightarrow>
        fst (ex_pairs ex ! j) \<noteq> fst (ex_pairs ex ! k) \<and> snd (ex_pairs ex ! j) \<noteq> snd (ex_pairs ex ! k))"

lemma Executor_execute_world:
  assumes W: "world_ok (ph_world st)" and t: "timely K f ex t st" and p: "pairs_waiting ex st"
  shows "\<exists>x w'. Executor_execute K (wrap32 t) ((ph_world st)\<lparr>w_exec := ex\<rparr>) = Inr (x, w') \<and> world_ok w' \<and>
    dom (w_batches w') = dom (w_batches (ph_world st)) \<and> dom (w_conns w') = dom (w_conns (ph_world st))"
proof -
  let ?w = "(ph_world st)\<lparr>w_exec := ex\<rparr>"
  from W obtain L where L: "reply_heap (w_heap ?w) (dom (w_batches ?w)) L" "shaped (w_heap ?w) L" by (auto simp: world_ok_def)
  have k: "kernel_ok K f" "clock_ok K" "timeout_ok (wrap32 t)" "time_passes K (calls ?w) (wrap32 t)" "length (ex_pairs ex) = MAX_PAIRS"
    "length (ex_fds ex) = MAX_PAIRS" using t by (simp_all add: timely_def calls_def)
  have "w_conns ?w (snd (pair_at j ?w)) \<noteq> None \<and> unread (fst (pair_at j ?w)) (w_heap ?w) \<and> L (RQueue (fst (pair_at j ?w))) = [] \<and>
      (\<exists>bt. w_batches ?w (fst (pair_at j ?w)) = Some bt \<and> unexecuted (fst (pair_at j ?w)) bt \<and> 0 < bt_num_commands bt)"
    if j: "j < ex_numpairs ex" for j
  proof -
    let ?b = "fst (ex_pairs ex ! j)"
    have w: "waiting ?b st" "w_conns (ph_world st) (snd (ex_pairs ex ! j)) \<noteq> None" using p j by (simp_all add: pairs_waiting_def)
    then obtain bt where b: "w_batches (ph_world st) ?b = Some bt" "unexecuted ?b bt" "0 < bt_num_commands bt"
      "unread ?b (w_heap (ph_world st))" "lh_next (rh_links (w_heap (ph_world st))) (RQueue ?b) = Some (RQueue ?b)"
      by (auto simp: waiting_def)
    have "L (RQueue ?b) = []" using b(1,5) by (intro empty_queue [OF L(1)]) auto
    with w(2) b show ?thesis by (simp add: pair_at_def)
  qed
  then have "fresh_pairs ?w L" using p k(5,6) by (simp add: fresh_pairs_def pairs_waiting_def pair_at_def fd_at_def)
  from execute_pairs_world [OF k(1-4) _ L this] W show ?thesis by simp
qed

lemma Executor_execute_process:
  assumes Z: "zend_ok Z" and P: "process_ok Z st" and ob: "ph_objects st this = Some \<lparr>ob_class = EXECUTOR_CE, ob_handle = Some a\<rparr>"
    and ex: "ph_executors st a = Some ex" "pairs_waiting ex st" and t: "timely K f ex (timeout_of t) st"
    and run: "leads (Executor_execute_method Z K this (Some t) st) st'"
  shows "process_ok Z st'"
proof -
  have "world_ok (ph_world st)" using P by (simp add: process_ok_def)
  from Executor_execute_world [OF this t ex(2)] obtain x w' where
    e: "Executor_execute K (wrap32 (timeout_of t)) ((ph_world st)\<lparr>w_exec := ex\<rparr>) = Inr (x, w')" "world_ok w'"
      "dom (w_batches w') = dom (w_batches (ph_world st))" "dom (w_conns w') = dom (w_conns (ph_world st))" by blast
  let ?st1 = "st\<lparr>ph_world := w', ph_executors := (ph_executors st)(a \<mapsto> w_exec w')\<rparr>"
  have "with_executor (Some a) (Executor_execute K (wrap32 (timeout_of t))) st = Inr (x, ?st1)"
    using ex(1) e(1) by (simp add: with_executor_def at_pointer_def)
  then have "st' = ?st1 \<or> st' = set_last_error_from_global_error ?st1"
    using run unfolding Executor_execute_method_def
    by (auto simp: get_handle_object [OF ob] timeout_of_def [symmetric] zend_error_def zend_simps(1) [OF Z] split: if_splits)
  moreover have "process_ok Z ?st1" "process_ok Z (?st1\<lparr>g_module_error := err\<rparr>)" for err
    using e(2-4) ex(1) by (intro process_same [OF P]; auto)+
  ultimately show ?thesis unfolding set_last_error_from_global_error_def by blast
qed

lemma last_error_process:
  assumes P: "process_ok Z st" and run: "leads (Redis_last_error st) st'"
  shows "process_ok Z st'"
proof -
  have "process_ok Z (st\<lparr>g_module_error := []\<rparr>)"
    using P by (intro process_same [OF P]) (simp_all add: process_ok_def)
  with run show ?thesis by (simp add: Redis_last_error_def split: if_splits)
qed

lemma Batch_writes_process:
  assumes Z: "zend_ok Z" and P: "process_ok Z st"
  shows "leads (Batch_write_method this args1 st) st' \<Longrightarrow> process_ok Z st'"
    "leads (Batch_set_method this args2 st) st' \<Longrightarrow> process_ok Z st'"
    "leads (Batch_get_method this args3 st) st' \<Longrightarrow> process_ok Z st'"
    "leads (Batch_cmd_method Z this args4 st) st' \<Longrightarrow> process_ok Z st'"
proof -
  note l = leads_plain [OF plain(1)] leads_plain [OF plain(3)]
  show "leads (Batch_write_method this args1 st) st' \<Longrightarrow> process_ok Z st'"
    using P by (auto simp: Batch_write_method_def Let_def l split: option.splits intro: with_batch_process [OF P quiet_write])
  show "leads (Batch_set_method this args2 st) st' \<Longrightarrow> process_ok Z st'"
    using P by (auto simp: Batch_set_method_def Let_def l split: option.splits intro: with_batch_process [OF P quiet_calls(1)])
  show "leads (Batch_get_method this args3 st) st' \<Longrightarrow> process_ok Z st'"
    using P by (auto simp: Batch_get_method_def Let_def l split: option.splits intro: with_batch_process [OF P quiet_calls(2)])
  show "leads (Batch_cmd_method Z this args4 st) st' \<Longrightarrow> process_ok Z st'"
  proof (cases args4)
    case None
    then show "leads (Batch_cmd_method Z this args4 st) st' \<Longrightarrow> process_ok Z st'" using P by (simp add: Batch_cmd_method_def)
  next
    case (Some vs)
    show "leads (Batch_cmd_method Z this args4 st) st' \<Longrightarrow> process_ok Z st'"
    proof (cases "list_all is_string vs")
      case True
      then show "leads (Batch_cmd_method Z this args4 st) st' \<Longrightarrow> process_ok Z st'"
        by (auto simp: Batch_cmd_method_def Batch_cmd_def Some l intro: with_batch_process [OF P quiet_calls(3)])
    next
      case False
      then show "leads (Batch_cmd_method Z this args4 st) st' \<Longrightarrow> process_ok Z st'"
        using P by (auto simp: Batch_cmd_method_def Batch_cmd_def Some l zend_error_def zend_simps(1) [OF Z])
    qed
  qed
qed

lemma Ketama_calls_process:
  assumes P: "process_ok Z st"
  shows "leads (Ketama_add_server_method this args1 st) st' \<Longrightarrow> process_ok Z st'"
    "leads (Ketama_create_continuum_method qsort stk this st) st' \<Longrightarrow> process_ok Z st'"
proof -
  have wk: "with_ketama p f st = Inr st' \<Longrightarrow> (\<And>kt h kt' h'. f kt h = Inr (kt', h') \<Longrightarrow> grown h h') \<Longrightarrow> process_ok Z st'" for p f
    using with_ketama_process [OF P] by blast
  note l = leads_plain [OF plain(1)] leads_plain [OF plain(5)]
  have add: "bindE (Ketama_add_server kt ip port weight h) (\<lambda>(x, y). Inr y) = Inr (kt', h') \<Longrightarrow> grown h h'"
    for kt ip port weight kt' and h h' :: rheap
    by (auto simp: bindE_eq_Inr intro: Ketama_add_server_grown)
  show "leads (Ketama_add_server_method this args1 st) st' \<Longrightarrow> process_ok Z st'"
    using P by (auto simp: Ketama_add_server_method_def l split: option.splits intro: wk [OF _ add])
  show "leads (Ketama_create_continuum_method qsort stk this st) st' \<Longrightarrow> process_ok Z st'"
    by (auto simp: Ketama_create_continuum_method_def l intro: wk Ketama_create_continuum_grown)
qed

section \<open>The life of a process\<close>

text \<open>
  One call of a method by a script, or by the engine for it in the case of destructors.  New objects get unused
  addresses: an address names a block and is not given to another block while a reply that was left over still points
  into it.  The two methods of a hash ring that look a server up change no state.  Four uses of the library are left
  out: to execute a batch that was executed before, that was freed or that has no command; to execute an executor that
  was executed before or that has the same batch or the same connection twice; to have an address refused on a block
  that is not cleared; and a kernel that does not behave or a clock that stands still.
\<close>

inductive script_step :: "'t zend \<Rightarrow> kernel \<Rightarrow> (nat \<Rightarrow> nat) \<Rightarrow> 't php \<Rightarrow> 't php \<Rightarrow> bool" for Z K f where
  new_factory: "ph_objects st ob = None \<Longrightarrow> script_step Z K f st (snd (Libredis ob st))"
| create_batch: "w_batches (ph_world st) b = None \<Longrightarrow> ph_objects st ob = None \<Longrightarrow>
    leads (Redis_create_batch Z b ob args st) st' \<Longrightarrow> script_step Z K f st st'"
| create_ketama: "ph_ketamas st a = None \<Longrightarrow> ph_objects st ob = None \<Longrightarrow>
    leads (Redis_create_ketama Z a ob st) st' \<Longrightarrow> script_step Z K f st st'"
| create_executor: "ph_executors st a = None \<Longrightarrow> ph_objects st ob = None \<Longrightarrow>
    leads (Redis_create_executor Z raw a ob st) st' \<Longrightarrow> script_step Z K f st st'"
| get_connection: "w_conns (ph_world st) c = None \<Longrightarrow> ph_objects st ob = None \<Longrightarrow>
    (\<forall>s. addr = Some s \<longrightarrow> clean_block raw_conn (cstr s)) \<Longrightarrow> leads (Redis_get_connection Z c raw_conn raw_parser ob addr st) st' \<Longrightarrow> script_step Z K f st st'"
| last_error: "leads (Redis_last_error st) st' \<Longrightarrow> script_step Z K f st st'"
| batch_destruct: "ph_objects st this = Some \<lparr>ob_class = BATCH_CE, ob_handle = p\<rparr> \<Longrightarrow>
    leads (Batch_destruct Z this st) st' \<Longrightarrow> script_step Z K f st st'"
| ketama_destruct: "ph_objects st this = Some \<lparr>ob_class = KETAMA_CE, ob_handle = p\<rparr> \<Longrightarrow>
    leads (Ketama_destruct Z this st) st' \<Longrightarrow> script_step Z K f st st'"
| executor_destruct: "ph_objects st this = Some \<lparr>ob_class = EXECUTOR_CE, ob_handle = p\<rparr> \<Longrightarrow>
    leads (Executor_destruct Z this st) st' \<Longrightarrow> script_step Z K f st st'"
| connection_destruct: "ph_objects st this = Some \<lparr>ob_class = CONNECTION_CE, ob_handle = p\<rparr> \<Longrightarrow>
    leads (Connection_destruct this st) st' \<Longrightarrow> script_step Z K f st st'"
| batch_write: "leads (Batch_write_method this wargs st) st' \<Longrightarrow> script_step Z K f st st'"
| batch_set: "leads (Batch_set_method this sargs st) st' \<Longrightarrow> script_step Z K f st st'"
| batch_get: "leads (Batch_get_method this gargs st) st' \<Longrightarrow> script_step Z K f st st'"
| batch_cmd: "leads (Batch_cmd_method Z this vargs st) st' \<Longrightarrow> script_step Z K f st st'"
| next_reply: "leads (bindP (Batch_next_reply_method Z this refs st) (\<lambda>(v, vs, st1). Inr ((v, vs), st1))) st' \<Longrightarrow> script_step Z K f st st'"
| add_server: "leads (Ketama_add_server_method this kargs st) st' \<Longrightarrow> script_step Z K f st st'"
| create_continuum: "leads (Ketama_create_continuum_method qsort stk this st) st' \<Longrightarrow> script_step Z K f st st'"
| executor_add: "leads (Executor_add_method Z this eargs st) st' \<Longrightarrow> script_step Z K f st st'"
| executor_execute: "ph_objects st this = Some \<lparr>ob_class = EXECUTOR_CE, ob_handle = Some a\<rparr> \<Longrightarrow>
    ph_executors st a = Some ex \<Longrightarrow> pairs_waiting ex st \<Longrightarrow> timely K f ex (timeout_of t) st \<Longrightarrow>
    leads (Executor_execute_method Z K this (Some t) st) st' \<Longrightarrow> script_step Z K f st st'"
| connection_get: "ph_objects st this = Some \<lparr>ob_class = CONNECTION_CE, ob_handle = Some c\<rparr> \<Longrightarrow> free_address b st \<Longrightarrow>
    timely K f raw (timeout_of t) st \<Longrightarrow> length key < 2147483648 \<Longrightarrow>
    leads (Connection_get_method Z K raw b this (Some (key, t)) st) st' \<Longrightarrow> script_step Z K f st st'"
| connection_set: "ph_objects st this = Some \<lparr>ob_class = CONNECTION_CE, ob_handle = Some c\<rparr> \<Longrightarrow> free_address b st \<Longrightarrow>
    timely K f raw (timeout_of t) st \<Longrightarrow> length key < 2147483648 \<Longrightarrow> length val < 2147483648 \<Longrightarrow>
    leads (Connection_set_method Z K raw b this (Some (key, val, t)) st) st' \<Longrightarrow> script_step Z K f st st'"
| connection_execute: "ph_objects st this = Some \<lparr>ob_class = CONNECTION_CE, ob_handle = Some c\<rparr> \<Longrightarrow>
    ph_objects st z_batch = Some \<lparr>ob_class = BATCH_CE, ob_handle = Some b\<rparr> \<Longrightarrow> waiting b st \<Longrightarrow> timely K f raw (timeout_of t) st \<Longrightarrow>
    leads (Connection_execute_method Z K raw this (Some (z_batch, t)) st) st' \<Longrightarrow> script_step Z K f st st'"
| batch_execute: "ph_objects st z_conn = Some \<lparr>ob_class = CONNECTION_CE, ob_handle = Some c\<rparr> \<Longrightarrow>
    ph_objects st this = Some \<lparr>ob_class = BATCH_CE, ob_handle = Some b\<rparr> \<Longrightarrow> waiting b st \<Longrightarrow> timely K f raw (timeout_of t) st \<Longrightarrow>
    leads (Batch_execute_method Z K raw this (Some (z_conn, t)) st) st' \<Longrightarrow> script_step Z K f st st'"

text \<open>
  The states of a process: it starts with \<open>PHP_MINIT\<close>, runs scripts, and at the end of a request \<open>PHP_RSHUTDOWN\<close> is called
  and the objects of the script are gone.
\<close>

inductive process :: "'t zend \<Rightarrow> kernel \<Rightarrow> (nat \<Rightarrow> nat) \<Rightarrow> 't php \<Rightarrow> bool" for Z K f where
  start: "malloc_ok zend_malloc \<Longrightarrow> realloc_ok zend_realloc \<Longrightarrow>
    process Z K f (PHP_MINIT Z zend_malloc zend_realloc libc_malloc libc_realloc sys raw)"
| call: "process Z K f st \<Longrightarrow> script_step Z K f st st' \<Longrightarrow> process Z K f st'"
| request: "process Z K f st \<Longrightarrow> PHP_RSHUTDOWN Z st = Inr st' \<Longrightarrow> process Z K f (st'\<lparr>ph_objects := (\<lambda>_. None)\<rparr>)"

lemma Executor_destruct_process:
  assumes Z: "zend_ok Z" and P: "process_ok Z st" and ob: "ph_objects st this = Some \<lparr>ob_class = EXECUTOR_CE, ob_handle = p\<rparr>"
    and run: "leads (Executor_destruct Z this st) st'"
  shows "process_ok Z st'"
proof (cases p)
  case None
  from P obtain R where W: "world_ok (ph_world st)" and R: "R \<subseteq> dom (w_batches (ph_world st))" "tables_ok Z R st" "objects_ok R st"
    unfolding process_ok_def by blast
  have e: "st' = st\<lparr>g_executor := zh_del Z (g_executor st) (KPointer None),
      ph_objects := (ph_objects st)(this \<mapsto> \<lparr>ob_class = EXECUTOR_CE, ob_handle = None\<rparr>)\<rparr>"
    using run ob None by (simp add: Executor_destruct_def get_handle_object set_handle_object free_executor_def)
  have "entries (ph_executors st) (KPointer None) = None" by (simp add: entries_def)
  then have "(entries (ph_executors st))(KPointer None := None) = entries (ph_executors st)" by (simp add: fun_upd_idem)
  then have "tables_ok Z R st'" using R(2) unfolding tables_ok_def by (simp add: e zend_simps(4) [OF Z])
  moreover have "objects_ok R st'"
    by (rule objects_destructed [OF R(3) ob]) (auto simp: e refers_def split: php_class.splits)
  ultimately show ?thesis using W R(1) unfolding process_ok_def by (auto simp: e)
next
  case (Some a)
  from Executor_destruct_ok [OF Z P ob [unfolded Some]] run show ?thesis by auto
qed

lemma destructs_process:
  assumes Z: "zend_ok Z" and P: "process_ok Z st"
  shows "ph_objects st this = Some \<lparr>ob_class = BATCH_CE, ob_handle = p\<rparr> \<Longrightarrow> leads (Batch_destruct Z this st) st' \<Longrightarrow> process_ok Z st'"
    "ph_objects st this = Some \<lparr>ob_class = KETAMA_CE, ob_handle = p\<rparr> \<Longrightarrow> leads (Ketama_destruct Z this st) st' \<Longrightarrow> process_ok Z st'"
    "ph_objects st this = Some \<lparr>ob_class = CONNECTION_CE, ob_handle = p\<rparr> \<Longrightarrow> leads (Connection_destruct this st) st' \<Longrightarrow> process_ok Z st'"
proof -
  assume b: "ph_objects st this = Some \<lparr>ob_class = BATCH_CE, ob_handle = p\<rparr>" and run: "leads (Batch_destruct Z this st) st'"
  then obtain a where "p = Some a" using destruct_twice(1) [of st this BATCH_CE Z] by (cases p) auto
  with Batch_destruct_ok [OF Z P] b run show "process_ok Z st'" by fastforce
next
  assume k: "ph_objects st this = Some \<lparr>ob_class = KETAMA_CE, ob_handle = p\<rparr>" and run: "leads (Ketama_destruct Z this st) st'"
  then obtain a where "p = Some a" using destruct_twice(2) [of st this KETAMA_CE Z] by (cases p) auto
  with Ketama_destruct_ok [OF Z P] k run show "process_ok Z st'" by fastforce
next
  assume "ph_objects st this = Some \<lparr>ob_class = CONNECTION_CE, ob_handle = p\<rparr>" "leads (Connection_destruct this st) st'"
  with Connection_destruct_ok [OF P] show "process_ok Z st'" by fastforce
qed

lemma next_reply_method_process:
  assumes Z: "zend_ok Z" and P: "process_ok Z st"
    and run: "leads (bindP (Batch_next_reply_method Z this refs st) (\<lambda>(v, vs, st1). Inr ((v, vs), st1))) st'"
  shows "process_ok Z st'"
proof -
  have assoc: "bindP (bindP m h) k = bindP m (\<lambda>x. bindP (h x) k)" for m :: "('x, 'a) outcome" and h and k :: "'y \<Rightarrow> ('z, 'a) outcome"
    by (cases m) simp_all
  have plain2: "php_next_reply p s \<noteq> Inl (Halt msg s2)" for p s msg and s2 :: "'a php"
    by (auto simp: php_next_reply_def bindP_def lib_def split: sum.splits prod.splits)
  have "st' = st \<or> (\<exists>p x r. php_next_reply p st = Inr (x, r, st'))"
  proof (cases refs)
    case None
    with run show ?thesis by (simp add: Batch_next_reply_method_def)
  next
    case (Some q)
    obtain ty vl ln where q: "q = (ty, vl, ln)" by (rule prod_cases3)
    show ?thesis
    proof (cases "ty \<and> vl \<and> ln")
      case True
      then show ?thesis using run
        by (auto simp: Batch_next_reply_method_def Some q Let_def assoc leads_plain [OF plain(1)] leads_plain [OF plain2] leads_lib)
    next
      case False
      then show ?thesis using run
        by (auto simp: Batch_next_reply_method_def Some q Let_def zend_error_def zend_simps(1) [OF Z] split: if_splits)
    qed
  qed
  with P next_reply_process [OF P] show ?thesis by blast
qed

lemma script_step_process:
  assumes Z: "zend_ok Z" and "script_step Z K f st st'" and P: "process_ok Z st"
  shows "process_ok Z st'"
  using assms(2) P
proof (induction rule: script_step.induct)
  case (connection_get st this c b raw t key st')
  from connection_get.hyps(5) have "leads (one_command Z K raw b (\<lambda>bt h. Batch_write_get bt (Some key) (int (length key)) h)
      (get_result Z) this t st) st'" by (simp add: Connection_get_method_def)
  from one_command_process [OF Z connection_get.prems connection_get.hyps(3,2,1) get_appends [OF connection_get.hyps(4)] get_answers this]
  show ?case .
next
  case (connection_set st this c b raw t key val st')
  from connection_set.hyps(6) have "leads (one_command Z K raw b
      (\<lambda>bt h. Batch_write_set bt (Some key) (int (length key)) (Some val) (int (length val)) h) (set_result Z) this t st) st'"
    by (simp add: Connection_set_method_def)
  from one_command_process [OF Z connection_set.prems connection_set.hyps(3,2,1) set_appends [OF connection_set.hyps(4,5)] set_answers this]
  show ?case .
next
  case (connection_execute st this c z_batch b raw t st')
  have "leads (bindP (Connection_execute_simple Z K raw (Some c) (Some b) (timeout_of t) st) (\<lambda>(r, st1). Inr (ZBool (r \<noteq> 0), st1))) st'"
    using connection_execute.hyps(5) unfolding Connection_execute_method_def
    by (simp add: get_handle_object [OF connection_execute.hyps(1)] get_handle_object [OF connection_execute.hyps(2)] timeout_of_def)
  from execute_simple_process [OF Z connection_execute.prems connection_execute.hyps(4,3)
      object_connection [OF connection_execute.prems connection_execute.hyps(1)] this]
  show ?case .
next
  case (batch_execute st z_conn c this b raw t st')
  have "leads (bindP (Connection_execute_simple Z K raw (Some c) (Some b) (timeout_of t) st) (\<lambda>(r, st1). Inr (ZBool (r \<noteq> 0), st1))) st'"
    using batch_execute.hyps(5) unfolding Batch_execute_method_def
    by (simp add: get_handle_object [OF batch_execute.hyps(1)] get_handle_object [OF batch_execute.hyps(2)] timeout_of_def)
  from execute_simple_process [OF Z batch_execute.prems batch_execute.hyps(4,3)
      object_connection [OF batch_execute.prems batch_execute.hyps(1)] this]
  show ?case .
next
  case (executor_execute st this a ex t st')
  from Executor_execute_process [OF Z executor_execute.prems executor_execute.hyps] show ?case .
next
  case (get_connection st c ob addr raw_conn raw_parser st')
  have "clean_block raw_conn (cstr s)" if "addr = Some s" for s using get_connection.hyps(3) that by blast
  from Redis_get_connection_process [OF Z get_connection.prems get_connection.hyps(1,2) this get_connection.hyps(4)] show ?case .
qed (blast intro: Libredis_process Redis_create_batch_process [OF Z] Redis_create_ketama_process [OF Z] Redis_create_executor_process [OF Z]
    last_error_process destructs_process [OF Z] Executor_destruct_process [OF Z]
    Batch_writes_process [OF Z] next_reply_method_process [OF Z] Ketama_calls_process Executor_add_process [OF Z])+

lemma MINIT_process:
  assumes Z: "zend_ok Z" and a: "malloc_ok zm" "realloc_ok zr"
  shows "process_ok Z (PHP_MINIT Z zm zr lm lr sys raw)"
proof -
  let ?st = "PHP_MINIT Z zm zr lm lr sys raw"
  have h: "allocator_ok (w_heap (ph_world ?st))" "rh_replies (w_heap (ph_world ?st)) = (\<lambda>_. None)"
    using a by (simp_all add: PHP_MINIT_def Let_def Module_init_def Module_new_def g_module_def Module_set_alloc_alloc_def
        Module_set_alloc_realloc_def Module_set_alloc_free_def allocator_ok_def module.defs rheap.defs)
  have "reply_heap (w_heap (ph_world ?st)) {} (\<lambda>_. [])" using h by (simp add: reply_heap_def rings_def heads_def)
  moreover have "shaped (w_heap (ph_world ?st)) (\<lambda>_. [])" using h(2) by (simp add: shaped_def)
  moreover have w: "w_batches (ph_world ?st) = (\<lambda>_. None)" "w_conns (ph_world ?st) = (\<lambda>_. None)"
    by (simp_all add: PHP_MINIT_def Let_def split: prod.splits)
  ultimately have "world_ok (ph_world ?st)" by (auto simp: world_ok_def conns_idle_def addr_of_def)
  moreover have t: "g_connections ?st = zh_init Z" "g_batch ?st = zh_init Z" "g_ketama ?st = zh_init Z" "g_executor ?st = zh_init Z"
    "ph_ketamas ?st = (\<lambda>_. None)" "ph_executors ?st = (\<lambda>_. None)" "ph_objects ?st = (\<lambda>_. None)"
    by (simp_all add: PHP_MINIT_def Let_def split: prod.splits)
  then have "tables_ok Z {} ?st" unfolding tables_ok_def t w by (simp add: zend_simps(2) [OF Z])
  moreover have "objects_ok {} ?st" by (simp add: objects_ok_def t)
  ultimately show ?thesis unfolding process_ok_def by blast
qed

text \<open>The end of a request in a state of the process.\<close>

lemma request_end:
  assumes Z: "zend_ok Z" and P: "process_ok Z st"
  shows "\<exists>st'. PHP_RSHUTDOWN Z st = Inr st' \<and> process_ok Z (st'\<lparr>ph_objects := (\<lambda>_. None)\<rparr>) \<and>
    ph_ketamas st' = (\<lambda>_. None) \<and> ph_executors st' = (\<lambda>_. None) \<and>
    (\<forall>b. w_batches (ph_world st') b = (if zh_find Z (g_batch st) (KPointer (Some b)) = None then w_batches (ph_world st) b else None)) \<and>
    w_conns (ph_world st') = w_conns (ph_world st) \<and> g_connections st' = g_connections st"
proof -
  from P obtain R where W: "world_ok (ph_world st)" and R: "R \<subseteq> dom (w_batches (ph_world st))" "tables_ok Z R st" "objects_ok R st"
    unfolding process_ok_def by blast
  from RSHUTDOWN_ok [OF Z W R(2)] obtain st' where
    s: "PHP_RSHUTDOWN Z st = Inr st'" "world_ok (ph_world st')" "w_batches (ph_world st') = w_batches (ph_world st) |` (- R)"
      "w_conns (ph_world st') = w_conns (ph_world st)" "ph_ketamas st' = (\<lambda>_. None)" "ph_executors st' = (\<lambda>_. None)"
      "zh_find Z (g_batch st') = (\<lambda>_. None)" "zh_find Z (g_ketama st') = (\<lambda>_. None)" "zh_find Z (g_executor st') = (\<lambda>_. None)"
      "g_connections st' = g_connections st" by blast
  let ?st' = "st'\<lparr>ph_objects := (\<lambda>_. None)\<rparr>"
  have "w_batches (ph_world ?st') |` {} = (\<lambda>_. None)" by (simp add: fun_eq_iff)
  then have "tables_ok Z {} ?st'" using R(2) unfolding tables_ok_def by (simp add: s)
  moreover have "objects_ok {} ?st'" by (simp add: objects_ok_def)
  ultimately have p: "process_ok Z ?st'" using s(2) unfolding process_ok_def by auto
  have "w_batches (ph_world st') b = (if zh_find Z (g_batch st) (KPointer (Some b)) = None then w_batches (ph_world st) b else None)" for b
  proof -
    have "zh_find Z (g_batch st) (KPointer (Some b)) = map_option (\<lambda>_. Some b) ((w_batches (ph_world st) |` R) b)"
      using R(2) by (simp add: tables_ok_def)
    then show ?thesis using R(1) unfolding s(3) by (auto simp: restrict_map_def)
  qed
  with s p show ?thesis by blast
qed

lemma process_ok_process:
  assumes Z: "zend_ok Z"
  shows "process Z K f st \<Longrightarrow> process_ok Z st"
proof (induction rule: process.induct)
  case (start zend_malloc zend_realloc libc_malloc libc_realloc sys raw)
  then show ?case by (rule MINIT_process [OF Z])
next
  case (call st st')
  then show ?case using script_step_process [OF Z] by blast
next
  case (request st st')
  then show ?case using request_end [OF Z] by fastforce
qed

end
