(* ===== verification/Php_Props.thy ===== *)
theory Php_Props
  imports Php_Script "HOL-Library.DAList"
begin

text \<open>
  The properties of the PHP extension \<open>php/ext/libredis/libredis.c\<close>: what is written for a command given as
  a list of arguments, what \<open>Connection::get\<close> and \<open>Connection::set\<close> answer, that handles never dangle, that the end of a
  request frees what a script made, and what a fatal error leaves behind.
\<close>

section \<open>Commands as lists of arguments\<close>

lemma appends_id: "appends bt m t c res \<Longrightarrow> t = t' \<Longrightarrow> c = c' \<Longrightarrow> appends bt m t' c' res"
  by simp

lemma appends_text:
  assumes "writable (bt_write_buffer bt)" "allocator_ok m" "length s < 2147483648"
    "length (command_text bt) + length s \<le> max_fill"
  shows "appends bt m s k (Batch_write bt (Some s) (length s) k m)"
  using appends_write [OF assms(1,2), of "length s" s k] assms(3,4) by simp

lemma cmd_arg_appends:
  assumes w: "writable (bt_write_buffer bt)" "allocator_ok m" and s: "length s < 2147483648"
    and fit: "length (command_text bt) + length (encode_bulk (Some s)) \<le> max_fill"
  shows "appends bt m (encode_bulk (Some s)) 0 (cmd_arg s (bt, m))"
proof -
  have w: "appends bt1 m1 t k (Batch_write bt1 (Some t) n k m1)"
    if "n = length t" "writable (bt_write_buffer bt1)" "allocator_ok m1" "length t < 2147483648"
      "length (command_text bt1) + length t \<le> max_fill" for bt1 m1 t n k
    using appends_text [OF that(2-5), of k] that(1) by simp
  have d: "appends bt1 m1 (dec_nat (length s)) 0 (Batch_write_decimal bt1 (int (length s)) m1)"
    if "writable (bt_write_buffer bt1)" "allocator_ok m1"
      "length (command_text bt1) + length (dec_nat (length s)) \<le> max_fill" for bt1 m1
    using appends_decimal [OF that(1,2), of "int (length s)"] that(3) s by (simp add: int32_def)
  have "appends bt m (''$'' @ dec_nat (length s) @ crlf @ s @ crlf) (0 + (0 + (0 + (0 + 0)))) (cmd_arg s (bt, m))"
    unfolding cmd_arg_def prod.case
    by (rule appends_bind d w | use assms in \<open>simp add: encode_bulk_def; fail\<close>)+
  then show ?thesis by (simp add: encode_bulk_def)
qed

lemma appends_nil: "writable (bt_write_buffer bt) \<Longrightarrow> allocator_ok m \<Longrightarrow> int32 (bt_num_commands bt) \<Longrightarrow>
    appends bt m [] 0 (Inr (bt, m))"
  unfolding appends_def
  by (intro exI [of _ "bt_write_buffer bt"] exI [of _ "bt_num_commands bt"] exI [of _ m])
    (simp add: command_text_def wrap32_id int32_def)

lemma cmd_args_append:
  assumes "writable (bt_write_buffer bt)" "allocator_ok m" "int32 (bt_num_commands bt)"
    "\<forall>s \<in> set ss. length s < 2147483648"
    "length (command_text bt) + length (encode_bulks (map Some ss)) \<le> max_fill"
  shows "appends bt m (encode_bulks (map Some ss)) 0 (foldE cmd_arg ss (bt, m))"
  using assms
proof (induction ss arbitrary: bt m)
  case Nil
  then show ?case by (simp add: appends_nil)
next
  case (Cons s ss)
  have fit: "length (command_text bt) + length (encode_bulk (Some s)) \<le> max_fill" using Cons.prems(5) by simp
  from cmd_arg_appends [OF Cons.prems(1,2) _ fit] Cons.prems(4) obtain wb n m1 where
    a: "cmd_arg s (bt, m) = Inr (bt\<lparr>bt_write_buffer := wb, bt_num_commands := n\<rparr>, m1)" "n = wrap32 (bt_num_commands bt + 0)"
      "writable wb" "contents wb = command_text bt @ encode_bulk (Some s)" "allocator_ok m1"
      "charged m m1 (buffer_bytes wb - buffer_bytes (bt_write_buffer bt))" "module.more m1 = module.more m"
    unfolding appends_def by auto
  let ?bt = "bt\<lparr>bt_write_buffer := wb, bt_num_commands := n\<rparr>"
  have n: "n = bt_num_commands bt" using Cons.prems(3) a(2) by (simp add: wrap32_id int32_def)
  have "appends ?bt m1 (encode_bulks (map Some ss)) 0 (foldE cmd_arg ss (?bt, m1))"
    using a(3-5) Cons.prems(3-5) n by (intro Cons.IH) (simp_all add: command_text_def)
  then show ?case unfolding appends_def using a n charged_trans [OF a(6)]
    by (fastforce simp: command_text_def)
qed

lemma cmd_write_appends:
  assumes w: "writable (bt_write_buffer bt)" "allocator_ok m" and n: "length ss < 2147483648"
    and s: "\<forall>s \<in> set ss. length s < 2147483648"
    and fit: "length (command_text bt) + length (encode (VMulti (map Some ss))) \<le> max_fill"
  shows "appends bt m (encode (VMulti (map Some ss))) 1 (cmd_write (map ZString ss) bt m)"
proof -
  have w: "appends bt1 m1 t k (Batch_write bt1 (Some t) n k m1)"
    if "n = length t" "writable (bt_write_buffer bt1)" "allocator_ok m1" "length t < 2147483648"
      "length (command_text bt1) + length t \<le> max_fill" for bt1 m1 t n k
    using appends_text [OF that(2-5), of k] that(1) by simp
  have d: "appends bt1 m1 (dec_nat (length ss)) 0 (Batch_write_decimal bt1 (int (length ss)) m1)"
    if "writable (bt_write_buffer bt1)" "allocator_ok m1"
      "length (command_text bt1) + length (dec_nat (length ss)) \<le> max_fill" for bt1 m1
    using appends_decimal [OF that(1,2), of "int (length ss)"] that(3) n by (simp add: int32_def)
  have args: "appends bt1 m1 (encode_bulks (map Some ss)) 0 (foldE cmd_arg ss (bt1, m1))"
    if "writable (bt_write_buffer bt1)" "allocator_ok m1" "int32 (bt_num_commands bt1)"
      "length (command_text bt1) + length (encode_bulks (map Some ss)) \<le> max_fill" for bt1 m1
    using that s by (intro cmd_args_append)
  have strings: "map (string_val \<circ> ZString) ss = ss" by (induction ss) simp_all
  have "appends bt m (''*'' @ dec_nat (length ss) @ crlf @ encode_bulks (map Some ss)) (1 + (0 + (0 + 0)))
      (cmd_write (map ZString ss) bt m)"
    unfolding cmd_write_def map_map strings length_map
    by (rule appends_bind d args w | use assms in \<open>simp; fail\<close>)+
  then show ?thesis by simp
qed

lemma strings_val: "list_all is_string vs \<Longrightarrow> \<exists>ss. vs = map ZString ss"
proof (induction vs)
  case (Cons v vs)
  then obtain ss where "vs = map ZString ss" by auto
  moreover obtain s where "v = ZString s" using Cons.prems by (cases v) auto
  ultimately show ?case by (intro exI [of _ "s # ss"]) simp
qed simp

text \<open>
  C11: \<open>Batch::cmd\<close> speaks the protocol.  With strings as arguments it appends to the text of
  the batch their encoding as a multibulk and counts one command, and any parser of the protocol that gets
  to this place of the text reads the list of the arguments back, whatever bytes they contain.  With an
  argument that is no string, as the integer 10 in the call \<open>cmd("HINCRBY", "aKey", "aField", 10)\<close> that the README
  shows, the script ends with a fatal error and nothing was written.
\<close>

theorem Batch_cmd_roundtrip:
  assumes "ph_objects st this = Some \<lparr>ob_class = BATCH_CE, ob_handle = Some b\<rparr>"
    and "w_batches (ph_world st) b = Some bt" "writable (bt_write_buffer bt)" "allocator_ok (w_heap (ph_world st))"
    and "length ss < 2147483648" "\<forall>s \<in> set ss. length s < 2147483648"
    and "length (command_text bt) + length (encode (VMulti (map Some ss))) \<le> max_fill"
    and "zend_halts Z ''all arguments must be strings!''"
  shows "(\<exists>st' bt'. Batch_cmd_method Z this (Some (map ZString ss)) st = Inr (ZNull, st') \<and>
      w_batches (ph_world st') = (w_batches (ph_world st))(b \<mapsto> bt') \<and>
      command_text bt' = command_text bt @ encode (VMulti (map Some ss)) \<and>
      bt_num_commands bt' = wrap32 (bt_num_commands bt + 1) \<and>
      (\<forall>rp bref B h L out. at_rest rp \<and> ps_p rp = length (command_text bt) \<and> heap_inv bref (ps_p rp) None B h L \<and>
           length (command_text bt') < 2147483648 \<longrightarrow>
         (\<exists>rp' h' r L'. ReplyParser_execute rp bref (command_text bt') (length (command_text bt')) out h =
              Inr (RPR_REPLY, rp', h', Some r) \<and> ps_p rp' = length (command_text bt') \<and>
            value_of (command_text bt') (reply_view h' L' r) = Some (VMulti (map Some ss))))) \<and>
    (\<forall>vs. \<not> list_all is_string vs \<longrightarrow>
      Batch_cmd_method Z this (Some vs) st = Inl (Halt ''all arguments must be strings!'' st))"
proof -
  have all: "list_all is_string (map ZString ss)" by (simp add: list_all_iff)
  from cmd_write_appends [OF assms(3-7)] obtain wb n h1 where
    c: "cmd_write (map ZString ss) bt (w_heap (ph_world st)) = Inr (bt\<lparr>bt_write_buffer := wb, bt_num_commands := n\<rparr>, h1)"
      "n = wrap32 (bt_num_commands bt + 1)" "contents wb = command_text bt @ encode (VMulti (map Some ss))"
    unfolding appends_def by blast
  let ?bt = "bt\<lparr>bt_write_buffer := wb, bt_num_commands := n\<rparr>"
  let ?st = "st\<lparr>ph_world := put_batch b ?bt ((ph_world st)\<lparr>w_heap := h1\<rparr>)\<rparr>"
  have run: "Batch_cmd_method Z this (Some (map ZString ss)) st = Inr (ZNull, ?st)"
    using assms(1,2) c(1) all by (simp add: Batch_cmd_method_def get_handle_def Batch_cmd_def with_batch_def at_pointer_def)
  have t: "command_text ?bt = command_text bt @ encode (VMulti (map Some ss))"
    using c(3) by (simp add: command_text_def)
  have parse: "\<exists>rp' h' r L'. ReplyParser_execute rp bref (command_text ?bt) (length (command_text ?bt)) out h =
              Inr (RPR_REPLY, rp', h', Some r) \<and> ps_p rp' = length (command_text ?bt) \<and>
            value_of (command_text ?bt) (reply_view h' L' r) = Some (VMulti (map Some ss))"
    if p: "at_rest rp" "ps_p rp = length (command_text bt)" "heap_inv bref (ps_p rp) None B h L"
      "length (command_text ?bt) < 2147483648" for rp bref B h L out
  proof -
    have "text_at (command_text ?bt) (ps_p rp) (encode (VMulti (map Some ss)))"
      unfolding t p(2) using text_at_pre [of "command_text bt" _ "[]"] by simp
    moreover have "ps_p rp + length (encode (VMulti (map Some ss))) \<le> length (command_text ?bt)"
      using t p(2) by simp
    ultimately show ?thesis
      using ReplyParser_execute_roundtrip [OF p(1,3), of "VMulti (map Some ss)" "command_text ?bt" "length (command_text ?bt)" out] t p(2,4)
      by fastforce
  qed
  have "\<forall>vs. \<not> list_all is_string vs \<longrightarrow>
      Batch_cmd_method Z this (Some vs) st = Inl (Halt ''all arguments must be strings!'' st)"
    using assms(1,8) by (simp add: Batch_cmd_method_def get_handle_def Batch_cmd_def zend_error_def)
  moreover have "w_batches (ph_world ?st) = (w_batches (ph_world st))(b \<mapsto> ?bt)" by (simp add: put_batch_def)
  moreover have "bt_num_commands ?bt = wrap32 (bt_num_commands bt + 1)" using c(2) by simp
  ultimately show ?thesis using run t parse by blast
qed

text \<open>A process with one batch and the tables of the engine as association lists with distinct keys.\<close>

definition demo_zend :: "(hkey, handle) alist zend" where
  "demo_zend = \<lparr>zh_init = DAList.empty, zh_find = DAList.lookup, zh_update = (\<lambda>t k p. DAList.update k p t),
     zh_del = (\<lambda>t k. DAList.delete k t), zh_items = DAList.impl_of, zend_halts = (\<lambda>_. True)\<rparr>"

definition demo_php :: "batch \<Rightarrow> rheap \<Rightarrow> (hkey, handle) alist php" where
  "demo_php bt h = \<lparr>ph_world = demo_world bt h, ph_executors = (\<lambda>_. None), ph_ketamas = (\<lambda>_. None),
     ph_objects = [5 \<mapsto> \<lparr>ob_class = BATCH_CE, ob_handle = Some 0\<rparr>, 6 \<mapsto> \<lparr>ob_class = CONNECTION_CE, ob_handle = Some 0\<rparr>],
     g_connections = DAList.update (KText ''localhost'') (Some 0) DAList.empty,
     g_batch = DAList.update (KPointer (Some 0)) (Some 0) DAList.empty, g_ketama = DAList.empty,
     g_executor = DAList.empty, g_module_error = []\<rparr>"

lemma demo_php_simps [simp]:
  "ph_world (demo_php bt h) = demo_world bt h" "ph_executors (demo_php bt h) = (\<lambda>_. None)"
  "ph_ketamas (demo_php bt h) = (\<lambda>_. None)"
  "ph_objects (demo_php bt h) 5 = Some \<lparr>ob_class = BATCH_CE, ob_handle = Some 0\<rparr>"
  "ph_objects (demo_php bt h) 6 = Some \<lparr>ob_class = CONNECTION_CE, ob_handle = Some 0\<rparr>"
  "w_batches (demo_world bt h) 0 = Some bt" "w_heap (demo_world bt h) = h"
  by (simp_all add: demo_php_def demo_world_def)

theorem Batch_cmd_roundtrip_witness:
  "\<exists>st st' bt'. Batch_cmd_method demo_zend 5 (Some [ZString ''SET'', ZString ''k'', ZString ''a b'']) st = Inr (ZNull, st') \<and>
     w_batches (ph_world st') 0 = Some bt' \<and>
     command_text bt' = ''x'' @ encode (VMulti [Some ''SET'', Some ''k'', Some ''a b'']) \<and> bt_num_commands bt' = 3"
proof -
  from demo_batch obtain bt h where b: "batch_ok bt h {0} ((\<lambda>_. [])(RQueue 0 := []))" "bt_num_commands bt = 2"
    "command_text bt = ''x''" by blast
  then have w: "writable (bt_write_buffer bt)" "allocator_ok h" by (simp_all add: batch_ok_def reply_heap_def)
  have z: "zend_halts demo_zend ''all arguments must be strings!''" by (simp add: demo_zend_def)
  have l: "length (encode (VMulti (map Some [''SET'', ''k'', ''a b'']))) \<le> 1000"
    by (simp add: encode_bulks_def encode_bulk_def crlf_def dec_nat.simps)
  from Batch_cmd_roundtrip [of "demo_php bt h" 5 0 bt "[''SET'', ''k'', ''a b'']" demo_zend] w l z b(2,3) show ?thesis
    by (fastforce simp: wrap32_id simp del: encode.simps)
qed



section \<open>One command\<close>

lemma Connection_get_run:
  "Connection_get_method Z K raw b this (Some (key, t)) st =
     one_command Z K raw b (\<lambda>bt h. Batch_write_get bt (Some key) (int (length key)) h) (get_result Z) this t st"
  by (simp add: Connection_get_method_def)

lemma Connection_get_ends:
  assumes "call_ready Z K f raw b this c (timeout_of t) st" "length key < 2147483648"
  shows "\<exists>x w' bt cn v. exchanged K c b (wrap32 (timeout_of t)) (get_command key) (ph_world st) x w' bt cn v \<and>
    call_ends b c x w' bt cn v (get_answer (contents (bt_read_buffer bt)) v) st
      (Connection_get_method Z K raw b this (Some (key, t)) st)"
  using one_command_answers [OF assms(1) get_appends [OF assms(2)] get_answers, of get_value] answer_value(1)
  unfolding Connection_get_run by blast

text \<open>
  C14: \<open>Connection::get\<close> asks the server and answers what it replied.  The method executes exactly one batch with
  the text of one \<open>GET\<close> command on its connection.  If the connection survived and the server sent protocol
  values, the script gets the first: the string of a bulk, null for a missing key, false for an error, and
  any other reply ends the script, as does a \<open>poll\<close> that fails.  A timeout gives false with its message as the last error.
  A call that returns has freed its batch; one that ends the script has not.  Either way all other batches, the replies in
  their queues and all other connections are as before, and the connection is ready for the next call; no
  call faults.
\<close>

theorem Connection_get_answers:
  assumes "call_ready Z K f raw b this c (timeout_of t) st" "length key < 2147483648"
  shows "\<exists>x w' bt cn v. exchanged K c b (wrap32 (timeout_of t)) (get_command key) (ph_world st) x w' bt cn v \<and>
    (\<forall>ws. cn_state cn \<noteq> CS_ABORTED \<and> sent_values bt ws \<longrightarrow>
       ws \<noteq> [] \<and> get_answer (contents (bt_read_buffer bt)) v = get_value (hd ws)) \<and>
    call_ends b c x w' bt cn v (get_answer (contents (bt_read_buffer bt)) v) st
      (Connection_get_method Z K raw b this (Some (key, t)) st)"
  unfolding Connection_get_run by (rule one_command_answers [OF assms(1) get_appends [OF assms(2)] get_answers answer_value(1)])

text \<open>
  C15: \<open>Connection::set\<close> stores a value and says whether the server did.  The method executes exactly one batch with
  the text of one \<open>SET\<close> command on its connection.  If the connection survived and the server sent protocol
  values, the script gets true for a status and false for an error, and any other reply ends the script; what
  a call leaves behind, also when it ends the script, is as for \<open>Connection::get\<close>.
\<close>

theorem Connection_set_answers:
  assumes "call_ready Z K f raw b this c (timeout_of t) st" "length key < 2147483648" "length val < 2147483648"
  shows "\<exists>x w' bt cn v. exchanged K c b (wrap32 (timeout_of t)) (set_command key val) (ph_world st) x w' bt cn v \<and>
    (\<forall>ws. cn_state cn \<noteq> CS_ABORTED \<and> sent_values bt ws \<longrightarrow>
       ws \<noteq> [] \<and> set_answer (contents (bt_read_buffer bt)) v = set_value (hd ws)) \<and>
    call_ends b c x w' bt cn v (set_answer (contents (bt_read_buffer bt)) v) st
      (Connection_set_method Z K raw b this (Some (key, val, t)) st)"
proof -
  have run: "Connection_set_method Z K raw b this (Some (key, val, t)) st =
      one_command Z K raw b (\<lambda>bt h. Batch_write_set bt (Some key) (int (length key)) (Some val) (int (length val)) h)
        (set_result Z) this t st"
    by (simp add: Connection_set_method_def)
  show ?thesis unfolding run by (rule one_command_answers [OF assms(1) set_appends [OF assms(2,3)] set_answers answer_value(2)])
qed

lemma call_ready_for:
  assumes K: "kernel_ok K f" "clock_ok K" "time_passes K 0 1000"
  shows "\<exists>bt h. call_ready demo_zend K f (w_exec (demo_world bt h)) 7 6 0 (timeout_of (Some 1000)) (demo_php bt h)"
proof -
  from demo_batch obtain bt h where b: "bt_id bt = 0" "batch_ok bt h {0} demo_lists" "rh_replies h = (\<lambda>_. None)" by blast
  let ?w = "demo_world bt h"
  have "reply_heap h (dom (w_batches ?w)) demo_lists" "shaped h demo_lists"
    using b(2,3) by (simp_all add: batch_ok_def demo_world_def shaped_def)
  moreover have "conns_idle ?w"
    by (auto simp: conns_idle_def conn_idle_def demo_world_def fresh_conn_def addr_of_def)
  ultimately have "world_ok ?w" using b(1) unfolding world_ok_def by (auto simp: demo_world_def)
  moreover have "time_passes K (calls ?w) (wrap32 1000)" "timeout_ok (wrap32 1000)"
    using K(3) by (simp_all add: calls_def demo_world_def wrap32_id timeout_ok_def)
  moreover have "w_batches ?w 7 = None" "w_conns ?w 0 \<noteq> None" "unread 7 h"
    "length (ex_pairs (w_exec ?w)) = MAX_PAIRS" "length (ex_fds (w_exec ?w)) = MAX_PAIRS"
    using b(3) by (simp_all add: demo_world_def unread_def)
  ultimately show ?thesis using K(1,2)
    by (intro exI [of _ bt] exI [of _ h]) (simp add: call_ready_def timely_def free_address_def timeout_of_def demo_zend_def)
qed

lemmas demo_call_ready = call_ready_for [OF demo_kernel_ok demo_clock_ok(1,2)]

theorem Connection_get_answers_witness:
  "\<exists>raw st x w' bt cn v. exchanged demo_kernel 0 7 1000 (''GET k'' @ crlf) (ph_world st) x w' bt cn v \<and>
    (\<forall>ws. cn_state cn \<noteq> CS_ABORTED \<and> sent_values bt ws \<longrightarrow>
       ws \<noteq> [] \<and> get_answer (contents (bt_read_buffer bt)) v = get_value (hd ws)) \<and>
    call_ends 7 0 x w' bt cn v (get_answer (contents (bt_read_buffer bt)) v) st
      (Connection_get_method demo_zend demo_kernel raw 7 6 (Some (''k'', Some 1000)) st)"
proof -
  from demo_call_ready obtain bt h where
    r: "call_ready demo_zend demo_kernel demo_traffic (w_exec (demo_world bt h)) 7 6 0 (timeout_of (Some 1000)) (demo_php bt h)" by blast
  have e: "wrap32 (timeout_of (Some 1000)) = 1000" "get_command ''k'' = ''GET k'' @ crlf"
    by (simp_all add: timeout_of_def wrap32_id get_command_def)
  from Connection_get_answers [OF r, of "''k''", unfolded e] show ?thesis
    by - (rule exI [of _ "w_exec (demo_world bt h)"], rule exI [of _ "demo_php bt h"], simp)
qed

theorem Connection_set_answers_witness:
  "\<exists>raw st x w' bt cn v. exchanged demo_kernel 0 7 1000 (set_command ''k'' ''v'') (ph_world st) x w' bt cn v \<and>
    (\<forall>ws. cn_state cn \<noteq> CS_ABORTED \<and> sent_values bt ws \<longrightarrow>
       ws \<noteq> [] \<and> set_answer (contents (bt_read_buffer bt)) v = set_value (hd ws)) \<and>
    call_ends 7 0 x w' bt cn v (set_answer (contents (bt_read_buffer bt)) v) st
      (Connection_set_method demo_zend demo_kernel raw 7 6 (Some (''k'', ''v'', Some 1000)) st)"
proof -
  from demo_call_ready obtain bt h where
    r: "call_ready demo_zend demo_kernel demo_traffic (w_exec (demo_world bt h)) 7 6 0 (timeout_of (Some 1000)) (demo_php bt h)" by blast
  have e: "wrap32 (timeout_of (Some 1000)) = 1000" by (simp add: timeout_of_def wrap32_id)
  from Connection_set_answers [OF r, of "''k''" "''v''", unfolded e] show ?thesis
    by - (rule exI [of _ "w_exec (demo_world bt h)"], rule exI [of _ "demo_php bt h"], simp)
qed



section \<open>The life of a process\<close>

text \<open>
  C12: handles never dangle.  In every state a process can reach, from its start through the calls of \<open>script_step\<close>,
  be it that they return or end the script, and ends of requests, an object with a handle refers to a live object of
  the library of its class; batches, hash rings and executors have exactly one object and one entry in their table;
  no table has an entry whose object is gone; and the lists of replies, the allocator and the connections are in
  order.
\<close>

theorem process_handles_live:
  assumes "zend_ok Z" "process Z K f st"
  shows "(\<forall>ob ce a. ph_objects st ob = Some \<lparr>ob_class = ce, ob_handle = Some a\<rparr> \<longrightarrow>
      (case ce of
         KETAMA_CE \<Rightarrow> ph_ketamas st a \<noteq> None \<and> zh_find Z (g_ketama st) (KPointer (Some a)) = Some (Some a)
       | EXECUTOR_CE \<Rightarrow> ph_executors st a \<noteq> None \<and> zh_find Z (g_executor st) (KPointer (Some a)) = Some (Some a)
       | CONNECTION_CE \<Rightarrow> w_conns (ph_world st) a \<noteq> None
       | BATCH_CE \<Rightarrow> w_batches (ph_world st) a \<noteq> None \<and> zh_find Z (g_batch st) (KPointer (Some a)) = Some (Some a)
       | REDIS_CE \<Rightarrow> False) \<and>
      (\<forall>ob'. ob' \<noteq> ob \<and> ce \<noteq> CONNECTION_CE \<longrightarrow> ph_objects st ob' \<noteq> Some \<lparr>ob_class = ce, ob_handle = Some a\<rparr>)) \<and>
    (\<forall>k p. zh_find Z (g_batch st) k = Some p \<longrightarrow> (\<exists>a. k = KPointer (Some a) \<and> p = Some a \<and> w_batches (ph_world st) a \<noteq> None)) \<and>
    (\<forall>k p. zh_find Z (g_ketama st) k = Some p \<longrightarrow> (\<exists>a. k = KPointer (Some a) \<and> p = Some a \<and> ph_ketamas st a \<noteq> None)) \<and>
    (\<forall>k p. zh_find Z (g_executor st) k = Some p \<longrightarrow> (\<exists>a. k = KPointer (Some a) \<and> p = Some a \<and> ph_executors st a \<noteq> None)) \<and>
    (\<forall>k p. zh_find Z (g_connections st) k = Some p \<longrightarrow> (\<exists>c. p = Some c \<and> w_conns (ph_world st) c \<noteq> None)) \<and>
    world_ok (ph_world st)"
proof -
  from process_ok_process [OF assms] obtain R where W: "world_ok (ph_world st)"
    and R: "R \<subseteq> dom (w_batches (ph_world st))" "tables_ok Z R st" "objects_ok R st" unfolding process_ok_def by blast
  have t: "zh_find Z (g_batch st) = entries (w_batches (ph_world st) |` R)" "zh_find Z (g_ketama st) = entries (ph_ketamas st)"
    "zh_find Z (g_executor st) = entries (ph_executors st)"
    "\<forall>k p. zh_find Z (g_connections st) k = Some p \<longrightarrow> (\<exists>c. p = Some c \<and> w_conns (ph_world st) c \<noteq> None)"
    using R(2) unfolding tables_ok_def by blast+
  have live: "case ce of
         KETAMA_CE \<Rightarrow> ph_ketamas st a \<noteq> None \<and> zh_find Z (g_ketama st) (KPointer (Some a)) = Some (Some a)
       | EXECUTOR_CE \<Rightarrow> ph_executors st a \<noteq> None \<and> zh_find Z (g_executor st) (KPointer (Some a)) = Some (Some a)
       | CONNECTION_CE \<Rightarrow> w_conns (ph_world st) a \<noteq> None
       | BATCH_CE \<Rightarrow> w_batches (ph_world st) a \<noteq> None \<and> zh_find Z (g_batch st) (KPointer (Some a)) = Some (Some a)
       | REDIS_CE \<Rightarrow> False" if "ph_objects st ob = Some \<lparr>ob_class = ce, ob_handle = Some a\<rparr>" for ob ce a
    using process_refers [OF R(3) that] R(1) unfolding t refers_def by (cases ce) auto
  have one: "ph_objects st ob' \<noteq> Some \<lparr>ob_class = ce, ob_handle = Some a\<rparr>"
    if "ph_objects st ob = Some \<lparr>ob_class = ce, ob_handle = Some a\<rparr>" "ob' \<noteq> ob" "ce \<noteq> CONNECTION_CE" for ob ob' ce a
    using R(3) that unfolding objects_ok_def by fastforce
  have tab: "entries objs k = Some p \<Longrightarrow> \<exists>a. k = KPointer (Some a) \<and> p = Some a \<and> objs a \<noteq> None" for objs :: "nat \<Rightarrow> 'x option" and k p
    using entries_SomeD [of objs k p] by blast
  have b: "\<exists>a. k = KPointer (Some a) \<and> p = Some a \<and> w_batches (ph_world st) a \<noteq> None"
    if "zh_find Z (g_batch st) k = Some p" for k p
    using tab [OF that [unfolded t(1)]] by (auto simp: restrict_map_def split: if_splits)
  have k: "\<exists>a. k = KPointer (Some a) \<and> p = Some a \<and> ph_ketamas st a \<noteq> None" if "zh_find Z (g_ketama st) k = Some p" for k p
    by (rule tab [OF that [unfolded t(2)]])
  have e: "\<exists>a. k = KPointer (Some a) \<and> p = Some a \<and> ph_executors st a \<noteq> None" if "zh_find Z (g_executor st) k = Some p" for k p
    by (rule tab [OF that [unfolded t(3)]])
  show ?thesis by (intro conjI allI impI live one; (elim conjE)?) (use b k e t(4) W one in blast)+
qed

text \<open>
  C13: the end of a request succeeds and frees what the script made.  In every state a process can reach by the calls
  of \<open>script_step\<close>, which include the execution of batches and executors that wait for it,
  \<open>PHP_RSHUTDOWN\<close> returns without a fault, whatever destructors have run before; then all hash rings and
  executors and all batches in the table are freed, the connections and their table are kept for the next request, and
  the process goes on from a reachable state.
\<close>

theorem PHP_RSHUTDOWN_frees:
  assumes "zend_ok Z" "process Z K f st"
  shows "\<exists>st'. PHP_RSHUTDOWN Z st = Inr st' \<and> process Z K f (st'\<lparr>ph_objects := (\<lambda>_. None)\<rparr>) \<and>
    ph_ketamas st' = (\<lambda>_. None) \<and> ph_executors st' = (\<lambda>_. None) \<and>
    (\<forall>b. w_batches (ph_world st') b = (if zh_find Z (g_batch st) (KPointer (Some b)) = None then w_batches (ph_world st) b else None)) \<and>
    w_conns (ph_world st') = w_conns (ph_world st) \<and> g_connections st' = g_connections st"
proof -
  from request_end [OF assms(1) process_ok_process [OF assms]] obtain st' where
    s: "PHP_RSHUTDOWN Z st = Inr st'" "ph_ketamas st' = (\<lambda>_. None)" "ph_executors st' = (\<lambda>_. None)"
      "\<forall>b. w_batches (ph_world st') b = (if zh_find Z (g_batch st) (KPointer (Some b)) = None then w_batches (ph_world st) b else None)"
      "w_conns (ph_world st') = w_conns (ph_world st)" "g_connections st' = g_connections st" by blast
  with process.request [OF assms(2) s(1)] show ?thesis by blast
qed

text \<open>
  C33: a fatal error in \<open>Connection::get\<close> leaks its batch.  Whenever the method ends the script, be it
  that \<open>poll\<close> failed or that the server answered with a reply that is neither a bulk nor an error, the temporary batch
  is still allocated and in no table, and no object refers to it; the \<open>PHP_RSHUTDOWN\<close> at the end of the request
  succeeds and leaves it as it is.
\<close>

theorem Connection_get_leaks_batch:
  assumes "zend_ok Z" "process_ok Z st" "timely K f raw (timeout_of t) st" "free_address b st" "length key < 2147483648"
    and "ph_objects st this = Some \<lparr>ob_class = CONNECTION_CE, ob_handle = Some c\<rparr>"
    and "Connection_get_method Z K raw b this (Some (key, t)) st = Inl (Halt msg st1)"
  shows "w_batches (ph_world st) b = None \<and> w_batches (ph_world st1) b \<noteq> None \<and>
    zh_find Z (g_batch st1) (KPointer (Some b)) = None \<and>
    (\<forall>ob x. ph_objects st1 ob = Some x \<and> ob_class x = BATCH_CE \<longrightarrow> ob_handle x \<noteq> Some b) \<and>
    (\<exists>st2. PHP_RSHUTDOWN Z st1 = Inr st2 \<and> w_batches (ph_world st2) b = w_batches (ph_world st1) b)"
proof -
  have r: "call_ready Z K f raw b this c (timeout_of t) st"
    using assms(2-4,6) object_connection [OF assms(2,6)] by (simp add: call_ready_def zend_simps(1) [OF assms(1)] process_ok_def)
  from Connection_get_ends [OF r assms(5)] obtain x w' bt cn v where
    o: "call_ends b c x w' bt cn v (get_answer (contents (bt_read_buffer bt)) v) st (Connection_get_method Z K raw b this (Some (key, t)) st)"
    by blast
  from o obtain w where w: "st1 = st\<lparr>ph_world := w\<rparr>" "stopped b c cn st w"
    unfolding assms(7) call_ends_def ends_with_def by (auto split: if_splits option.splits)
  have P1: "process_ok Z st1" by (rule call_ends_process [OF assms(2) o]) (simp add: assms(7))
  from request_end [OF assms(1) P1] obtain st2 where s: "PHP_RSHUTDOWN Z st1 = Inr st2"
    "w_batches (ph_world st2) b = (if zh_find Z (g_batch st1) (KPointer (Some b)) = None then w_batches (ph_world st1) b else None)" by blast
  from assms(2) obtain R where R: "R \<subseteq> dom (w_batches (ph_world st))" "tables_ok Z R st" "objects_ok R st" unfolding process_ok_def by blast
  have free: "w_batches (ph_world st) b = None" using assms(4) by (simp add: free_address_def)
  then have tab: "zh_find Z (g_batch st1) (KPointer (Some b)) = None" using R(2) by (simp add: w(1) tables_ok_def restrict_map_def)
  have "ob_handle y \<noteq> Some b" if "ph_objects st1 ob = Some y" "ob_class y = BATCH_CE" for ob y
    using R(1,3) that free by (fastforce simp: w(1) objects_ok_def refers_def)
  moreover have "w_batches (ph_world st1) b \<noteq> None" using w by (auto simp: stopped_def)
  ultimately show ?thesis using free tab s by auto
qed

section \<open>An example of a process\<close>

lemma demo_zend_ok: "zend_ok demo_zend"
proof -
  have "DAList.lookup t = map_of (DAList.impl_of t)" for t :: "(hkey, handle) alist" by (simp add: DAList.lookup.rep_eq)
  then show ?thesis
    by (simp add: zend_ok_def demo_zend_def DAList.lookup.rep_eq DAList.update.rep_eq DAList.delete.rep_eq DAList.empty.rep_eq
        update_conv' delete_conv')
qed

text \<open>
  A process that runs the first example of the README: a batch with a command, a connection, an executor, to which both
  are added and which is executed.
\<close>

definition first_state :: "(hkey, handle) alist php" where
  "first_state = PHP_MINIT demo_zend zero_malloc zero_realloc zero_malloc zero_realloc
     (w_os (demo_world undefined undefined)) (w_exec (demo_world undefined undefined))"

definition filled :: "world \<Rightarrow> bool" where
  "filled w \<longleftrightarrow> (\<exists>bt. w_batches w = [0 \<mapsto> bt] \<and> unexecuted 0 bt \<and> 0 < bt_num_commands bt) \<and> rh_replies (w_heap w) = (\<lambda>_. None) \<and>
     lh_next (rh_links (w_heap w)) (RQueue 0) = Some (RQueue 0) \<and> calls w = 0"

lemma filled_heap:
  "filled w \<Longrightarrow> module.more h = module.more (w_heap w) \<Longrightarrow> w_batches w' = w_batches w \<Longrightarrow> w_heap w' = h \<Longrightarrow> w_os w' = w_os w \<Longrightarrow> filled w'"
  using more_rheap [of h "w_heap w"] by (simp add: filled_def calls_def)

definition demo_state :: "world \<Rightarrow> (nat \<Rightarrow> executor option) \<Rightarrow> (nat \<Rightarrow> php_object option) \<Rightarrow> (hkey, handle) alist \<Rightarrow>
    (hkey, handle) alist \<Rightarrow> (hkey, handle) alist php" where
  "demo_state w exs objs tc te = first_state\<lparr>ph_world := w, ph_executors := exs, ph_objects := objs, g_connections := tc,
     g_batch := zh_update demo_zend (zh_init demo_zend) (KPointer (Some 0)) (Some 0), g_executor := te\<rparr>"

lemma demo_state_simps [simp]:
  "ph_world (demo_state w exs objs tc te) = w" "ph_executors (demo_state w exs objs tc te) = exs"
  "ph_objects (demo_state w exs objs tc te) = objs" "g_connections (demo_state w exs objs tc te) = tc"
  "g_executor (demo_state w exs objs tc te) = te"
  "g_batch (demo_state w exs objs tc te) = zh_update demo_zend (zh_init demo_zend) (KPointer (Some 0)) (Some 0)"
  "(demo_state w exs objs tc te)\<lparr>ph_world := w'\<rparr> = demo_state w' exs objs tc te"
  "(demo_state w exs objs tc te)\<lparr>ph_executors := exs'\<rparr> = demo_state w exs' objs tc te"
  "(demo_state w exs objs tc te)\<lparr>ph_objects := objs'\<rparr> = demo_state w exs objs' tc te"
  "(demo_state w exs objs tc te)\<lparr>g_connections := tc'\<rparr> = demo_state w exs objs tc' te"
  "(demo_state w exs objs tc te)\<lparr>g_executor := te'\<rparr> = demo_state w exs objs tc te'"
  by (simp_all add: demo_state_def)

abbreviation demo_process :: "(hkey, handle) alist php \<Rightarrow> bool" where
  "demo_process \<equiv> process demo_zend demo_kernel demo_traffic"

lemma demo_process_world: "demo_process st \<Longrightarrow> world_ok (ph_world st)"
  using process_ok_process [OF demo_zend_ok] by (simp add: process_ok_def)

lemma demo_step1:
  "\<exists>w. filled w \<and> w_conns w = (\<lambda>_. None) \<and>
    demo_process (demo_state w (\<lambda>_. None) [5 \<mapsto> \<lparr>ob_class = BATCH_CE, ob_handle = Some 0\<rparr>] (zh_init demo_zend) (zh_init demo_zend))"
proof -
  let ?st = first_state and ?w = "ph_world first_state"
  have p: "demo_process ?st" unfolding first_state_def by (rule process.start [OF zero_malloc_ok zero_realloc_ok])
  have f: "w_batches ?w = (\<lambda>_. None)" "w_conns ?w = (\<lambda>_. None)" "ph_objects ?st = (\<lambda>_. None)" "rh_replies (w_heap ?w) = (\<lambda>_. None)"
    "ph_executors ?st = (\<lambda>_. None)" "g_connections ?st = zh_init demo_zend" "g_executor ?st = zh_init demo_zend" "g_batch ?st = zh_init demo_zend"
    "w_os ?w = w_os (demo_world undefined undefined)"
    by (simp_all add: first_state_def PHP_MINIT_def Let_def module.defs rheap.defs split: prod.splits)
  from demo_process_world [OF p] obtain L where L: "reply_heap (w_heap ?w) (dom (w_batches ?w)) L" by (auto simp: world_ok_def)
  from Batch_new_ok [OF L, of 0] f(1) obtain bt h where
    n: "Batch_new 0 (w_heap ?w) = Inr (bt, h)" "bt_id bt = 0" "batch_ok bt h {0} (L(RQueue 0 := []))" "bt_num_commands bt = 0"
      "command_text bt = []" "contents (bt_read_buffer bt) = []" "bt_error bt = None" "bf_capacity (bt_read_buffer bt) = 12288"
      "rh_replies h = rh_replies (w_heap ?w)" by auto
  have b: "writable (bt_write_buffer bt)" "writable (bt_read_buffer bt)" "allocator_ok h" "reply_heap h {0} (L(RQueue 0 := []))"
    using n(3) by (simp_all add: batch_ok_def reply_heap_def)
  have four: "length ''PING'' = 4" by simp
  have "appends bt h ''PING'' 1 (Batch_write bt (Some ''PING'') 4 1 h)"
    using appends_text [OF b(1,3), of "''PING''" 1, unfolded four] n(5) by simp
  then obtain wb h' where a: "Batch_write bt (Some ''PING'') 4 1 h = Inr (bt\<lparr>bt_write_buffer := wb, bt_num_commands := 1\<rparr>, h')"
    "writable wb" "module.more h' = module.more h" unfolding appends_def n(4) by (auto simp: wrap32_id)
  let ?bt = "bt\<lparr>bt_write_buffer := wb, bt_num_commands := 1\<rparr>"
  let ?w' = "put_batch 0 ?bt (?w\<lparr>w_heap := h'\<rparr>)"
  have "bf_position (bt_read_buffer bt) = 0"
    using n(6) b(2) length_contents [of "bt_read_buffer bt"] by (simp add: writable_def)
  then have "unexecuted 0 ?bt" using n b a(2) by (simp add: unexecuted_def writable_def int32_def)
  moreover have "lh_next (rh_links h) (RQueue 0) = Some (RQueue 0)"
    using b(4) lseg_first [of "rh_links h" "RQueue 0" "[]"] by (auto simp: reply_heap_def rings_def heads_def dlist_def)
  ultimately have "filled ?w'"
    using more_rheap [OF a(3)] n(9) f unfolding filled_def
    by (intro conjI exI [of _ ?bt]) (simp_all add: put_batch_def calls_def demo_world_def)
  moreover have "w_conns ?w' = (\<lambda>_. None)" by (simp add: put_batch_def f)
  moreover have run: "Redis_create_batch demo_zend 0 5 (Some (Some ''PING'', Some 1)) ?st = Inr (ZObject 5,
      demo_state ?w' (\<lambda>_. None) [5 \<mapsto> \<lparr>ob_class = BATCH_CE, ob_handle = Some 0\<rparr>] (zh_init demo_zend) (zh_init demo_zend))"
    using n(1) a(1) f by (simp add: Redis_create_batch_def new_batch_def object_init_ex_def set_handle_def with_batch_def at_pointer_def
        put_batch_def to_size_def wrap32_id demo_state_def)
  then have "script_step demo_zend demo_kernel demo_traffic ?st
      (demo_state ?w' (\<lambda>_. None) [5 \<mapsto> \<lparr>ob_class = BATCH_CE, ob_handle = Some 0\<rparr>] (zh_init demo_zend) (zh_init demo_zend))"
    using f by (intro script_step.create_batch [where b = 0 and ob = 5 and args = "Some (Some ''PING'', Some 1)"]) simp_all
  ultimately show ?thesis using process.call [OF p] by blast
qed

lemma demo_step2:
  assumes "filled w" "w_conns w = (\<lambda>_. None)" "demo_process (demo_state w exs objs (zh_init demo_zend) te)" "objs 6 = None"
  shows "\<exists>w' tc. filled w' \<and> w_conns w' 0 \<noteq> None \<and>
    demo_process (demo_state w' exs (objs(6 \<mapsto> \<lparr>ob_class = CONNECTION_CE, ob_handle = Some 0\<rparr>)) tc te)"
proof -
  let ?st = "demo_state w exs objs (zh_init demo_zend) te"
  have sp: "split_address (cn_addr fresh_conn) (cn_serv fresh_conn) ''localhost'' = (''localhost'', ''6379'', False)" by code_simp
  from demo_process_world [OF assms(3)] have "allocator_ok (w_heap w)" using world_ok_alloc by simp
  from Connection_new_ok [OF this sp, of 0 fresh_parser] obtain h cn where
    h: "module.more h = module.more (w_heap w)" "Connection_new 0 fresh_conn fresh_parser ''localhost'' w = Inr (Some 0, put_conn 0 cn (w\<lparr>w_heap := h\<rparr>))"
    by auto
  let ?w' = "put_conn 0 cn (w\<lparr>w_heap := h\<rparr>)"
  let ?tc = "zh_update demo_zend (zh_init demo_zend) (KText ''localhost'') (Some 0)"
  let ?st' = "demo_state ?w' exs (objs(6 \<mapsto> \<lparr>ob_class = CONNECTION_CE, ob_handle = Some 0\<rparr>)) ?tc te"
  have "filled ?w'" by (rule filled_heap [OF assms(1) h(1)]) (simp_all add: put_conn_def)
  moreover have c: "cstr ''localhost'' = ''localhost''" by code_simp
  have "Redis_get_connection demo_zend 0 fresh_conn fresh_parser 6 (Some ''localhost'') ?st = Inr (ZObject 6, ?st')"
    using h(2) assms(4) by (simp add: Redis_get_connection_def c zend_simps(2) [OF demo_zend_ok] object_init_ex_def set_handle_def Let_def)
  then have "script_step demo_zend demo_kernel demo_traffic ?st ?st'"
    using assms(2,4)
    by (intro script_step.get_connection [where c = 0 and ob = 6 and addr = "Some ''localhost''" and raw_conn = fresh_conn and raw_parser = fresh_parser])
      (simp_all add: clean_block_def fresh_conn_def)
  moreover have "w_conns ?w' 0 \<noteq> None" by (simp add: put_conn_def)
  ultimately show ?thesis using process.call [OF assms(3)] by blast
qed

lemma demo_step3:
  assumes "filled w" "w_conns w 0 \<noteq> None" "demo_process (demo_state w (\<lambda>_. None) objs tc te)" "objs 7 = None"
  shows "\<exists>w' te. filled w' \<and> w_conns w' 0 \<noteq> None \<and>
    demo_process (demo_state w' [0 \<mapsto> w_exec (demo_world undefined undefined)] (objs(7 \<mapsto> \<lparr>ob_class = EXECUTOR_CE, ob_handle = Some 0\<rparr>)) tc te)"
proof -
  let ?st = "demo_state w (\<lambda>_. None) objs tc te" and ?ex = "w_exec (demo_world undefined undefined)"
  from demo_process_world [OF assms(3)] have "allocator_ok (w_heap w)" using world_ok_alloc by simp
  from Alloc_alloc_ok [OF this, of sizeof_Executor] obtain blk h where
    h: "Alloc_alloc sizeof_Executor (w_heap w) = Inr (Some blk, h)" "module.more h = module.more (w_heap w)" by blast
  let ?w' = "w\<lparr>w_heap := h\<rparr>"
  let ?st' = "demo_state ?w' [0 \<mapsto> ?ex] (objs(7 \<mapsto> \<lparr>ob_class = EXECUTOR_CE, ob_handle = Some 0\<rparr>)) tc
    (zh_update demo_zend te (KPointer (Some 0)) (Some 0))"
  have "Executor_new ?ex (w_heap w) = Inr (Some ?ex, h)" using h(1) by (simp add: Executor_new_def demo_world_def)
  then have "Redis_create_executor demo_zend ?ex 0 7 ?st = Inr (ZObject 7, ?st')"
    using assms(4) by (simp add: Redis_create_executor_def object_init_ex_def set_handle_def put_heap_def Let_def)
  then have "script_step demo_zend demo_kernel demo_traffic ?st ?st'"
    using assms(4) by (intro script_step.create_executor [where a = 0 and ob = 7 and raw = ?ex]) simp_all
  moreover have "filled ?w'" by (rule filled_heap [OF assms(1) h(2)]) simp_all
  ultimately show ?thesis using process.call [OF assms(3)] assms(2) by (intro exI [of _ ?w'] exI) auto
qed

lemma demo_executor:
  "ex_numpairs (w_exec (demo_world bt h)) = 0" "length (ex_pairs (w_exec (demo_world bt h))) = MAX_PAIRS"
  "length (ex_fds (w_exec (demo_world bt h))) = MAX_PAIRS"
  by (simp_all add: demo_world_def)

lemma demo_step4:
  assumes "filled w" "w_conns w 0 \<noteq> None" "demo_process (demo_state w [0 \<mapsto> w_exec (demo_world undefined undefined)] objs tc te)"
    and "objs 5 = Some \<lparr>ob_class = BATCH_CE, ob_handle = Some 0\<rparr>" "objs 6 = Some \<lparr>ob_class = CONNECTION_CE, ob_handle = Some 0\<rparr>"
      "objs 7 = Some \<lparr>ob_class = EXECUTOR_CE, ob_handle = Some 0\<rparr>"
  shows "\<exists>ex. pairs_waiting ex (demo_state (w\<lparr>w_exec := ex\<rparr>) [0 \<mapsto> ex] objs tc te) \<and> ex_numpairs ex = 1 \<and>
    timely demo_kernel demo_traffic ex 1000 (demo_state (w\<lparr>w_exec := ex\<rparr>) [0 \<mapsto> ex] objs tc te) \<and>
    demo_process (demo_state (w\<lparr>w_exec := ex\<rparr>) [0 \<mapsto> ex] objs tc te)"
proof -
  let ?raw = "w_exec (demo_world undefined undefined)"
  let ?st = "demo_state w [0 \<mapsto> ?raw] objs tc te"
  let ?ex = "?raw\<lparr>ex_pairs := (ex_pairs ?raw)[0 := (0, 0)], ex_fds := (ex_fds ?raw)[0 := \<lparr>pf_fd = 0, pf_events = {}, pf_revents = {}\<rparr>],
    ex_numpairs := 1\<rparr>"
  let ?st' = "demo_state (w\<lparr>w_exec := ?ex\<rparr>) [0 \<mapsto> ?ex] objs tc te"
  note e = demo_executor
  have m: "0 < MAX_PAIRS" by (simp add: MAX_PAIRS_def)
  have "Executor_add 0 0 (w\<lparr>w_exec := ?raw\<rparr>) = Inr (0, w\<lparr>w_exec := ?ex\<rparr>)"
    using e m by (simp add: Executor_add_def Let_def)
  then have "Executor_add_method demo_zend 7 (Some (6, 5)) ?st = Inr (ZBool True, ?st')"
    using assms(4-6) by (simp add: Executor_add_method_def get_handle_def with_executor_def at_pointer_def)
  then have "script_step demo_zend demo_kernel demo_traffic ?st ?st'"
    by (intro script_step.executor_add [where this = 7 and eargs = "Some (6, 5)"]) simp
  then have "demo_process ?st'" by (rule process.call [OF assms(3)])
  moreover have "waiting 0 ?st'" using assms(1) by (auto simp: waiting_def filled_def unread_def)
  then have "pairs_waiting ?ex ?st'" using assms(2) e m by (simp add: pairs_waiting_def)
  moreover have "timely demo_kernel demo_traffic ?ex 1000 ?st'"
    using demo_kernel_ok demo_clock_ok assms(1) e by (simp add: timely_def wrap32_id filled_def calls_def)
  ultimately show ?thesis by (intro exI [of _ ?ex]) simp
qed

lemma demo_process:
  "\<exists>st st'. demo_process st \<and> (\<exists>ex. ph_executors st 0 = Some ex \<and> ex_numpairs ex = 1) \<and>
     leads (Executor_execute_method demo_zend demo_kernel 7 (Some (Some 1000)) st) st' \<and> demo_process st' \<and>
     ph_objects st' 5 = Some \<lparr>ob_class = BATCH_CE, ob_handle = Some 0\<rparr> \<and> ph_executors st' 0 \<noteq> None \<and>
     zh_find demo_zend (g_batch st') (KPointer (Some 0)) = Some (Some 0)"
proof -
  let ?o5 = "[5 \<mapsto> \<lparr>ob_class = BATCH_CE, ob_handle = Some 0\<rparr>]"
  let ?o6 = "?o5(6 \<mapsto> \<lparr>ob_class = CONNECTION_CE, ob_handle = Some 0\<rparr>)"
  let ?objs = "?o6(7 \<mapsto> \<lparr>ob_class = EXECUTOR_CE, ob_handle = Some 0\<rparr>)"
  from demo_step1 obtain w1 where s1: "filled w1" "w_conns w1 = (\<lambda>_. None)"
    "demo_process (demo_state w1 (\<lambda>_. None) ?o5 (zh_init demo_zend) (zh_init demo_zend))" by blast
  from demo_step2 [OF s1] obtain w2 tc where s2: "filled w2" "w_conns w2 0 \<noteq> None"
    "demo_process (demo_state w2 (\<lambda>_. None) ?o6 tc (zh_init demo_zend))" by auto
  from demo_step3 [OF s2] obtain w3 te where s3: "filled w3" "w_conns w3 0 \<noteq> None"
    "demo_process (demo_state w3 [0 \<mapsto> w_exec (demo_world undefined undefined)] ?objs tc te)" by auto
  from demo_step4 [OF s3] obtain ex where s4: "ex_numpairs ex = 1"
    "pairs_waiting ex (demo_state (w3\<lparr>w_exec := ex\<rparr>) [0 \<mapsto> ex] ?objs tc te)"
    "timely demo_kernel demo_traffic ex (timeout_of (Some 1000)) (demo_state (w3\<lparr>w_exec := ex\<rparr>) [0 \<mapsto> ex] ?objs tc te)"
    "demo_process (demo_state (w3\<lparr>w_exec := ex\<rparr>) [0 \<mapsto> ex] ?objs tc te)" by (auto simp: timeout_of_def)
  let ?st = "demo_state (w3\<lparr>w_exec := ex\<rparr>) [0 \<mapsto> ex] ?objs tc te"
  from Executor_execute_world [OF demo_process_world [OF s4(4)] s4(3,2)] obtain x w' where
    x: "Executor_execute demo_kernel 1000 (w3\<lparr>w_exec := ex\<rparr>) = Inr (x, w')" by (auto simp: timeout_of_def wrap32_id)
  have ob: "ph_objects ?st 7 = Some \<lparr>ob_class = EXECUTOR_CE, ob_handle = Some 0\<rparr>" by simp
  let ?st1 = "demo_state w' [0 \<mapsto> w_exec w'] ?objs tc te"
  let ?out = "Executor_execute_method demo_zend demo_kernel 7 (Some (Some 1000)) ?st"
  have "with_executor (Some 0) (Executor_execute demo_kernel 1000) ?st = Inr (x, ?st1)"
    using x by (simp add: with_executor_def at_pointer_def)
  then have "leads ?out ?st1 \<or> leads ?out (set_last_error_from_global_error ?st1)"
    unfolding Executor_execute_method_def
    by (simp add: get_handle_object [OF ob] wrap32_id zend_error_def zend_simps(1) [OF demo_zend_ok])
  then obtain st' where st': "leads ?out st'" "st' = ?st1 \<or> st' = set_last_error_from_global_error ?st1" by blast
  have "script_step demo_zend demo_kernel demo_traffic ?st st'"
    by (rule script_step.executor_execute [OF ob _ s4(2,3) st'(1)]) simp
  from process.call [OF s4(4) this] have "demo_process st'" .
  moreover have "ph_objects st' 5 = Some \<lparr>ob_class = BATCH_CE, ob_handle = Some 0\<rparr>" "ph_executors st' 0 \<noteq> None"
    "zh_find demo_zend (g_batch st') (KPointer (Some 0)) = Some (Some 0)"
    using st'(2) by (auto simp: set_last_error_from_global_error_def zend_simps(3) [OF demo_zend_ok])
  ultimately show ?thesis using s4(1,4) st'(1) by (intro exI [of _ ?st] exI [of _ st']) simp
qed

theorem process_handles_live_witness:
  "\<exists>st st'. process demo_zend demo_kernel demo_traffic st \<and>
     leads (Executor_execute_method demo_zend demo_kernel 7 (Some (Some 1000)) st) st' \<and>
     process demo_zend demo_kernel demo_traffic st' \<and> ph_objects st' 5 = Some \<lparr>ob_class = BATCH_CE, ob_handle = Some 0\<rparr> \<and>
     w_batches (ph_world st') 0 \<noteq> None \<and> world_ok (ph_world st')"
proof -
  from demo_process obtain st st' where st: "demo_process st"
    "leads (Executor_execute_method demo_zend demo_kernel 7 (Some (Some 1000)) st) st'" "demo_process st'"
    "ph_objects st' 5 = Some \<lparr>ob_class = BATCH_CE, ob_handle = Some 0\<rparr>" by blast
  from process_handles_live [OF demo_zend_ok st(3)] st(4) have "w_batches (ph_world st') 0 \<noteq> None" "world_ok (ph_world st')" by fastforce+
  with st show ?thesis by blast
qed

theorem PHP_RSHUTDOWN_frees_witness:
  "\<exists>st st' st''. process demo_zend demo_kernel demo_traffic st \<and>
     leads (Executor_execute_method demo_zend demo_kernel 7 (Some (Some 1000)) st) st' \<and> ph_executors st' 0 \<noteq> None \<and>
     PHP_RSHUTDOWN demo_zend st' = Inr st'' \<and> ph_executors st'' 0 = None \<and> w_batches (ph_world st'') 0 = None"
proof -
  from demo_process obtain st st' where st: "demo_process st"
    "leads (Executor_execute_method demo_zend demo_kernel 7 (Some (Some 1000)) st) st'" "demo_process st'" "ph_executors st' 0 \<noteq> None"
    "zh_find demo_zend (g_batch st') (KPointer (Some 0)) = Some (Some 0)" by blast
  from PHP_RSHUTDOWN_frees [OF demo_zend_ok st(3)] obtain st'' where "PHP_RSHUTDOWN demo_zend st' = Inr st''"
    "ph_executors st'' = (\<lambda>_. None)" "w_batches (ph_world st'') 0 = None" using st(5) by fastforce
  with st show ?thesis by (intro exI [of _ st] exI [of _ st'] exI [of _ st'']) simp
qed

lemma demo_process_ok:
  assumes "world_ok (demo_world bt h)"
  shows "process_ok demo_zend (demo_php bt h)"
proof -
  let ?st = "demo_php bt h"
  have t: "g_batch ?st = zh_update demo_zend (zh_init demo_zend) (KPointer (Some 0)) (Some 0)" "g_ketama ?st = zh_init demo_zend"
    "g_executor ?st = zh_init demo_zend" "g_connections ?st = zh_update demo_zend (zh_init demo_zend) (KText ''localhost'') (Some 0)"
    by (simp_all add: demo_php_def demo_zend_def)
  have "w_batches (demo_world bt h) |` {0} = [0 \<mapsto> bt]" by (auto simp: demo_world_def fun_eq_iff restrict_map_def)
  then have "tables_ok demo_zend {0} ?st"
    unfolding tables_ok_def t by (auto simp: zend_simps(2,3) [OF demo_zend_ok] demo_world_def)
  moreover have "objects_ok {0} ?st" by (auto simp: objects_ok_def demo_php_def refers_def demo_world_def split: if_splits)
  ultimately show ?thesis using assms unfolding process_ok_def by (intro conjI exI [of _ "{0}"]) (auto simp: demo_world_def)
qed

text \<open>A server that does not answer: the connection stays in progress, \<open>poll\<close> is interrupted at once.\<close>

definition silent_kernel :: kernel where
  "silent_kernel = demo_kernel\<lparr>k_connect := (\<lambda>n fd. Inl EINPROGRESS), k_read := (\<lambda>n fd m. Inl EAGAIN),
     k_poll := (\<lambda>n fds t. Inl 4), k_clock := (\<lambda>n. (min (n - 10) 1000000, 0))\<rparr>"

lemma silent_kernel_ok: "kernel_ok silent_kernel (\<lambda>_. 0)" "clock_ok silent_kernel" "time_passes silent_kernel 0 1000"
proof -
  show "kernel_ok silent_kernel (\<lambda>_. 0)" by (auto simp: kernel_ok_def silent_kernel_def demo_kernel_def)
  have m: "clock_ms silent_kernel n = of_nat (min (n - 10) 1000000) * 1000" for n
    by (simp add: clock_ms_def silent_kernel_def)
  have "clock_ms silent_kernel i \<le> clock_ms silent_kernel j" if "i \<le> j" for i j
    unfolding m by (intro mult_right_mono) (use that in auto)
  then show "clock_ok silent_kernel" by (auto simp: clock_ok_def silent_kernel_def)
  have "clock_ms silent_kernel 0 + of_int (max 0 1000) + 200 \<le> clock_ms silent_kernel n" if "12 \<le> n" for n
  proof -
    have "(2::rat) \<le> of_nat (min (n - 10) 1000000)" using that by simp
    then show ?thesis unfolding m by simp
  qed
  then show "time_passes silent_kernel 0 1000" unfolding time_passes_def by blast
qed

lemma silent_start:
  assumes "start_pair silent_kernel 0 w = Inr w'" "pair_at 0 w = (b, c)" "w_conns w c = Some fresh_conn"
  shows "ex_numevents (w_exec w') = ex_numevents (w_exec w) + 1 \<and> ex_end_tm_ms (w_exec w') = ex_end_tm_ms (w_exec w) \<and>
    calls w' = calls w + 5"
  using assms
  by (auto simp: start_pair_def Connection_execute_start_def Connection_write_data_def open_connection_def Connection_create_socket_def
      Executor_notify_event_def bindE_eq_Inr nthE_def pair_at_def fresh_conn_def silent_kernel_def demo_kernel_def put_conn_def
      put_batch_def get_conn_def get_batch_def Let_def calls_def tick_def set_errno_def errno_def split: if_splits option.splits)

lemma silent_poll:
  assumes e: "Executor_execute silent_kernel 1000 w = Inr (x, w')" and w: "ex_numpairs (w_exec w) = 1" "pair_at 0 w = (b, c)"
    "w_conns w c = Some fresh_conn" "calls w = 0"
  shows "x < 0"
proof -
  let ?t = "sfl 53 (TIMESPEC_TO_MS (k_clock silent_kernel 0) + sfl 24 1000)"
  let ?w = "(tick w)\<lparr>w_exec := (w_exec w)\<lparr>ex_end_tm_ms := ?t, ex_numevents := 0\<rparr>\<rparr>"
  have clock: "k_clock silent_kernel 6 = (0, 0)" "k_clock silent_kernel 0 = (0, 0)" by (simp_all add: silent_kernel_def)
  have left: "sfl 53 (sfl 53 (TIMESPEC_TO_MS (0, 0) + sfl 24 1000) - TIMESPEC_TO_MS (0, 0)) = 1000" by code_simp
  from e w(1,4) obtain w3 w4 pr where s: "start_pair silent_kernel 0 ?w = Inr w3"
    "loopE (executor_turn silent_kernel) (w3, 1) = Inr (w4, pr)" "pr < 0 \<Longrightarrow> x = pr"
    unfolding Executor_execute_def Let_def by (auto simp: bindE_eq_Inr split: if_splits)
  have p: "pair_at 0 ?w = (b, c)" "w_conns ?w c = Some fresh_conn" using w(2,3) by (simp_all add: pair_at_def)
  have w3: "ex_numevents (w_exec w3) = 1" "ex_end_tm_ms (w_exec w3) = ?t" "calls w3 = 6"
    using silent_start [OF s(1) p] w(4) by simp_all
  have tm: "Executor_current_timeout silent_kernel w3 = Inr (Some 1000, tick w3)"
    unfolding Executor_current_timeout_def w3 clock left Let_def by simp
  have poll: "do_poll silent_kernel 1000 (tick w3) = (-1, set_errno 4 (tick (tick w3)))"
    by (simp add: do_poll_def silent_kernel_def)
  have turn: "executor_turn silent_kernel (w3, 1) =
      bindE (foldE (dispatch silent_kernel (-1)) [0..<ex_numpairs (w_exec w3)] (set_errno 4 (tick (tick w3)))) (\<lambda>w5. Inr ((w5, -1), True))"
    using w3(1) tm poll by (simp add: executor_turn_def)
  have stop: "executor_turn silent_kernel (w5, -1) = Inr ((w5, -1), False)" for w5 by (simp add: executor_turn_def)
  have "pr = -1"
    using s(2) by (subst (asm) loopE_unfold, subst (asm) turn, subst (asm) loopE_unfold) (auto simp: stop bindE_eq_Inr)
  with s(3) show ?thesis by simp
qed

text \<open>The call of \<open>Connection::get\<close> whose \<open>poll\<close> fails.\<close>

lemma silent_get:
  "\<exists>bt h msg st1. process_ok demo_zend (demo_php bt h) \<and> free_address 7 (demo_php bt h) \<and>
     timely silent_kernel (\<lambda>_. 0) (w_exec (demo_world bt h)) (timeout_of (Some 1000)) (demo_php bt h) \<and>
     Connection_get_method demo_zend silent_kernel (w_exec (demo_world bt h)) 7 6 (Some (''k'', Some 1000)) (demo_php bt h) = Inl (Halt msg st1)"
proof -
  from call_ready_for [OF silent_kernel_ok] obtain bt h where
    r: "call_ready demo_zend silent_kernel (\<lambda>_. 0) (w_exec (demo_world bt h)) 7 6 0 (timeout_of (Some 1000)) (demo_php bt h)" by blast
  have e: "wrap32 (timeout_of (Some 1000)) = 1000" by (simp add: timeout_of_def wrap32_id)
  have k: "length ''k'' < 2147483648" by simp
  from Connection_get_ends [OF r k, unfolded e demo_php_simps(1)] obtain x w' bt1 cn v where
    o: "exchanged silent_kernel 0 7 1000 (get_command ''k'') (demo_world bt h) x w' bt1 cn v"
      "call_ends 7 0 x w' bt1 cn v (get_answer (contents (bt_read_buffer bt1)) v) (demo_php bt h)
        (Connection_get_method demo_zend silent_kernel (w_exec (demo_world bt h)) 7 6 (Some (''k'', Some 1000)) (demo_php bt h))"
    by blast
  from o(1) obtain bt0 w0 w1 L where w0: "w_conns w0 = w_conns (demo_world bt h)" "w_os w0 = w_os (demo_world bt h)"
    "carried_out silent_kernel 0 7 1000 w0 bt0 x w1 w' L bt1 cn" unfolding exchanged_def by blast
  then obtain w2 where w: "Executor_execute silent_kernel 1000 w2 = Inr (x, w1)" "ex_numpairs (w_exec w2) = 1"
    "pair_at 0 w2 = (7, 0)" "w_conns w2 = w_conns w0" "w_os w2 = w_os w0" unfolding carried_out_def by blast
  have "w_conns w2 0 = Some fresh_conn" "calls w2 = 0" using w(4,5) w0(1,2) by (simp_all add: demo_world_def calls_def)
  from silent_poll [OF w(1-3) this] o(2) have
    "Connection_get_method demo_zend silent_kernel (w_exec (demo_world bt h)) 7 6 (Some (''k'', Some 1000)) (demo_php bt h) =
       Inl (Halt (Module_last_error (w_heap w')) ((demo_php bt h)\<lparr>ph_world := w'\<rparr>))" by (simp add: call_ends_def)
  moreover have "process_ok demo_zend (demo_php bt h)" using r by (intro demo_process_ok) (simp add: call_ready_def)
  ultimately show ?thesis using r unfolding call_ready_def by blast
qed

theorem Connection_get_leaks_batch_witness:
  "\<exists>raw st msg st1 st2. Connection_get_method demo_zend silent_kernel raw 7 6 (Some (''k'', Some 1000)) st = Inl (Halt msg st1) \<and>
     w_batches (ph_world st) 7 = None \<and> PHP_RSHUTDOWN demo_zend st1 = Inr st2 \<and> w_batches (ph_world st2) 7 \<noteq> None"
proof -
  from silent_get obtain bt h msg st1 where s: "process_ok demo_zend (demo_php bt h)" "free_address 7 (demo_php bt h)"
    "timely silent_kernel (\<lambda>_. 0) (w_exec (demo_world bt h)) (timeout_of (Some 1000)) (demo_php bt h)"
    "Connection_get_method demo_zend silent_kernel (w_exec (demo_world bt h)) 7 6 (Some (''k'', Some 1000)) (demo_php bt h) = Inl (Halt msg st1)"
    by blast
  have ob: "ph_objects (demo_php bt h) 6 = Some \<lparr>ob_class = CONNECTION_CE, ob_handle = Some 0\<rparr>" by simp
  from Connection_get_leaks_batch [OF demo_zend_ok s(1,3,2) _ ob s(4)] obtain st2 where
    "w_batches (ph_world (demo_php bt h)) 7 = None" "PHP_RSHUTDOWN demo_zend st1 = Inr st2" "w_batches (ph_world st2) 7 \<noteq> None" by auto
  with s(4) show ?thesis by blast
qed

end
