(* ===== verification/Free_List.thy ===== *)
theory Free_List
  imports Reply
begin

text \<open>
  The free lists of the single threaded build: what \<open>ALLOC_LIST_T\<close> of \<open>libredis/alloc.h\<close> expands to with
  \<open>SINGLETHREADED\<close>, for the type \<open>Reply\<close> of \<open>libredis/batch.c\<close>.  An object that is freed is put on a static list
  by its \<open>list\<close> member and is handed out again; only \<open>Reply_free_final\<close> gives memory back.
\<close>

section \<open>Data\<close>

text \<open>The head of the free list, and the members \<open>list\<close> and \<open>children\<close> of a reply.\<close>

datatype fnode = FREE_LIST | LINK nat | CHILDREN nat

text \<open>\<open>pl_objs\<close> are the blocks obtained from the allocator and not given back.\<close>

record pool = module +
  pl_links :: "fnode lheap"
  pl_objs :: "nat set"

fun obj_of :: "fnode \<Rightarrow> nat res" where
  "obj_of (LINK r) = Inr r"
| "obj_of _ = Inl Undefined"

section \<open>The operations\<close>

text \<open>\<open>T_list_alloc\<close>: \<open>a\<close> is the address of a new block.  The second result is the value returned.\<close>

definition T_list_alloc :: "nat \<Rightarrow> nat \<Rightarrow> pool \<Rightarrow> (nat \<times> int \<times> pool) res" where
  "T_list_alloc sz a p =
     (if list_empty FREE_LIST (pl_links p) then
        bindE (Alloc_alloc sz p) (\<lambda>(blk, p1).
        bindE (derefE blk) (\<lambda>_. Inr (a, 1, p1\<lparr>pl_objs := insert a (pl_objs p1)\<rparr>)))
      else
        bindE (list_pop FREE_LIST (pl_links p)) (\<lambda>(n, lk).
        bindE (obj_of n) (\<lambda>r. Inr (r, 0, p\<lparr>pl_links := lk\<rparr>))))"

text \<open>Touching a block that was given back is undefined.\<close>

definition T_list_free :: "nat \<Rightarrow> nat \<Rightarrow> bool \<Rightarrow> pool \<Rightarrow> pool res" where
  "T_list_free sz obj final p =
     (if obj \<notin> pl_objs p then Inl Undefined
      else if final then bindE (Alloc_free sz p) (\<lambda>p1. Inr (p1\<lparr>pl_objs := pl_objs p1 - {obj}\<rparr>))
      else bindE (list_add (LINK obj) FREE_LIST (pl_links p)) (\<lambda>lk. Inr (p\<lparr>pl_links := lk\<rparr>)))"

text \<open>\<open>Reply_new\<close> up to its data fields.\<close>

definition pool_Reply_new :: "nat \<Rightarrow> pool \<Rightarrow> (nat \<times> pool) res" where
  "pool_Reply_new a p =
     bindE (T_list_alloc sizeof_Reply a p) (\<lambda>(r, _, p1).
       Inr (r, p1\<lparr>pl_links := init_list_head (CHILDREN r) (pl_links p1)\<rparr>))"

text \<open>
  \<open>Reply_free\<close>, which is \<open>_Reply_free\<close> with \<open>final\<close> 0: the loop frees the children before the reply goes on
  the free list.  A null pointer in the loop is a fault, and so is a node that is no \<open>list\<close> member.
\<close>

partial_function (option) pool_Reply_free :: "nat \<Rightarrow> pool \<Rightarrow> pool res option" where
  "pool_Reply_free r p =
     (if list_empty (CHILDREN r) (pl_links p) then Some (T_list_free sizeof_Reply r False p)
      else case bindE (list_pop (CHILDREN r) (pl_links p)) (\<lambda>(n, lk). bindE (obj_of n) (\<lambda>c. Inr (c, p\<lparr>pl_links := lk\<rparr>))) of
        Inl e \<Rightarrow> Some (Inl e)
      | Inr (c, p1) \<Rightarrow>
          Option.bind (pool_Reply_free c p1) (\<lambda>res. case res of Inl e \<Rightarrow> Some (Inl e) | Inr p2 \<Rightarrow> pool_Reply_free r p2))"

text \<open>\<open>Reply_free_final\<close>: \<open>_Reply_free\<close> with \<open>final\<close> 1 skips the loop over the children.\<close>

partial_function (option) pool_Reply_free_final :: "pool \<Rightarrow> pool res option" where
  "pool_Reply_free_final p =
     (if list_empty FREE_LIST (pl_links p) then Some (Inr p)
      else case bindE (list_pop FREE_LIST (pl_links p)) (\<lambda>(n, lk).
             bindE (obj_of n) (\<lambda>r. T_list_free sizeof_Reply r True (p\<lparr>pl_links := lk\<rparr>))) of
        Inl e \<Rightarrow> Some (Inl e)
      | Inr p1 \<Rightarrow> pool_Reply_free_final p1)"

section \<open>Well-formed pools\<close>

text \<open>\<open>fs\<close> are the replies on the free list, \<open>L\<close> says which nodes hang off each head; what is free has no children.\<close>

definition pool_heads :: "pool \<Rightarrow> fnode set" where
  "pool_heads p = insert FREE_LIST (CHILDREN ` pl_objs p)"

definition pool_ok :: "pool \<Rightarrow> nat list \<Rightarrow> (fnode \<Rightarrow> fnode list) \<Rightarrow> bool" where
  "pool_ok p fs L \<longleftrightarrow> rings (pl_links p) (pool_heads p) L \<and> L FREE_LIST = map LINK fs \<and>
     (\<forall>a \<in> pool_heads p. set (L a) \<subseteq> LINK ` pl_objs p) \<and> (\<forall>r \<in> set fs. L (CHILDREN r) = []) \<and> allocator_ok p"

text \<open>A reply that is in no list.\<close>

definition unlisted :: "nat \<Rightarrow> pool \<Rightarrow> (fnode \<Rightarrow> fnode list) \<Rightarrow> bool" where
  "unlisted r p L \<longleftrightarrow> r \<in> pl_objs p \<and> LINK r \<notin> all_nodes (pool_heads p) L"

lemma pool_heads_cong [simp]: "pool_heads (p\<lparr>pl_links := lk\<rparr>) = pool_heads p"
  by (simp add: pool_heads_def)

lemma more_pool:
  "module.more (p' :: pool) = module.more p \<Longrightarrow> pl_links p' = pl_links p \<and> pl_objs p' = pl_objs p"
  by (cases p'; cases p) simp

lemma free_in_objs: "pool_ok p fs L \<Longrightarrow> set fs \<subseteq> pl_objs p"
proof
  fix r assume p: "pool_ok p fs L" and r: "r \<in> set fs"
  have "set (L FREE_LIST) \<subseteq> LINK ` pl_objs p" using p unfolding pool_ok_def pool_heads_def by blast
  moreover have "LINK r \<in> set (L FREE_LIST)" using p r by (simp add: pool_ok_def)
  ultimately show "r \<in> pl_objs p" by auto
qed

lemma all_nodes_pool: "pool_ok p fs L \<Longrightarrow> all_nodes (pool_heads p) L \<subseteq> pool_heads p \<union> LINK ` pl_objs p"
  by (fastforce simp: pool_ok_def all_nodes_def ring_nodes_def)

lemma all_nodes_mono: "(\<And>a. a \<in> H \<Longrightarrow> set (L' a) \<subseteq> set (L a)) \<Longrightarrow> all_nodes H L' \<subseteq> all_nodes H L"
  by (fastforce simp: all_nodes_def ring_nodes_def)

lemma rings_init_again:
  assumes "rings h H L" "a \<in> H" "L a = []"
  shows "rings (init_list_head a h) H L"
proof -
  have "rings (init_list_head a h) H (L(a := []))"
    by (rule rings_update [where N = "{}"]) (use assms in \<open>auto simp: dlist_init same_off_def raw_sel ring_nodes_def\<close>)
  then show ?thesis using assms(3) by (metis fun_upd_triv)
qed

section \<open>The operations on a well-formed pool\<close>

lemma new_fresh:
  assumes p: "pool_ok p [] L" and a: "a \<notin> pl_objs p"
  shows "\<exists>p'. pool_Reply_new a p = Inr (a, p') \<and> pool_ok p' [] (L(CHILDREN a := [])) \<and>
    pl_objs p' = insert a (pl_objs p) \<and> charged p p' (int sizeof_Reply)"
proof -
  have R: "rings (pl_links p) (pool_heads p) L" "L FREE_LIST = []" "\<forall>n \<in> pool_heads p. set (L n) \<subseteq> LINK ` pl_objs p" "allocator_ok p"
    using p by (simp_all add: pool_ok_def)
  have empty: "list_empty FREE_LIST (pl_links p)" using list_empty_rings [OF R(1)] R(2) by (simp add: pool_heads_def)
  from Alloc_alloc_ok [OF R(4), of sizeof_Reply] obtain blk p1 where
    p1: "Alloc_alloc sizeof_Reply p = Inr (Some blk, p1)" "allocator_ok p1" "charged p p1 (int sizeof_Reply)"
      "module.more p1 = module.more p" by blast
  note m = more_pool [OF p1(4)]
  let ?p' = "p1\<lparr>pl_objs := insert a (pl_objs p), pl_links := init_list_head (CHILDREN a) (pl_links p)\<rparr>"
  have h: "pool_heads ?p' = insert (CHILDREN a) (pool_heads p)" by (auto simp: pool_heads_def)
  have "CHILDREN a \<notin> all_nodes (pool_heads p) L" using all_nodes_pool [OF p] a by (auto simp: pool_heads_def)
  from rings_add_head [OF R(1) this] have "rings (pl_links ?p') (pool_heads ?p') (L(CHILDREN a := []))" unfolding h by simp
  moreover have "\<forall>n \<in> pool_heads ?p'. set ((L(CHILDREN a := [])) n) \<subseteq> LINK ` pl_objs ?p'"
  proof
    fix n assume "n \<in> pool_heads ?p'"
    with R(3) have "n = CHILDREN a \<or> set (L n) \<subseteq> LINK ` pl_objs p" unfolding h by blast
    then show "set ((L(CHILDREN a := [])) n) \<subseteq> LINK ` pl_objs ?p'" by auto
  qed
  moreover have "allocator_ok ?p'" using p1(2) by (simp add: allocator_ok_def)
  ultimately have "pool_ok ?p' [] (L(CHILDREN a := []))" using R(2) by (simp add: pool_ok_def)
  moreover have "charged p ?p' (int sizeof_Reply)" using p1(3) by (simp add: charged_def)
  moreover have "pool_Reply_new a p = Inr (a, ?p')"
    by (simp add: pool_Reply_new_def T_list_alloc_def empty p1(1) m)
  ultimately show ?thesis by auto
qed

lemma pop_free:
  assumes p: "pool_ok p (fs @ [r]) L"
  shows "\<exists>lk. list_pop FREE_LIST (pl_links p) = Inr (LINK r, lk) \<and> pool_ok (p\<lparr>pl_links := lk\<rparr>) fs (L(FREE_LIST := map LINK fs)) \<and>
    unlisted r (p\<lparr>pl_links := lk\<rparr>) (L(FREE_LIST := map LINK fs))"
proof -
  have R: "rings (pl_links p) (pool_heads p) L" "L FREE_LIST = map LINK fs @ [LINK r]" "FREE_LIST \<in> pool_heads p"
    using p by (simp_all add: pool_ok_def pool_heads_def)
  from list_pop_rings [OF R(1,3,2)] obtain lk where
    lk: "list_pop FREE_LIST (pl_links p) = Inr (LINK r, lk)" "rings lk (pool_heads p) (L(FREE_LIST := map LINK fs))" by blast
  have "set (L FREE_LIST) \<subseteq> LINK ` pl_objs p" using p R(3) unfolding pool_ok_def by blast
  then have "\<forall>a \<in> pool_heads p. set ((L(FREE_LIST := map LINK fs)) a) \<subseteq> LINK ` pl_objs p"
    using p R(2) by (auto simp: pool_ok_def)
  then have "pool_ok (p\<lparr>pl_links := lk\<rparr>) fs (L(FREE_LIST := map LINK fs))"
    using p lk(2) by (auto simp: pool_ok_def allocator_ok_def)
  moreover have "unlisted r (p\<lparr>pl_links := lk\<rparr>) (L(FREE_LIST := map LINK fs))"
    using removed_not_in [OF R(1,3), of "map LINK fs" "LINK r" "[]"] R(2) free_in_objs [OF p] by (simp add: unlisted_def)
  ultimately show ?thesis using lk(1) by blast
qed

lemma new_again:
  assumes p: "pool_ok p (fs @ [r]) L"
  shows "\<exists>lk. pool_Reply_new a p = Inr (r, p\<lparr>pl_links := lk\<rparr>) \<and> pool_ok (p\<lparr>pl_links := lk\<rparr>) fs (L(FREE_LIST := map LINK fs)) \<and>
    unlisted r (p\<lparr>pl_links := lk\<rparr>) (L(FREE_LIST := map LINK fs))"
proof -
  have ne: "\<not> list_empty FREE_LIST (pl_links p)"
    using p list_empty_rings [of "pl_links p" "pool_heads p" L FREE_LIST] by (simp add: pool_ok_def pool_heads_def)
  from pop_free [OF p] obtain lk where
    lk: "list_pop FREE_LIST (pl_links p) = Inr (LINK r, lk)" "pool_ok (p\<lparr>pl_links := lk\<rparr>) fs (L(FREE_LIST := map LINK fs))"
      "unlisted r (p\<lparr>pl_links := lk\<rparr>) (L(FREE_LIST := map LINK fs))" by blast
  have c: "(L(FREE_LIST := map LINK fs)) (CHILDREN r) = []" "CHILDREN r \<in> pool_heads p"
    using p free_in_objs [OF p] by (simp_all add: pool_ok_def pool_heads_def)
  have "rings (init_list_head (CHILDREN r) lk) (pool_heads p) (L(FREE_LIST := map LINK fs))"
    using lk(2) by (intro rings_init_again [where L = "L(FREE_LIST := map LINK fs)" and a = "CHILDREN r"] c) (simp add: pool_ok_def)
  then have "pool_ok (p\<lparr>pl_links := init_list_head (CHILDREN r) lk\<rparr>) fs (L(FREE_LIST := map LINK fs))"
    using lk(2) by (simp add: pool_ok_def allocator_ok_def)
  moreover have "pool_Reply_new a p = Inr (r, p\<lparr>pl_links := init_list_head (CHILDREN r) lk\<rparr>)"
    by (simp add: pool_Reply_new_def T_list_alloc_def ne lk(1))
  ultimately show ?thesis using lk(3) by (auto simp: unlisted_def)
qed

lemma list_free_again:
  assumes p: "pool_ok p fs L" and r: "unlisted r p L" "L (CHILDREN r) = []"
  shows "\<exists>lk. T_list_free sizeof_Reply r False p = Inr (p\<lparr>pl_links := lk\<rparr>) \<and>
    pool_ok (p\<lparr>pl_links := lk\<rparr>) (r # fs) (L(FREE_LIST := map LINK (r # fs)))"
proof -
  have R: "rings (pl_links p) (pool_heads p) L" "L FREE_LIST = map LINK fs" "FREE_LIST \<in> pool_heads p"
    using p by (simp_all add: pool_ok_def pool_heads_def)
  from list_add_rings [OF R(1,3), of "LINK r"] r(1) obtain lk where
    lk: "list_add (LINK r) FREE_LIST (pl_links p) = Inr lk" "rings lk (pool_heads p) (L(FREE_LIST := map LINK (r # fs)))"
    by (auto simp: unlisted_def R(2))
  have "set (L FREE_LIST) \<subseteq> LINK ` pl_objs p" using p R(3) unfolding pool_ok_def by blast
  then have "\<forall>a \<in> pool_heads p. set ((L(FREE_LIST := map LINK (r # fs))) a) \<subseteq> LINK ` pl_objs p"
    using p r(1) R(2) by (auto simp: pool_ok_def unlisted_def)
  then have "pool_ok (p\<lparr>pl_links := lk\<rparr>) (r # fs) (L(FREE_LIST := map LINK (r # fs)))"
    using p lk(2) r(2) by (auto simp: pool_ok_def allocator_ok_def)
  then show ?thesis using lk(1) r(1) by (intro exI [of _ lk]) (simp add: T_list_free_def unlisted_def)
qed


lemma list_free_final:
  assumes p: "pool_ok p fs L" and r: "unlisted r p L" "L (CHILDREN r) = []"
  shows "\<exists>p'. T_list_free sizeof_Reply r True p = Inr p' \<and> pool_ok p' fs L \<and> pl_objs p' = pl_objs p - {r} \<and>
    charged p p' (- int sizeof_Reply)"
proof -
  have al: "allocator_ok p" using p by (simp add: pool_ok_def)
  from Alloc_free_ok [OF al, of sizeof_Reply] obtain p1 where
    p1: "Alloc_free sizeof_Reply p = Inr p1" "allocator_ok p1" "charged p p1 (- int sizeof_Reply)" "module.more p1 = module.more p" by blast
  note m = more_pool [OF p1(4)]
  let ?p' = "p1\<lparr>pl_objs := pl_objs p - {r}\<rparr>"
  have h: "pool_heads ?p' = pool_heads p - {CHILDREN r}" by (auto simp: pool_heads_def)
  have "rings (pl_links ?p') (pool_heads ?p') L" unfolding h using p m by (simp add: pool_ok_def rings_remove_head)
  moreover have "set (L a) \<subseteq> LINK ` pl_objs ?p'" if a: "a \<in> pool_heads ?p'" for a
  proof
    fix n assume n: "n \<in> set (L a)"
    have a': "a \<in> pool_heads p" using a by (simp add: h)
    with p n obtain c where c: "n = LINK c" "c \<in> pl_objs p" unfolding pool_ok_def by blast
    moreover have "c \<noteq> r" using r(1) a' n c(1) by (auto simp: unlisted_def all_nodes_def ring_nodes_def)
    ultimately show "n \<in> LINK ` pl_objs ?p'" by simp
  qed
  moreover have "allocator_ok ?p'" using p1(2) by (simp add: allocator_ok_def)
  ultimately have "pool_ok ?p' fs L" using p by (simp add: pool_ok_def)
  moreover have "charged p ?p' (- int sizeof_Reply)" using p1(3) by (simp add: charged_def)
  ultimately show ?thesis using p1(1) r(1) m by (intro exI [of _ ?p']) (simp add: T_list_free_def unlisted_def)
qed

lemma free_final_ok:
  "pool_ok p fs L \<Longrightarrow> \<exists>p'. pool_Reply_free_final p = Some (Inr p') \<and> pool_ok p' [] (L(FREE_LIST := [])) \<and>
    pl_objs p' = pl_objs p - set fs \<and> charged p p' (- (int sizeof_Reply * int (length fs)))"
proof (induction fs arbitrary: p L rule: rev_induct)
  case Nil
  have R: "rings (pl_links p) (pool_heads p) L" "L FREE_LIST = []" "FREE_LIST \<in> pool_heads p"
    using Nil by (simp_all add: pool_ok_def pool_heads_def)
  have e: "list_empty FREE_LIST (pl_links p)" using list_empty_rings [OF R(1,3)] R(2) by blast
  have "pool_Reply_free_final p = Some (Inr p)" by (subst pool_Reply_free_final.simps) (simp add: e)
  moreover have "L(FREE_LIST := []) = L" using R(2) by (rule fun_upd_idem)
  ultimately show ?case using Nil by (intro exI [of _ p]) (simp only: list.set list.size of_nat_0 int_ops(1) mult_zero_right minus_zero Diff_empty charged_refl simp_thms)
next
  case (snoc r fs)
  have ne: "\<not> list_empty FREE_LIST (pl_links p)"
    using snoc.prems list_empty_rings [of "pl_links p" "pool_heads p" L FREE_LIST] by (simp add: pool_ok_def pool_heads_def)
  from pop_free [OF snoc.prems] obtain lk where
    lk: "list_pop FREE_LIST (pl_links p) = Inr (LINK r, lk)" "pool_ok (p\<lparr>pl_links := lk\<rparr>) fs (L(FREE_LIST := map LINK fs))"
      "unlisted r (p\<lparr>pl_links := lk\<rparr>) (L(FREE_LIST := map LINK fs))" by blast
  have "(L(FREE_LIST := map LINK fs)) (CHILDREN r) = []" using snoc.prems by (simp add: pool_ok_def)
  from list_free_final [OF lk(2,3) this] obtain p1 where
    p1: "T_list_free sizeof_Reply r True (p\<lparr>pl_links := lk\<rparr>) = Inr p1" "pool_ok p1 fs (L(FREE_LIST := map LINK fs))"
      "pl_objs p1 = pl_objs (p\<lparr>pl_links := lk\<rparr>) - {r}" "charged (p\<lparr>pl_links := lk\<rparr>) p1 (- int sizeof_Reply)" by blast
  from snoc.IH [OF p1(2)] obtain p' where
    p': "pool_Reply_free_final p1 = Some (Inr p')" "pool_ok p' [] (L(FREE_LIST := map LINK fs, FREE_LIST := []))"
      "pl_objs p' = pl_objs p1 - set fs" "charged p1 p' (- (int sizeof_Reply * int (length fs)))" by blast
  have "charged p p1 (- int sizeof_Reply)" using p1(4) by (simp add: charged_def)
  from charged_trans [OF this p'(4)] have "charged p p' (- (int sizeof_Reply * int (length (fs @ [r]))))"
    by (simp add: algebra_simps)
  moreover have "pool_Reply_free_final p = Some (Inr p')"
    using ne lk(1) p1(1) p'(1) by (simp add: pool_Reply_free_final.simps [of p])
  moreover have "pl_objs p' = pl_objs p - set (fs @ [r])" using p'(3) p1(3) by auto
  ultimately show ?case using p'(2) unfolding fun_upd_upd by blast
qed

text \<open>Freeing a reply with children that have none: they go on the free list from the last to the first.\<close>

lemma free_leaf:
  assumes p: "pool_ok p fs L" and r: "unlisted r p L" "L (CHILDREN r) = []"
  shows "\<exists>lk. pool_Reply_free r p = Some (Inr (p\<lparr>pl_links := lk\<rparr>)) \<and>
    pool_ok (p\<lparr>pl_links := lk\<rparr>) (r # fs) (L(FREE_LIST := map LINK (r # fs)))"
proof -
  have "CHILDREN r \<in> pool_heads p" using r(1) by (simp add: unlisted_def pool_heads_def)
  then have "list_empty (CHILDREN r) (pl_links p)" using p r(2) list_empty_rings by (metis pool_ok_def)
  then show ?thesis using list_free_again [OF assms] by (auto simp: pool_Reply_free.simps [of r p])
qed

lemma free_parent:
  assumes "pool_ok p fs L" "unlisted r p L" "L (CHILDREN r) = map LINK cs" "\<forall>c \<in> set cs. L (CHILDREN c) = []"
  shows "\<exists>lk. pool_Reply_free r p = Some (Inr (p\<lparr>pl_links := lk\<rparr>)) \<and>
    pool_ok (p\<lparr>pl_links := lk\<rparr>) (r # cs @ fs) (L(CHILDREN r := [], FREE_LIST := map LINK (r # cs @ fs)))"
  using assms
proof (induction cs arbitrary: p fs L rule: rev_induct)
  case Nil
  then have "L(CHILDREN r := []) = L" by (simp add: fun_upd_idem)
  moreover have "L (CHILDREN r) = []" using Nil(3) by simp
  ultimately show ?case using free_leaf [OF Nil(1,2)] by (simp only: append_Nil)
next
  case (snoc c cs)
  have R: "rings (pl_links p) (pool_heads p) L" "L FREE_LIST = map LINK fs" "CHILDREN r \<in> pool_heads p" "FREE_LIST \<in> pool_heads p"
    "L (CHILDREN r) = map LINK cs @ [LINK c]"
    using snoc.prems by (simp_all add: pool_ok_def pool_heads_def unlisted_def)
  have ne: "\<not> list_empty (CHILDREN r) (pl_links p)" using list_empty_rings [OF R(1,3)] R(5) by simp
  from list_pop_rings [OF R(1,3,5)] obtain lk where
    lk: "list_pop (CHILDREN r) (pl_links p) = Inr (LINK c, lk)" "rings lk (pool_heads p) (L(CHILDREN r := map LINK cs))" by blast
  let ?L1 = "L(CHILDREN r := map LINK cs)" and ?p1 = "p\<lparr>pl_links := lk\<rparr>"
  have sub: "set (?L1 a) \<subseteq> set (L a)" for a using R(5) by auto
  have ins: "\<forall>a \<in> pool_heads p. set (L a) \<subseteq> LINK ` pl_objs p" using snoc.prems(1) by (simp add: pool_ok_def)
  with sub have "\<forall>a \<in> pool_heads p. set (?L1 a) \<subseteq> LINK ` pl_objs p" by blast
  moreover have rf: "r \<notin> set fs"
  proof
    assume "r \<in> set fs"
    then have "LINK r \<in> ring_nodes L FREE_LIST" by (simp add: ring_nodes_def R(2))
    with R(4) snoc.prems(2) show False by (auto simp: unlisted_def all_nodes_def)
  qed
  moreover have "\<forall>x \<in> set fs. ?L1 (CHILDREN x) = []" using snoc.prems(1) rf by (auto simp: pool_ok_def)
  ultimately have p1: "pool_ok ?p1 fs ?L1" using snoc.prems(1) lk(2) R(2) by (simp add: pool_ok_def allocator_ok_def)
  have "c \<in> pl_objs p" using ins R(3,5) by fastforce
  then have c: "unlisted c ?p1 ?L1" using removed_not_in [OF R(1,3), of "map LINK cs" "LINK c" "[]"] R(5) by (simp add: unlisted_def)
  have rn: "LINK r \<notin> all_nodes (pool_heads p) L" using snoc.prems(2) by (simp add: unlisted_def)
  then have "c \<noteq> r" using R(3,5) by (auto simp: all_nodes_def ring_nodes_def)
  then have c0: "?L1 (CHILDREN c) = []" using snoc.prems(4) by simp
  from free_leaf [OF p1 c c0] obtain lk2 where
    f: "pool_Reply_free c ?p1 = Some (Inr (?p1\<lparr>pl_links := lk2\<rparr>))"
      "pool_ok (?p1\<lparr>pl_links := lk2\<rparr>) (c # fs) (?L1(FREE_LIST := map LINK (c # fs)))" by blast
  let ?p2 = "p\<lparr>pl_links := lk2\<rparr>" and ?L2 = "?L1(FREE_LIST := map LINK (c # fs))"
  have p2: "pool_ok ?p2 (c # fs) ?L2" using f(2) by simp
  have "LINK r \<notin> all_nodes (pool_heads p) ?L2"
  proof
    assume "LINK r \<in> all_nodes (pool_heads p) ?L2"
    then obtain a where a: "a \<in> pool_heads p" "LINK r \<in> ring_nodes ?L2 a" by (auto simp: all_nodes_def)
    then have "LINK r \<in> ring_nodes L a" using \<open>c \<noteq> r\<close> rf R(5) by (auto simp: ring_nodes_def pool_heads_def split: if_splits)
    with a(1) rn show False by (auto simp: all_nodes_def)
  qed
  then have r2: "unlisted r ?p2 ?L2" using snoc.prems(2) by (simp add: unlisted_def)
  have l2: "?L2 (CHILDREN r) = map LINK cs" by simp
  have "\<forall>x \<in> set cs. ?L2 (CHILDREN x) = []" using snoc.prems(4) R(3,5) rn by (auto simp: all_nodes_def ring_nodes_def)
  from snoc.IH [OF p2 r2 l2 this] obtain lk3 where
    i: "pool_Reply_free r ?p2 = Some (Inr (?p2\<lparr>pl_links := lk3\<rparr>))"
      "pool_ok (?p2\<lparr>pl_links := lk3\<rparr>) (r # cs @ c # fs) (?L2(CHILDREN r := [], FREE_LIST := map LINK (r # cs @ c # fs)))" by blast
  have "pool_Reply_free r p = Some (Inr (p\<lparr>pl_links := lk3\<rparr>))"
    using ne lk(1) f(1) i(1) by (simp add: pool_Reply_free.simps [of r p])
  moreover have "?L2(CHILDREN r := [], FREE_LIST := map LINK (r # cs @ c # fs)) =
      L(CHILDREN r := [], FREE_LIST := map LINK (r # (cs @ [c]) @ fs))" by (auto simp: fun_eq_iff)
  moreover from i(2) have "pool_ok (p\<lparr>pl_links := lk3\<rparr>) (r # (cs @ [c]) @ fs) (?L2(CHILDREN r := [], FREE_LIST := map LINK (r # cs @ c # fs)))"
    by (simp del: fun_upd_apply)
  ultimately show ?case by metis
qed


section \<open>Properties\<close>

text \<open>
  C29: the free list of the single threaded build is a queue that loses nothing.  With \<open>fs\<close> on the free list, creating a
  reply takes the last one of \<open>fs\<close> and calls the allocator only if there is none, and never returns a reply in
  use; freeing a reply puts its children and then the reply itself in front, so that, unlike in the multithreaded
  build, no child leaks; and \<open>Reply_free_final\<close> gives back exactly the memory of the replies on the list.
\<close>

theorem Reply_free_list_recycles:
  assumes "pool_ok p fs L"
  shows "(\<forall>a. a \<notin> pl_objs p \<longrightarrow>
      (\<exists>r p'. pool_Reply_new a p = Inr (r, p') \<and> r \<notin> pl_objs p - set fs \<and>
        (if fs = [] then r = a \<and> pl_objs p' = insert a (pl_objs p) \<and> charged p p' (int sizeof_Reply) \<and> pool_ok p' [] (L(CHILDREN a := []))
         else r = last fs \<and> pl_objs p' = pl_objs p \<and> allocated p' = allocated p \<and>
           pool_ok p' (butlast fs) (L(FREE_LIST := map LINK (butlast fs)))))) \<and>
    (\<forall>r cs. unlisted r p L \<and> L (CHILDREN r) = map LINK cs \<and> (\<forall>c \<in> set cs. L (CHILDREN c) = []) \<longrightarrow>
      (\<exists>p'. pool_Reply_free r p = Some (Inr p') \<and> pl_objs p' = pl_objs p \<and> allocated p' = allocated p \<and>
        pool_ok p' (r # cs @ fs) (L(CHILDREN r := [], FREE_LIST := map LINK (r # cs @ fs))))) \<and>
    (\<exists>p'. pool_Reply_free_final p = Some (Inr p') \<and> pl_objs p' = pl_objs p - set fs \<and>
      charged p p' (- (int sizeof_Reply * int (length fs))) \<and> pool_ok p' [] (L(FREE_LIST := [])))"
proof -
  have new: "\<exists>r p'. pool_Reply_new a p = Inr (r, p') \<and> r \<notin> pl_objs p - set fs \<and>
      (if fs = [] then r = a \<and> pl_objs p' = insert a (pl_objs p) \<and> charged p p' (int sizeof_Reply) \<and> pool_ok p' [] (L(CHILDREN a := []))
       else r = last fs \<and> pl_objs p' = pl_objs p \<and> allocated p' = allocated p \<and>
         pool_ok p' (butlast fs) (L(FREE_LIST := map LINK (butlast fs))))" if a: "a \<notin> pl_objs p" for a
  proof (cases fs rule: rev_cases)
    case Nil
    from new_fresh [OF assms [unfolded Nil] a] obtain p' where
      "pool_Reply_new a p = Inr (a, p')" "pool_ok p' [] (L(CHILDREN a := []))" "pl_objs p' = insert a (pl_objs p)"
      "charged p p' (int sizeof_Reply)" by blast
    with a Nil show ?thesis by (intro exI [of _ a] exI [of _ p']) (simp del: fun_upd_apply)
  next
    case (snoc fs' r)
    from new_again [OF assms [unfolded snoc], of a] obtain lk where
      "pool_Reply_new a p = Inr (r, p\<lparr>pl_links := lk\<rparr>)" "pool_ok (p\<lparr>pl_links := lk\<rparr>) fs' (L(FREE_LIST := map LINK fs'))" by blast
    with snoc show ?thesis by (intro exI [of _ r] exI [of _ "p\<lparr>pl_links := lk\<rparr>"]) (simp del: fun_upd_apply)
  qed
  have free: "\<exists>p'. pool_Reply_free r p = Some (Inr p') \<and> pl_objs p' = pl_objs p \<and> allocated p' = allocated p \<and>
      pool_ok p' (r # cs @ fs) (L(CHILDREN r := [], FREE_LIST := map LINK (r # cs @ fs)))"
    if "unlisted r p L \<and> L (CHILDREN r) = map LINK cs \<and> (\<forall>c \<in> set cs. L (CHILDREN c) = [])" for r cs
  proof -
    from free_parent [OF assms, of r cs] that obtain lk where
      "pool_Reply_free r p = Some (Inr (p\<lparr>pl_links := lk\<rparr>))"
      "pool_ok (p\<lparr>pl_links := lk\<rparr>) (r # cs @ fs) (L(CHILDREN r := [], FREE_LIST := map LINK (r # cs @ fs)))" by blast
    then show ?thesis by (intro exI [of _ "p\<lparr>pl_links := lk\<rparr>"]) (simp del: fun_upd_apply)
  qed
  show ?thesis using new free free_final_ok [OF assms] by blast
qed

text \<open>A pool with one reply, which is on the free list.\<close>

lemma demo_pool: "\<exists>p L. pool_ok p [3] L \<and> pl_objs p = {3}"
proof -
  let ?h = "\<lparr>lh_next = (\<lambda>_. None), lh_prev = (\<lambda>_. None)\<rparr> :: fnode lheap"
  let ?p = "module.extend demo_module (pool.fields (init_list_head FREE_LIST ?h) {})"
  have "rings (pl_links ?p) (pool_heads ?p) ((\<lambda>_. [])(FREE_LIST := []))"
    using rings_add_head [of ?h "{}" "\<lambda>_. []" FREE_LIST] by (simp add: rings_def pool_heads_def all_nodes_def module.defs pool.defs)
  moreover have "allocator_ok ?p" using demo_allocator_ok by (simp add: allocator_ok_def module.defs)
  ultimately have p: "pool_ok ?p [] ((\<lambda>_. [])(FREE_LIST := []))" by (simp add: pool_ok_def pool_heads_def module.defs pool.defs)
  have "3 \<notin> pl_objs ?p" by (simp add: module.defs pool.defs)
  from new_fresh [OF p this] obtain p1 where
    p1: "pool_ok p1 [] ((\<lambda>_. [])(FREE_LIST := [], CHILDREN 3 := []))" "pl_objs p1 = {3}" by (auto simp: module.defs pool.defs)
  have "unlisted 3 p1 ((\<lambda>_. [])(FREE_LIST := [], CHILDREN 3 := []))"
    by (auto simp: unlisted_def p1(2) all_nodes_def ring_nodes_def pool_heads_def)
  from free_leaf [OF p1(1) this] obtain lk where
    "pool_ok (p1\<lparr>pl_links := lk\<rparr>) [3] ((\<lambda>_. [])(FREE_LIST := [], CHILDREN 3 := [], FREE_LIST := map LINK [3]))" by auto
  then show ?thesis using p1(2) by (intro exI [of _ "p1\<lparr>pl_links := lk\<rparr>"]) auto
qed

theorem Reply_free_list_recycles_witness:
  "\<exists>p p1 p2. pl_objs p = {3} \<and> pool_Reply_new 4 p = Inr (3, p1) \<and> allocated p1 = allocated p \<and>
     pool_Reply_free_final p = Some (Inr p2) \<and> pl_objs p2 = {}"
proof -
  from demo_pool obtain p L where p: "pool_ok p [3] L" "pl_objs p = {3}" by blast
  then have a: "4 \<notin> pl_objs p" by simp
  note r = Reply_free_list_recycles [OF p(1)]
  from conjunct1 [OF r, rule_format, OF a] obtain x p1 where
    "pool_Reply_new 4 p = Inr (x, p1)" "x = 3" "allocated p1 = allocated p" by auto
  moreover from conjunct2 [OF conjunct2 [OF r]] p(2) obtain p2 where
    "pool_Reply_free_final p = Some (Inr p2)" "pl_objs p2 = {}" by auto
  ultimately show ?thesis using p(2) by blast
qed

end
