(* ===== verification/Spec2Isabelle.thy ===== *)
theory Spec2Isabelle
  imports Php_Props Parser_Pure Free_List
begin

text \<open>
  \<^bold>\<open>The program.\<close>  libredis is a client library for Redis in C.  A client fills a \<open>Batch\<close>
  with the text of commands, adds it with a \<open>Connection\<close> to an \<open>Executor\<close>, and calls
  \<open>Executor_execute\<close>, which sends all batches over their connections and receives the replies in one
  loop around \<open>poll\<close>; then it iterates over the replies with \<open>Batch_next_reply\<close>.  \<open>Ketama\<close> chooses the server
  of a key by consistent hashing.  The code is modelled as it is built by default: multithreaded (but see \<open>Free_List\<close>),
  without debug output, with 32 bit \<open>int\<close> and 64 bit \<open>size_t\<close>; an assert that fails is a fault.

  \<^bold>\<open>Theories and sources.\<close>  Each theory has the definitions first, in the order of the code and
  with its names, then the invariant, the lemmas about each operation, and the properties.
    \<^item> \<open>Prelude\<close>: outcomes of C code as \<^typ>\<open>'a res\<close> (\<open>Inl\<close> a fault: failed assert, undefined behaviour,
      a loop that never ends), the sequencing \<open>bindE\<close>, loops \<open>foldE\<close>, wrap-around of \<open>int\<close> and \<open>size_t\<close>, \<open>memcpy\<close>.
      \<open>C_Text\<close>: \<open>isdigit\<close>, \<open>atoi\<close>, \<open>snprintf\<close>.  \<open>C_Float\<close>: exact rational operations followed by IEEE rounding.
    \<^item> \<open>Linked_List\<close> (\<open>list.h\<close>): intrusive circular lists on a heap of links; families of disjoint lists; the
      locale \<open>list_family\<close> gives the clients a view of the heap as a function from heads to lists of nodes.
    \<^item> \<open>Module_Alloc\<close> (\<open>module.c\<close>, \<open>alloc.h\<close>): the module object, its allocator hooks and the count of allocated bytes.
    \<^item> \<open>Buffer\<close> (\<open>buffer.c\<close>): a growable buffer with an inline first block; \<open>contents\<close> and \<open>unsent\<close> are its two readings.
      \<open>Free_List\<close>: the free lists of the single threaded build, for replies.
    \<^item> \<open>Reply\<close> (reply part of \<open>batch.c\<close>): reply objects on a heap, with the lists of their children.
    \<^item> \<open>Reply_Parser\<close> (\<open>parser.c\<close>): the state machine, one definition per group of states, and its invariant.
      \<open>Reply_Grammar\<close>: the protocol as values with their encoding, the specification of the parser.
      \<open>Parser_Stream\<close>: the parser as a consumer of a stream that arrives in pieces.
      \<open>Parser_Pure\<close>: the parser as a function of the bytes, which its run on the heap refines.
    \<^item> \<open>Batch\<close> (\<open>batch.c\<close>): commands, outstanding commands, the reply queue and the iterator over it.
    \<^item> \<open>Connection\<close> (\<open>connection.c\<close>): connections, the executor and the calls of the kernel, as functions on a
      \<open>world\<close> (heap, connections, batches, executor, descriptors).  \<open>Connection_Inv\<close>, \<open>Connection_Run\<close>: the invariant of a
      pair of a batch and a connection, that every operation keeps it, and that it leaves other pairs alone.
      \<open>Connection_Props\<close>: the abstract session of a connection, and the properties of connections.
      \<open>Executor_Safe\<close>, \<open>Executor_Run\<close>, \<open>Executor\<close>: the invariant of all pairs, one turn of the loop, the whole loop
      with its time limit; \<open>Executor_Props\<close>: the properties of the executor.
    \<^item> \<open>Md5\<close> (\<open>md5.c\<close>): the streaming digest, against the algorithm of RFC 1321 written independently.
    \<^item> \<open>Ketama\<close> (\<open>ketama.c\<close>): building the circle of points, and looking up a key.
    \<^item> \<open>Php_Extension\<close> (\<open>php/ext/libredis/libredis.c\<close>): the methods a PHP script can call and the hooks of the PHP engine,
      as functions on the state of the process; a method returns, faults, or ends the script with a fatal error.
      \<open>Php_Run\<close>: one command executed for a script, what the script gets for the reply, and executors whose batches
      were not executed before.  \<open>Php_Process\<close>: the invariant that
      ties the handles of PHP objects and the hash tables of the extension to the objects of the library, the end of a
      request and the destructors.  \<open>Php_Script\<close>: the step relation \<open>script_step\<close> of the calls of a script, the states \<open>process\<close> that a
      process reaches from \<open>PHP_MINIT\<close>, and that the invariant holds in all of them.  \<open>Php_Props\<close>: the properties.

  \<^bold>\<open>What is shown.\<close>  The parser reads back what the protocol encodes, does so piece by piece, is a function of the
  bytes, and never faults on any input.  \<open>Executor_execute\<close> always returns once the clock passes its time limit, whatever the servers do, never faults, and delivers to each
  batch the replies of its server in order, then one error reply for each command that was not answered.  Serving
  an event refines a run of an abstract session.  The iterator yields every reply once; buffers and lists refine
  sequences; the digest is MD5; a key belongs to the next point on the circle.  \<open>Connection::get\<close> and \<open>Connection::set\<close> answer what
  the server replied to exactly one command, and in no state that a PHP process reaches by \<open>script_step\<close> is a handle
  dangling.

  \<^bold>\<open>How the parts meet.\<close>  A reply does not own bytes; it points with an offset and a length into the
  read buffer or the error buffer of its batch, so that a reply of the model is a
  \<open>bufref\<close> with an offset and a length, and growing the buffer does not touch it.
  The parser and the batch share the reply heap; the parser of a connection keeps a pending multibulk there,
  which is why the invariant of the executor is over all pairs and each operation proves a frame: what it
  leaves alone for any other pair.  The executor's poll entries are in its array by the index of the pair.

  \<^bold>\<open>What is assumed.\<close>  Code outside the sources is a parameter.  The kernel is the record \<open>kernel\<close>, whose
  answers depend on the number of the call; \<open>kernel_ok\<close> states the documented behaviour (a count written is at most
  the count asked for and not zero, a read returns at most what was asked for, \<open>poll\<close> reports among \<open>POLLIN\<close> and \<open>POLLOUT\<close> only what
  was asked for) and bounds what all servers together send by 1 GiB, below which the \<open>int\<close>s that count
  bytes and positions of the read path do not overflow.  The field \<open>bulk_count\<close> of the parser is an exception: it is read from the
  input, can turn negative, and its signed arithmetic is modelled as compilers do it, with wrap-around; \<open>isdigit\<close> of a negative
  \<open>char\<close> is modelled as no digit.  \<open>clock_ok\<close> and \<open>time_passes\<close> say that the clock does not run backwards and passes the time
  limit after finitely many calls; nothing is assumed about how many, and nothing is shown about the time a call takes.  \<open>allocator_ok\<close> says that \<open>malloc\<close> and \<open>realloc\<close>
  succeed with blocks of the size asked for, and \<open>qsort\<close> permutes and sorts.  The PHP engine is the record \<open>zend\<close>: its hash
  tables, and whether a fatal error ends the script; \<open>zend_ok\<close> says that the tables are finite maps and that it does.  New
  objects get unused addresses: an address is the name of a block, and the temporary batch of \<open>get\<close> and \<open>set\<close> is not given one into which a
  reply that leaked still points (\<open>free_address\<close>), nor is a batch executed at such an address (\<open>waiting\<close>).  If an address is refused, the block of the new connection is taken to be cleared
  (\<open>clean_block\<close>), since the code frees what it never set there; an accepted address needs nothing of the block.  Witnesses instantiate all of them.

  \<^bold>\<open>Loops.\<close>  There is no fuel: the loops are recursive functions with a termination proof, or, where the code may
  run forever (growing a buffer, receiving, the executor's loop), \<open>partial_function (option)\<close> with \<open>None\<close> turned into a fault,
  so that the theorems that there is no fault say in particular that the loops end.

  \<^bold>\<open>Not modelled.\<close>  \<open>redis.h\<close> apart from the reply types: it declares what the other files define.  Functions that
  only print: \<open>Buffer_dump\<close>, \<open>Reply_dump\<close>, \<open>Ketama_print_continuum\<close>, debug output.  Of the single
  threaded build the free list of batches, which keeps their buffers.  The emulation of \<open>clock_gettime\<close> for Mac OS.  Of the PHP extension the registration of classes
  and methods with the engine, \<open>PHP_MINFO\<close> and log messages.  The relation \<open>script_step\<close> has every method that changes state, but leaves
  out to execute a batch that was executed before, was freed or has no command, and to execute an executor that was executed before or
  has a batch or a connection twice: an executor keeps the addresses of batches that a script may have freed, and a batch keeps what it read.
  The Python binding \<open>redis.py\<close> and the test programs, which call the library.
\<close>

end
